(* ===== verification/Prelude.thy ===== *)
theory Prelude
  imports Main "HOL-Library.Word"
begin

text \<open>
  Shared vocabulary of the development: the machine types of \<^verbatim>\<open>kernel/types.h\<close>, the result
  type of kernel code that may panic, linked chains of pointers, byte-addressed memory with
  64-bit little-endian loads and stores, and the lemma collections the component theories use.

  \<^item> \<open>kdefs\<close> collects the definitions that a component proof unfolds;
  \<^item> \<open>res_simps\<close> collects the equations of the result type;
  \<^item> \<open>wordarith\<close> collects facts that move word arithmetic to natural numbers.
\<close>

unbundle bit_operations_syntax

named_theorems kdefs
named_theorems res_simps
named_theorems wordarith

section \<open>Machine types (kernel/types.h)\<close>

type_synonym u8 = "8 word"
type_synonym u16 = "16 word"
type_synonym u32 = "32 word"
type_synonym u64 = "64 word"

text \<open>A wait channel is an address; a memory maps every 64-bit address to a byte.\<close>

type_synonym chan = u64
type_synonym memory = "u64 \<Rightarrow> u8"

text \<open>Characters of C strings, and string literals without their terminating zero.\<close>

definition asc :: "char \<Rightarrow> u8" where "asc c = of_char c"

definition str :: "string \<Rightarrow> u8 list" where "str cs = map asc cs"

section \<open>Results of kernel code\<close>

text \<open>
  \<open>Ok\<close> is a normal return, \<open>Panic\<close> a call of \<^verbatim>\<open>panic\<close> with its message, \<open>Sleeps\<close> a call of
  \<^verbatim>\<open>sleep\<close> on the given channel that the sequential model cannot step over, because only another
  process can make the awaited condition true, and \<open>Loops\<close> a loop that runs forever (the value
  \<open>None\<close> of a loop defined as a partial function).
\<close>

datatype 'a res = Ok 'a | Panic string | Sleeps chan | Loops

definition res_bind :: "'a res \<Rightarrow> ('a \<Rightarrow> 'b res) \<Rightarrow> 'b res" where
  "res_bind r f = (case r of Ok x \<Rightarrow> f x | Panic m \<Rightarrow> Panic m | Sleeps c \<Rightarrow> Sleeps c
     | Loops \<Rightarrow> Loops)"

definition res_of :: "'a option \<Rightarrow> 'a res" where
  "res_of r = (case r of None \<Rightarrow> Loops | Some x \<Rightarrow> Ok x)"

lemma res_of_simps [simp, res_simps]: "res_of None = Loops" "res_of (Some x) = Ok x"
  by (simp_all add: res_of_def)

definition res_join :: "'a res option \<Rightarrow> 'a res" where
  "res_join r = (case r of None \<Rightarrow> Loops | Some x \<Rightarrow> x)"

lemma res_join_simps [simp, res_simps]: "res_join None = Loops" "res_join (Some x) = x"
  by (simp_all add: res_join_def)

lemma res_bind_simps [simp, res_simps]:
  "res_bind (Ok x) f = f x"
  "res_bind (Panic m) f = Panic m"
  "res_bind (Sleeps c) f = Sleeps c"
  "res_bind Loops f = Loops"
  by (simp_all add: res_bind_def)

lemma res_bind_Ok_iff [res_simps]:
  "res_bind r f = Ok y \<longleftrightarrow> (\<exists>x. r = Ok x \<and> f x = Ok y)"
  by (cases r) auto

lemma res_bind_assoc: "res_bind (res_bind r f) g = res_bind r (\<lambda>x. res_bind (f x) g)"
  by (cases r) auto

lemma res_bind_cong [fundef_cong]:
  "r = r' \<Longrightarrow> (\<And>x. r' = Ok x \<Longrightarrow> f x = g x) \<Longrightarrow> res_bind r f = res_bind r' g"
  by (cases r') auto

section \<open>Chains of pointers\<close>

text \<open>
  \<open>chain nxt p xs\<close>: following \<open>nxt\<close> from the pointer \<open>p\<close> visits exactly the cells \<open>xs\<close>, in this
  order, and ends at the null pointer.
\<close>

fun chain :: "('a \<Rightarrow> 'a option) \<Rightarrow> 'a option \<Rightarrow> 'a list \<Rightarrow> bool" where
  "chain nxt p [] \<longleftrightarrow> p = None"
| "chain nxt p (x # xs) \<longleftrightarrow> p = Some x \<and> chain nxt (nxt x) xs"

lemma chain_None [simp]: "chain nxt None xs \<longleftrightarrow> xs = []"
  by (cases xs) auto

lemma chain_Some: "chain nxt (Some x) xs \<longleftrightarrow> (\<exists>ys. xs = x # ys \<and> chain nxt (nxt x) ys)"
  by (cases xs) auto

lemma chain_unique: "chain nxt p xs \<Longrightarrow> chain nxt p ys \<Longrightarrow> xs = ys"
  by (induction xs arbitrary: p ys) (auto simp: chain_Some)

lemma chain_cong: "(\<And>x. x \<in> set xs \<Longrightarrow> f x = g x) \<Longrightarrow> chain f p xs \<longleftrightarrow> chain g p xs"
  by (induction xs arbitrary: p) auto

lemma chain_fun_upd [simp]: "x \<notin> set xs \<Longrightarrow> chain (f(x := v)) p xs \<longleftrightarrow> chain f p xs"
  by (rule chain_cong) auto

lemma chain_suffix: "chain nxt p (as @ x # bs) \<Longrightarrow> chain nxt (Some x) (x # bs)"
  by (induction as arbitrary: p) auto

lemma chain_suffix_next: "chain nxt p (as @ x # bs) \<Longrightarrow> chain nxt (nxt x) bs"
  by (induction as arbitrary: p) auto

lemma chain_distinct: "chain nxt p xs \<Longrightarrow> distinct xs"
proof (induction xs arbitrary: p)
  case Nil
  then show ?case by simp
next
  case (Cons x xs)
  have "x \<notin> set xs"
  proof
    assume "x \<in> set xs"
    then obtain as bs where xs: "xs = as @ x # bs" by (auto simp: in_set_conv_decomp)
    with Cons.prems have "chain nxt (nxt x) xs" "chain nxt (nxt x) bs"
      by (auto dest: chain_suffix_next)
    then have "xs = bs" by (rule chain_unique)
    with xs show False by simp
  qed
  with Cons show ?case by auto
qed

text \<open>The head pointer of a chain, and the link of a cell inside it.\<close>

definition hd_opt :: "'a list \<Rightarrow> 'a option" where
  "hd_opt xs = (case xs of [] \<Rightarrow> None | x # _ \<Rightarrow> Some x)"

lemma hd_opt_simps [simp]: "hd_opt [] = None" "hd_opt (x # xs) = Some x"
  by (simp_all add: hd_opt_def)

lemma chain_head: "chain nxt p xs \<Longrightarrow> p = hd_opt xs"
  by (cases xs) auto

lemma chain_next: "chain nxt p (as @ x # bs) \<Longrightarrow> nxt x = hd_opt bs"
  by (drule chain_suffix_next) (rule chain_head)

text \<open>Unlinking the cell after \<open>y\<close> removes it from the chain.\<close>

lemma chain_unlink:
  assumes "chain nxt p (as @ y # x # bs)"
  shows "chain (nxt(y := nxt x)) p (as @ y # bs)"
proof -
  have "distinct (as @ y # x # bs)" using assms by (rule chain_distinct)
  then show ?thesis using assms
    by (induction as arbitrary: p) auto
qed

section \<open>Byte-addressed memory\<close>

text \<open>
  An \<open>n\<close>-byte load or store touches the bytes \<open>a, \<dots>, a + n - 1\<close>, least significant byte
  first, as RISC-V does.
\<close>

fun load_le :: "memory \<Rightarrow> u64 \<Rightarrow> nat \<Rightarrow> u64" where
  "load_le m a 0 = 0"
| "load_le m a (Suc n) = ucast (m a) OR push_bit 8 (load_le m (a + 1) n)"

fun store_le :: "memory \<Rightarrow> u64 \<Rightarrow> nat \<Rightarrow> u64 \<Rightarrow> memory" where
  "store_le m a 0 v = m"
| "store_le m a (Suc n) v = (store_le m (a + 1) n (drop_bit 8 v))(a := ucast v)"

abbreviation load64 :: "memory \<Rightarrow> u64 \<Rightarrow> u64" where
  "load64 m a \<equiv> load_le m a 8"

abbreviation store64 :: "memory \<Rightarrow> u64 \<Rightarrow> u64 \<Rightarrow> memory" where
  "store64 m a v \<equiv> store_le m a 8 v"

text \<open>The addresses of a block of \<open>n\<close> bytes at \<open>a\<close> (they may wrap around).\<close>

definition region :: "u64 \<Rightarrow> nat \<Rightarrow> u64 set" where
  "region a n = (\<lambda>i. a + of_nat i) ` {..<n}"

lemma region_0 [simp]: "region a 0 = {}"
  by (simp add: region_def)

lemma region_Suc: "region a (Suc n) = insert a (region (a + 1) n)"
  by (simp add: region_def lessThan_Suc_eq_insert_0 image_image add.assoc)

lemma region_not_self:
  assumes "n < 2 ^ 64" shows "a \<notin> region (a + 1) n"
proof
  assume "a \<in> region (a + 1) n"
  then obtain i where i: "i < n" "a = a + 1 + of_nat i" by (auto simp: region_def)
  then have "1 + of_nat i = (0 :: u64)" by (simp add: algebra_simps)
  then have "of_nat (Suc i) = (0 :: u64)" by simp
  then have "(2::nat) ^ 64 dvd Suc i" by (subst (asm) word_of_nat_eq_0_iff) simp
  with i(1) assms show False using nat_dvd_not_less [of "Suc i" "2 ^ 64"] by linarith
qed

lemma store_le_other: "b \<notin> region a n \<Longrightarrow> store_le m a n v b = m b"
  by (induction m a n v rule: store_le.induct) (auto simp: region_Suc)

lemma load_le_cong: "(\<And>b. b \<in> region a n \<Longrightarrow> m b = m' b) \<Longrightarrow> load_le m a n = load_le m' a n"
  by (induction m a n rule: load_le.induct) (auto simp: region_Suc)

lemma load_le_store_le_disjoint:
  "region a k \<inter> region b n = {} \<Longrightarrow> load_le (store_le m a k v) b n = load_le m b n"
  by (rule load_le_cong, rule store_le_other) blast

lemma take_bit_byte_split:
  fixes v :: u64
  shows "ucast (ucast v :: u8) OR push_bit 8 (take_bit (8 * n) (drop_bit 8 v)) = take_bit (8 * Suc n) v"
  by (rule bit_word_eqI) (auto simp: bit_simps)

lemma load_le_store_le_same:
  "n < 2 ^ 64 \<Longrightarrow> load_le (store_le m a n v) a n = take_bit (8 * n) v"
proof (induction m a n v rule: store_le.induct)
  case (2 m a n v)
  let ?m = "store_le m (a + 1) n (drop_bit 8 v)"
  have "load_le (?m(a := ucast v)) (a + 1) n = load_le ?m (a + 1) n"
    using region_not_self [of n a] "2.prems" by (intro load_le_cong) auto
  also have "\<dots> = take_bit (8 * n) (drop_bit 8 v)" using 2 by simp
  finally show ?case
    by (simp only: load_le.simps store_le.simps fun_upd_same take_bit_byte_split)
qed simp

lemma load64_store64_same [simp]: "load64 (store64 m a v) a = v"
  by (subst load_le_store_le_same) (simp_all add: take_bit_word_eq_self)

text \<open>Two different 8-byte aligned addresses cover different bytes.\<close>

definition aligned :: "nat \<Rightarrow> u64 \<Rightarrow> bool" where
  "aligned n a \<longleftrightarrow> unat a mod n = 0"

lemma unat_add_mod_dvd:
  fixes a b :: u64
  assumes "n dvd 2 ^ 64"
  shows "unat (a + b) mod n = (unat a + unat b) mod n"
  using assms by (simp add: unat_word_ariths mod_mod_cancel)

lemma aligned_offset_mod:
  assumes "aligned n a" "i < n" "n dvd 2 ^ 64"
  shows "unat (a + of_nat i) mod n = i"
proof -
  have "n \<le> 2 ^ 64" using assms(3) by (rule dvd_imp_le) simp
  then have "unat (of_nat i :: u64) = i" using assms(2) by (simp add: unat_of_nat)
  then have "unat (a + of_nat i) mod n = (unat a + i) mod n"
    using unat_add_mod_dvd [of n a "of_nat i"] assms(3) by simp
  also have "\<dots> = (unat a mod n + i) mod n" by (simp add: mod_simps)
  finally show ?thesis using assms by (simp add: aligned_def)
qed

lemma region_aligned_disjoint:
  assumes "aligned n a" "aligned n b" "a \<noteq> b" "n dvd 2 ^ 64"
  shows "region a n \<inter> region b n = {}"
proof (rule ccontr)
  assume "region a n \<inter> region b n \<noteq> {}"
  then obtain i j where ij: "i < n" "j < n" "a + of_nat i = b + of_nat j"
    by (auto simp: region_def)
  with assms have "i = j" by (metis aligned_offset_mod)
  with ij(3) assms(3) show False by simp
qed

lemma load64_store64_aligned:
  "aligned 8 a \<Longrightarrow> aligned 8 b \<Longrightarrow>
   load64 (store64 m a v) b = (if a = b then v else load64 m b)"
  by (auto simp: load_le_store_le_disjoint region_aligned_disjoint)

end
