(* ===== verification/Machine.thy ===== *)
theory Machine
  imports Prelude
begin

text \<open>
  The constants of \<^verbatim>\<open>kernel/param.h\<close>, \<^verbatim>\<open>kernel/memlayout.h\<close> and the paging part of
  \<^verbatim>\<open>kernel/riscv.h\<close>, and the structures of \<^verbatim>\<open>kernel/proc.h\<close>, \<^verbatim>\<open>kernel/waitqueue.h\<close> and
  \<^verbatim>\<open>kernel/spinlock.h\<close>, gathered in the global state \<open>kstate\<close> of the kernel. An element of
  \<^verbatim>\<open>proc[]\<close> or \<^verbatim>\<open>cpus[]\<close> is named by its index; a null pointer to one is \<open>None\<close>.
\<close>

section \<open>Parameters (kernel/param.h)\<close>

definition NPROC :: nat where "NPROC = 64"
definition NCPU :: nat where "NCPU = 8"
definition NOFILE :: nat where "NOFILE = 16"
definition NFILE :: nat where "NFILE = 100"
definition NINODE :: nat where "NINODE = 50"
definition NDEV :: nat where "NDEV = 10"
definition MAXARG :: nat where "MAXARG = 32"
definition MAXOPBLOCKS :: nat where "MAXOPBLOCKS = 10"
definition LOGBLOCKS :: nat where "LOGBLOCKS = MAXOPBLOCKS * 3"
definition NBUF :: nat where "NBUF = MAXOPBLOCKS * 3"

section \<open>Pages and page-table entries (kernel/riscv.h)\<close>

definition PGSIZE :: u64 where "PGSIZE = 4096"

definition PGROUNDUP :: "u64 \<Rightarrow> u64" where
  "PGROUNDUP sz = (sz + PGSIZE - 1) AND NOT (PGSIZE - 1)"

definition PGROUNDDOWN :: "u64 \<Rightarrow> u64" where
  "PGROUNDDOWN a = a AND NOT (PGSIZE - 1)"

definition PTE_V :: u64 where "PTE_V = 1"
definition PTE_R :: u64 where "PTE_R = 2"
definition PTE_W :: u64 where "PTE_W = 4"
definition PTE_X :: u64 where "PTE_X = 8"
definition PTE_U :: u64 where "PTE_U = 16"

definition PA2PTE :: "u64 \<Rightarrow> u64" where
  "PA2PTE pa = push_bit 10 (drop_bit 12 pa)"

definition PTE2PA :: "u64 \<Rightarrow> u64" where
  "PTE2PA pte = push_bit 12 (drop_bit 10 pte)"

definition PTE_FLAGS :: "u64 \<Rightarrow> u64" where
  "PTE_FLAGS pte = pte AND 0x3FF"

definition PX :: "nat \<Rightarrow> u64 \<Rightarrow> u64" where
  "PX level va = drop_bit (12 + 9 * level) va AND 0x1FF"

definition MAXVA :: u64 where "MAXVA = push_bit (9 + 9 + 9 + 12 - 1) 1"

section \<open>Memory layout (kernel/memlayout.h)\<close>

definition KERNBASE :: u64 where "KERNBASE = 0x80000000"
definition PHYSTOP :: u64 where "PHYSTOP = KERNBASE + 128 * 1024 * 1024"
definition TRAMPOLINE :: u64 where "TRAMPOLINE = MAXVA - PGSIZE"
definition TRAPFRAME :: u64 where "TRAPFRAME = TRAMPOLINE - PGSIZE"

definition KSTACK :: "nat \<Rightarrow> u64" where
  "KSTACK p = TRAMPOLINE - (of_nat p + 1) * 2 * PGSIZE"

section \<open>Spin locks, CPUs, wait-queue entries and processes\<close>

text \<open>\<^verbatim>\<open>struct spinlock\<close>: \<open>lk_cpu\<close> is the index of the CPU recorded by \<^verbatim>\<open>acquire\<close>.\<close>

record spinlock =
  lk_locked :: u32
  lk_name :: string
  lk_cpu :: "nat option"

text \<open>\<^verbatim>\<open>struct context\<close>: \<open>ctx_s\<close> holds the callee-saved registers s0 to s11.\<close>

record kcontext =
  ctx_ra :: u64
  ctx_sp :: u64
  ctx_s :: "u64 list"

text \<open>\<^verbatim>\<open>struct cpu\<close>, and the SIE bit of the hart's \<^verbatim>\<open>sstatus\<close> register (interrupts enabled).\<close>

record cpu =
  c_proc :: "nat option"
  c_context :: kcontext
  c_noff :: int
  c_intena :: bool
  c_sie :: bool

datatype procstate = UNUSED | USED | SLEEPING | RUNNABLE | RUNNING | ZOMBIE

text \<open>
  \<^verbatim>\<open>struct wq_entry\<close>. The entry is embedded in its process, so a pointer to the entry of
  process \<open>i\<close> is \<open>Some i\<close>; \<open>e_proc\<close> is the back pointer \<^verbatim>\<open>proc\<close>.
\<close>

record wq_entry =
  e_proc :: nat
  e_chan :: chan
  e_next :: "nat option"
  e_queued :: u32

record proc =
  p_state :: procstate
  p_chan :: chan
  p_killed :: u32
  p_xstate :: u32
  p_pid :: u32
  p_parent :: "nat option"
  p_kstack :: u64
  p_sz :: u64
  p_pagetable :: u64
  p_trapframe :: u64
  p_context :: kcontext
  p_ofile :: "nat option list"
  p_cwd :: "nat option"
  p_wq_entry :: wq_entry
  p_name :: "u8 list"

text \<open>
  The kernel's global variables: physical memory, \<^verbatim>\<open>kmem.freelist\<close>, \<^verbatim>\<open>proc[]\<close>, \<^verbatim>\<open>cpus[]\<close>, the
  heads of \<^verbatim>\<open>wt.buckets[]\<close>, \<^verbatim>\<open>nextpid\<close>, \<^verbatim>\<open>initproc\<close> and \<^verbatim>\<open>ticks\<close>, and the value the
  linker gives to the symbol \<^verbatim>\<open>end\<close>, the first address after the kernel. Later theories extend the
  record with the state of their component.
\<close>

record kstate =
  mem :: memory
  freelist :: u64
  procs :: "nat \<Rightarrow> proc"
  cpus :: "nat \<Rightarrow> cpu"
  buckets :: "nat \<Rightarrow> nat option"
  nextpid :: u32
  initproc :: "nat option"
  ticks :: u32
  kend :: u64

definition upd_proc :: "nat \<Rightarrow> (proc \<Rightarrow> proc) \<Rightarrow> 'a kstate_scheme \<Rightarrow> 'a kstate_scheme" where
  "upd_proc i f s = s\<lparr>procs := (procs s)(i := f (procs s i))\<rparr>"

lemma upd_proc_simps [simp]:
  "procs (upd_proc i f s) j = (if j = i then f (procs s i) else procs s j)"
  "mem (upd_proc i f s) = mem s"
  "freelist (upd_proc i f s) = freelist s"
  "cpus (upd_proc i f s) = cpus s"
  "buckets (upd_proc i f s) = buckets s"
  "nextpid (upd_proc i f s) = nextpid s"
  "initproc (upd_proc i f s) = initproc s"
  "ticks (upd_proc i f s) = ticks s" "kend (upd_proc i f s) = kend s"
  "kstate.more (upd_proc i f s) = kstate.more s"
  by (simp_all add: upd_proc_def)

definition upd_entry :: "nat \<Rightarrow> (wq_entry \<Rightarrow> wq_entry) \<Rightarrow> 'a kstate_scheme \<Rightarrow> 'a kstate_scheme" where
  "upd_entry i f = upd_proc i (\<lambda>p. p\<lparr>p_wq_entry := f (p_wq_entry p)\<rparr>)"

abbreviation entry :: "'a kstate_scheme \<Rightarrow> nat \<Rightarrow> wq_entry" where
  "entry s i \<equiv> p_wq_entry (procs s i)"

definition enext :: "'a kstate_scheme \<Rightarrow> nat \<Rightarrow> nat option" where
  "enext s i = e_next (p_wq_entry (procs s i))"

definition set_head :: "nat \<Rightarrow> nat option \<Rightarrow> 'a kstate_scheme \<Rightarrow> 'a kstate_scheme" where
  "set_head b p s = s\<lparr>buckets := (buckets s)(b := p)\<rparr>"

lemma set_head_simps [simp]:
  "procs (set_head b p s) = procs s"
  "mem (set_head b p s) = mem s"
  "freelist (set_head b p s) = freelist s"
  "cpus (set_head b p s) = cpus s"
  "buckets (set_head b p s) = (buckets s)(b := p)"
  "nextpid (set_head b p s) = nextpid s"
  "initproc (set_head b p s) = initproc s"
  "ticks (set_head b p s) = ticks s" "kend (set_head b p s) = kend s"
  "kstate.more (set_head b p s) = kstate.more s"
  by (simp_all add: set_head_def)

end
