(* ===== verification/WaitQueue.thy ===== *)
theory WaitQueue
  imports Machine
begin

text \<open>
  The hash-bucketed wait queue of \<^verbatim>\<open>kernel/waitqueue.c\<close>: sixteen singly linked lists of entries
  embedded in the processes, indexed by a hash of the wait channel. The operations are
  translated with their pointer updates; the abstraction \<open>wq_queue s b xs\<close> says that bucket
  \<open>b\<close> of state \<open>s\<close> links exactly the entries \<open>xs\<close>, and the locale \<open>wait_queue\<close> is the
  interface \<^verbatim>\<open>sleep\<close> and \<^verbatim>\<open>wakeup\<close> rely on.
\<close>

section \<open>Operations\<close>

definition NWQUEUE :: nat where "NWQUEUE = 16"

definition wq_hash :: "chan \<Rightarrow> nat" where
  "wq_hash c = unat (drop_bit 3 c AND (of_nat NWQUEUE - 1))"

definition wq_bucket_for :: "chan \<Rightarrow> nat" where
  "wq_bucket_for c = wq_hash c"

definition wq_init :: "'a kstate_scheme \<Rightarrow> 'a kstate_scheme" where
  "wq_init s = fold (\<lambda>i. set_head i None) [0..<NWQUEUE] s"

definition wq_add_locked :: "nat \<Rightarrow> chan \<Rightarrow> nat \<Rightarrow> 'a kstate_scheme \<Rightarrow> 'a kstate_scheme" where
  "wq_add_locked b c p s =
     (let s = upd_entry p (\<lambda>e. e\<lparr>e_proc := p\<rparr>) s;
          s = upd_entry p (\<lambda>e. e\<lparr>e_chan := c\<rparr>) s;
          s = upd_entry p (\<lambda>e. e\<lparr>e_next := buckets s b\<rparr>) s;
          s = upd_entry p (\<lambda>e. e\<lparr>e_queued := 1\<rparr>) s
      in set_head b (Some p) s)"

definition wq_clear :: "wq_entry \<Rightarrow> wq_entry" where
  "wq_clear e = e\<lparr>e_next := None, e_chan := 0, e_queued := 0\<rparr>"

text \<open>
  The search for the predecessor of \<open>x\<close> in \<^verbatim>\<open>wq_remove_locked\<close>: \<open>e\<close> is the C variable \<^verbatim>\<open>e\<close>.
  A cyclic list would make the loop run forever, which is the value \<open>None\<close>.
\<close>

partial_function (option) wq_remove_loop ::
    "nat option \<Rightarrow> nat \<Rightarrow> 'a kstate_scheme \<Rightarrow> 'a kstate_scheme option" where
  "wq_remove_loop e x s =
     (case e of None \<Rightarrow> Some s
      | Some i \<Rightarrow>
          (case enext s i of None \<Rightarrow> Some s
           | Some j \<Rightarrow>
               if j = x
               then Some (upd_entry x wq_clear (upd_entry i (\<lambda>e. e\<lparr>e_next := enext s x\<rparr>) s))
               else wq_remove_loop (enext s i) x s))"

definition wq_remove_locked :: "nat \<Rightarrow> nat \<Rightarrow> 'a kstate_scheme \<Rightarrow> 'a kstate_scheme option" where
  "wq_remove_locked b x s =
     (if buckets s b = Some x
      then Some (upd_entry x wq_clear (set_head b (enext s x) s))
      else wq_remove_loop (buckets s b) x s)"

definition wq_has_sleeper :: "chan \<Rightarrow> 'a kstate_scheme \<Rightarrow> bool" where
  "wq_has_sleeper c s \<longleftrightarrow> buckets s (wq_bucket_for c) \<noteq> None"

lemma upd_entry_simps [simp]:
  "entry (upd_entry i f s) j = (if j = i then f (entry s i) else entry s j)"
  "mem (upd_entry i f s) = mem s"
  "freelist (upd_entry i f s) = freelist s"
  "cpus (upd_entry i f s) = cpus s"
  "buckets (upd_entry i f s) = buckets s"
  "nextpid (upd_entry i f s) = nextpid s"
  "initproc (upd_entry i f s) = initproc s"
  "ticks (upd_entry i f s) = ticks s"
  "kstate.more (upd_entry i f s) = kstate.more s"
  by (simp_all add: upd_entry_def)

lemma enext_upd_entry [simp]:
  "enext (upd_entry i f s) = (enext s)(i := e_next (f (entry s i)))"
  by (rule ext) (simp add: enext_def)

lemma enext_set_head [simp]: "enext (set_head b v s) = enext s"
  by (rule ext) (simp add: enext_def)

lemma wq_clear_simps [simp]:
  "e_next (wq_clear e) = None" "e_chan (wq_clear e) = 0" "e_queued (wq_clear e) = 0"
  "e_proc (wq_clear e) = e_proc e"
  by (simp_all add: wq_clear_def)

section \<open>The abstraction of a bucket\<close>

definition wq_queue :: "'a kstate_scheme \<Rightarrow> nat \<Rightarrow> nat list \<Rightarrow> bool" where
  "wq_queue s b xs \<longleftrightarrow> chain (enext s) (buckets s b) xs"

text \<open>
  \<open>wq_frame X s s'\<close>: the operation changed nothing but bucket heads, links, and the entries of
  the processes in \<open>X\<close>.
\<close>

definition wq_frame :: "nat set \<Rightarrow> 'a kstate_scheme \<Rightarrow> 'a kstate_scheme \<Rightarrow> bool" where
  "wq_frame X s s' \<longleftrightarrow>
     (\<exists>ps bs. s' = s\<lparr>procs := ps, buckets := bs\<rparr>) \<and>
     (\<forall>i. \<exists>e. procs s' i = (procs s i)\<lparr>p_wq_entry := e\<rparr>) \<and>
     (\<forall>i. i \<notin> X \<longrightarrow> (\<exists>n. entry s' i = (entry s i)\<lparr>e_next := n\<rparr>))"

lemma wq_hash_less: "wq_hash c < NWQUEUE"
proof -
  have "drop_bit 3 c AND 15 \<le> (15 :: u64)" by (rule word_and_le1)
  then have "unat (drop_bit 3 c AND 15) \<le> unat (15 :: u64)" by (simp only: word_le_nat_alt)
  then show ?thesis by (simp add: wq_hash_def NWQUEUE_def)
qed

lemma wq_frameI:
  "s' = s\<lparr>procs := ps, buckets := bs\<rparr> \<Longrightarrow> (\<And>i. procs s' i = (procs s i)\<lparr>p_wq_entry := e i\<rparr>) \<Longrightarrow>
   (\<And>i. i \<notin> X \<Longrightarrow> entry s' i = (entry s i)\<lparr>e_next := n i\<rparr>) \<Longrightarrow> wq_frame X s s'"
  unfolding wq_frame_def by blast

lemma wq_frame_state: "wq_frame X s s' \<Longrightarrow> \<exists>ps bs. s' = s\<lparr>procs := ps, buckets := bs\<rparr>"
  unfolding wq_frame_def by (elim conjE)

lemma wq_frame_proc: "wq_frame X s s' \<Longrightarrow> \<exists>e. procs s' i = (procs s i)\<lparr>p_wq_entry := e\<rparr>"
  unfolding wq_frame_def by (elim conjE) (erule allE)

lemma wq_frame_link: "wq_frame X s s' \<Longrightarrow> i \<notin> X \<Longrightarrow> \<exists>n. entry s' i = (entry s i)\<lparr>e_next := n\<rparr>"
  unfolding wq_frame_def by (elim conjE) (erule allE, erule (1) impE)

lemma wq_frame_refl [simp]: "wq_frame X s s"
  by (rule wq_frameI [where ps = "procs s" and bs = "buckets s" and e = "entry s" and n = "enext s"])
    (simp_all add: enext_def)

lemma wq_frame_upd_entry: "i \<in> X \<Longrightarrow> wq_frame X s (upd_entry i f s)"
  by (rule wq_frameI [where ps = "procs (upd_entry i f s)" and bs = "buckets s"
        and e = "entry (upd_entry i f s)" and n = "enext s"])
    (auto simp: upd_entry_def upd_proc_def enext_def)

lemma wq_frame_upd_next: "wq_frame X s (upd_entry i (\<lambda>e. e\<lparr>e_next := v\<rparr>) s)"
  by (rule wq_frameI [where ps = "procs (upd_entry i (\<lambda>e. e\<lparr>e_next := v\<rparr>) s)" and bs = "buckets s"
        and e = "entry (upd_entry i (\<lambda>e. e\<lparr>e_next := v\<rparr>) s)" and n = "\<lambda>j. if j = i then v else enext s j"])
    (simp_all add: upd_entry_def upd_proc_def enext_def)

lemma wq_frame_set_head: "wq_frame X s (set_head b v s)"
  by (rule wq_frameI [where ps = "procs s" and bs = "(buckets s)(b := v)" and e = "entry s" and n = "enext s"])
    (simp_all add: set_head_def enext_def)

lemma wq_frame_trans:
  assumes "wq_frame X s t" "wq_frame X t u" shows "wq_frame X s u"
  unfolding wq_frame_def
proof (intro conjI allI impI)
  from assms [THEN wq_frame_state] show "\<exists>ps bs. u = s\<lparr>procs := ps, buckets := bs\<rparr>"
    by (elim exE) (intro exI, simp)
  show "\<exists>e. procs u i = (procs s i)\<lparr>p_wq_entry := e\<rparr>" for i
    using assms [THEN wq_frame_proc, of i] by (elim exE) (simp, blast)
  show "\<exists>n. entry u i = (entry s i)\<lparr>e_next := n\<rparr>" if "i \<notin> X" for i
    using assms [THEN wq_frame_link, OF that] by (elim exE) (simp, blast)
qed

lemma wq_frame_fields:
  assumes "wq_frame X s s'"
  shows "p_state (procs s' i) = p_state (procs s i)" "p_chan (procs s' i) = p_chan (procs s i)"
    "p_killed (procs s' i) = p_killed (procs s i)" "p_pid (procs s' i) = p_pid (procs s i)"
    "mem s' = mem s" "freelist s' = freelist s" "ticks s' = ticks s"
proof -
  obtain e where p: "procs s' i = (procs s i)\<lparr>p_wq_entry := e\<rparr>"
    using wq_frame_proc [OF assms] by blast
  obtain ps bs where s: "s' = s\<lparr>procs := ps, buckets := bs\<rparr>"
    using wq_frame_state [OF assms] by blast
  from p show "p_state (procs s' i) = p_state (procs s i)" "p_chan (procs s' i) = p_chan (procs s i)"
    "p_killed (procs s' i) = p_killed (procs s i)" "p_pid (procs s' i) = p_pid (procs s i)"
    by simp_all
  from s show "mem s' = mem s" "freelist s' = freelist s" "ticks s' = ticks s"
    by simp_all
qed

lemma wq_frame_entry:
  assumes "wq_frame X s s'" "i \<notin> X"
  shows "e_chan (entry s' i) = e_chan (entry s i)" "e_proc (entry s' i) = e_proc (entry s i)"
    "e_queued (entry s' i) = e_queued (entry s i)"
proof -
  from assms obtain n where e: "entry s' i = (entry s i)\<lparr>e_next := n\<rparr>"
    using wq_frame_link by blast
  then show "e_chan (entry s' i) = e_chan (entry s i)" "e_proc (entry s' i) = e_proc (entry s i)"
    "e_queued (entry s' i) = e_queued (entry s i)"
    by simp_all
qed

section \<open>What the operations do to the buckets\<close>

lemma wq_add_locked_eq:
  "wq_add_locked b c p s =
     set_head b (Some p)
       (upd_entry p (\<lambda>e. e\<lparr>e_proc := p, e_chan := c, e_next := buckets s b, e_queued := 1\<rparr>) s)"
  by (simp add: wq_add_locked_def upd_entry_def upd_proc_def Let_def)

lemma wq_add_queue:
  assumes "wq_queue s b xs" "p \<notin> set xs"
  shows "wq_queue (wq_add_locked b c p s) b (p # xs)"
  using assms by (simp add: wq_queue_def wq_add_locked_eq)

lemma wq_add_other:
  assumes "wq_queue s b' xs" "p \<notin> set xs" "b' \<noteq> b"
  shows "wq_queue (wq_add_locked b c p s) b' xs"
  using assms by (simp add: wq_queue_def wq_add_locked_eq)

lemma wq_add_entry:
  "entry (wq_add_locked b c p s) p =
     \<lparr>e_proc = p, e_chan = c, e_next = buckets s b, e_queued = 1\<rparr>"
  by (simp add: wq_add_locked_eq)

lemma wq_add_frame: "wq_frame {p} s (wq_add_locked b c p s)"
  unfolding wq_add_locked_eq
  by (rule wq_frame_trans [OF wq_frame_upd_entry wq_frame_set_head]) simp

text \<open>The predecessor search finds the entry, and unlinks and clears it.\<close>

lemma wq_remove_loop_found:
  assumes "chain (enext s) p (as @ y # x # bs)"
  shows "wq_remove_loop p x s =
    Some (upd_entry x wq_clear (upd_entry y (\<lambda>e. e\<lparr>e_next := enext s x\<rparr>) s))"
  using assms chain_distinct [OF assms]
proof (induction as arbitrary: p)
  case Nil
  then show ?case by (simp add: wq_remove_loop.simps)
next
  case (Cons a as)
  then have "p = Some a" and nx: "chain (enext s) (enext s a) (as @ y # x # bs)" by auto
  moreover from nx obtain z where "enext s a = Some z" "z \<noteq> x"
    using Cons.prems(2) by (cases as) auto
  moreover from nx Cons have "wq_remove_loop (enext s a) x s =
    Some (upd_entry x wq_clear (upd_entry y (\<lambda>e. e\<lparr>e_next := enext s x\<rparr>) s))" by simp
  ultimately show ?case by (subst wq_remove_loop.simps) simp
qed

lemma wq_remove_loop_absent:
  "chain (enext s) p xs \<Longrightarrow> x \<notin> set xs \<Longrightarrow> wq_remove_loop p x s = Some s"
proof (induction xs arbitrary: p)
  case Nil
  then show ?case by (simp add: wq_remove_loop.simps)
next
  case (Cons a xs)
  then have "p = Some a" "chain (enext s) (enext s a) xs" "wq_remove_loop (enext s a) x s = Some s"
    by auto
  with Cons.prems show ?case
    by (subst wq_remove_loop.simps) (cases xs; simp)
qed

lemma wq_remove_first:
  assumes "wq_queue s b (x # xs)"
  shows "\<exists>s'. wq_remove_locked b x s = Some s' \<and> wq_queue s' b xs \<and> wq_frame {x} s s' \<and>
    entry s' x = wq_clear (entry s x) \<and>
    (\<forall>b' ys. b' \<noteq> b \<longrightarrow> wq_queue s b' ys \<longrightarrow> x \<notin> set ys \<longrightarrow> wq_queue s' b' ys)"
proof -
  let ?s = "upd_entry x wq_clear (set_head b (enext s x) s)"
  have c: "chain (enext s) (buckets s b) (x # xs)" using assms by (simp add: wq_queue_def)
  then have "wq_remove_locked b x s = Some ?s" by (simp add: wq_remove_locked_def)
  moreover have "wq_queue ?s b xs"
    using c chain_distinct [OF c] by (simp add: wq_queue_def)
  moreover have "wq_frame {x} s ?s"
    by (rule wq_frame_trans [OF wq_frame_set_head wq_frame_upd_entry]) simp
  moreover have "entry ?s x = wq_clear (entry s x)" by simp
  moreover have "\<forall>b' ys. b' \<noteq> b \<longrightarrow> wq_queue s b' ys \<longrightarrow> x \<notin> set ys \<longrightarrow> wq_queue ?s b' ys"
    by (simp add: wq_queue_def)
  ultimately show ?thesis by blast
qed

lemma wq_remove_later:
  assumes "wq_queue s b (as @ y # x # bs)"
  shows "\<exists>s'. wq_remove_locked b x s = Some s' \<and> wq_queue s' b (as @ y # bs) \<and> wq_frame {x} s s' \<and>
    entry s' x = wq_clear (entry s x) \<and>
    (\<forall>b' ys. b' \<noteq> b \<longrightarrow> wq_queue s b' ys \<longrightarrow> x \<notin> set ys \<longrightarrow> y \<notin> set ys \<longrightarrow> wq_queue s' b' ys)"
proof -
  let ?t = "upd_entry y (\<lambda>e. e\<lparr>e_next := enext s x\<rparr>) s"
  let ?s = "upd_entry x wq_clear ?t"
  have c: "chain (enext s) (buckets s b) (as @ y # x # bs)" using assms by (simp add: wq_queue_def)
  note d = chain_distinct [OF c]
  have "buckets s b \<noteq> Some x" using c d by (cases as) auto
  then have "wq_remove_locked b x s = Some ?s"
    using wq_remove_loop_found [OF c] by (simp add: wq_remove_locked_def)
  moreover have "wq_queue ?s b (as @ y # bs)"
  proof -
    have "chain (enext ?t) (buckets s b) (as @ y # bs)"
      using chain_unlink [OF c] by simp
    then show ?thesis using d by (simp add: wq_queue_def del: fun_upd_apply)
  qed
  moreover have "wq_frame {x} s ?s"
    by (rule wq_frame_trans [OF wq_frame_upd_next wq_frame_upd_entry]) simp
  moreover have "entry ?s x = wq_clear (entry s x)" using d by simp
  moreover have "\<forall>b' ys. b' \<noteq> b \<longrightarrow> wq_queue s b' ys \<longrightarrow> x \<notin> set ys \<longrightarrow> y \<notin> set ys \<longrightarrow> wq_queue ?s b' ys"
    by (simp add: wq_queue_def)
  ultimately show ?thesis by blast
qed

section \<open>All buckets at once\<close>

text \<open>\<open>wq_queues s qs\<close>: bucket \<open>b\<close> links \<open>qs b\<close>, and no entry is on two buckets.\<close>

definition wq_queues :: "'a kstate_scheme \<Rightarrow> (nat \<Rightarrow> nat list) \<Rightarrow> bool" where
  "wq_queues s qs \<longleftrightarrow>
     (\<forall>b<NWQUEUE. wq_queue s b (qs b)) \<and>
     (\<forall>b<NWQUEUE. \<forall>b'<NWQUEUE. b \<noteq> b' \<longrightarrow> set (qs b) \<inter> set (qs b') = {})"

lemma wq_queues_distinct: "wq_queues s qs \<Longrightarrow> b < NWQUEUE \<Longrightarrow> distinct (qs b)"
  by (auto simp: wq_queues_def wq_queue_def intro: chain_distinct)

lemma wq_queues_unique:
  "wq_queues s qs \<Longrightarrow> wq_queues s qs' \<Longrightarrow> b < NWQUEUE \<Longrightarrow> qs b = qs' b"
  unfolding wq_queues_def wq_queue_def by (meson chain_unique)

lemma wq_queues_cong:
  "(\<And>b. b < NWQUEUE \<Longrightarrow> buckets s' b = buckets s b) \<Longrightarrow> enext s' = enext s \<Longrightarrow>
   wq_queues s' qs \<longleftrightarrow> wq_queues s qs"
  by (auto simp: wq_queues_def wq_queue_def)

lemma wq_add_queues:
  assumes "wq_queues s qs" "b < NWQUEUE" "\<forall>b'<NWQUEUE. p \<notin> set (qs b')"
  shows "wq_queues (wq_add_locked b c p s) (qs(b := p # qs b))"
  unfolding wq_queues_def
proof (intro conjI allI impI)
  fix b' assume b': "b' < NWQUEUE"
  show "wq_queue (wq_add_locked b c p s) b' ((qs(b := p # qs b)) b')"
  proof (cases "b' = b")
    case True
    then show ?thesis using assms b' by (simp add: wq_queues_def wq_add_queue)
  next
    case False
    then show ?thesis using assms b' by (simp add: wq_queues_def wq_add_other)
  qed
next
  fix b1 b2 assume "b1 < NWQUEUE" "b2 < NWQUEUE" "b1 \<noteq> b2"
  then show "set ((qs(b := p # qs b)) b1) \<inter> set ((qs(b := p # qs b)) b2) = {}"
    using assms by (auto simp: wq_queues_def)
qed

lemma wq_remove_queue:
  assumes "wq_queue s b xs" "x \<in> set xs"
  shows "\<exists>s'. wq_remove_locked b x s = Some s' \<and> wq_queue s' b (remove1 x xs) \<and> wq_frame {x} s s' \<and>
    entry s' x = wq_clear (entry s x) \<and>
    (\<forall>b' ys. b' \<noteq> b \<longrightarrow> wq_queue s b' ys \<longrightarrow> set xs \<inter> set ys = {} \<longrightarrow> wq_queue s' b' ys)"
proof -
  from assms(2) obtain as bs where xs: "xs = as @ x # bs" and na: "x \<notin> set as"
    by (auto dest: split_list_first)
  then have r: "remove1 x xs = as @ bs" by (simp add: remove1_append)
  show ?thesis
  proof (cases as rule: rev_cases)
    case Nil
    then show ?thesis using wq_remove_first [of s b x bs] assms(1) xs r by auto
  next
    case (snoc cs y)
    then have "xs = cs @ y # x # bs" "remove1 x xs = cs @ y # bs" using xs r by simp_all
    then show ?thesis using wq_remove_later [of s b cs y x bs] assms(1) by auto
  qed
qed

lemma wq_remove_queues:
  assumes "wq_queues s qs" "b < NWQUEUE" "x \<in> set (qs b)"
  shows "\<exists>s'. wq_remove_locked b x s = Some s' \<and> wq_queues s' (qs(b := remove1 x (qs b))) \<and>
    wq_frame {x} s s' \<and> entry s' x = wq_clear (entry s x)"
proof -
  have q: "wq_queue s b' (qs b')" if "b' < NWQUEUE" for b'
    using assms(1) that by (simp add: wq_queues_def)
  have dj: "set (qs b1) \<inter> set (qs b2) = {}" if "b1 < NWQUEUE" "b2 < NWQUEUE" "b1 \<noteq> b2" for b1 b2
    using assms(1) that unfolding wq_queues_def by blast
  obtain s' where s': "wq_remove_locked b x s = Some s'" "wq_queue s' b (remove1 x (qs b))"
      "wq_frame {x} s s'" "entry s' x = wq_clear (entry s x)"
      "\<forall>b' ys. b' \<noteq> b \<longrightarrow> wq_queue s b' ys \<longrightarrow> set (qs b) \<inter> set ys = {} \<longrightarrow> wq_queue s' b' ys"
    using wq_remove_queue [OF q [OF assms(2)] assms(3)] by blast
  have "wq_queues s' (qs(b := remove1 x (qs b)))"
    unfolding wq_queues_def
  proof (intro conjI allI impI)
    fix b' assume "b' < NWQUEUE"
    then show "wq_queue s' b' ((qs(b := remove1 x (qs b))) b')"
      using s'(2,5) q dj assms(2) by (cases "b' = b") auto
  next
    fix b1 b2 assume "b1 < NWQUEUE" "b2 < NWQUEUE" "b1 \<noteq> b2"
    then have "set (qs b1) \<inter> set (qs b2) = {}" by (rule dj)
    moreover have "set ((qs(b := remove1 x (qs b))) b') \<subseteq> set (qs b')" for b'
      by (simp add: set_remove1_subset)
    ultimately show "set ((qs(b := remove1 x (qs b))) b1) \<inter> set ((qs(b := remove1 x (qs b))) b2) = {}"
      by blast
  qed
  with s' show ?thesis by blast
qed

lemma wq_has_sleeper_iff:
  assumes "wq_queues s qs"
  shows "wq_has_sleeper c s \<longleftrightarrow> qs (wq_bucket_for c) \<noteq> []"
proof -
  have "wq_queue s (wq_bucket_for c) (qs (wq_bucket_for c))"
    using assms wq_hash_less by (simp add: wq_queues_def wq_bucket_for_def)
  then show ?thesis
    by (cases "qs (wq_bucket_for c)") (auto simp: wq_queue_def wq_has_sleeper_def)
qed

lemma fold_set_head: "buckets (fold (\<lambda>i. set_head i None) xs s) = (\<lambda>b. if b \<in> set xs then None else buckets s b)"
  by (induction xs arbitrary: s) (auto simp: fun_eq_iff)

lemma enext_fold_set_head: "enext (fold (\<lambda>i. set_head i None) xs s) = enext s"
  by (induction xs arbitrary: s) auto

lemma wq_init_queues: "wq_queues (wq_init s) (\<lambda>_. [])"
  by (simp add: wq_queues_def wq_queue_def wq_init_def fold_set_head)

section \<open>The interface the sleep and wakeup code relies on\<close>

text \<open>
  A wait queue over \<open>nb\<close> buckets: adding puts an entry in front, removing takes exactly this
  entry out and returns, and the emptiness test is exact.
\<close>

locale wait_queue =
  fixes queues :: "'s \<Rightarrow> (nat \<Rightarrow> nat list) \<Rightarrow> bool"
    and add :: "nat \<Rightarrow> chan \<Rightarrow> nat \<Rightarrow> 's \<Rightarrow> 's"
    and remove :: "nat \<Rightarrow> nat \<Rightarrow> 's \<Rightarrow> 's option"
    and has_sleeper :: "chan \<Rightarrow> 's \<Rightarrow> bool"
    and bucket :: "chan \<Rightarrow> nat"
    and nb :: nat
  assumes bucket_less: "bucket c < nb"
    and distinct_queue: "queues s qs \<Longrightarrow> b < nb \<Longrightarrow> distinct (qs b)"
    and add_law: "queues s qs \<Longrightarrow> b < nb \<Longrightarrow> \<forall>b'<nb. p \<notin> set (qs b') \<Longrightarrow>
      queues (add b c p s) (qs(b := p # qs b))"
    and remove_law: "queues s qs \<Longrightarrow> b < nb \<Longrightarrow> x \<in> set (qs b) \<Longrightarrow>
      \<exists>s'. remove b x s = Some s' \<and> queues s' (qs(b := remove1 x (qs b)))"
    and has_sleeper_law: "queues s qs \<Longrightarrow> has_sleeper c s \<longleftrightarrow> qs (bucket c) \<noteq> []"
begin

text \<open>The fast path is exact: it is false precisely when no entry hashes to the channel's bucket.\<close>

lemma no_sleeper_empty: "queues s qs \<Longrightarrow> \<not> has_sleeper c s \<Longrightarrow> qs (bucket c) = []"
  by (simp add: has_sleeper_law)

lemma add_has_sleeper:
  assumes "queues s qs" "\<forall>b'<nb. p \<notin> set (qs b')"
  shows "has_sleeper c (add (bucket c) c' p s)"
  using has_sleeper_law [OF add_law [OF assms(1) bucket_less assms(2)], of c c c'] by simp

text \<open>Adding an entry and removing it again gives the same queues.\<close>

lemma add_remove:
  assumes "queues s qs" "b < nb" "\<forall>b'<nb. p \<notin> set (qs b')"
  shows "\<exists>s'. remove b p (add b c p s) = Some s' \<and> queues s' qs"
  using remove_law [OF add_law [OF assms] assms(2), of p] by simp

text \<open>Removing a list of entries one after the other leaves the others, in their order.\<close>

lemma remove_list:
  assumes "queues s qs" "b < nb" "distinct xs" "set xs \<subseteq> set (qs b)"
  shows "\<exists>s'. fold (\<lambda>x r. Option.bind r (remove b x)) xs (Some s) = Some s' \<and>
    queues s' (qs(b := filter (\<lambda>y. y \<notin> set xs) (qs b)))"
  using assms
proof (induction xs arbitrary: s qs)
  case Nil
  then show ?case by simp
next
  case (Cons x xs)
  then have "x \<in> set (qs b)" by simp
  then obtain t where t: "remove b x s = Some t" "queues t (qs(b := remove1 x (qs b)))"
    using remove_law [OF Cons.prems(1,2)] by blast
  have d: "distinct (qs b)" using Cons.prems(1,2) by (rule distinct_queue)
  then have sub: "set xs \<subseteq> set ((qs(b := remove1 x (qs b))) b)"
    using Cons.prems by (auto simp: set_remove1_eq)
  have f: "filter (\<lambda>y. y \<notin> set xs) (remove1 x (qs b)) = filter (\<lambda>y. y \<notin> set (x # xs)) (qs b)"
    using d by (simp add: distinct_remove1_removeAll removeAll_filter_not_eq) (rule filter_cong, auto)
  have "distinct xs" using Cons.prems(3) by simp
  from Cons.IH [OF t(2) Cons.prems(2) this sub] show ?case
    by (simp add: t(1) f fun_upd_same fun_upd_upd del: set_simps fun_upd_apply)
qed

end

interpretation wq: wait_queue wq_queues wq_add_locked wq_remove_locked wq_has_sleeper wq_bucket_for NWQUEUE
proof unfold_locales
  fix c show "wq_bucket_for c < NWQUEUE" by (simp add: wq_bucket_for_def wq_hash_less)
next
  fix s :: "'a kstate_scheme" and qs b x
  assume "wq_queues s qs" "b < NWQUEUE" "x \<in> set (qs b)"
  then show "\<exists>s'. wq_remove_locked b x s = Some s' \<and> wq_queues s' (qs(b := remove1 x (qs b)))"
    using wq_remove_queues by blast
qed (simp_all add: wq_queues_distinct wq_add_queues wq_has_sleeper_iff)

end
