(* ===== verification/Sched.thy ===== *)
theory Sched
  imports WaitQueue
begin

text \<open>
  Sleeping, waking and killing (\<^verbatim>\<open>kernel/proc.c\<close>): \<^verbatim>\<open>sleep\<close>, \<^verbatim>\<open>wakeup\<close>, \<^verbatim>\<open>wakeup_one\<close>, \<^verbatim>\<open>kkill\<close>,
  \<^verbatim>\<open>setkilled\<close>, \<^verbatim>\<open>killed\<close>, and the scheduling steps \<^verbatim>\<open>sched\<close>, \<^verbatim>\<open>yield\<close> and \<^verbatim>\<open>scheduler\<close>. Each
  definition is the code between two points where the process may lose the CPU, run under the
  locks it takes; the interleaving of these steps at the level of single lock operations is the
  subject of theory SleepWakeup. The invariant \<open>sched_inv\<close> says that the bucket lists contain
  exactly the sleeping processes, each in the bucket of its channel.
\<close>

section \<open>Operations\<close>

text \<open>\<^verbatim>\<open>sleep\<close> up to its call of \<^verbatim>\<open>sched\<close>, and after it.\<close>

definition sleep_prepare :: "nat \<Rightarrow> chan \<Rightarrow> 'a kstate_scheme \<Rightarrow> 'a kstate_scheme" where
  "sleep_prepare me c s =
     (let b = wq_bucket_for c;
          s = wq_add_locked b c me s;
          s = upd_proc me (\<lambda>p. p\<lparr>p_chan := c\<rparr>) s
      in upd_proc me (\<lambda>p. p\<lparr>p_state := SLEEPING\<rparr>) s)"

definition sleep_finish :: "nat \<Rightarrow> 'a kstate_scheme \<Rightarrow> 'a kstate_scheme" where
  "sleep_finish me s = upd_proc me (\<lambda>p. p\<lparr>p_chan := 0\<rparr>) s"

definition make_runnable :: "nat \<Rightarrow> 'a kstate_scheme \<Rightarrow> 'a kstate_scheme" where
  "make_runnable i s = upd_proc i (\<lambda>p. p\<lparr>p_state := RUNNABLE\<rparr>) s"

text \<open>The guard \<^verbatim>\<open>e->proc->state == SLEEPING && e->proc->chan == chan\<close>.\<close>

definition sleeps_on :: "'a kstate_scheme \<Rightarrow> nat \<Rightarrow> chan \<Rightarrow> bool" where
  "sleeps_on s i c \<longleftrightarrow> p_state (procs s i) = SLEEPING \<and> p_chan (procs s i) = c"

partial_function (option) wakeup_loop ::
    "nat \<Rightarrow> chan \<Rightarrow> nat option \<Rightarrow> 'a kstate_scheme \<Rightarrow> 'a kstate_scheme option" where
  "wakeup_loop b c e s =
     (case e of None \<Rightarrow> Some s
      | Some i \<Rightarrow>
          (let next = enext s i; q = e_proc (entry s i) in
           if e_chan (entry s i) = c
           then if sleeps_on s q c
                then Option.bind (wq_remove_locked b i (make_runnable q s)) (wakeup_loop b c next)
                else wakeup_loop b c next s
           else wakeup_loop b c next s))"

definition wakeup :: "chan \<Rightarrow> 'a kstate_scheme \<Rightarrow> 'a kstate_scheme option" where
  "wakeup c s = (let b = wq_bucket_for c in wakeup_loop b c (buckets s b) s)"

partial_function (option) wakeup_one_loop ::
    "nat \<Rightarrow> chan \<Rightarrow> nat option \<Rightarrow> 'a kstate_scheme \<Rightarrow> 'a kstate_scheme option" where
  "wakeup_one_loop b c e s =
     (case e of None \<Rightarrow> Some s
      | Some i \<Rightarrow>
          (let next = enext s i; q = e_proc (entry s i) in
           if e_chan (entry s i) = c
           then if sleeps_on s q c
                then wq_remove_locked b i (make_runnable q s)
                else wakeup_one_loop b c next s
           else wakeup_one_loop b c next s))"

definition wakeup_one :: "chan \<Rightarrow> 'a kstate_scheme \<Rightarrow> 'a kstate_scheme option" where
  "wakeup_one c s = (let b = wq_bucket_for c in wakeup_one_loop b c (buckets s b) s)"

definition setkilled :: "nat \<Rightarrow> 'a kstate_scheme \<Rightarrow> 'a kstate_scheme" where
  "setkilled i s = upd_proc i (\<lambda>p. p\<lparr>p_killed := 1\<rparr>) s"

definition killed :: "nat \<Rightarrow> 'a kstate_scheme \<Rightarrow> u32" where
  "killed i s = p_killed (procs s i)"

text \<open>\<^verbatim>\<open>kkill\<close>: the returned number is the C result 0 or -1.\<close>

fun kkill_loop :: "nat list \<Rightarrow> u32 \<Rightarrow> 'a kstate_scheme \<Rightarrow> (int \<times> 'a kstate_scheme) option" where
  "kkill_loop [] pid s = Some (-1, s)"
| "kkill_loop (i # is) pid s =
     (if p_pid (procs s i) = pid
      then (let s = setkilled i s in
            if p_state (procs s i) = SLEEPING
            then map_option (\<lambda>s. (0, s)) (wakeup (p_chan (procs s i)) s)
            else Some (0, s))
      else kkill_loop is pid s)"

definition kkill :: "u32 \<Rightarrow> 'a kstate_scheme \<Rightarrow> (int \<times> 'a kstate_scheme) option" where
  "kkill pid s = kkill_loop [0..<NPROC] pid s"

text \<open>
  \<^verbatim>\<open>sched\<close> on CPU \<open>c\<close>: the four sanity checks, then the switch to the scheduler. \<open>held\<close> is the
  value of \<^verbatim>\<open>holding(&p->lock)\<close>; the result carries the saved \<^verbatim>\<open>intena\<close>, which
  \<open>sched_resume\<close> restores on the CPU that later runs the process again.
\<close>

definition sched :: "nat \<Rightarrow> nat \<Rightarrow> bool \<Rightarrow> 'a kstate_scheme \<Rightarrow> (bool \<times> 'a kstate_scheme) res" where
  "sched c me held s =
     (if \<not> held then Panic ''sched p->lock''
      else if c_noff (cpus s c) \<noteq> 1 then Panic ''sched locks''
      else if p_state (procs s me) = RUNNING then Panic ''sched RUNNING''
      else if c_sie (cpus s c) then Panic ''sched interruptible''
      else Ok (c_intena (cpus s c), s))"

definition upd_cpu :: "nat \<Rightarrow> (cpu \<Rightarrow> cpu) \<Rightarrow> 'a kstate_scheme \<Rightarrow> 'a kstate_scheme" where
  "upd_cpu c f s = s\<lparr>cpus := (cpus s)(c := f (cpus s c))\<rparr>"

definition sched_resume :: "nat \<Rightarrow> bool \<Rightarrow> 'a kstate_scheme \<Rightarrow> 'a kstate_scheme" where
  "sched_resume c intena s = upd_cpu c (\<lambda>k. k\<lparr>c_intena := intena\<rparr>) s"

definition yield :: "nat \<Rightarrow> nat \<Rightarrow> bool \<Rightarrow> 'a kstate_scheme \<Rightarrow> (bool \<times> 'a kstate_scheme) res" where
  "yield c me held s = sched c me held (make_runnable me s)"

text \<open>
  One visit of the loop of \<^verbatim>\<open>scheduler\<close> to process \<open>i\<close>: a runnable process is marked running and
  becomes \<^verbatim>\<open>c->proc\<close> (the state it is switched to); after the switch back \<^verbatim>\<open>c->proc\<close> is
  cleared.
\<close>

definition scheduler_dispatch :: "nat \<Rightarrow> nat \<Rightarrow> 'a kstate_scheme \<Rightarrow> 'a kstate_scheme" where
  "scheduler_dispatch c i s =
     (if p_state (procs s i) = RUNNABLE
      then upd_cpu c (\<lambda>k. k\<lparr>c_proc := Some i\<rparr>) (upd_proc i (\<lambda>p. p\<lparr>p_state := RUNNING\<rparr>) s)
      else s)"

definition scheduler_back :: "nat \<Rightarrow> 'a kstate_scheme \<Rightarrow> 'a kstate_scheme" where
  "scheduler_back c s = upd_cpu c (\<lambda>k. k\<lparr>c_proc := None\<rparr>) s"

text \<open>\<^verbatim>\<open>procinit\<close>: empty buckets, then one pass over the table.\<close>

definition procinit_entry :: "nat \<Rightarrow> proc \<Rightarrow> proc" where
  "procinit_entry i p = p\<lparr>p_state := UNUSED, p_kstack := KSTACK i,
     p_wq_entry := \<lparr>e_proc = i, e_chan = 0, e_next = None, e_queued = 0\<rparr>\<rparr>"

definition procinit :: "'a kstate_scheme \<Rightarrow> 'a kstate_scheme" where
  "procinit s = fold (\<lambda>i. upd_proc i (procinit_entry i)) [0..<NPROC] (wq_init s)"

section \<open>The invariant\<close>

definition queued_ok :: "'a kstate_scheme \<Rightarrow> nat \<Rightarrow> nat \<Rightarrow> bool" where
  "queued_ok s b i \<longleftrightarrow>
     i < NPROC \<and> p_state (procs s i) = SLEEPING \<and> wq_hash (p_chan (procs s i)) = b \<and>
     e_chan (entry s i) = p_chan (procs s i) \<and> e_proc (entry s i) = i \<and> e_queued (entry s i) = 1"

definition sched_inv :: "'a kstate_scheme \<Rightarrow> (nat \<Rightarrow> nat list) \<Rightarrow> bool" where
  "sched_inv s qs \<longleftrightarrow>
     wq_queues s qs \<and>
     (\<forall>b<NWQUEUE. \<forall>i\<in>set (qs b). queued_ok s b i) \<and>
     (\<forall>i<NPROC. p_state (procs s i) = SLEEPING \<longrightarrow> i \<in> set (qs (wq_hash (p_chan (procs s i)))))"

text \<open>A process without its wait-queue entry: what the rest of the kernel sees of it.\<close>

definition pcore :: "proc \<Rightarrow> proc" where
  "pcore p = p\<lparr>p_wq_entry := \<lparr>e_proc = 0, e_chan = 0, e_next = None, e_queued = 0\<rparr>\<rparr>"

text \<open>
  The reference: \<^verbatim>\<open>wakeup\<close> of the original xv6, a scan of the whole process table, and its
  variant that stops at one process.
\<close>

definition wakeup_scan :: "chan \<Rightarrow> 'a kstate_scheme \<Rightarrow> 'a kstate_scheme" where
  "wakeup_scan c s = fold (\<lambda>i s. if sleeps_on s i c then make_runnable i s else s) [0..<NPROC] s"

section \<open>Basic facts\<close>

lemma make_runnable_simps [simp]:
  "procs (make_runnable i s) j = (if j = i then (procs s i)\<lparr>p_state := RUNNABLE\<rparr> else procs s j)"
  "buckets (make_runnable i s) = buckets s" "mem (make_runnable i s) = mem s"
  "freelist (make_runnable i s) = freelist s" "cpus (make_runnable i s) = cpus s"
  "nextpid (make_runnable i s) = nextpid s" "initproc (make_runnable i s) = initproc s"
  "ticks (make_runnable i s) = ticks s" "kstate.more (make_runnable i s) = kstate.more s"
  by (simp_all add: make_runnable_def)

lemma enext_make_runnable [simp]: "enext (make_runnable i s) = enext s"
  by (rule ext) (simp add: enext_def)

lemma enext_upd_proc:
  "(\<And>p. p_wq_entry (f p) = p_wq_entry p) \<Longrightarrow> enext (upd_proc i f s) = enext s"
  by (rule ext) (simp add: enext_def)

lemma pcore_simps [simp]:
  "p_state (pcore p) = p_state p" "p_chan (pcore p) = p_chan p" "p_killed (pcore p) = p_killed p"
  "p_pid (pcore p) = p_pid p" "pcore (p\<lparr>p_wq_entry := e\<rparr>) = pcore p"
  "pcore (p\<lparr>p_state := st\<rparr>) = (pcore p)\<lparr>p_state := st\<rparr>"
  "pcore (p\<lparr>p_chan := c\<rparr>) = (pcore p)\<lparr>p_chan := c\<rparr>"
  "pcore (p\<lparr>p_killed := k\<rparr>) = (pcore p)\<lparr>p_killed := k\<rparr>"
  by (simp_all add: pcore_def)

lemma pcore_eqD:
  "pcore p = pcore q \<Longrightarrow> p_state p = p_state q \<and> p_chan p = p_chan q"
  by (metis pcore_simps(1,2))

lemma wq_frame_pcore: "wq_frame X s s' \<Longrightarrow> pcore (procs s' i) = pcore (procs s i)"
  using wq_frame_proc [of X s s' i] by auto

lemma sched_inv_queues: "sched_inv s qs \<Longrightarrow> wq_queues s qs"
  by (simp add: sched_inv_def)

lemma sched_inv_queued: "sched_inv s qs \<Longrightarrow> b < NWQUEUE \<Longrightarrow> i \<in> set (qs b) \<Longrightarrow> queued_ok s b i"
  by (simp add: sched_inv_def)

lemma sched_inv_sleeping:
  assumes "sched_inv s qs" "i < NPROC"
  shows "p_state (procs s i) = SLEEPING \<longleftrightarrow> (\<exists>b<NWQUEUE. i \<in> set (qs b))"
  using assms wq_hash_less unfolding sched_inv_def queued_ok_def by blast

lemma sleeps_on_iff:
  assumes "sched_inv s qs" "i < NPROC"
  shows "sleeps_on s i c \<longleftrightarrow> i \<in> set (qs (wq_bucket_for c)) \<and> p_chan (procs s i) = c"
  using assms wq_hash_less [of c] unfolding sched_inv_def queued_ok_def sleeps_on_def wq_bucket_for_def
  by blast

section \<open>Waking one queued process\<close>

text \<open>The body of both loops on an entry that passes the guard.\<close>

lemma wake_entry:
  assumes inv: "sched_inv s qs" and b: "b < NWQUEUE" and i: "i \<in> set (qs b)"
  shows "\<exists>s'. wq_remove_locked b i (make_runnable i s) = Some s' \<and>
    sched_inv s' (qs(b := remove1 i (qs b))) \<and> wq_frame {i} (make_runnable i s) s'"
proof -
  let ?t = "make_runnable i s" and ?qs = "qs(b := remove1 i (qs b))"
  have q: "wq_queues ?t qs" using sched_inv_queues [OF inv] by (simp add: wq_queues_cong [of ?t s])
  then obtain s' where s': "wq_remove_locked b i ?t = Some s'" "wq_queues s' ?qs"
      "wq_frame {i} ?t s'" "entry s' i = wq_clear (entry ?t i)"
    using wq_remove_queues [OF q b i] by blast
  note fr = wq_frame_fields [OF s'(3)] wq_frame_entry [OF s'(3)]
  have d: "distinct (qs b)" using sched_inv_queues [OF inv] b by (rule wq.distinct_queue)
  have sub: "set (?qs b') \<subseteq> set (qs b')" for b' by (simp add: set_remove1_subset)
  have ni: "i \<notin> set (?qs b')" if "b' < NWQUEUE" for b'
    using that i b d sched_inv_queues [OF inv] by (auto simp: wq_queues_def)
  have "queued_ok s' b' j" if "b' < NWQUEUE" "j \<in> set (?qs b')" for b' j
  proof -
    have "j \<noteq> i" "queued_ok s b' j" using that ni sub sched_inv_queued [OF inv that(1)] by blast+
    then show ?thesis by (simp add: queued_ok_def fr)
  qed
  moreover have "j \<in> set (?qs (wq_hash (p_chan (procs s' j))))"
    if "j < NPROC" "p_state (procs s' j) = SLEEPING" for j
  proof -
    have ji: "j \<noteq> i" using that(2) by (auto simp: fr)
    then have "j \<in> set (qs (wq_hash (p_chan (procs s j))))"
      using that inv by (auto simp: fr sched_inv_def)
    with ji show ?thesis by (auto simp: fr)
  qed
  ultimately have "sched_inv s' ?qs" using s'(2) by (simp add: sched_inv_def)
  with s' show ?thesis by blast
qed

lemma wake_entry_pcore:
  "wq_frame {i} (make_runnable i s) s' \<Longrightarrow>
   pcore (procs s' j) = (if j = i then (pcore (procs s i))\<lparr>p_state := RUNNABLE\<rparr> else pcore (procs s j))"
  by (auto dest: wq_frame_pcore [of _ _ _ j])

text \<open>The frame of a wakeup: only process states and wait-queue links change.\<close>

definition wake_frame :: "'a kstate_scheme \<Rightarrow> 'a kstate_scheme \<Rightarrow> bool" where
  "wake_frame s s' \<longleftrightarrow> (\<exists>ps bs. s' = s\<lparr>procs := ps, buckets := bs\<rparr>)"

lemma wake_frame_refl [simp]: "wake_frame s s"
  unfolding wake_frame_def by (intro exI [of _ "procs s"] exI [of _ "buckets s"]) simp

lemma wake_frame_trans: "wake_frame s t \<Longrightarrow> wake_frame t u \<Longrightarrow> wake_frame s u"
  unfolding wake_frame_def by auto blast

lemma wake_frame_entry:
  assumes "wq_frame X (make_runnable i s) s'" shows "wake_frame s s'"
proof -
  obtain ps bs where "s' = (make_runnable i s)\<lparr>procs := ps, buckets := bs\<rparr>"
    using wq_frame_state [OF assms] by blast
  then show ?thesis unfolding wake_frame_def
    by (intro exI [of _ ps] exI [of _ bs]) (simp add: make_runnable_def upd_proc_def)
qed

section \<open>The wakeup loops\<close>

text \<open>
  The loop stands at the suffix \<open>ys\<close> of its bucket, having kept \<open>zs\<close>. It removes exactly the
  entries of \<open>ys\<close> whose process sleeps on \<open>c\<close>.
\<close>

definition woken :: "chan \<Rightarrow> nat list \<Rightarrow> 'a kstate_scheme \<Rightarrow> 'a kstate_scheme \<Rightarrow> bool" where
  "woken c xs s s' \<longleftrightarrow>
     (\<forall>j. pcore (procs s' j) =
        (if j \<in> set xs \<and> p_chan (procs s j) = c then (pcore (procs s j))\<lparr>p_state := RUNNABLE\<rparr>
         else pcore (procs s j)))"

lemma wakeup_loop_step:
  assumes inv: "sched_inv s qs" and b: "b < NWQUEUE" and q: "qs b = zs @ i # ys"
  shows "wakeup_loop b c (Some i) s =
    (if p_chan (procs s i) = c
     then Option.bind (wq_remove_locked b i (make_runnable i s)) (wakeup_loop b c (hd_opt ys))
     else wakeup_loop b c (hd_opt ys) s)"
    and "wakeup_one_loop b c (Some i) s =
    (if p_chan (procs s i) = c
     then wq_remove_locked b i (make_runnable i s)
     else wakeup_one_loop b c (hd_opt ys) s)"
proof -
  have ok: "queued_ok s b i" using sched_inv_queued [OF inv b] q by simp
  have "wq_queue s b (zs @ i # ys)" using sched_inv_queues [OF inv] b q by (metis wq_queues_def)
  then have nx: "enext s i = hd_opt ys" unfolding wq_queue_def by (rule chain_next)
  show "wakeup_loop b c (Some i) s =
    (if p_chan (procs s i) = c
     then Option.bind (wq_remove_locked b i (make_runnable i s)) (wakeup_loop b c (hd_opt ys))
     else wakeup_loop b c (hd_opt ys) s)"
    using ok nx by (subst wakeup_loop.simps) (simp add: queued_ok_def sleeps_on_def Let_def)
  show "wakeup_one_loop b c (Some i) s =
    (if p_chan (procs s i) = c
     then wq_remove_locked b i (make_runnable i s)
     else wakeup_one_loop b c (hd_opt ys) s)"
    using ok nx by (subst wakeup_one_loop.simps) (simp add: queued_ok_def sleeps_on_def Let_def)
qed

lemma wakeup_loop_spec:
  assumes "sched_inv s qs" "b < NWQUEUE" "qs b = zs @ ys"
  shows "\<exists>s'. wakeup_loop b c (hd_opt ys) s = Some s' \<and>
    sched_inv s' (qs(b := zs @ filter (\<lambda>j. p_chan (procs s j) \<noteq> c) ys)) \<and>
    woken c ys s s' \<and> wake_frame s s'"
  using assms
proof (induction ys arbitrary: s qs zs)
  case Nil
  have "qs(b := zs) = qs" using Nil.prems(3) by (simp add: fun_upd_idem)
  with Nil show ?case by (simp add: wakeup_loop.simps woken_def)
next
  case (Cons i ys)
  note step = wakeup_loop_step(1) [OF Cons.prems]
  show ?case
  proof (cases "p_chan (procs s i) = c")
    case False
    obtain s' where "wakeup_loop b c (hd_opt ys) s = Some s'"
        "sched_inv s' (qs(b := (zs @ [i]) @ filter (\<lambda>j. p_chan (procs s j) \<noteq> c) ys))"
        "woken c ys s s'" "wake_frame s s'"
      using Cons.IH [OF Cons.prems(1,2), of "zs @ [i]"] Cons.prems(3)
      by (simp del: fun_upd_apply) blast
    with False step show ?thesis by (auto simp: woken_def simp del: fun_upd_apply)
  next
    case True
    have d: "distinct (zs @ i # ys)"
      using wq.distinct_queue [OF sched_inv_queues [OF Cons.prems(1)] Cons.prems(2)] Cons.prems(3) by simp
    then have r: "remove1 i (qs b) = zs @ ys" using Cons.prems(3) by (simp add: remove1_append)
    obtain t where t: "wq_remove_locked b i (make_runnable i s) = Some t"
        "sched_inv t (qs(b := zs @ ys))" "wq_frame {i} (make_runnable i s) t"
      using wake_entry [OF Cons.prems(1,2), of i] Cons.prems(3) r
      by (simp del: fun_upd_apply) blast
    note pc = wake_entry_pcore [OF t(3)]
    have same: "p_chan (procs t j) = p_chan (procs s j)" for j
      using wq_frame_fields(2) [OF t(3), of j] by (simp split: if_splits)
    obtain s' where s': "wakeup_loop b c (hd_opt ys) t = Some s'"
        "sched_inv s' ((qs(b := zs @ ys))(b := zs @ filter (\<lambda>j. p_chan (procs t j) \<noteq> c) ys))"
        "woken c ys t s'" "wake_frame t s'"
      using Cons.IH [OF t(2) Cons.prems(2) fun_upd_same] by blast
    have "woken c (i # ys) s s'"
      using s'(3) d True by (auto simp: woken_def pc same)
    moreover have "wake_frame s s'"
      using wake_frame_trans [OF wake_frame_entry [OF t(3)] s'(4)] .
    ultimately show ?thesis
      using True step s'(1,2) t(1) by (simp add: same fun_upd_upd del: fun_upd_apply)
  qed
qed

lemma wakeup_one_loop_spec:
  assumes "sched_inv s qs" "b < NWQUEUE" "qs b = zs @ ys"
  shows "wakeup_one_loop b c (hd_opt ys) s =
    (case find (\<lambda>j. p_chan (procs s j) = c) ys of
       None \<Rightarrow> Some s
     | Some i \<Rightarrow> wq_remove_locked b i (make_runnable i s))"
  using assms
proof (induction ys arbitrary: zs)
  case Nil
  then show ?case by (simp add: wakeup_one_loop.simps)
next
  case (Cons i ys)
  note step = wakeup_loop_step(2) [OF Cons.prems]
  have "wakeup_one_loop b c (hd_opt ys) s =
    (case find (\<lambda>j. p_chan (procs s j) = c) ys of
       None \<Rightarrow> Some s | Some i \<Rightarrow> wq_remove_locked b i (make_runnable i s))"
    using Cons.IH [OF Cons.prems(1,2), of "zs @ [i]"] Cons.prems(3) by simp
  with step show ?case by simp
qed

lemma bucket_head: "sched_inv s qs \<Longrightarrow> buckets s (wq_bucket_for c) = hd_opt (qs (wq_bucket_for c))"
  using wq.bucket_less [of c] by (auto simp: sched_inv_def wq_queues_def wq_queue_def intro: chain_head)

section \<open>Sleeping\<close>

lemma sleep_prepare_procs:
  "pcore (procs (sleep_prepare me c s) j) =
     (if j = me then (pcore (procs s me))\<lparr>p_chan := c, p_state := SLEEPING\<rparr> else pcore (procs s j))"
  using wq_frame_pcore [OF wq_add_frame [of me s "wq_bucket_for c" c], of j]
  by (auto simp: sleep_prepare_def Let_def)

lemma sleep_prepare_entry:
  "entry (sleep_prepare me c s) j = entry (wq_add_locked (wq_bucket_for c) c me s) j"
  by (simp add: sleep_prepare_def Let_def)

lemma sleep_prepare_state:
  "p_state (procs (sleep_prepare me c s) j) = (if j = me then SLEEPING else p_state (procs s j))"
  "p_chan (procs (sleep_prepare me c s) j) = (if j = me then c else p_chan (procs s j))"
  using arg_cong [OF sleep_prepare_procs [of me c s j], of p_state]
    arg_cong [OF sleep_prepare_procs [of me c s j], of p_chan]
  by (auto split: if_splits)

lemma sleep_prepare_inv:
  assumes inv: "sched_inv s qs" and me: "me < NPROC" "p_state (procs s me) \<noteq> SLEEPING"
  shows "sched_inv (sleep_prepare me c s) (qs(wq_bucket_for c := me # qs (wq_bucket_for c)))"
    (is "sched_inv ?s ?qs")
proof -
  let ?b = "wq_bucket_for c" and ?t = "wq_add_locked (wq_bucket_for c) c me s"
  have ni: "\<forall>b<NWQUEUE. me \<notin> set (qs b)" using sched_inv_sleeping [OF inv me(1)] me(2) by blast
  have "wq_queues ?t ?qs"
    using wq.add_law [OF sched_inv_queues [OF inv] wq.bucket_less ni] by simp
  moreover have "buckets ?s = buckets ?t" "enext ?s = enext ?t"
    by (auto simp: sleep_prepare_def Let_def enext_upd_proc)
  ultimately have q: "wq_queues ?s ?qs" using wq_queues_cong [of ?s ?t] by simp
  have e: "e_chan (entry ?s j) = (if j = me then c else e_chan (entry s j))"
    "e_proc (entry ?s j) = (if j = me then me else e_proc (entry s j))"
    "e_queued (entry ?s j) = (if j = me then 1 else e_queued (entry s j))" for j
    using wq_frame_entry [OF wq_add_frame [of me s ?b c], of j]
    by (auto simp: sleep_prepare_entry wq_add_entry)
  have "queued_ok ?s b i" if "b < NWQUEUE" "i \<in> set (?qs b)" for b i
  proof (cases "i = me")
    case True
    then have "b = ?b" using that ni by (auto split: if_splits)
    then show ?thesis
      using True me by (simp add: queued_ok_def e sleep_prepare_state wq_bucket_for_def)
  next
    case False
    then have "i \<in> set (qs b)" using that by (auto split: if_splits)
    then have "queued_ok s b i" using that inv sched_inv_queued by blast
    with False show ?thesis by (simp add: queued_ok_def e sleep_prepare_state)
  qed
  moreover have "i \<in> set (?qs (wq_hash (p_chan (procs ?s i))))"
    if "i < NPROC" "p_state (procs ?s i) = SLEEPING" for i
    using that inv by (auto simp: sched_inv_def sleep_prepare_state wq_bucket_for_def split: if_splits)
  ultimately show ?thesis using q by (simp add: sched_inv_def)
qed

text \<open>Updates of a process that neither is nor becomes asleep keep the invariant.\<close>

lemma sched_inv_upd_proc:
  assumes "sched_inv s qs" "p_state (procs s i) \<noteq> SLEEPING" "p_state (f (procs s i)) \<noteq> SLEEPING"
    and "\<And>p. p_wq_entry (f p) = p_wq_entry p"
  shows "sched_inv (upd_proc i f s) qs"
proof -
  have "wq_queues (upd_proc i f s) qs"
    using wq_queues_cong [of "upd_proc i f s" s qs] assms by (simp add: enext_upd_proc sched_inv_def)
  moreover have "queued_ok (upd_proc i f s) b j" if "queued_ok s b j" for b j
    using that assms(2) by (auto simp: queued_ok_def)
  ultimately show ?thesis
    using assms by (auto simp: sched_inv_def)
qed

lemma sched_inv_cong:
  assumes "procs s' = procs s" "buckets s' = buckets s"
  shows "sched_inv s' qs \<longleftrightarrow> sched_inv s qs"
proof -
  have "enext s' = enext s" by (rule ext) (simp add: enext_def assms(1))
  then have "wq_queues s' qs \<longleftrightarrow> wq_queues s qs"
    using wq_queues_cong [of s' s qs] assms(2) by simp
  then show ?thesis by (simp add: sched_inv_def queued_ok_def assms(1))
qed

section \<open>Initialisation\<close>

lemma fold_upd_proc:
  "distinct xs \<Longrightarrow>
   procs (fold (\<lambda>i. upd_proc i (f i)) xs s) j = (if j \<in> set xs then f j (procs s j) else procs s j)"
  "buckets (fold (\<lambda>i. upd_proc i (f i)) xs s) = buckets s"
  by (induction xs arbitrary: s) auto

lemma procs_wq_init [simp]: "procs (wq_init s) = procs s"
proof -
  have "procs (fold (\<lambda>i. set_head i None) xs s) = procs s" for xs
    by (induction xs arbitrary: s) auto
  then show ?thesis by (simp add: wq_init_def)
qed

lemma procinit_procs: "procs (procinit s) j = (if j < NPROC then procinit_entry j (procs s j) else procs s j)"
  by (simp add: procinit_def fold_upd_proc)

lemma procinit_inv: "sched_inv (procinit s) (\<lambda>_. [])"
proof -
  have "wq_queues (procinit s) (\<lambda>_. [])"
    by (simp add: wq_queues_def wq_queue_def procinit_def fold_upd_proc wq_init_def fold_set_head)
  then show ?thesis by (simp add: sched_inv_def procinit_procs procinit_entry_def)
qed

section \<open>The reference scan\<close>

lemma fold_scan_procs:
  "distinct xs \<Longrightarrow>
   procs (fold (\<lambda>i s. if sleeps_on s i c then make_runnable i s else s) xs s) j =
     (if j \<in> set xs \<and> sleeps_on s j c then (procs s j)\<lparr>p_state := RUNNABLE\<rparr> else procs s j)"
proof (induction xs arbitrary: s)
  case (Cons x xs)
  then show ?case by (auto simp: sleeps_on_def)
qed simp

lemma wakeup_scan_procs:
  "procs (wakeup_scan c s) j =
     (if j < NPROC \<and> sleeps_on s j c then (procs s j)\<lparr>p_state := RUNNABLE\<rparr> else procs s j)"
  by (simp add: wakeup_scan_def fold_scan_procs)

lemma woken_scan:
  assumes inv: "sched_inv s qs" and w: "woken c (qs (wq_bucket_for c)) s s'"
  shows "pcore (procs s' j) = pcore (procs (wakeup_scan c s) j)"
proof -
  have "j \<in> set (qs (wq_bucket_for c)) \<and> p_chan (procs s j) = c \<longleftrightarrow> j < NPROC \<and> sleeps_on s j c"
    using sleeps_on_iff [OF inv] sched_inv_queued [OF inv wq.bucket_less] by (auto simp: queued_ok_def)
  then show ?thesis using w by (simp add: woken_def wakeup_scan_procs)
qed

section \<open>Properties\<close>

lemma wakeup_spec:
  assumes "sched_inv s qs"
  shows "\<exists>s'. wakeup c s = Some s' \<and>
    (\<forall>j. pcore (procs s' j) = pcore (procs (wakeup_scan c s) j)) \<and>
    sched_inv s' (qs(wq_bucket_for c := filter (\<lambda>j. p_chan (procs s j) \<noteq> c) (qs (wq_bucket_for c)))) \<and>
    wake_frame s s'"
proof -
  let ?b = "wq_bucket_for c"
  obtain s' where s': "wakeup_loop ?b c (hd_opt (qs ?b)) s = Some s'"
      "sched_inv s' (qs(?b := [] @ filter (\<lambda>j. p_chan (procs s j) \<noteq> c) (qs ?b)))"
      "woken c (qs ?b) s s'" "wake_frame s s'"
    using wakeup_loop_spec [OF assms wq.bucket_less, where zs = "[]" and ys = "qs ?b"] by auto
  have "wakeup c s = Some s'"
    using s'(1) bucket_head [OF assms] by (simp add: wakeup_def)
  with s' woken_scan [OF assms s'(3)] show ?thesis by auto
qed

text \<open>
  (C2) \<^verbatim>\<open>wakeup\<close> over the hash buckets is equivalent to the original scan of the whole process
  table: on every state satisfying the queue invariant it returns, every process ends in exactly
  the state the reference scan gives it, the woken processes leave their bucket, and nothing but
  process states and wait-queue links changes.
\<close>

theorem wakeup_refines_scan:
  assumes "sched_inv s qs"
  shows "\<exists>s'. wakeup c s = Some s' \<and>
    (\<forall>j. pcore (procs s' j) = pcore (procs (wakeup_scan c s) j)) \<and>
    sched_inv s' (qs(wq_bucket_for c := filter (\<lambda>j. p_chan (procs s j) \<noteq> c) (qs (wq_bucket_for c)))) \<and>
    wake_frame s s'"
  using assms by (rule wakeup_spec)

text \<open>
  A concrete machine for witnesses: the zeroed kernel after \<^verbatim>\<open>procinit\<close>, with processes 1, 2 and
  3 running; then 1 and 2 go to sleep on one channel and 3 on another.
\<close>

definition zero_proc :: proc where
  "zero_proc = \<lparr>p_state = UNUSED, p_chan = 0, p_killed = 0, p_xstate = 0, p_pid = 0,
     p_parent = None, p_kstack = 0, p_sz = 0, p_pagetable = 0, p_trapframe = 0,
     p_context = \<lparr>ctx_ra = 0, ctx_sp = 0, ctx_s = replicate 12 0\<rparr>,
     p_ofile = replicate 16 None, p_cwd = None,
     p_wq_entry = \<lparr>e_proc = 0, e_chan = 0, e_next = None, e_queued = 0\<rparr>, p_name = replicate 16 0\<rparr>"

definition zero_cpu :: cpu where
  "zero_cpu = \<lparr>c_proc = None, c_context = \<lparr>ctx_ra = 0, ctx_sp = 0, ctx_s = replicate 12 0\<rparr>,
     c_noff = 0, c_intena = False, c_sie = False\<rparr>"

definition zero_kstate :: kstate where
  "zero_kstate = \<lparr>mem = (\<lambda>_. 0), freelist = 0, procs = (\<lambda>_. zero_proc), cpus = (\<lambda>_. zero_cpu),
     buckets = (\<lambda>_. None), nextpid = 1, initproc = None, ticks = 0, kend = 0x80100000\<rparr>"

definition demo_run :: kstate where
  "demo_run = fold (\<lambda>i. upd_proc i (\<lambda>p. p\<lparr>p_state := RUNNING, p_pid := of_nat i\<rparr>)) [1,2,3] (procinit zero_kstate)"

definition demo_sleep :: kstate where
  "demo_sleep = sleep_prepare 3 0x80011008 (sleep_prepare 2 0x80010000 (sleep_prepare 1 0x80010000 demo_run))"

definition demo_queues :: "nat \<Rightarrow> nat list" where
  "demo_queues = (\<lambda>_. [])(0 := [2, 1], 1 := [3])"

lemma demo_run_state:
  "p_state (procs demo_run j) = (if j \<in> {1,2,3} then RUNNING else UNUSED)"
  "p_pid (procs demo_run j) = (if j \<in> {1,2,3} then of_nat j else 0)"
  by (auto simp: demo_run_def procinit_procs procinit_entry_def zero_kstate_def zero_proc_def)

lemma demo_run_inv: "sched_inv demo_run (\<lambda>_. [])"
  unfolding demo_run_def fold_simps
  by (intro sched_inv_upd_proc procinit_inv)
    (simp_all add: procinit_procs procinit_entry_def zero_kstate_def zero_proc_def)

lemma demo_buckets: "wq_bucket_for 0x80010000 = 0" "wq_bucket_for 0x80011008 = 1"
  by (simp_all add: wq_bucket_for_def wq_hash_def NWQUEUE_def)

lemma demo_sleep_state:
  "p_state (procs demo_sleep j) = (if j \<in> {1,2,3} then SLEEPING else UNUSED)"
  "j \<in> {1,2} \<Longrightarrow> p_chan (procs demo_sleep j) = 0x80010000"
  "p_chan (procs demo_sleep 3) = 0x80011008"
  "p_pid (procs demo_sleep j) = (if j \<in> {1,2,3} then of_nat j else 0)"
proof -
  have "p_pid (procs (sleep_prepare me c s) j) = p_pid (procs s j)" for me c and s :: kstate
    using arg_cong [OF sleep_prepare_procs [of me c s j], of p_pid] by (auto split: if_splits)
  then show "p_pid (procs demo_sleep j) = (if j \<in> {1,2,3} then of_nat j else 0)"
    by (simp add: demo_sleep_def demo_run_state)
qed (auto simp: demo_sleep_def sleep_prepare_state demo_run_state)

lemma demo_sleep_inv: "sched_inv demo_sleep demo_queues"
proof -
  have 1: "sched_inv (sleep_prepare 1 0x80010000 demo_run) ((\<lambda>_. [])(0 := [1]))"
    using sleep_prepare_inv [OF demo_run_inv, of 1 "0x80010000"]
    by (simp add: demo_run_state NPROC_def demo_buckets)
  have 2: "sched_inv (sleep_prepare 2 0x80010000 (sleep_prepare 1 0x80010000 demo_run)) ((\<lambda>_. [])(0 := [2, 1]))"
    using sleep_prepare_inv [OF 1, of 2 "0x80010000"]
    by (simp add: sleep_prepare_state demo_run_state NPROC_def demo_buckets)
  show ?thesis
    using sleep_prepare_inv [OF 2, of 3 "0x80011008"]
    by (simp add: sleep_prepare_state demo_run_state NPROC_def demo_buckets demo_sleep_def demo_queues_def)
qed

theorem wakeup_refines_scan_witness:
  "\<exists>s'. wakeup 0x80010000 demo_sleep = Some s' \<and> p_state (procs s' 1) = RUNNABLE \<and>
     p_state (procs s' 2) = RUNNABLE \<and> p_state (procs s' 3) = SLEEPING"
proof -
  obtain s' where s': "wakeup 0x80010000 demo_sleep = Some s'"
      "\<forall>j. pcore (procs s' j) = pcore (procs (wakeup_scan 0x80010000 demo_sleep) j)"
    using wakeup_refines_scan [OF demo_sleep_inv, of "0x80010000"] by blast
  have "p_state (procs s' j) = p_state (procs (wakeup_scan 0x80010000 demo_sleep) j)" for j
    using s'(2) pcore_eqD by blast
  with s'(1) show ?thesis
    by (simp add: wakeup_scan_procs sleeps_on_def demo_sleep_state NPROC_def)
qed

lemma wakeup_one_spec:
  assumes "sched_inv s qs"
  shows "\<exists>s'. wakeup_one c s = Some s' \<and>
    (case find (\<lambda>j. p_chan (procs s j) = c) (qs (wq_bucket_for c)) of
       None \<Rightarrow> s' = s \<and> (\<forall>j<NPROC. \<not> sleeps_on s j c)
     | Some i \<Rightarrow> i < NPROC \<and> sleeps_on s i c \<and>
         sched_inv s' (qs(wq_bucket_for c := remove1 i (qs (wq_bucket_for c)))) \<and>
         (\<forall>j. pcore (procs s' j) =
            (if j = i then (pcore (procs s i))\<lparr>p_state := RUNNABLE\<rparr> else pcore (procs s j))))"
proof -
  let ?b = "wq_bucket_for c" and ?f = "\<lambda>j. p_chan (procs s j) = c"
  have eq: "wakeup_one c s = (case find ?f (qs ?b) of None \<Rightarrow> Some s
      | Some i \<Rightarrow> wq_remove_locked ?b i (make_runnable i s))"
    using wakeup_one_loop_spec [OF assms wq.bucket_less, where zs = "[]" and ys = "qs ?b"]
      bucket_head [OF assms, of c] by (simp add: wakeup_one_def Let_def)
  show ?thesis
  proof (cases "find ?f (qs ?b)")
    case None
    then have "\<forall>j<NPROC. \<not> sleeps_on s j c"
      using sleeps_on_iff [OF assms] by (auto simp: find_None_iff)
    with None eq show ?thesis by simp
  next
    case (Some i)
    then have i: "i \<in> set (qs ?b)" "p_chan (procs s i) = c" by (auto simp: find_Some_iff)
    then have ok: "queued_ok s ?b i" using sched_inv_queued [OF assms wq.bucket_less] by blast
    obtain s' where "wq_remove_locked ?b i (make_runnable i s) = Some s'"
        "sched_inv s' (qs(?b := remove1 i (qs ?b)))" "wq_frame {i} (make_runnable i s) s'"
      using wake_entry [OF assms wq.bucket_less i(1)] by blast
    with Some eq ok i(2) show ?thesis
      by (auto simp: queued_ok_def sleeps_on_def wake_entry_pcore simp del: fun_upd_apply)
  qed
qed

text \<open>
  (C13) \<^verbatim>\<open>wakeup_one\<close> wakes at most one process. If no process sleeps on the channel it changes
  nothing; otherwise it wakes exactly one, the first matching entry of the bucket (the most recent
  sleeper, since \<^verbatim>\<open>wq_add_locked\<close> adds at the head), removes exactly this entry and leaves every
  other process as it was.
\<close>

theorem wakeup_one_wakes_one:
  assumes "sched_inv s qs"
  shows "\<exists>s'. wakeup_one c s = Some s' \<and>
    (case find (\<lambda>j. p_chan (procs s j) = c) (qs (wq_bucket_for c)) of
       None \<Rightarrow> s' = s \<and> (\<forall>j<NPROC. \<not> sleeps_on s j c)
     | Some i \<Rightarrow> i < NPROC \<and> sleeps_on s i c \<and>
         sched_inv s' (qs(wq_bucket_for c := remove1 i (qs (wq_bucket_for c)))) \<and>
         (\<forall>j. pcore (procs s' j) =
            (if j = i then (pcore (procs s i))\<lparr>p_state := RUNNABLE\<rparr> else pcore (procs s j))))"
  using assms by (rule wakeup_one_spec)

theorem wakeup_one_wakes_one_witness:
  "\<exists>s'. wakeup_one 0x80010000 demo_sleep = Some s' \<and> p_state (procs s' 2) = RUNNABLE \<and>
     p_state (procs s' 1) = SLEEPING \<and> p_state (procs s' 3) = SLEEPING"
proof -
  have f: "find (\<lambda>j. p_chan (procs demo_sleep j) = 0x80010000) (demo_queues (wq_bucket_for 0x80010000)) = Some 2"
    by (simp add: demo_buckets demo_queues_def demo_sleep_state)
  then obtain s' where s': "wakeup_one 0x80010000 demo_sleep = Some s'"
      "\<forall>j. pcore (procs s' j) = (if j = 2 then (pcore (procs demo_sleep 2))\<lparr>p_state := RUNNABLE\<rparr>
         else pcore (procs demo_sleep j))"
    using wakeup_one_wakes_one [OF demo_sleep_inv, of "0x80010000"] by auto
  have "p_state (procs s' j) = (if j = 2 then RUNNABLE else p_state (procs demo_sleep j))" for j
    using arg_cong [OF s'(2) [rule_format, of j], of p_state] by (auto split: if_splits)
  with s'(1) show ?thesis by (simp add: demo_sleep_state)
qed

text \<open>
  (C14) The fast path is sound on a quiescent queue: if \<^verbatim>\<open>wq_has_sleeper\<close> answers 0 in a state
  satisfying the queue invariant, then no process sleeps on the channel and skipping \<^verbatim>\<open>wakeup\<close>
  or \<^verbatim>\<open>wakeup_one\<close> changes nothing.
\<close>

theorem fast_path_exact:
  assumes "sched_inv s qs" "\<not> wq_has_sleeper c s"
  shows "(\<forall>i<NPROC. \<not> sleeps_on s i c) \<and> wakeup_one c s = Some s \<and> wakeup c s = Some s"
proof -
  have e: "qs (wq_bucket_for c) = []"
    using sched_inv_queues [OF assms(1)] assms(2) by (rule wq.no_sleeper_empty)
  then have "\<forall>i<NPROC. \<not> sleeps_on s i c" using sleeps_on_iff [OF assms(1)] by simp
  moreover have "buckets s (wq_bucket_for c) = None" using assms(2) by (simp add: wq_has_sleeper_def)
  ultimately show ?thesis
    by (simp add: wakeup_one_def wakeup_def wakeup_one_loop.simps wakeup_loop.simps)
qed

theorem fast_path_exact_witness:
  "\<not> wq_has_sleeper 0x80010010 demo_sleep \<and> wakeup_one 0x80010010 demo_sleep = Some demo_sleep"
proof -
  have b: "wq_bucket_for 0x80010010 = 2" by (simp add: wq_bucket_for_def wq_hash_def NWQUEUE_def)
  have n: "\<not> wq_has_sleeper 0x80010010 demo_sleep"
    using wq.has_sleeper_law [OF sched_inv_queues [OF demo_sleep_inv], of "0x80010010"] b
    by (simp add: demo_queues_def)
  with fast_path_exact [OF demo_sleep_inv n] show ?thesis by blast
qed

text \<open>
  (C15) Sleeping and waking are inverse on the queues: after a running process goes to sleep on a
  channel, one \<^verbatim>\<open>wakeup_one\<close> on this channel wakes this very process, restores every bucket to its
  list before the sleep, and changes no other process.
\<close>

theorem sleep_wakeup_one_roundtrip:
  assumes "sched_inv s qs" "me < NPROC" "p_state (procs s me) \<noteq> SLEEPING"
  shows "\<exists>s'. wakeup_one c (sleep_prepare me c s) = Some s' \<and> sched_inv s' qs \<and>
    p_state (procs s' me) = RUNNABLE \<and> (\<forall>j. j \<noteq> me \<longrightarrow> pcore (procs s' j) = pcore (procs s j))"
proof -
  let ?b = "wq_bucket_for c"
  note inv = sleep_prepare_inv [OF assms, of c]
  have f: "find (\<lambda>j. p_chan (procs (sleep_prepare me c s) j) = c) ((qs(?b := me # qs ?b)) ?b) = Some me"
    by (simp add: sleep_prepare_state)
  have r: "(qs(?b := me # qs ?b))(?b := remove1 me ((qs(?b := me # qs ?b)) ?b)) = qs"
    by (simp add: fun_upd_idem)
  obtain s' where s': "wakeup_one c (sleep_prepare me c s) = Some s'" "sched_inv s' qs"
      "\<forall>j. pcore (procs s' j) = (if j = me then (pcore (procs (sleep_prepare me c s) me))\<lparr>p_state := RUNNABLE\<rparr>
         else pcore (procs (sleep_prepare me c s) j))"
    using wakeup_one_spec [OF inv, of c] unfolding f option.case r by blast
  have "p_state (procs s' me) = RUNNABLE"
    using arg_cong [OF s'(3) [rule_format, of me], of p_state] by simp
  with s' show ?thesis by (simp add: sleep_prepare_procs)
qed

theorem sleep_wakeup_one_roundtrip_witness:
  "\<exists>s'. wakeup_one 0x80010000 (sleep_prepare 1 0x80010000 demo_run) = Some s' \<and>
     p_state (procs s' 1) = RUNNABLE \<and> sched_inv s' (\<lambda>_. [])"
  using sleep_wakeup_one_roundtrip [OF demo_run_inv, of 1 "0x80010000"]
  by (auto simp: demo_run_state NPROC_def)

lemma sched_inv_setkilled: "sched_inv s qs \<Longrightarrow> sched_inv (setkilled i s) qs"
proof -
  assume inv: "sched_inv s qs"
  have "wq_queues (setkilled i s) qs"
    using inv wq_queues_cong [of "setkilled i s" s qs]
    by (simp add: setkilled_def enext_upd_proc sched_inv_def)
  moreover have "queued_ok (setkilled i s) b j \<longleftrightarrow> queued_ok s b j" for b j
    by (simp add: queued_ok_def setkilled_def)
  moreover have "p_state (procs (setkilled i s) j) = p_state (procs s j)"
    "p_chan (procs (setkilled i s) j) = p_chan (procs s j)" for j
    by (simp_all add: setkilled_def)
  ultimately show ?thesis using inv by (simp add: sched_inv_def)
qed

lemma kkill_loop_eq:
  "kkill_loop is pid s =
     (case find (\<lambda>i. p_pid (procs s i) = pid) is of
        None \<Rightarrow> Some (-1, s)
      | Some i \<Rightarrow> (let t = setkilled i s in
          if p_state (procs t i) = SLEEPING
          then map_option (\<lambda>s. (0, s)) (wakeup (p_chan (procs t i)) t)
          else Some (0, t)))"
  by (induction "is") (auto simp: Let_def)



end
