(* ===== verification/SleepWakeup.thy ===== *)
theory SleepWakeup
  imports Sched
begin

text \<open>
  The interleaving of \<^verbatim>\<open>sleep\<close> with \<^verbatim>\<open>wakeup\<close>, at the granularity of single lock operations. Any
  number of processes run one of two programs on one channel \<open>ch\<close> guarded by a condition lock
  \<open>lk\<close>: a waiter, \<^verbatim>\<open>acquire(lk); while(!cond) sleep(ch, lk); release(lk)\<close>, and a waker,
  \<^verbatim>\<open>acquire(lk); cond = 1; wakeup(ch); release(lk)\<close>. The waker calls \<^verbatim>\<open>wakeup\<close> directly (mode
  \<open>Locked\<close>: the log, the console, sleep locks, the timer, wait and exit), or, as \<^verbatim>\<open>kernel/pipe.c\<close>
  does, \<^verbatim>\<open>if(wq_has_sleeper(ch)) wakeup_one(ch)\<close> (mode \<open>FastPath\<close>). The program counters follow
  the statements of \<^verbatim>\<open>sleep\<close>, \<^verbatim>\<open>wakeup\<close> and \<^verbatim>\<open>wakeup_one\<close> in \<^verbatim>\<open>kernel/proc.c\<close>. The updates of
  \<^verbatim>\<open>sleep\<close> between \<^verbatim>\<open>release(lk)\<close> and \<^verbatim>\<open>release(&b->lock)\<close> are one step: they are made under both
  the bucket lock and \<^verbatim>\<open>p->lock\<close>, and the only reader that takes neither lock, the fast path,
  reads the bucket head alone, which they write once.
\<close>

datatype mode = Locked | FastPath

datatype pc =
    WAcquire            \<comment> \<open>waiter: about to \<^verbatim>\<open>acquire(lk)\<close>\<close>
  | WTest               \<comment> \<open>holds \<open>lk\<close>: about to test the condition\<close>
  | SBucket             \<comment> \<open>in \<^verbatim>\<open>sleep\<close>: about to \<^verbatim>\<open>acquire(&b->lock)\<close>\<close>
  | SProc               \<comment> \<open>about to \<^verbatim>\<open>acquire(&p->lock)\<close>\<close>
  | SRelLk              \<comment> \<open>about to \<^verbatim>\<open>release(lk)\<close>\<close>
  | SAdd                \<comment> \<open>about to enqueue and mark itself \<open>SLEEPING\<close>\<close>
  | SRelBucket          \<comment> \<open>about to \<^verbatim>\<open>release(&b->lock)\<close>\<close>
  | SSched              \<comment> \<open>about to switch away in \<^verbatim>\<open>sched\<close>; the scheduler releases \<^verbatim>\<open>p->lock\<close>\<close>
  | SAsleep             \<comment> \<open>switched out\<close>
  | SResume             \<comment> \<open>running again: about to tidy up and \<^verbatim>\<open>release(&p->lock)\<close>\<close>
  | SReacquire          \<comment> \<open>about to \<^verbatim>\<open>acquire(lk)\<close> at the end of \<^verbatim>\<open>sleep\<close>\<close>
  | WRelease            \<comment> \<open>condition seen true: about to \<^verbatim>\<open>release(lk)\<close>\<close>
  | KAcquire            \<comment> \<open>waker: about to \<^verbatim>\<open>acquire(lk)\<close>\<close>
  | KSet                \<comment> \<open>about to make the condition true\<close>
  | KFast               \<comment> \<open>about to test \<^verbatim>\<open>wq_has_sleeper\<close>\<close>
  | KBucket             \<comment> \<open>in \<^verbatim>\<open>wakeup\<close>: about to \<^verbatim>\<open>acquire(&b->lock)\<close>\<close>
  | KLoop "nat option"  \<comment> \<open>head of the loop, with the C variable \<^verbatim>\<open>e\<close>\<close>
  | KLock nat "nat option" \<comment> \<open>\<^verbatim>\<open>e\<close> and \<^verbatim>\<open>next\<close>: about to \<^verbatim>\<open>acquire(&e->proc->lock)\<close>\<close>
  | KWake nat "nat option" \<comment> \<open>holds \<^verbatim>\<open>e->proc->lock\<close>: test, wake, remove, release\<close>
  | KRelBucket          \<comment> \<open>about to \<^verbatim>\<open>release(&b->lock)\<close>\<close>
  | KRelease            \<comment> \<open>about to \<^verbatim>\<open>release(lk)\<close>\<close>
  | Done

record sys =
  ks :: kstate
  lk :: "nat option"
  blk :: "nat option"
  plk :: "nat \<Rightarrow> nat option"
  cond :: bool
  pcs :: "nat \<Rightarrow> pc"

definition goto :: "nat \<Rightarrow> pc \<Rightarrow> sys \<Rightarrow> sys" where
  "goto t p s = s\<lparr>pcs := (pcs s)(t := p)\<rparr>"

inductive step :: "mode \<Rightarrow> chan \<Rightarrow> sys \<Rightarrow> sys \<Rightarrow> bool" for md ch where
  w_acquire: "pcs s t = WAcquire \<Longrightarrow> t < NPROC \<Longrightarrow> lk s = None \<Longrightarrow>
     step md ch s (goto t WTest (s\<lparr>lk := Some t\<rparr>))"
| w_true: "pcs s t = WTest \<Longrightarrow> cond s \<Longrightarrow> step md ch s (goto t WRelease s)"
| w_false: "pcs s t = WTest \<Longrightarrow> \<not> cond s \<Longrightarrow> step md ch s (goto t SBucket s)"
| s_bucket: "pcs s t = SBucket \<Longrightarrow> blk s = None \<Longrightarrow>
     step md ch s (goto t SProc (s\<lparr>blk := Some t\<rparr>))"
| s_proc: "pcs s t = SProc \<Longrightarrow> plk s t = None \<Longrightarrow>
     step md ch s (goto t SRelLk (s\<lparr>plk := (plk s)(t := Some t)\<rparr>))"
| s_rel_lk: "pcs s t = SRelLk \<Longrightarrow> step md ch s (goto t SAdd (s\<lparr>lk := None\<rparr>))"
| s_add: "pcs s t = SAdd \<Longrightarrow> t < NPROC \<Longrightarrow>
     step md ch s (goto t SRelBucket (s\<lparr>ks := sleep_prepare t ch (ks s)\<rparr>))"
| s_rel_bucket: "pcs s t = SRelBucket \<Longrightarrow> step md ch s (goto t SSched (s\<lparr>blk := None\<rparr>))"
| s_sched: "pcs s t = SSched \<Longrightarrow>
     step md ch s (goto t SAsleep (s\<lparr>plk := (plk s)(t := None)\<rparr>))"
| s_dispatch: "pcs s t = SAsleep \<Longrightarrow> plk s t = None \<Longrightarrow> p_state (procs (ks s) t) = RUNNABLE \<Longrightarrow>
     step md ch s (goto t SResume (s\<lparr>plk := (plk s)(t := Some t),
       ks := upd_proc t (\<lambda>p. p\<lparr>p_state := RUNNING\<rparr>) (ks s)\<rparr>))"
| s_resume: "pcs s t = SResume \<Longrightarrow>
     step md ch s (goto t SReacquire (s\<lparr>plk := (plk s)(t := None), ks := sleep_finish t (ks s)\<rparr>))"
| s_reacquire: "pcs s t = SReacquire \<Longrightarrow> lk s = None \<Longrightarrow>
     step md ch s (goto t WTest (s\<lparr>lk := Some t\<rparr>))"
| w_release: "pcs s t = WRelease \<Longrightarrow> step md ch s (goto t Done (s\<lparr>lk := None\<rparr>))"
| k_acquire: "pcs s t = KAcquire \<Longrightarrow> lk s = None \<Longrightarrow>
     step md ch s (goto t KSet (s\<lparr>lk := Some t\<rparr>))"
| k_set: "pcs s t = KSet \<Longrightarrow>
     step md ch s (goto t (case md of Locked \<Rightarrow> KBucket | FastPath \<Rightarrow> KFast) (s\<lparr>cond := True\<rparr>))"
| k_fast: "pcs s t = KFast \<Longrightarrow>
     step md ch s (goto t (if wq_has_sleeper ch (ks s) then KBucket else KRelease) s)"
| k_bucket: "pcs s t = KBucket \<Longrightarrow> blk s = None \<Longrightarrow>
     step md ch s (goto t (KLoop (buckets (ks s) (wq_bucket_for ch))) (s\<lparr>blk := Some t\<rparr>))"
| k_end: "pcs s t = KLoop None \<Longrightarrow> step md ch s (goto t KRelBucket s)"
| k_match: "pcs s t = KLoop (Some i) \<Longrightarrow> e_chan (entry (ks s) i) = ch \<Longrightarrow>
     step md ch s (goto t (KLock i (enext (ks s) i)) s)"
| k_skip: "pcs s t = KLoop (Some i) \<Longrightarrow> e_chan (entry (ks s) i) \<noteq> ch \<Longrightarrow>
     step md ch s (goto t (KLoop (enext (ks s) i)) s)"
| k_lock: "pcs s t = KLock i nx \<Longrightarrow> plk s (e_proc (entry (ks s) i)) = None \<Longrightarrow>
     step md ch s (goto t (KWake i nx) (s\<lparr>plk := (plk s)(e_proc (entry (ks s) i) := Some t)\<rparr>))"
| k_wake: "pcs s t = KWake i nx \<Longrightarrow> q = e_proc (entry (ks s) i) \<Longrightarrow> sleeps_on (ks s) q ch \<Longrightarrow>
     wq_remove_locked (wq_bucket_for ch) i (make_runnable q (ks s)) = Some k \<Longrightarrow>
     step md ch s (goto t (case md of Locked \<Rightarrow> KLoop nx | FastPath \<Rightarrow> KRelBucket)
       (s\<lparr>plk := (plk s)(q := None), ks := k\<rparr>))"
| k_nowake: "pcs s t = KWake i nx \<Longrightarrow> q = e_proc (entry (ks s) i) \<Longrightarrow> \<not> sleeps_on (ks s) q ch \<Longrightarrow>
     step md ch s (goto t (KLoop nx) (s\<lparr>plk := (plk s)(q := None)\<rparr>))"
| k_rel_bucket: "pcs s t = KRelBucket \<Longrightarrow> step md ch s (goto t KRelease (s\<lparr>blk := None\<rparr>))"
| k_release: "pcs s t = KRelease \<Longrightarrow> step md ch s (goto t Done (s\<lparr>lk := None\<rparr>))"

text \<open>
  The start: no lock held, the condition false, every process at the beginning of its program (or
  not taking part), and nobody asleep on the channel.
\<close>

definition starts :: "chan \<Rightarrow> sys \<Rightarrow> bool" where
  "starts ch s \<longleftrightarrow>
     lk s = None \<and> blk s = None \<and> plk s = (\<lambda>_. None) \<and> \<not> cond s \<and>
     (\<forall>t. pcs s t \<in> {WAcquire, KAcquire, Done}) \<and>
     (\<forall>t. pcs s t \<noteq> Done \<longrightarrow> t < NPROC \<and> p_state (procs (ks s) t) = RUNNING) \<and>
     (\<forall>t. \<not> sleeps_on (ks s) t ch) \<and> (\<exists>qs. sched_inv (ks s) qs)"

inductive reachable :: "mode \<Rightarrow> chan \<Rightarrow> sys \<Rightarrow> bool" for md ch where
  start: "starts ch s \<Longrightarrow> reachable md ch s"
| step: "reachable md ch s \<Longrightarrow> step md ch s s' \<Longrightarrow> reachable md ch s'"

section \<open>The invariant\<close>

definition holds_lk :: "pc \<Rightarrow> bool" where
  "holds_lk p \<longleftrightarrow> (case p of
     WTest \<Rightarrow> True | SBucket \<Rightarrow> True | SProc \<Rightarrow> True | SRelLk \<Rightarrow> True | WRelease \<Rightarrow> True
   | KSet \<Rightarrow> True | KFast \<Rightarrow> True | KBucket \<Rightarrow> True | KLoop e \<Rightarrow> True | KLock i nx \<Rightarrow> True
   | KWake i nx \<Rightarrow> True | KRelBucket \<Rightarrow> True | KRelease \<Rightarrow> True | _ \<Rightarrow> False)"

definition holds_blk :: "pc \<Rightarrow> bool" where
  "holds_blk p \<longleftrightarrow> (case p of
     SProc \<Rightarrow> True | SRelLk \<Rightarrow> True | SAdd \<Rightarrow> True | SRelBucket \<Rightarrow> True
   | KLoop e \<Rightarrow> True | KLock i nx \<Rightarrow> True | KWake i nx \<Rightarrow> True | KRelBucket \<Rightarrow> True | _ \<Rightarrow> False)"

text \<open>A waker that has set the condition and not yet finished its scan.\<close>

definition waking :: "pc \<Rightarrow> bool" where
  "waking p \<longleftrightarrow> (case p of KBucket \<Rightarrow> True | KLoop e \<Rightarrow> True | KLock i nx \<Rightarrow> True | KWake i nx \<Rightarrow> True
   | _ \<Rightarrow> False)"

text \<open>What the program counter of process \<open>t\<close> says about its scheduling state.\<close>

definition thread_ok :: "chan \<Rightarrow> kstate \<Rightarrow> nat \<Rightarrow> pc \<Rightarrow> bool" where
  "thread_ok ch k t p \<longleftrightarrow>
     (if p \<in> {SRelBucket, SSched, SAsleep}
      then sleeps_on k t ch \<or> p_state (procs k t) = RUNNABLE
      else if p = Done then \<not> sleeps_on k t ch
      else p_state (procs k t) \<noteq> SLEEPING)"

text \<open>
  Where the scan of a waker stands in the bucket \<open>q\<close>: it has passed \<open>xs\<close>, none of which has the
  channel, and \<open>ys\<close> is still ahead of it.
\<close>

definition scan_ok :: "chan \<Rightarrow> kstate \<Rightarrow> nat list \<Rightarrow> pc \<Rightarrow> bool" where
  "scan_ok ch k q p \<longleftrightarrow>
     (\<exists>xs ys. q = xs @ ys \<and> (\<forall>i\<in>set xs. p_chan (procs k i) \<noteq> ch) \<and>
        (case p of
           KLoop e \<Rightarrow> e = hd_opt ys
         | KLock i nx \<Rightarrow> (\<exists>zs. ys = i # zs \<and> nx = hd_opt zs)
         | KWake i nx \<Rightarrow> (\<exists>zs. ys = i # zs \<and> nx = hd_opt zs)
         | _ \<Rightarrow> True))"

definition sw_inv :: "chan \<Rightarrow> sys \<Rightarrow> (nat \<Rightarrow> nat list) \<Rightarrow> bool" where
  "sw_inv ch s qs \<longleftrightarrow>
     sched_inv (ks s) qs \<and>
     (\<forall>t. holds_lk (pcs s t) \<longleftrightarrow> lk s = Some t) \<and>
     (\<forall>t. holds_blk (pcs s t) \<longleftrightarrow> blk s = Some t) \<and>
     (\<forall>t. thread_ok ch (ks s) t (pcs s t)) \<and>
     (\<forall>t. cond s \<longrightarrow> pcs s t \<notin> {SBucket, SProc, SRelLk}) \<and>
     (\<forall>t<NPROC. cond s \<longrightarrow> pcs s t = SAdd \<or> sleeps_on (ks s) t ch \<longrightarrow> (\<exists>w. waking (pcs s w))) \<and>
     (\<forall>t. scan_ok ch (ks s) (qs (wq_bucket_for ch)) (pcs s t))"

lemma pc_simps [simp]:
  "pcs (goto t p s) = (pcs s)(t := p)" "ks (goto t p s) = ks s" "lk (goto t p s) = lk s"
  "blk (goto t p s) = blk s" "plk (goto t p s) = plk s" "cond (goto t p s) = cond s"
  by (simp_all add: goto_def)

lemma sw_invI:
  assumes "sched_inv (ks s) qs" "pcs s = pf"
    and "\<And>u. holds_lk (pf u) \<longleftrightarrow> lk s = Some u" "\<And>u. holds_blk (pf u) \<longleftrightarrow> blk s = Some u"
    and "\<And>u. thread_ok ch (ks s) u (pf u)"
    and "\<And>u. cond s \<Longrightarrow> pf u \<notin> {SBucket, SProc, SRelLk}"
    and "\<And>u. cond s \<Longrightarrow> u < NPROC \<Longrightarrow> pf u = SAdd \<or> sleeps_on (ks s) u ch \<Longrightarrow> \<exists>w. waking (pf w)"
    and "\<And>u. scan_ok ch (ks s) (qs (wq_bucket_for ch)) (pf u)"
  shows "sw_inv ch s qs"
  using assms unfolding sw_inv_def by blast

lemma scan_ok_trivial:
  "\<not> holds_blk p \<or> p \<in> {SProc, SRelLk, SAdd, SRelBucket, KRelBucket} \<Longrightarrow> scan_ok ch k q p"
  unfolding scan_ok_def
  by (intro exI [of _ "[]"] exI [of _ q]) (auto simp: holds_blk_def split: pc.splits)

lemma scan_ok_cong:
  assumes "scan_ok ch k q p" "\<And>i. i \<in> set q \<Longrightarrow> p_chan (procs k' i) = p_chan (procs k i)"
  shows "scan_ok ch k' q p"
proof -
  obtain xs ys where x: "q = xs @ ys" "\<forall>i\<in>set xs. p_chan (procs k i) \<noteq> ch"
      "case p of KLoop e \<Rightarrow> e = hd_opt ys
       | KLock i nx \<Rightarrow> (\<exists>zs. ys = i # zs \<and> nx = hd_opt zs)
       | KWake i nx \<Rightarrow> (\<exists>zs. ys = i # zs \<and> nx = hd_opt zs)
       | _ \<Rightarrow> True"
    using assms(1) unfolding scan_ok_def by (elim exE conjE)
  have "\<forall>i\<in>set xs. p_chan (procs k' i) \<noteq> ch" using x(1,2) assms(2) by simp
  then show ?thesis unfolding scan_ok_def using x(1,3) by (intro exI conjI)
qed

lemma thread_ok_cong: "procs k' u = procs k u \<Longrightarrow> thread_ok ch k' u p \<longleftrightarrow> thread_ok ch k u p"
  by (simp add: thread_ok_def sleeps_on_def)

lemma scan_ok_start: "scan_ok ch k q (KLoop (hd_opt q))"
  unfolding scan_ok_def by (intro exI [of _ "[]"] exI [of _ q]) auto

lemmas pc_class = holds_lk_def holds_blk_def waking_def

text \<open>Steps that leave the kernel state and the condition alone.\<close>

lemma inv_goto:
  assumes "sw_inv ch s qs"
    and "\<And>u. holds_lk (((pcs s)(t := p)) u) \<longleftrightarrow> l = Some u"
    and "\<And>u. holds_blk (((pcs s)(t := p)) u) \<longleftrightarrow> b = Some u"
    and "thread_ok ch (ks s) t p"
    and "cond s \<Longrightarrow> p \<notin> {SBucket, SProc, SRelLk}"
    and "cond s \<Longrightarrow> (pcs s t = SAdd \<or> p \<noteq> SAdd)"
    and "cond s \<Longrightarrow> waking (pcs s t) \<Longrightarrow> \<not> waking p \<Longrightarrow>
       (\<forall>u<NPROC. pcs s u \<noteq> SAdd \<and> \<not> sleeps_on (ks s) u ch)"
    and "scan_ok ch (ks s) (qs (wq_bucket_for ch)) p"
  shows "sw_inv ch (goto t p (s\<lparr>lk := l, blk := b, plk := pl\<rparr>)) qs"
proof -
  have old: "sched_inv (ks s) qs" "\<And>u. thread_ok ch (ks s) u (pcs s u)" "\<And>u. cond s \<Longrightarrow> pcs s u \<notin> {SBucket, SProc, SRelLk}"
    "\<And>u. cond s \<Longrightarrow> u < NPROC \<Longrightarrow> pcs s u = SAdd \<or> sleeps_on (ks s) u ch \<Longrightarrow> \<exists>w. waking (pcs s w)"
    "\<And>u. scan_ok ch (ks s) (qs (wq_bucket_for ch)) (pcs s u)"
    using assms(1) unfolding sw_inv_def by blast+
  let ?s = "goto t p (s\<lparr>lk := l, blk := b, plk := pl\<rparr>)"
  have "\<exists>w. waking (pcs ?s w)" if c: "cond s" and n: "u < NPROC" and u: "pcs ?s u = SAdd \<or> sleeps_on (ks s) u ch" for u
  proof -
    have u': "pcs s u = SAdd \<or> sleeps_on (ks s) u ch" using u assms(6) [OF c] by (auto split: if_splits)
    then obtain w where w: "waking (pcs s w)" using old(4) c n by blast
    show ?thesis
    proof (cases "w = t \<and> \<not> waking p")
      case True
      then show ?thesis using assms(7) [OF c] w u' n by blast
    next
      case False
      then show ?thesis using w by (cases "w = t") (auto intro: exI [of _ w])
    qed
  qed
  then show ?thesis
    using old assms(2-5,8) unfolding sw_inv_def by simp
qed

text \<open>Steps of process \<open>t\<close> that change its own scheduling state while it is not asleep.\<close>

lemma inv_kernel:
  assumes "sw_inv ch s qs" and t: "p_state (procs (ks s) t) \<noteq> SLEEPING" "p_state (procs k t) \<noteq> SLEEPING"
    and k: "sched_inv k qs" "\<And>u. u \<noteq> t \<Longrightarrow> procs k u = procs (ks s) u"
    and "thread_ok ch k t p" "\<not> waking (pcs s t)" "p \<noteq> SAdd" "p \<notin> {SBucket, SProc, SRelLk}"
    and "holds_lk p = holds_lk (pcs s t)" "holds_blk p = holds_blk (pcs s t)" "\<not> holds_blk p"
  shows "sw_inv ch (goto t p (s\<lparr>plk := pl, ks := k\<rparr>)) qs"
proof -
  have old: "sched_inv (ks s) qs" "\<And>u. holds_lk (pcs s u) \<longleftrightarrow> lk s = Some u"
    "\<And>u. holds_blk (pcs s u) \<longleftrightarrow> blk s = Some u"
    "\<And>u. thread_ok ch (ks s) u (pcs s u)" "\<And>u. cond s \<Longrightarrow> pcs s u \<notin> {SBucket, SProc, SRelLk}"
    "\<And>u. cond s \<Longrightarrow> u < NPROC \<Longrightarrow> pcs s u = SAdd \<or> sleeps_on (ks s) u ch \<Longrightarrow> \<exists>w. waking (pcs s w)"
    "\<And>u. scan_ok ch (ks s) (qs (wq_bucket_for ch)) (pcs s u)"
    using assms(1) unfolding sw_inv_def by blast+
  let ?s = "goto t p (s\<lparr>plk := pl, ks := k\<rparr>)"
  have sl: "sleeps_on k u ch = sleeps_on (ks s) u ch" for u
    using t k(2) by (cases "u = t") (simp_all add: sleeps_on_def)
  have "t \<notin> set (qs (wq_bucket_for ch))"
    using sched_inv_queued [OF k(1) wq.bucket_less, of t ch] t by (auto simp: queued_ok_def)
  then have pc: "i \<in> set (qs (wq_bucket_for ch)) \<Longrightarrow> procs k i = procs (ks s) i" for i
    using k(2) by (cases "i = t") auto
  have "scan_ok ch k (qs (wq_bucket_for ch)) (pcs ?s u)" for u
  proof (cases "u = t")
    case True
    then show ?thesis using assms(12) by (simp add: scan_ok_trivial)
  next
    case False
    then show ?thesis using scan_ok_cong [OF old(7) [of u], of k] pc by simp
  qed
  moreover have "\<exists>w. waking (pcs ?s w)" if c: "cond s" and n: "u < NPROC" and u: "pcs ?s u = SAdd \<or> sleeps_on k u ch" for u
  proof -
    have "pcs s u = SAdd \<or> sleeps_on (ks s) u ch" using u assms(8) by (auto simp: sl split: if_splits)
    then obtain w where "waking (pcs s w)" using old(6) [OF c n] by blast
    then show ?thesis using assms(7) by (cases "w = t") (auto intro: exI [of _ w])
  qed
  moreover have "thread_ok ch k u (pcs ?s u)" for u
    using old(4) [of u] assms(6) thread_ok_cong [OF k(2), of u] by (cases "u = t") simp_all
  ultimately show ?thesis
    using old(2,3,5) assms(5,9,10,11) k(1) unfolding sw_inv_def by simp
qed

text \<open>Going to sleep: the new entry is in front of the bucket, which nobody else is scanning.\<close>

lemma inv_add:
  assumes i: "sw_inv ch s qs" and t: "pcs s t = SAdd" "t < NPROC"
  shows "sw_inv ch (goto t SRelBucket (s\<lparr>ks := sleep_prepare t ch (ks s)\<rparr>))
     (qs(wq_bucket_for ch := t # qs (wq_bucket_for ch)))"
proof -
  have old: "sched_inv (ks s) qs" "\<And>u. holds_lk (pcs s u) \<longleftrightarrow> lk s = Some u"
    "\<And>u. holds_blk (pcs s u) \<longleftrightarrow> blk s = Some u"
    "\<And>u. thread_ok ch (ks s) u (pcs s u)" "\<And>u. cond s \<Longrightarrow> pcs s u \<notin> {SBucket, SProc, SRelLk}"
    "\<And>u. cond s \<Longrightarrow> u < NPROC \<Longrightarrow> pcs s u = SAdd \<or> sleeps_on (ks s) u ch \<Longrightarrow> \<exists>w. waking (pcs s w)"
    using i unfolding sw_inv_def by blast+
  let ?k = "sleep_prepare t ch (ks s)"
  have ns: "p_state (procs (ks s) t) \<noteq> SLEEPING" using old(4) [of t] t by (simp add: thread_ok_def)
  have b: "blk s = Some t" using old(3) [of t] t by (simp add: holds_blk_def)
  have sl: "sleeps_on ?k u ch \<longleftrightarrow> u = t \<or> sleeps_on (ks s) u ch" for u
    by (simp add: sleeps_on_def sleep_prepare_state)
  have "scan_ok ch ?k q (((pcs s)(t := SRelBucket)) u)" for u q
    using old(3) [of u] b by (cases "u = t") (simp_all add: scan_ok_trivial)
  moreover have "\<exists>w. waking (((pcs s)(t := SRelBucket)) w)" if c: "cond s"
  proof -
    obtain w where "waking (pcs s w)" using old(6) [OF c t(2)] t by blast
    then show ?thesis using t by (cases "w = t") (auto simp: waking_def intro: exI [of _ w])
  qed
  moreover have "thread_ok ch ?k u (((pcs s)(t := SRelBucket)) u)" for u
    using old(4) [of u] by (cases "u = t") (simp_all add: thread_ok_def sl sleep_prepare_state)
  moreover have "holds_lk (((pcs s)(t := SRelBucket)) u) \<longleftrightarrow> lk s = Some u"
    "holds_blk (((pcs s)(t := SRelBucket)) u) \<longleftrightarrow> blk s = Some u" for u
    using old(2,3) [of u] t by (cases "u = t"; simp add: pc_class)+
  moreover have "((pcs s)(t := SRelBucket)) u \<notin> {SBucket, SProc, SRelLk}" if "cond s" for u
    using old(5) [OF that, of u] by auto
  ultimately show ?thesis
    using sleep_prepare_inv [OF old(1) t(2) ns, of ch]
    by (intro sw_invI [where pf = "(pcs s)(t := SRelBucket)"]) (simp_all del: fun_upd_apply)
qed

text \<open>Waking the entry under the scan: it leaves the bucket and the scan goes on behind it.\<close>

lemma inv_wake:
  assumes i: "sw_inv ch s qs" and t: "pcs s t = KWake j nx"
    and q: "q = e_proc (entry (ks s) j)" "sleeps_on (ks s) q ch"
    and k: "wq_remove_locked (wq_bucket_for ch) j (make_runnable q (ks s)) = Some k"
  shows "\<exists>qs'. sw_inv ch (goto t (KLoop nx) (s\<lparr>plk := pl, ks := k\<rparr>)) qs'"
proof -
  have old: "sched_inv (ks s) qs" "\<And>u. holds_lk (pcs s u) \<longleftrightarrow> lk s = Some u"
    "\<And>u. holds_blk (pcs s u) \<longleftrightarrow> blk s = Some u"
    "\<And>u. thread_ok ch (ks s) u (pcs s u)" "\<And>u. cond s \<Longrightarrow> pcs s u \<notin> {SBucket, SProc, SRelLk}"
    "\<And>u. scan_ok ch (ks s) (qs (wq_bucket_for ch)) (pcs s u)"
    using i unfolding sw_inv_def by blast+
  let ?b = "wq_bucket_for ch"
  obtain xs zs where xs: "qs ?b = xs @ j # zs" "nx = hd_opt zs" "\<forall>i\<in>set xs. p_chan (procs (ks s) i) \<noteq> ch"
    using old(6) [of t] t by (auto simp: scan_ok_def)
  have j: "j \<in> set (qs ?b)" using xs by simp
  have qj: "q = j" using sched_inv_queued [OF old(1) wq.bucket_less j] q by (simp add: queued_ok_def)
  obtain k' where k': "wq_remove_locked ?b j (make_runnable j (ks s)) = Some k'"
      "sched_inv k' (qs(?b := remove1 j (qs ?b)))" "wq_frame {j} (make_runnable j (ks s)) k'"
    using wake_entry [OF old(1) wq.bucket_less j] by blast
  have kk: "k' = k" using k k'(1) qj by simp
  have d: "distinct (qs ?b)" using wq.distinct_queue [OF sched_inv_queues [OF old(1)] wq.bucket_less] .
  then have r: "remove1 j (qs ?b) = xs @ zs" using xs by (simp add: remove1_append)
  note f = wq_frame_fields(1,2) [OF k'(3), unfolded kk]
  have b: "blk s = Some t" using old(3) [of t] t by (simp add: holds_blk_def)
  have "scan_ok ch k (xs @ zs) (((pcs s)(t := KLoop nx)) u)" for u
  proof (cases "u = t")
    case True
    moreover have "\<forall>i\<in>set xs. p_chan (procs k i) \<noteq> ch" using xs d by (auto simp: f)
    ultimately show ?thesis using xs(2) by (auto simp: scan_ok_def)
  next
    case False
    then show ?thesis using old(3) [of u] b by (simp add: scan_ok_trivial)
  qed
  moreover have "\<exists>w. waking (((pcs s)(t := KLoop nx)) w)" by (rule exI [of _ t]) (simp add: waking_def)
  moreover have "thread_ok ch k u (((pcs s)(t := KLoop nx)) u)" for u
    using old(4) [of u] old(4) [of t] t by (auto simp: thread_ok_def f sleeps_on_def)
  moreover have "holds_lk (((pcs s)(t := KLoop nx)) u) \<longleftrightarrow> lk s = Some u"
    "holds_blk (((pcs s)(t := KLoop nx)) u) \<longleftrightarrow> blk s = Some u" for u
    using old(2,3) [of u] t by (cases "u = t"; simp add: pc_class)+
  moreover have "((pcs s)(t := KLoop nx)) u \<notin> {SBucket, SProc, SRelLk}" if "cond s" for u
    using old(5) [OF that, of u] by auto
  ultimately have *: "sw_inv ch (goto t (KLoop nx) (s\<lparr>plk := pl, ks := k\<rparr>)) (qs(?b := xs @ zs))"
    using k'(2) unfolding kk r
    by (intro sw_invI [where pf = "(pcs s)(t := KLoop nx)"]) (simp_all del: fun_upd_apply add: fun_upd_same)
  show ?thesis by (rule exI, rule *)
qed

text \<open>Making the condition true starts a wakeup that is still to scan the bucket.\<close>

lemma inv_set:
  assumes i: "sw_inv ch s qs" and t: "pcs s t = KSet"
  shows "sw_inv ch (goto t KBucket (s\<lparr>cond := True\<rparr>)) qs"
proof -
  have old: "sched_inv (ks s) qs" "\<And>u. holds_lk (pcs s u) \<longleftrightarrow> lk s = Some u"
    "\<And>u. holds_blk (pcs s u) \<longleftrightarrow> blk s = Some u"
    "\<And>u. thread_ok ch (ks s) u (pcs s u)"
    "\<And>u. scan_ok ch (ks s) (qs (wq_bucket_for ch)) (pcs s u)"
    using i unfolding sw_inv_def by blast+
  let ?pf = "(pcs s)(t := KBucket)"
  have l: "lk s = Some t" using old(2) [of t] t by (simp add: holds_lk_def)
  have "?pf u \<notin> {SBucket, SProc, SRelLk}" for u
    using old(2) [of u] l by (cases "u = t") (auto simp: holds_lk_def)
  moreover have "holds_lk (?pf u) \<longleftrightarrow> lk s = Some u" "holds_blk (?pf u) \<longleftrightarrow> blk s = Some u" for u
    using old(2,3) [of u] t by (cases "u = t"; simp add: pc_class)+
  moreover have "thread_ok ch (ks s) u (?pf u)" for u
    using old(4) [of u] t by (cases "u = t") (simp_all add: thread_ok_def)
  moreover have "scan_ok ch (ks s) (qs (wq_bucket_for ch)) (?pf u)" for u
    using old(5) [of u] by (cases "u = t") (simp_all add: scan_ok_trivial holds_blk_def)
  moreover have "\<exists>w. waking (?pf w)" by (rule exI [of _ t]) (simp add: waking_def)
  ultimately show ?thesis
    using old(1) by (intro sw_invI [where pf = ?pf]) (simp_all del: fun_upd_apply)
qed

text \<open>A scan that has reached the end of the bucket leaves nobody asleep on the channel.\<close>

lemma scan_done:
  assumes i: "sw_inv ch s qs" and t: "pcs s t = KLoop None"
  shows "pcs s u \<noteq> SAdd" "u < NPROC \<Longrightarrow> \<not> sleeps_on (ks s) u ch"
proof -
  have h: "holds_blk (pcs s u) \<longleftrightarrow> blk s = Some u" for u
    using i unfolding sw_inv_def by blast
  have inv: "sched_inv (ks s) qs" using i unfolding sw_inv_def by blast
  have "scan_ok ch (ks s) (qs (wq_bucket_for ch)) (KLoop None)" using i t unfolding sw_inv_def by metis
  then obtain xs ys where x: "qs (wq_bucket_for ch) = xs @ ys"
      "\<forall>i\<in>set xs. p_chan (procs (ks s) i) \<noteq> ch" "None = hd_opt ys"
    by (auto simp: scan_ok_def)
  then have "ys = []" by (cases ys) auto
  then show "u < NPROC \<Longrightarrow> \<not> sleeps_on (ks s) u ch"
    using sleeps_on_iff [OF inv] x by auto
  show "pcs s u \<noteq> SAdd" using h [of u] h [of t] t by (auto simp: holds_blk_def)
qed

lemma lock_moves:
  assumes "\<And>u. h (pf u) \<longleftrightarrow> l = Some u"
  shows "h (pf t) = h p \<Longrightarrow> h ((pf(t := p)) u) \<longleftrightarrow> l = Some u"
    and "l = None \<Longrightarrow> h p \<Longrightarrow> h ((pf(t := p)) u) \<longleftrightarrow> Some t = Some u"
    and "h (pf t) \<Longrightarrow> \<not> h p \<Longrightarrow> h ((pf(t := p)) u) \<longleftrightarrow> None = Some u"
  using assms by auto

lemma sys_upd_simps [simp]:
  "s\<lparr>lk := lk s, blk := b, plk := pl\<rparr> = s\<lparr>blk := b, plk := pl\<rparr>"
  "s\<lparr>lk := l, blk := blk s, plk := pl\<rparr> = s\<lparr>lk := l, plk := pl\<rparr>"
  "s\<lparr>lk := l, plk := plk s\<rparr> = s\<lparr>lk := l\<rparr>" "s\<lparr>blk := b, plk := plk s\<rparr> = s\<lparr>blk := b\<rparr>"
  "s\<lparr>lk := lk s, plk := pl\<rparr> = s\<lparr>plk := pl\<rparr>" "s\<lparr>blk := blk s, plk := pl\<rparr> = s\<lparr>plk := pl\<rparr>"
  "(s\<lparr>plk := plk s\<rparr> :: sys) = s"
  by simp_all

lemma not_sleeping_on: "p_state (procs k t) \<noteq> SLEEPING \<Longrightarrow> \<not> sleeps_on k t ch"
  by (simp add: sleeps_on_def)

lemma scan_next:
  assumes "sched_inv k qs" "qs (wq_bucket_for ch) = xs @ i # zs"
  shows "enext k i = hd_opt zs" "queued_ok k (wq_bucket_for ch) i"
proof -
  have "wq_queue k (wq_bucket_for ch) (xs @ i # zs)"
    using sched_inv_queues [OF assms(1)] wq.bucket_less [of ch] assms(2) by (metis wq_queues_def)
  then show "enext k i = hd_opt zs" unfolding wq_queue_def by (rule chain_next)
  show "queued_ok k (wq_bucket_for ch) i"
    using sched_inv_queued [OF assms(1) wq.bucket_less] assms(2) by simp
qed

lemma scan_ok_loopD:
  assumes "scan_ok ch k q (KLoop (Some i))"
  obtains xs zs where "q = xs @ i # zs" "\<forall>j\<in>set xs. p_chan (procs k j) \<noteq> ch"
proof -
  obtain xs ys where x: "q = xs @ ys" "\<forall>j\<in>set xs. p_chan (procs k j) \<noteq> ch" "Some i = hd_opt ys"
    using assms by (auto simp: scan_ok_def)
  then obtain zs where "ys = i # zs" by (cases ys) auto
  with x that show thesis by blast
qed

lemma scan_ok_skip:
  assumes "q = xs @ i # zs" "\<forall>j\<in>set xs. p_chan (procs k j) \<noteq> ch" "p_chan (procs k i) \<noteq> ch"
  shows "scan_ok ch k q (KLoop (hd_opt zs))"
  unfolding scan_ok_def using assms by (intro exI [of _ "xs @ [i]"] exI [of _ zs]) simp

lemma scan_ok_match:
  assumes "q = xs @ i # zs" "\<forall>j\<in>set xs. p_chan (procs k j) \<noteq> ch"
  shows "scan_ok ch k q (KLock i (hd_opt zs))"
  unfolding scan_ok_def using assms by (intro exI [of _ xs] exI [of _ "i # zs"]) simp

text \<open>Every step of the program, with the plain \<^verbatim>\<open>wakeup\<close>, keeps the invariant.\<close>

lemma inv_step:
  assumes st: "step Locked ch s s'" and i: "sw_inv ch s qs"
  shows "\<exists>qs'. sw_inv ch s' qs'"
proof -
  have old: "sched_inv (ks s) qs" "\<And>u. holds_lk (pcs s u) \<longleftrightarrow> lk s = Some u"
    "\<And>u. holds_blk (pcs s u) \<longleftrightarrow> blk s = Some u"
    "\<And>u. thread_ok ch (ks s) u (pcs s u)" "\<And>u. cond s \<Longrightarrow> pcs s u \<notin> {SBucket, SProc, SRelLk}"
    "\<And>u. scan_ok ch (ks s) (qs (wq_bucket_for ch)) (pcs s u)"
    using i unfolding sw_inv_def by blast+
  note l = lock_moves [of holds_lk, OF old(2)] and b = lock_moves [of holds_blk, OF old(3)]
  note go = inv_goto [OF i]
  show ?thesis
    using st
  proof cases
    case (w_acquire t)
    then show ?thesis
      using go [where t = t and p = "WTest" and pl = "plk s", OF l(2) b(1)] old(4) [of t]
      by (auto simp: pc_class thread_ok_def scan_ok_trivial)
  next
    case (w_true t)
    then show ?thesis
      using go [where t = t and p = "WRelease" and pl = "plk s", OF l(1) b(1)] old(4) [of t]
      by (auto simp: pc_class thread_ok_def scan_ok_trivial)
  next
    case (w_false t)
    then show ?thesis
      using go [where t = t and p = "SBucket" and pl = "plk s", OF l(1) b(1)] old(4) [of t]
      by (auto simp: pc_class thread_ok_def scan_ok_trivial)
  next
    case (s_bucket t)
    then show ?thesis
      using go [where t = t and p = "SProc" and pl = "plk s", OF l(1) b(2)] old(4) [of t] old(5) [of t]
      by (auto simp: pc_class thread_ok_def scan_ok_trivial)
  next
    case (s_proc t)
    then show ?thesis
      using go [where t = t and p = "SRelLk" and pl = "(plk s)(t := Some t)", OF l(1) b(1)] old(4) [of t] old(5) [of t]
      by (auto simp: pc_class thread_ok_def scan_ok_trivial)
  next
    case (s_rel_lk t)
    then show ?thesis
      using go [where t = t and p = "SAdd" and pl = "plk s", OF l(3) b(1)] old(4) [of t] old(5) [of t]
      by (auto simp: pc_class thread_ok_def scan_ok_trivial)
  next
    case (s_rel_bucket t)
    then show ?thesis
      using go [where t = t and p = "SSched" and pl = "plk s", OF l(1) b(3)] old(4) [of t]
      by (auto simp: pc_class thread_ok_def scan_ok_trivial)
  next
    case (s_sched t)
    then show ?thesis
      using go [where t = t and p = "SAsleep" and pl = "(plk s)(t := None)", OF l(1) b(1)] old(4) [of t]
      by (auto simp: pc_class thread_ok_def scan_ok_trivial)
  next
    case (s_reacquire t)
    then show ?thesis
      using go [where t = t and p = "WTest" and pl = "plk s", OF l(2) b(1)] old(4) [of t]
      by (auto simp: pc_class thread_ok_def scan_ok_trivial)
  next
    case (w_release t)
    then show ?thesis
      using go [where t = t and p = "Done" and pl = "plk s", OF l(3) b(1)] old(4) [of t] not_sleeping_on [of "ks s" t ch]
      by (auto simp: pc_class thread_ok_def scan_ok_trivial)
  next
    case (k_acquire t)
    then show ?thesis
      using go [where t = t and p = "KSet" and pl = "plk s", OF l(2) b(1)] old(4) [of t]
      by (auto simp: pc_class thread_ok_def scan_ok_trivial)
  next
    case (k_rel_bucket t)
    then show ?thesis
      using go [where t = t and p = "KRelease" and pl = "plk s", OF l(1) b(3)] old(4) [of t]
      by (auto simp: pc_class thread_ok_def scan_ok_trivial)
  next
    case (k_release t)
    then show ?thesis
      using go [where t = t and p = "Done" and pl = "plk s", OF l(3) b(1)] old(4) [of t] not_sleeping_on [of "ks s" t ch]
      by (auto simp: pc_class thread_ok_def scan_ok_trivial)
  next
    case (s_add t)
    then show ?thesis using inv_add [OF i] by blast
  next
    case (s_dispatch t)
    let ?k = "upd_proc t (\<lambda>p. p\<lparr>p_state := RUNNING\<rparr>) (ks s)"
    have "sched_inv ?k qs" using s_dispatch old(1) by (intro sched_inv_upd_proc) simp_all
    then show ?thesis
      using s_dispatch inv_kernel [OF i, of t ?k SResume "(plk s)(t := Some t)"]
      by (auto simp: pc_class thread_ok_def)
  next
    case (s_resume t)
    have ns: "p_state (procs (ks s) t) \<noteq> SLEEPING" using old(4) [of t] s_resume by (simp add: thread_ok_def)
    then have "sched_inv (sleep_finish t (ks s)) qs"
      unfolding sleep_finish_def using old(1) by (intro sched_inv_upd_proc) simp_all
    then show ?thesis
      using s_resume ns inv_kernel [OF i, of t "sleep_finish t (ks s)" SReacquire "(plk s)(t := None)"]
      by (auto simp: pc_class thread_ok_def sleep_finish_def)
  next
    case (k_set t)
    then show ?thesis using inv_set [OF i] by auto
  next
    case (k_fast t)
    then show ?thesis
      using go [where t = t and pl = "plk s" and p = KBucket, OF l(1) b(1)]
        go [where t = t and pl = "plk s" and p = KRelease, OF l(1) b(1)] old(4) [of t]
      by (auto simp: pc_class thread_ok_def scan_ok_trivial)
  next
    case (k_bucket t)
    then show ?thesis
      using go [where t = t and pl = "plk s" and p = "KLoop (buckets (ks s) (wq_bucket_for ch))", OF l(1) b(2)] old(4) [of t]
      by (auto simp: pc_class thread_ok_def bucket_head [OF old(1)] scan_ok_start)
  next
    case (k_end t)
    then show ?thesis
      using go [where t = t and pl = "plk s" and p = KRelBucket, OF l(1) b(1)] old(4) [of t] scan_done [OF i k_end(2)]
      by (auto simp: pc_class thread_ok_def scan_ok_trivial)
  next
    case (k_match t j)
    obtain xs zs where x: "qs (wq_bucket_for ch) = xs @ j # zs" "\<forall>j\<in>set xs. p_chan (procs (ks s) j) \<noteq> ch"
      using scan_ok_loopD old(6) [of t] k_match(2) by metis
    show ?thesis
      using k_match go [where t = t and pl = "plk s" and p = "KLock j (hd_opt zs)", OF l(1) b(1)] old(4) [of t]
        scan_ok_match [OF x]
      by (auto simp: pc_class thread_ok_def scan_next [OF old(1) x(1)])
  next
    case (k_skip t j)
    obtain xs zs where x: "qs (wq_bucket_for ch) = xs @ j # zs" "\<forall>j\<in>set xs. p_chan (procs (ks s) j) \<noteq> ch"
      using scan_ok_loopD old(6) [of t] k_skip(2) by metis
    have "p_chan (procs (ks s) j) \<noteq> ch" using k_skip(3) scan_next(2) [OF old(1) x(1)] by (auto simp: queued_ok_def)
    then show ?thesis
      using k_skip go [where t = t and pl = "plk s" and p = "KLoop (hd_opt zs)", OF l(1) b(1)] old(4) [of t]
        scan_ok_skip [OF x]
      by (auto simp: pc_class thread_ok_def scan_next [OF old(1) x(1)])
  next
    case (k_lock t j nx)
    have "scan_ok ch (ks s) (qs (wq_bucket_for ch)) (KWake j nx)"
      using old(6) [of t] k_lock by (simp add: scan_ok_def)
    then show ?thesis
      using k_lock go [where t = t and p = "KWake j nx" and pl = "(plk s)(e_proc (entry (ks s) j) := Some t)", OF l(1) b(1)] old(4) [of t]
      by (auto simp: pc_class thread_ok_def)
  next
    case (k_wake t j nx q k)
    then show ?thesis using inv_wake [OF i k_wake(2-5)] by auto
  next
    case (k_nowake t j nx q)
    obtain xs zs where x: "qs (wq_bucket_for ch) = xs @ j # zs" "\<forall>j\<in>set xs. p_chan (procs (ks s) j) \<noteq> ch"
        "nx = hd_opt zs"
      using old(6) [of t] k_nowake(2) by (auto simp: scan_ok_def)
    have "p_chan (procs (ks s) j) \<noteq> ch"
      using k_nowake scan_next(2) [OF old(1) x(1)] by (auto simp: queued_ok_def sleeps_on_def)
    then show ?thesis
      using k_nowake go [where t = t and pl = "(plk s)(q := None)" and p = "KLoop nx", OF l(1) b(1)] old(4) [of t]
        scan_ok_skip [OF x(1,2)] x(3)
      by (auto simp: pc_class thread_ok_def)
  qed
qed

lemma inv_start:
  assumes "starts ch s" shows "\<exists>qs. sw_inv ch s qs"
proof -
  obtain qs where q: "sched_inv (ks s) qs" using assms by (auto simp: starts_def)
  have pc: "pcs s u = WAcquire \<or> pcs s u = KAcquire \<or> pcs s u = Done" for u
    using assms by (auto simp: starts_def)
  have "sw_inv ch s qs"
  proof (rule sw_invI [OF q refl])
    fix u
    show "holds_lk (pcs s u) \<longleftrightarrow> lk s = Some u" "holds_blk (pcs s u) \<longleftrightarrow> blk s = Some u"
      using pc [of u] assms unfolding starts_def by (elim disjE; simp add: pc_class)+
    show "thread_ok ch (ks s) u (pcs s u)"
      using pc [of u] assms unfolding starts_def by (elim disjE) (simp_all add: thread_ok_def)
    show "scan_ok ch (ks s) (qs (wq_bucket_for ch)) (pcs s u)"
      using pc [of u] by (auto simp: holds_blk_def intro: scan_ok_trivial)
  qed (use assms in \<open>auto simp: starts_def\<close>)
  then show ?thesis by blast
qed

lemma reachable_inv: "reachable Locked ch s \<Longrightarrow> \<exists>qs. sw_inv ch s qs"
  by (induction rule: reachable.induct) (auto intro: inv_start dest: inv_step)

section \<open>Deadlock freedom\<close>

text \<open>
  Whoever holds a process lock is about to run a step that does not block: the locks are always
  taken in the order \<open>lk\<close>, bucket, process.
\<close>

definition plk_ok :: "sys \<Rightarrow> bool" where
  "plk_ok s \<longleftrightarrow> (\<forall>p t. plk s p = Some t \<longrightarrow>
     (p = t \<and> pcs s t \<in> {SRelLk, SAdd, SRelBucket, SSched, SResume}) \<or> (\<exists>nx. pcs s t = KWake p nx))"

definition bounded :: "sys \<Rightarrow> bool" where
  "bounded s \<longleftrightarrow> (\<forall>t. pcs s t \<noteq> Done \<longrightarrow> t < NPROC)"

lemma bounded_goto:
  "bounded s \<Longrightarrow> pcs s t \<noteq> Done \<Longrightarrow> pcs s' = (pcs s)(t := p) \<Longrightarrow> bounded s'"
  by (auto simp: bounded_def)

lemma bounded_step: "step md ch s s' \<Longrightarrow> bounded s \<Longrightarrow> bounded s'"
  by (induction rule: step.induct) (erule bounded_goto; simp)+

lemma plk_okD:
  "plk_ok s \<Longrightarrow> plk s p = Some t \<Longrightarrow>
   (p = t \<and> pcs s t \<in> {SRelLk, SAdd, SRelBucket, SSched, SResume}) \<or> (\<exists>nx. pcs s t = KWake p nx)"
  unfolding plk_ok_def by blast

lemma plk_take:
  assumes "plk_ok s" "pcs s t = KLock j nx" "pcs s' = (pcs s)(t := KWake j nx)" "plk s' = (plk s)(j := Some t)"
  shows "plk_ok s'"
  unfolding plk_ok_def using plk_okD [OF assms(1)] assms(2-4) by (auto split: if_splits) force+

lemma plk_drop:
  assumes "plk_ok s" "pcs s t = KWake j nx" "pcs s' = (pcs s)(t := p)" "plk s' = (plk s)(j := None)"
  shows "plk_ok s'"
  unfolding plk_ok_def
proof (intro allI impI)
  fix r u assume "plk s' r = Some u"
  then have r: "r \<noteq> j" "plk s r = Some u" using assms(4) by (auto split: if_splits)
  then have "u \<noteq> t" using plk_okD [OF assms(1) r(2)] assms(2) by auto
  then show "(r = u \<and> pcs s' u \<in> {SRelLk, SAdd, SRelBucket, SSched, SResume}) \<or> (\<exists>nx. pcs s' u = KWake r nx)"
    using plk_okD [OF assms(1) r(2)] assms(3) by simp
qed

lemma plk_step:
  assumes st: "step Locked ch s s'" and i: "sw_inv ch s qs" and p: "plk_ok s"
  shows "plk_ok s'"
proof -
  have inv: "sched_inv (ks s) qs" using i unfolding sw_inv_def by blast
  have e: "e_proc (entry (ks s) j) = j" if "pcs s t = KLock j nx \<or> pcs s t = KWake j nx" for t j nx
  proof -
    have "scan_ok ch (ks s) (qs (wq_bucket_for ch)) (pcs s t)" using i unfolding sw_inv_def by blast
    then have "j \<in> set (qs (wq_bucket_for ch))" using that by (auto simp: scan_ok_def)
    then show ?thesis using sched_inv_queued [OF inv wq.bucket_less] by (auto simp: queued_ok_def)
  qed
  show ?thesis
    using st
  proof cases
    case (k_lock t j nx)
    have ej: "e_proc (entry (ks s) j) = j" using e [of t j nx] k_lock by simp
    show ?thesis using plk_take [OF p k_lock(2)] k_lock(1) ej by simp
  next
    case (k_wake t j nx q k)
    then have "q = j" using e [of t j nx] by simp
    then show ?thesis using plk_drop [OF p k_wake(2)] k_wake(1) by simp
  next
    case (k_nowake t j nx q)
    then have "q = j" using e [of t j nx] by simp
    then show ?thesis using plk_drop [OF p k_nowake(2)] k_nowake(1) by simp
  qed (use p in \<open>fastforce simp: plk_ok_def split: if_splits\<close>)+
qed

lemma reachable_all:
  assumes "reachable Locked ch s" shows "(\<exists>qs. sw_inv ch s qs) \<and> plk_ok s \<and> bounded s"
  using assms
proof (induction rule: reachable.induct)
  case (start s)
  then show ?case using inv_start by (auto simp: starts_def plk_ok_def bounded_def)
next
  case (step s s')
  then obtain qs where "sw_inv ch s qs" by blast
  then show ?case using step inv_step plk_step bounded_step by blast
qed

text \<open>A state without a step: nobody stands in front of a statement that does not block.\<close>

lemma stuck_free:
  assumes stuck: "\<And>s'. \<not> step Locked ch s s'" and i: "sw_inv ch s qs" and b: "bounded s"
  shows "pcs s t \<notin> {WTest, SRelLk, SAdd, SRelBucket, SSched, SResume, WRelease, KSet, KFast,
    KRelBucket, KRelease}" "pcs s t \<noteq> KLoop e" "pcs s t \<noteq> KWake j nx"
proof -
  show "pcs s t \<notin> {WTest, SRelLk, SAdd, SRelBucket, SSched, SResume, WRelease, KSet, KFast,
    KRelBucket, KRelease}"
  proof -
    have "pcs s t \<noteq> WTest" using stuck step.w_true step.w_false by blast
    moreover have "pcs s t \<noteq> SRelLk" using stuck step.s_rel_lk by blast
    moreover have "pcs s t \<noteq> SAdd" using stuck step.s_add [of s t] b unfolding bounded_def by fastforce
    moreover have "pcs s t \<noteq> SRelBucket" using stuck step.s_rel_bucket by blast
    moreover have "pcs s t \<noteq> SSched" using stuck step.s_sched by blast
    moreover have "pcs s t \<noteq> SResume" using stuck step.s_resume by blast
    moreover have "pcs s t \<noteq> WRelease" using stuck step.w_release by blast
    moreover have "pcs s t \<noteq> KSet" using stuck step.k_set by blast
    moreover have "pcs s t \<noteq> KFast" using stuck step.k_fast by blast
    moreover have "pcs s t \<noteq> KRelBucket" using stuck step.k_rel_bucket by blast
    moreover have "pcs s t \<noteq> KRelease" using stuck step.k_release by blast
    ultimately show ?thesis by simp
  qed
  show "pcs s t \<noteq> KLoop e"
  proof (cases e)
    case None
    then show ?thesis using stuck step.k_end [of s t] by blast
  next
    case (Some j)
    then show ?thesis using stuck step.k_match [of s t j] step.k_skip [of s t j] by blast
  qed
  show "pcs s t \<noteq> KWake j nx"
  proof
    assume w: "pcs s t = KWake j nx"
    have inv: "sched_inv (ks s) qs" "scan_ok ch (ks s) (qs (wq_bucket_for ch)) (pcs s t)"
      using i unfolding sw_inv_def by blast+
    then have j: "j \<in> set (qs (wq_bucket_for ch))" using w by (auto simp: scan_ok_def)
    then have "e_proc (entry (ks s) j) = j"
      using sched_inv_queued [OF inv(1) wq.bucket_less] by (auto simp: queued_ok_def)
    moreover obtain k where "wq_remove_locked (wq_bucket_for ch) j (make_runnable j (ks s)) = Some k"
      using wake_entry [OF inv(1) wq.bucket_less j] by blast
    ultimately show False
      using stuck step.k_wake [OF w, of j ch] step.k_nowake [OF w, of j ch] by metis
  qed
qed

lemma stuck_asleep:
  assumes stuck: "\<And>s'. \<not> step Locked ch s s'" and r: "reachable Locked ch s"
  shows "pcs s t = Done \<or> (pcs s t = SAsleep \<and> sleeps_on (ks s) t ch)"
proof -
  obtain qs where i: "sw_inv ch s qs" and p: "plk_ok s" and b: "bounded s"
    using reachable_all [OF r] by blast
  note free = stuck_free [OF stuck i b]
  have h: "\<And>u. holds_lk (pcs s u) \<longleftrightarrow> lk s = Some u" "\<And>u. holds_blk (pcs s u) \<longleftrightarrow> blk s = Some u"
      "\<And>u. thread_ok ch (ks s) u (pcs s u)"
    using i unfolding sw_inv_def by blast+
  have plk: "plk s q = None" for q
    using plk_okD [OF p, of q] free(1,3) by (cases "plk s q") blast+
  have 1: "pcs s u \<noteq> SProc" "pcs s u \<noteq> KLock j nx" for u j nx
    using stuck step.s_proc [of s u] step.k_lock [of s u j nx] plk by blast+
  have blk: "blk s = None"
  proof (rule ccontr)
    assume "blk s \<noteq> None"
    then obtain u where "holds_blk (pcs s u)" using h(2) by blast
    then show False using free [of u] 1 [of u] by (cases "pcs s u") (auto simp: holds_blk_def)
  qed
  have 2: "pcs s u \<noteq> SBucket" "pcs s u \<noteq> KBucket" for u
    using stuck step.s_bucket [of s u] step.k_bucket [of s u] blk by blast+
  have lk: "lk s = None"
  proof (rule ccontr)
    assume "lk s \<noteq> None"
    then obtain u where "holds_lk (pcs s u)" using h(1) by blast
    then show False using free [of u] 1 [of u] 2 [of u] by (cases "pcs s u") (auto simp: holds_lk_def)
  qed
  have 3: "pcs s u \<noteq> WAcquire" "pcs s u \<noteq> SReacquire" "pcs s u \<noteq> KAcquire" for u
    using stuck step.w_acquire [of s u] step.s_reacquire [of s u] step.k_acquire [of s u] lk b
    unfolding bounded_def by (metis pc.distinct)+
  have 4: "p_state (procs (ks s) u) \<noteq> RUNNABLE" if "pcs s u = SAsleep" for u
    using stuck step.s_dispatch [OF that] plk by blast
  show ?thesis
    using h(3) [of t] free [of t] 1 [of t] 2 [of t] 3 [of t] 4 [of t]
    by (cases "pcs s t") (auto simp: thread_ok_def)
qed

lemma nobody_asleep:
  assumes "reachable Locked ch s" "cond s" "\<forall>w. \<not> waking (pcs s w)" "t < NPROC"
  shows "\<not> sleeps_on (ks s) t ch \<and> pcs s t \<notin> {SBucket, SProc, SRelLk, SAdd}"
  using reachable_inv [OF assms(1)] assms(2-4) unfolding sw_inv_def by blast

section \<open>Two processes\<close>

text \<open>Configurations with one waiter, process 1, and one waker, process 2.\<close>

definition duo :: "pc \<Rightarrow> pc \<Rightarrow> nat \<Rightarrow> pc" where
  "duo a w = (\<lambda>_. Done)(1 := a, 2 := w)"

definition cfg :: "kstate \<Rightarrow> nat option \<Rightarrow> nat option \<Rightarrow> nat option \<Rightarrow> bool \<Rightarrow> pc \<Rightarrow> pc \<Rightarrow> sys" where
  "cfg k l b p1 c a w = \<lparr>ks = k, lk = l, blk = b, plk = (\<lambda>_. None)(1 := p1), cond = c, pcs = duo a w\<rparr>"

lemma duo_simps [simp]:
  "duo a w (Suc 0) = a" "duo a w 2 = w" "(duo a w)(Suc 0 := x) = duo x w" "(duo a w)(2 := x) = duo a x"
  by (auto simp: duo_def fun_eq_iff)

lemma cfg_simps [simp]:
  "ks (cfg k l b p1 c a w) = k" "lk (cfg k l b p1 c a w) = l" "blk (cfg k l b p1 c a w) = b"
  "plk (cfg k l b p1 c a w) = (\<lambda>_. None)(1 := p1)" "cond (cfg k l b p1 c a w) = c"
  "pcs (cfg k l b p1 c a w) = duo a w"
  by (simp_all add: cfg_def)

lemma cfg_upd [simp]:
  "(cfg k l b p1 c a w)\<lparr>lk := l'\<rparr> = cfg k l' b p1 c a w"
  "(cfg k l b p1 c a w)\<lparr>blk := b'\<rparr> = cfg k l b' p1 c a w"
  "(cfg k l b p1 c a w)\<lparr>plk := (\<lambda>_. None)(Suc 0 := p1')\<rparr> = cfg k l b p1' c a w"
  "(cfg k l b p1 c a w)\<lparr>plk := \<lambda>_. None\<rparr> = cfg k l b None c a w"
  "(cfg k l b p1 c a w)\<lparr>cond := c'\<rparr> = cfg k l b p1 c' a w"
  "(cfg k l b p1 c a w)\<lparr>ks := k'\<rparr> = cfg k' l b p1 c a w"
  "goto (Suc 0) x (cfg k l b p1 c a w) = cfg k l b p1 c x w"
  "goto 2 x (cfg k l b p1 c a w) = cfg k l b p1 c a x"
  by (auto simp: cfg_def goto_def)

lemma cfg_start: "reachable md ch (cfg demo_run None None None False WAcquire KAcquire)"
proof (rule reachable.start)
  have "duo WAcquire KAcquire t \<in> {WAcquire, KAcquire, Done}"
    "duo WAcquire KAcquire t \<noteq> Done \<longrightarrow> t < NPROC \<and> t \<in> {1, 2, 3}" for t
    by (simp_all add: duo_def NPROC_def)
  then show "starts ch (cfg demo_run None None None False WAcquire KAcquire)"
    using demo_run_inv by (auto simp: starts_def sleeps_on_def demo_run_state)
qed

lemma demo_run_heads: "buckets demo_run (wq_bucket_for ch) = None"
  using bucket_head [OF demo_run_inv, of ch] by simp

text \<open>The waiter runs up to the point where it has released \<open>lk\<close> inside \<^verbatim>\<open>sleep\<close>.\<close>

lemma cfg_released: "reachable md ch (cfg demo_run None (Some 1) (Some 1) False SAdd KAcquire)"
proof -
  have 1: "reachable md ch (cfg demo_run (Some 1) None None False WTest KAcquire)"
    using reachable.step [OF cfg_start step.w_acquire [of _ 1]] by (simp add: NPROC_def)
  have 2: "reachable md ch (cfg demo_run (Some 1) None None False SBucket KAcquire)"
    using reachable.step [OF 1 step.w_false [of _ 1]] by simp
  have 3: "reachable md ch (cfg demo_run (Some 1) (Some 1) None False SProc KAcquire)"
    using reachable.step [OF 2 step.s_bucket [of _ 1]] by simp
  have 4: "reachable md ch (cfg demo_run (Some 1) (Some 1) (Some 1) False SRelLk KAcquire)"
    using reachable.step [OF 3 step.s_proc [of _ 1]] by simp
  show ?thesis using reachable.step [OF 4 step.s_rel_lk [of _ 1]] by simp
qed

lemma cfg_asleep:
  assumes "reachable md ch (cfg demo_run l (Some 1) (Some 1) c SAdd w)"
  shows "reachable md ch (cfg (sleep_prepare 1 ch demo_run) l None None c SAsleep w)"
proof -
  let ?k = "sleep_prepare 1 ch demo_run"
  have 1: "reachable md ch (cfg ?k l (Some 1) (Some 1) c SRelBucket w)"
    using reachable.step [OF assms step.s_add [of _ 1]] by (simp add: NPROC_def)
  have 2: "reachable md ch (cfg ?k l None (Some 1) c SSched w)"
    using reachable.step [OF 1 step.s_rel_bucket [of _ 1]] by simp
  show ?thesis using reachable.step [OF 2 step.s_sched [of _ 1]] by simp
qed

text \<open>The waker of the plain \<^verbatim>\<open>wakeup\<close> finds the sleeper, wakes it, and finishes.\<close>

lemma one_asleep:
  fixes ch :: chan defines "k \<equiv> sleep_prepare 1 ch demo_run"
  shows "buckets k (wq_bucket_for ch) = Some 1" "e_chan (entry k 1) = ch" "e_proc (entry k 1) = 1"
    "enext k 1 = None" "sleeps_on k 1 ch"
proof -
  have inv: "sched_inv k ((\<lambda>_. [])(wq_bucket_for ch := [1]))"
    using sleep_prepare_inv [OF demo_run_inv, of 1 ch] by (simp add: k_def demo_run_state NPROC_def)
  show "buckets k (wq_bucket_for ch) = Some 1" using bucket_head [OF inv, of ch] by simp
  show "e_chan (entry k 1) = ch" "e_proc (entry k 1) = 1"
    by (simp_all only: k_def sleep_prepare_entry wq_add_entry wq_entry.simps)
  show "enext k 1 = None" using scan_next(1) [OF inv, of ch "[]" 1 "[]"] by simp
  show "sleeps_on k 1 ch" by (simp add: k_def sleeps_on_def sleep_prepare_state)
qed

lemma cfg_woken:
  "\<exists>k. reachable Locked ch (cfg k (Some 2) None None True SAsleep KRelease) \<and>
     p_state (procs k 1) = RUNNABLE"
proof -
  let ?k = "sleep_prepare 1 ch demo_run"
  note k1 = one_asleep [of ch, simplified]
  have inv: "sched_inv ?k ((\<lambda>_. [])(wq_bucket_for ch := [1]))"
    using sleep_prepare_inv [OF demo_run_inv, of 1 ch] by (simp add: demo_run_state NPROC_def)
  obtain k where k: "wq_remove_locked (wq_bucket_for ch) 1 (make_runnable 1 ?k) = Some k"
      "wq_frame {1} (make_runnable 1 ?k) k"
    using wake_entry [OF inv wq.bucket_less, of 1 ch] by auto
  have st: "p_state (procs k 1) = RUNNABLE" using wq_frame_fields(1) [OF k(2), of 1] by simp
  have 1: "reachable Locked ch (cfg ?k (Some 2) None None False SAsleep KSet)"
    using reachable.step [OF cfg_asleep [OF cfg_released] step.k_acquire [of _ 2]] by simp
  have 2: "reachable Locked ch (cfg ?k (Some 2) None None True SAsleep KBucket)"
    using reachable.step [OF 1 step.k_set [of _ 2]] by simp
  have 3: "reachable Locked ch (cfg ?k (Some 2) (Some 2) None True SAsleep (KLoop (Some 1)))"
    using reachable.step [OF 2 step.k_bucket [of _ 2]] by (simp add: k1)
  have 4: "reachable Locked ch (cfg ?k (Some 2) (Some 2) None True SAsleep (KLock 1 None))"
    using reachable.step [OF 3 step.k_match [of _ 2 1]] by (simp add: k1)
  have 5: "reachable Locked ch (cfg ?k (Some 2) (Some 2) (Some 2) True SAsleep (KWake 1 None))"
    using reachable.step [OF 4 step.k_lock [of _ 2 1 None]] by (simp add: k1)
  have 6: "reachable Locked ch (cfg k (Some 2) (Some 2) None True SAsleep (KLoop None))"
    using reachable.step [OF 5 step.k_wake [of _ 2 1 None 1 ch k]] k by (simp add: k1)
  have 7: "reachable Locked ch (cfg k (Some 2) (Some 2) None True SAsleep KRelBucket)"
    using reachable.step [OF 6 step.k_end [of _ 2]] by simp
  have "reachable Locked ch (cfg k (Some 2) None None True SAsleep KRelease)"
    using reachable.step [OF 7 step.k_rel_bucket [of _ 2]] by simp
  with st show ?thesis by blast
qed

lemma cfg_finished: "\<exists>k. reachable Locked ch (cfg k None None None True Done Done)"
proof -
  obtain k where k: "reachable Locked ch (cfg k (Some 2) None None True SAsleep KRelease)"
      "p_state (procs k 1) = RUNNABLE" using cfg_woken by blast
  let ?k = "upd_proc 1 (\<lambda>p. p\<lparr>p_state := RUNNING\<rparr>) k"
  have 1: "reachable Locked ch (cfg k None None None True SAsleep Done)"
    using reachable.step [OF k(1) step.k_release [of _ 2]] by simp
  have 2: "reachable Locked ch (cfg ?k None None (Some 1) True SResume Done)"
    using reachable.step [OF 1 step.s_dispatch [of _ 1]] k(2) by simp
  have 3: "reachable Locked ch (cfg (sleep_finish 1 ?k) None None None True SReacquire Done)"
    using reachable.step [OF 2 step.s_resume [of _ 1]] by simp
  have 4: "reachable Locked ch (cfg (sleep_finish 1 ?k) (Some 1) None None True WTest Done)"
    using reachable.step [OF 3 step.s_reacquire [of _ 1]] by simp
  have 5: "reachable Locked ch (cfg (sleep_finish 1 ?k) (Some 1) None None True WRelease Done)"
    using reachable.step [OF 4 step.w_true [of _ 1]] by simp
  show ?thesis using reachable.step [OF 5 step.w_release [of _ 1]] by auto
qed

section \<open>Properties\<close>

text \<open>
  (C1) No wakeup is lost when the waker calls \<^verbatim>\<open>wakeup\<close> under the condition lock: in every state
  that any interleaving of any number of waiters and wakers can reach, once the condition is true
  and no waker is still between setting it and finishing its scan, no process is asleep on the
  channel or committed to going to sleep on it.
\<close>

theorem no_lost_wakeup:
  assumes "reachable Locked ch s" "cond s" "\<forall>w. \<not> waking (pcs s w)" "t < NPROC"
  shows "\<not> sleeps_on (ks s) t ch \<and> pcs s t \<notin> {SBucket, SProc, SRelLk, SAdd}"
  using assms by (rule nobody_asleep)

theorem no_lost_wakeup_witness:
  "\<exists>s. reachable Locked 0x80010000 s \<and> pcs s 1 = SAsleep \<and> \<not> sleeps_on (ks s) 1 0x80010000"
proof -
  obtain k where k: "reachable Locked 0x80010000 (cfg k (Some 2) None None True SAsleep KRelease)"
    using cfg_woken by blast
  have "\<forall>w. \<not> waking (pcs (cfg k (Some 2) None None True SAsleep KRelease) w)"
    by (simp add: duo_def waking_def)
  from no_lost_wakeup [OF k _ this, of 1] k show ?thesis by (fastforce simp: NPROC_def)
qed

text \<open>
  (C8) The protocol of \<^verbatim>\<open>sleep\<close> and \<^verbatim>\<open>wakeup\<close> neither deadlocks nor strands a sleeper: a reachable
  state in which nothing can move any more and the condition is true has every process finished.
  The locks are taken in the order condition lock, bucket, process on both sides.
\<close>

theorem sleep_wakeup_completes:
  assumes "reachable Locked ch s" "cond s" "\<forall>s'. \<not> step Locked ch s s'"
  shows "pcs s t = Done"
proof (rule ccontr)
  assume nd: "pcs s t \<noteq> Done"
  have stuck: "\<And>s'. \<not> step Locked ch s s'" using assms(3) by blast
  note asleep = stuck_asleep [OF stuck assms(1)]
  have "\<not> waking (pcs s w)" for w using asleep [of w] by (elim disjE) (simp_all add: waking_def)
  then have "\<forall>w. \<not> waking (pcs s w)" by blast
  moreover have "t < NPROC" using reachable_all [OF assms(1)] nd by (auto simp: bounded_def)
  ultimately show False using nobody_asleep [OF assms(1,2)] asleep [of t] nd by blast
qed

theorem sleep_wakeup_completes_witness:
  "\<exists>s. reachable Locked 0x80010000 s \<and> cond s \<and> pcs s 1 = Done \<and> pcs s 2 = Done"
proof -
  obtain k where k: "reachable Locked 0x80010000 (cfg k None None None True Done Done)"
    using cfg_finished by blast
  have "\<forall>s'. \<not> step Locked 0x80010000 (cfg k None None None True Done Done) s'"
    by (auto elim!: step.cases simp: duo_def split: if_splits)
  from sleep_wakeup_completes [OF k _ this] k show ?thesis by (metis cfg_simps(5))
qed

text \<open>
  (C9) With the fast path of \<^verbatim>\<open>kernel/pipe.c\<close>, \<^verbatim>\<open>if(wq_has_sleeper(ch)) wakeup_one(ch)\<close>, a wakeup
  can be lost. \<^verbatim>\<open>sleep\<close> releases the condition lock before it puts the process on its bucket;
  a waker that runs in between, under the condition lock, finds the bucket empty and skips the
  wakeup. The state reached has the condition true, the waker finished, the waiter asleep on the
  channel, and no step left, so the waiter sleeps forever.
\<close>

theorem fast_path_loses_wakeup:
  "\<exists>s. reachable FastPath ch s \<and> cond s \<and> pcs s = (\<lambda>_. Done)(1 := SAsleep) \<and>
     sleeps_on (ks s) 1 ch \<and> (\<forall>s'. \<not> step FastPath ch s s')"
proof -
  let ?k = "sleep_prepare 1 ch demo_run"
  let ?s = "cfg ?k None None None True SAsleep Done"
  have 1: "reachable FastPath ch (cfg demo_run (Some 2) (Some 1) (Some 1) False SAdd KSet)"
    using reachable.step [OF cfg_released step.k_acquire [of _ 2]] by simp
  have 2: "reachable FastPath ch (cfg demo_run (Some 2) (Some 1) (Some 1) True SAdd KFast)"
    using reachable.step [OF 1 step.k_set [of _ 2]] by simp
  have 3: "reachable FastPath ch (cfg demo_run (Some 2) (Some 1) (Some 1) True SAdd KRelease)"
    using reachable.step [OF 2 step.k_fast [of _ 2]] by (simp add: wq_has_sleeper_def demo_run_heads)
  have 4: "reachable FastPath ch (cfg demo_run None (Some 1) (Some 1) True SAdd Done)"
    using reachable.step [OF 3 step.k_release [of _ 2]] by simp
  have r: "reachable FastPath ch ?s" using cfg_asleep [OF 4] by simp
  have "p_state (procs ?k 1) = SLEEPING" using one_asleep(5) [of ch] by (simp add: sleeps_on_def)
  then have "\<forall>s'. \<not> step FastPath ch ?s s'"
    by (auto elim!: step.cases simp: duo_def split: if_splits)
  moreover have "pcs ?s = (\<lambda>_. Done)(1 := SAsleep)" by (simp add: duo_def fun_eq_iff)
  ultimately show ?thesis using r one_asleep(5) [of ch] by (intro exI [of _ ?s]) simp
qed

end
