(* ===== verification/CString.thy ===== *)
theory CString
  imports Prelude
begin

text \<open>
  The byte and string routines of \<^verbatim>\<open>kernel/string.c\<close> over byte-addressed memory. Pointers are
  64-bit words with wrap-around arithmetic; a \<^verbatim>\<open>uint\<close> count is a natural number, a signed count an
  integer. \<^verbatim>\<open>strlen\<close> runs until it finds a zero byte and may run forever in principle.
\<close>

section \<open>Operations\<close>

definition memset :: "memory \<Rightarrow> u64 \<Rightarrow> u8 \<Rightarrow> nat \<Rightarrow> memory" where
  "memset m dst c n = fold (\<lambda>i m. m(dst + of_nat i := c)) [0..<n] m"

fun memcmp :: "memory \<Rightarrow> u64 \<Rightarrow> u64 \<Rightarrow> nat \<Rightarrow> int" where
  "memcmp m s1 s2 0 = 0"
| "memcmp m s1 s2 (Suc n) =
     (if m s1 \<noteq> m s2 then uint (m s1) - uint (m s2) else memcmp m (s1 + 1) (s2 + 1) n)"

text \<open>The two copying loops of \<^verbatim>\<open>memmove\<close>: from the end downwards, and upwards.\<close>

fun move_down :: "memory \<Rightarrow> u64 \<Rightarrow> u64 \<Rightarrow> nat \<Rightarrow> memory" where
  "move_down m d s 0 = m"
| "move_down m d s (Suc n) = move_down (m(d - 1 := m (s - 1))) (d - 1) (s - 1) n"

fun move_up :: "memory \<Rightarrow> u64 \<Rightarrow> u64 \<Rightarrow> nat \<Rightarrow> memory" where
  "move_up m d s 0 = m"
| "move_up m d s (Suc n) = move_up (m(d := m s)) (d + 1) (s + 1) n"

definition memmove :: "memory \<Rightarrow> u64 \<Rightarrow> u64 \<Rightarrow> nat \<Rightarrow> memory" where
  "memmove m dst src n =
     (if n = 0 then m
      else if src < dst \<and> src + of_nat n > dst
      then move_down m (dst + of_nat n) (src + of_nat n) n
      else move_up m dst src n)"

definition memcpy :: "memory \<Rightarrow> u64 \<Rightarrow> u64 \<Rightarrow> nat \<Rightarrow> memory" where
  "memcpy m dst src n = memmove m dst src n"

fun strncmp :: "memory \<Rightarrow> u64 \<Rightarrow> u64 \<Rightarrow> nat \<Rightarrow> int" where
  "strncmp m p q 0 = 0"
| "strncmp m p q (Suc n) =
     (if m p \<noteq> 0 \<and> m p = m q then strncmp m (p + 1) (q + 1) n
      else uint (m p) - uint (m q))"

text \<open>
  The first loop of \<^verbatim>\<open>strncpy\<close> copies until the count runs out or a zero byte was copied, the second
  fills the rest with zeros.
\<close>

fun zero_fill :: "memory \<Rightarrow> u64 \<Rightarrow> nat \<Rightarrow> memory" where
  "zero_fill m s 0 = m"
| "zero_fill m s (Suc n) = zero_fill (m(s := 0)) (s + 1) n"

fun strncpy_loop :: "memory \<Rightarrow> u64 \<Rightarrow> u64 \<Rightarrow> nat \<Rightarrow> memory" where
  "strncpy_loop m s t 0 = m"
| "strncpy_loop m s t (Suc n) =
     (let m' = m(s := m t) in
      if m t \<noteq> 0 then strncpy_loop m' (s + 1) (t + 1) n else zero_fill m' (s + 1) n)"

definition strncpy :: "memory \<Rightarrow> u64 \<Rightarrow> u64 \<Rightarrow> int \<Rightarrow> memory" where
  "strncpy m s t n = strncpy_loop m s t (nat n)"

fun safestrcpy_loop :: "memory \<Rightarrow> u64 \<Rightarrow> u64 \<Rightarrow> nat \<Rightarrow> memory" where
  "safestrcpy_loop m s t 0 = m(s := 0)"
| "safestrcpy_loop m s t (Suc n) =
     (let m' = m(s := m t) in
      if m t \<noteq> 0 then safestrcpy_loop m' (s + 1) (t + 1) n else m'(s + 1 := 0))"

definition safestrcpy :: "memory \<Rightarrow> u64 \<Rightarrow> u64 \<Rightarrow> int \<Rightarrow> memory" where
  "safestrcpy m s t n = (if n \<le> 0 then m else safestrcpy_loop m s t (nat (n - 1)))"

partial_function (option) strlen_from :: "memory \<Rightarrow> u64 \<Rightarrow> int \<Rightarrow> int option" where
  "strlen_from m s n = (if m (s + of_int n) \<noteq> 0 then strlen_from m s (n + 1) else Some n)"

definition strlen :: "memory \<Rightarrow> u64 \<Rightarrow> int option" where
  "strlen m s = strlen_from m s 0"

section \<open>Reference notions\<close>

text \<open>The bytes at an address, and the zero-terminated string at an address.\<close>

definition bytes_at :: "memory \<Rightarrow> u64 \<Rightarrow> nat \<Rightarrow> u8 list" where
  "bytes_at m a n = map (\<lambda>i. m (a + of_nat i)) [0..<n]"

definition cstr_at :: "memory \<Rightarrow> u64 \<Rightarrow> u8 list \<Rightarrow> bool" where
  "cstr_at m a xs \<longleftrightarrow> 0 \<notin> set xs \<and> bytes_at m a (length xs + 1) = xs @ [0]"

text \<open>The first difference of two byte lists, as \<^verbatim>\<open>memcmp\<close> and \<^verbatim>\<open>strncmp\<close> report it.\<close>

fun first_diff :: "u8 list \<Rightarrow> u8 list \<Rightarrow> int" where
  "first_diff (x # xs) (y # ys) = (if x \<noteq> y then uint x - uint y else first_diff xs ys)"
| "first_diff xs ys = 0"

lemma length_bytes_at [simp]: "length (bytes_at m a n) = n"
  by (simp add: bytes_at_def)

lemma nth_bytes_at [simp]: "i < n \<Longrightarrow> bytes_at m a n ! i = m (a + of_nat i)"
  by (simp add: bytes_at_def)

lemma bytes_at_0 [simp]: "bytes_at m a 0 = []"
  by (simp add: bytes_at_def)

lemma bytes_at_Suc: "bytes_at m a (Suc n) = m a # bytes_at m (a + 1) n"
  by (rule nth_equalityI) (auto simp: nth_Cons add.assoc split: nat.splits)

lemma bytes_at_cong: "(\<And>b. b \<in> region a n \<Longrightarrow> m b = m' b) \<Longrightarrow> bytes_at m a n = bytes_at m' a n"
  by (rule nth_equalityI) (auto simp: region_def)

lemma bytes_at_eq_iff: "bytes_at m a n = bytes_at m' b n \<longleftrightarrow> (\<forall>i<n. m (a + of_nat i) = m' (b + of_nat i))"
  by (auto simp: list_eq_iff_nth_eq)

section \<open>What the routines do\<close>

lemma region_snoc: "region a (Suc n) = insert (a + of_nat n) (region a n)"
  by (simp add: region_def lessThan_Suc)

lemma memset_apply: "memset m dst c n a = (if a \<in> region dst n then c else m a)"
  by (induction n) (auto simp: memset_def region_snoc)

lemma bytes_at_memset: "bytes_at (memset m dst c n) dst n = replicate n c"
  by (rule nth_equalityI) (auto simp: memset_apply region_def)

lemma memcmp_first_diff: "memcmp m s1 s2 n = first_diff (bytes_at m s1 n) (bytes_at m s2 n)"
  by (induction m s1 s2 n rule: memcmp.induct) (simp_all add: bytes_at_Suc)

lemma first_diff_eq_0: "length xs = length ys \<Longrightarrow> first_diff xs ys = 0 \<longleftrightarrow> xs = ys"
  by (induction xs ys rule: first_diff.induct) (auto simp: word_uint_eq_iff)

text \<open>Offsets from an address that stay inside the address space.\<close>

lemma unat_offset: "unat (a :: u64) + i < 2 ^ 64 \<Longrightarrow> unat (a + of_nat i) = unat a + i"
  by (simp add: unat_word_ariths unat_of_nat)

lemma offset_self: "0 < i \<Longrightarrow> i < 2 ^ 64 \<Longrightarrow> (a :: u64) + of_nat i \<noteq> a"
  using region_not_self [of i a] by (cases i) (auto simp: region_def add.assoc)

text \<open>Copying upwards is right if no byte is overwritten before it is read, and dually.\<close>

lemma move_up_spec:
  assumes "n < 2 ^ 64" "\<And>i j. i < j \<Longrightarrow> j < n \<Longrightarrow> d + of_nat i \<noteq> s + of_nat j"
  shows "(\<forall>i<n. move_up m d s n (d + of_nat i) = m (s + of_nat i)) \<and>
    (\<forall>a. a \<notin> region d n \<longrightarrow> move_up m d s n a = m a)"
  using assms
proof (induction n arbitrary: m d s)
  case (Suc n)
  let ?m = "m(d := m s)"
  have c: "d + 1 + of_nat i \<noteq> s + 1 + of_nat j" if "i < j" "j < n" for i j
    using Suc.prems(2) [of "Suc i" "Suc j"] that by (simp add: algebra_simps)
  have n: "n < 2 ^ 64" using Suc.prems(1) by simp
  have IH: "\<And>i. i < n \<Longrightarrow> move_up ?m (d + 1) (s + 1) n (d + 1 + of_nat i) = ?m (s + 1 + of_nat i)"
    "\<And>a. a \<notin> region (d + 1) n \<Longrightarrow> move_up ?m (d + 1) (s + 1) n a = ?m a"
    using Suc.IH [OF n, of "d + 1" "s + 1" ?m] c by blast+
  have d: "d \<notin> region (d + 1) n" using region_not_self Suc.prems(1) by simp
  have "move_up m d s (Suc n) (d + of_nat i) = m (s + of_nat i)" if "i < Suc n" for i
  proof (cases i)
    case 0
    then show ?thesis using IH(2) [OF d] by simp
  next
    case (Suc k)
    have "d \<noteq> s + of_nat i" using Suc.prems(2) [of 0 i] that Suc by simp
    then show ?thesis using IH(1) [of k] that Suc by (simp add: add.assoc [symmetric])
  qed
  moreover have "move_up m d s (Suc n) a = m a" if "a \<notin> region d (Suc n)" for a
    using IH(2) [of a] that by (simp add: region_Suc)
  ultimately show ?case by blast
qed simp

lemma move_down_spec:
  assumes "n < 2 ^ 64" "\<And>i j. i < j \<Longrightarrow> j < n \<Longrightarrow> d + of_nat j \<noteq> s + of_nat i"
  shows "(\<forall>i<n. move_down m (d + of_nat n) (s + of_nat n) n (d + of_nat i) = m (s + of_nat i)) \<and>
    (\<forall>a. a \<notin> region d n \<longrightarrow> move_down m (d + of_nat n) (s + of_nat n) n a = m a)"
  using assms
proof (induction n arbitrary: m)
  case (Suc n)
  let ?m = "m(d + of_nat n := m (s + of_nat n))"
  have eq: "move_down m (d + of_nat (Suc n)) (s + of_nat (Suc n)) (Suc n) = move_down ?m (d + of_nat n) (s + of_nat n) n"
    by (simp add: algebra_simps)
  have n: "n < 2 ^ 64" using Suc.prems(1) by simp
  have c: "d + of_nat j \<noteq> s + of_nat i" if "i < j" "j < n" for i j
    using Suc.prems(2) [of i j] that by simp
  have IH: "\<And>i. i < n \<Longrightarrow> move_down ?m (d + of_nat n) (s + of_nat n) n (d + of_nat i) = ?m (s + of_nat i)"
    "\<And>a. a \<notin> region d n \<Longrightarrow> move_down ?m (d + of_nat n) (s + of_nat n) n a = ?m a"
    using Suc.IH [OF n, of ?m] c by blast+
  have dn: "d + of_nat n \<notin> region d n"
  proof
    assume "d + of_nat n \<in> region d n"
    then obtain i where i: "i < n" "d + of_nat n = d + of_nat i" by (auto simp: region_def)
    then have "(d + of_nat i) + of_nat (n - i) = d + of_nat i" by (simp add: of_nat_diff)
    moreover have "n - i < 2 ^ 64" using n by linarith
    ultimately show False using offset_self [of "n - i" "d + of_nat i"] i(1) by simp
  qed
  have "move_down ?m (d + of_nat n) (s + of_nat n) n (d + of_nat i) = m (s + of_nat i)" if "i < Suc n" for i
  proof (cases "i = n")
    case True
    then show ?thesis using IH(2) [OF dn] by simp
  next
    case False
    then have "d + of_nat n \<noteq> s + of_nat i" using Suc.prems(2) [of i n] that by simp
    then show ?thesis using IH(1) [of i] that False by simp
  qed
  moreover have "move_down ?m (d + of_nat n) (s + of_nat n) n a = m a" if "a \<notin> region d (Suc n)" for a
    using IH(2) [of a] that by (simp add: region_snoc)
  ultimately show ?case unfolding eq by blast
qed simp

lemma memmove_spec:
  assumes "unat src + n < 2 ^ 64" "unat dst + n \<le> 2 ^ 64"
  shows "bytes_at (memmove m dst src n) dst n = bytes_at m src n \<and>
    (\<forall>a. a \<notin> region dst n \<longrightarrow> memmove m dst src n a = m a)"
proof (cases "n = 0")
  case False
  have u: "unat (src + of_nat i) = unat src + i" "unat (dst + of_nat i) = unat dst + i" if "i < n" for i
    using that assms by (simp_all add: unat_offset)
  have un: "unat (src + of_nat n) = unat src + n" using assms(1) by (rule unat_offset)
  have n: "n < 2 ^ 64" using assms by simp
  show ?thesis
  proof (cases "src < dst \<and> src + of_nat n > dst")
    case True
    have "dst + of_nat j \<noteq> src + of_nat i" if "i < j" "j < n" for i j
      using True that u(1) [of i] u(2) [of j] by (auto simp: word_less_nat_alt dest: arg_cong [of _ _ unat])
    moreover have "memmove m dst src n = move_down m (dst + of_nat n) (src + of_nat n) n"
      using False True by (simp add: memmove_def)
    ultimately show ?thesis using move_down_spec [OF n, of dst src m] by (simp add: bytes_at_eq_iff)
  next
    case noverlap: False
    have "dst + of_nat i \<noteq> src + of_nat j" if "i < j" "j < n" for i j
      using noverlap that u(1) [of j] u(2) [of i] un
      by (auto simp: word_less_nat_alt not_less dest!: arg_cong [of _ _ unat])
    moreover have "memmove m dst src n = move_up m dst src n"
      using False noverlap by (auto simp: memmove_def)
    ultimately show ?thesis using move_up_spec [OF n, of dst src m] by (simp add: bytes_at_eq_iff)
  qed
qed (simp add: memmove_def)

section \<open>Strings\<close>

lemma cstr_at_simps [simp]:
  "cstr_at m a [] \<longleftrightarrow> m a = 0"
  "cstr_at m a (x # xs) \<longleftrightarrow> x \<noteq> 0 \<and> m a = x \<and> cstr_at m (a + 1) xs"
  by (auto simp: cstr_at_def bytes_at_Suc)

lemma cstr_at_cong:
  assumes "\<And>b. b \<in> region a (length xs + 1) \<Longrightarrow> m b = m' b"
  shows "cstr_at m a xs \<longleftrightarrow> cstr_at m' a xs"
  using bytes_at_cong [OF assms] by (simp add: cstr_at_def)

lemma strlen_from_cstr: "cstr_at m (a + of_int n) xs \<Longrightarrow> strlen_from m a n = Some (n + int (length xs))"
proof (induction xs arbitrary: n)
  case (Cons x xs)
  then have "strlen_from m a (n + 1) = Some (n + 1 + int (length xs))" by (intro Cons.IH) (simp add: add.assoc)
  with Cons.prems show ?case by (subst strlen_from.simps) simp
qed (simp add: strlen_from.simps)

lemma strncmp_eq_0:
  "cstr_at m p xs \<Longrightarrow> cstr_at m q ys \<Longrightarrow> strncmp m p q n = 0 \<longleftrightarrow> take n xs = take n ys"
proof (induction m p q n arbitrary: xs ys rule: strncmp.induct)
  case (2 m p q n)
  then show ?case by (cases xs; cases ys) (auto simp: word_uint_eq_iff)
qed simp

lemma zero_fill_apply:
  "zero_fill m s n a = (if a \<in> region s n then 0 else m a)"
proof (induction n arbitrary: m s)
  case (Suc n)
  have "zero_fill m s (Suc n) a = (if a \<in> region (s + 1) n then 0 else (m(s := 0)) a)"
    using Suc.IH [of "m(s := 0)" "s + 1"] by (simp only: zero_fill.simps)
  then show ?case by (auto simp: region_Suc)
qed simp

lemma safestrcpy_loop_spec:
  assumes "cstr_at m t xs" "n < 2 ^ 63" "length xs < 2 ^ 63"
    and "region s (Suc n) \<inter> region t (length xs + 1) = {}"
  shows "cstr_at (safestrcpy_loop m s t n) s (take n xs) \<and>
    (\<forall>a. a \<notin> region s (Suc n) \<longrightarrow> safestrcpy_loop m s t n a = m a)"
  using assms
proof (induction n arbitrary: m s t xs)
  case 0
  then show ?case by (simp add: region_Suc)
next
  case (Suc n)
  show ?case
  proof (cases xs)
    case Nil
    have "s \<noteq> s + 1" using offset_self [of 1 s] by simp
    then show ?thesis using Suc.prems Nil by (simp add: region_Suc Let_def)
  next
    case (Cons x ys)
    let ?m = "m(s := m t)"
    have r: "s \<notin> region (t + 1) (length ys + 1)"
      "region (s + 1) (Suc n) \<inter> region (t + 1) (length ys + 1) = {}"
      using Suc.prems(4) by (auto simp: Cons region_Suc)
    have x: "m t \<noteq> 0" "m t = x" using Suc.prems(1) Cons by auto
    have "?m b = m b" if "b \<in> region (t + 1) (length ys + 1)" for b using r(1) that by auto
    then have "cstr_at ?m (t + 1) ys \<longleftrightarrow> cstr_at m (t + 1) ys" by (rule cstr_at_cong)
    then have c: "cstr_at ?m (t + 1) ys" using Suc.prems(1) Cons by simp
    have n: "n < 2 ^ 63" and ys: "length ys < 2 ^ 63" using Suc.prems(2,3) Cons by simp_all
    have IH: "cstr_at (safestrcpy_loop ?m (s + 1) (t + 1) n) (s + 1) (take n ys)"
      "\<And>a. a \<notin> region (s + 1) (Suc n) \<Longrightarrow> safestrcpy_loop ?m (s + 1) (t + 1) n a = ?m a"
      using Suc.IH [OF c n ys, of "s + 1"] r(2) by blast+
    have "s \<notin> region (s + 1) (Suc n)" using region_not_self [of "Suc n" s] Suc.prems(2) by simp
    then have "safestrcpy_loop ?m (s + 1) (t + 1) n s = x" using IH(2) [of s] x by simp
    moreover have "safestrcpy_loop m s t (Suc n) = safestrcpy_loop ?m (s + 1) (t + 1) n"
      using x by (simp add: Let_def)
    moreover have "safestrcpy_loop ?m (s + 1) (t + 1) n a = m a" if "a \<notin> region s (Suc (Suc n))" for a
      using IH(2) [of a] that by (simp add: region_Suc)
    ultimately show ?thesis using IH(1) x Cons by simp
  qed
qed

section \<open>Properties\<close>

text \<open>
  (C35) \<^verbatim>\<open>memmove\<close> copies correctly even when source and destination overlap: the destination ends
  up with the bytes the source had before the call, and no other byte changes, whenever the source
  ends before the end of the address space and the destination does not wrap around.
\<close>

theorem memmove_overlap:
  assumes "unat src + n < 2 ^ 64" "unat dst + n \<le> 2 ^ 64"
  shows "bytes_at (memmove m dst src n) dst n = bytes_at m src n \<and>
    (\<forall>a. a \<notin> region dst n \<longrightarrow> memmove m dst src n a = m a)"
  using assms by (rule memmove_spec)

theorem memmove_overlap_witness:
  "bytes_at (memmove (\<lambda>a. ucast a) 0x1002 0x1000 4) 0x1002 4 = [0, 1, 2, 3]"
proof -
  have "bytes_at (\<lambda>a. ucast a) 0x1000 4 = [0, 1, 2, 3 :: u8]"
    by (simp add: bytes_at_def upt_conv_Cons)
  then show ?thesis using memmove_overlap [of "0x1000" 4 "0x1002" "\<lambda>a. ucast a"] by simp
qed

text \<open>
  (C36) \<^verbatim>\<open>safestrcpy\<close> always leaves a terminated string: with a positive size and a terminated
  source that does not overlap the destination, the destination holds the source cut to one byte
  less than the size, followed by a zero byte, and no byte outside the destination changes.
\<close>

theorem safestrcpy_terminates:
  assumes "cstr_at m t xs" "0 < n" "n < 2 ^ 31" "length xs < 2 ^ 63"
    and "region s (nat n) \<inter> region t (length xs + 1) = {}"
  shows "cstr_at (safestrcpy m s t n) s (take (nat n - 1) xs) \<and>
    (\<forall>a. a \<notin> region s (nat n) \<longrightarrow> safestrcpy m s t n a = m a)"
proof -
  have n: "Suc (nat (n - 1)) = nat n" "nat (n - 1) = nat n - 1" using assms(2) by auto
  have "nat (n - 1) < 2 ^ 63" using assms(3) by simp
  from safestrcpy_loop_spec [OF assms(1) this assms(4), of s] show ?thesis
    using assms(2,5) unfolding n by (simp add: safestrcpy_def n)
qed

theorem safestrcpy_terminates_witness:
  "cstr_at (safestrcpy ((\<lambda>_. 7)(0x3 := 0)) 0x100 0x0 3) 0x100 [7, 7]"
proof -
  have "cstr_at ((\<lambda>_. 7)(0x3 := 0)) 0x0 [7, 7, 7]" by simp
  moreover have "region 0x100 3 \<inter> region 0x0 (length [7, 7, 7 :: u8] + 1) = {}"
    by (simp add: region_Suc numeral_3_eq_3)
  ultimately show ?thesis
    using safestrcpy_terminates [of "(\<lambda>_. 7)(0x3 := 0)" "0x0" "[7, 7, 7]" 3 "0x100"] by simp
qed

text \<open>
  (C37) \<^verbatim>\<open>strlen\<close> returns on every terminated string with its length, \<^verbatim>\<open>strncmp\<close> is zero exactly when
  the strings agree on their first \<open>n\<close> bytes, and \<^verbatim>\<open>memcmp\<close> is zero exactly when the blocks are
  equal.
\<close>

theorem string_comparisons:
  assumes "cstr_at m p xs" "cstr_at m q ys"
  shows "strlen m p = Some (int (length xs)) \<and>
    (strncmp m p q n = 0 \<longleftrightarrow> take n xs = take n ys) \<and>
    (memcmp m p q n = 0 \<longleftrightarrow> bytes_at m p n = bytes_at m q n)"
  using strlen_from_cstr [of m p 0 xs] strncmp_eq_0 [OF assms] assms(1)
  by (simp add: strlen_def memcmp_first_diff first_diff_eq_0)

theorem string_comparisons_witness:
  "strlen ((\<lambda>_. 7)(0x3 := 0)) 0x1 = Some 2 \<and> strncmp ((\<lambda>_. 7)(0x3 := 0)) 0x0 0x1 2 = 0"
proof -
  have "cstr_at ((\<lambda>_. 7)(0x3 := 0)) 0x0 [7, 7, 7]" "cstr_at ((\<lambda>_. 7)(0x3 := 0)) 0x1 [7, 7]" by simp_all
  then show ?thesis
    using string_comparisons [of "(\<lambda>_. 7)(0x3 := 0)" "0x0" "[7, 7, 7]" "0x1" "[7, 7]" 2]
      string_comparisons [of "(\<lambda>_. 7)(0x3 := 0)" "0x1" "[7, 7]" "0x0" "[7, 7, 7]" 2]
    by simp
qed

end
