(* ===== verification/Kalloc.thy ===== *)
theory Kalloc
  imports Machine CString
begin

text \<open>
  The physical page allocator (\<^verbatim>\<open>kernel/kalloc.c\<close>). The free list is threaded through the free
  pages themselves: the first eight bytes of a free page hold the address of the next one. The
  bodies run under \<^verbatim>\<open>kmem.lock\<close>. \<open>free_pages s xs\<close> says that the list of state \<open>s\<close> contains exactly
  the pages \<open>xs\<close>; the locale \<open>page_allocator\<close> is what the rest of the kernel relies on.
\<close>

section \<open>Operations\<close>

definition kfree :: "u64 \<Rightarrow> 'a kstate_scheme \<Rightarrow> 'a kstate_scheme res" where
  "kfree pa s =
     (if pa mod PGSIZE \<noteq> 0 \<or> pa < kend s \<or> pa \<ge> PHYSTOP then Panic ''kfree''
      else (let s = s\<lparr>mem := memset (mem s) pa 1 (unat PGSIZE)\<rparr>;
                s = s\<lparr>mem := store64 (mem s) pa (freelist s)\<rparr>
            in Ok (s\<lparr>freelist := pa\<rparr>)))"

definition kalloc :: "'a kstate_scheme \<Rightarrow> u64 \<times> 'a kstate_scheme" where
  "kalloc s =
     (let r = freelist s;
          s = (if r \<noteq> 0 then s\<lparr>freelist := load64 (mem s) r\<rparr> else s);
          s = (if r \<noteq> 0 then s\<lparr>mem := memset (mem s) r 5 (unat PGSIZE)\<rparr> else s)
      in (r, s))"

text \<open>
  The loop of \<^verbatim>\<open>freerange\<close> from the page \<open>p\<close>. It ends because a page it goes on after lies below
  \<^verbatim>\<open>PHYSTOP\<close>: the sum \<^verbatim>\<open>p + PGSIZE\<close> wraps around only beyond that, where \<^verbatim>\<open>kfree\<close> panics.
\<close>

lemma PHYSTOP_val: "PHYSTOP = 0x88000000"
  by (simp add: PHYSTOP_def KERNBASE_def)

lemma kfree_Ok_bound: "kfree pa s = Ok s' \<Longrightarrow> unat pa < 0x88000000"
  by (auto simp: kfree_def PHYSTOP_val not_le word_less_nat_alt split: if_splits)

function freerange_loop :: "u64 \<Rightarrow> u64 \<Rightarrow> 'a kstate_scheme \<Rightarrow> 'a kstate_scheme res" where
  "freerange_loop p pa_end s =
     (if p + PGSIZE \<le> pa_end then res_bind (kfree p s) (freerange_loop (p + PGSIZE) pa_end) else Ok s)"
  by pat_completeness auto
termination
proof (relation "measure (\<lambda>(p, _, _). 0x88001000 - unat p)")
  fix p pa_end :: u64 and s x :: "'a kstate_scheme"
  assume "kfree p s = Ok x"
  then have "unat p < 0x88000000" by (rule kfree_Ok_bound)
  then have "unat (p + PGSIZE) = unat p + 4096"
    using unat_offset [of p 4096] by (simp add: PGSIZE_def)
  with \<open>unat p < 0x88000000\<close>
  show "((p + PGSIZE, pa_end, x), (p, pa_end, s)) \<in> measure (\<lambda>(p, _, _). 0x88001000 - unat p)" by simp
qed simp

declare freerange_loop.simps [simp del]

definition freerange :: "u64 \<Rightarrow> u64 \<Rightarrow> 'a kstate_scheme \<Rightarrow> 'a kstate_scheme res" where
  "freerange pa_start pa_end s = freerange_loop (PGROUNDUP pa_start) pa_end s"

definition kinit :: "'a kstate_scheme \<Rightarrow> 'a kstate_scheme res" where
  "kinit s = freerange (kend s) PHYSTOP s"

section \<open>The free list\<close>

definition ptr :: "u64 \<Rightarrow> u64 option" where
  "ptr p = (if p = 0 then None else Some p)"

lemma ptr_nonzero: "p \<noteq> 0 \<Longrightarrow> ptr p = Some p"
  by (simp add: ptr_def)

definition page_ok :: "u64 \<Rightarrow> u64 \<Rightarrow> bool" where
  "page_ok e p \<longleftrightarrow> p mod PGSIZE = 0 \<and> e \<le> p \<and> p < PHYSTOP \<and> p \<noteq> 0"

abbreviation page :: "u64 \<Rightarrow> u64 set" where
  "page p \<equiv> region p 4096"

definition free_pages :: "'a kstate_scheme \<Rightarrow> u64 list \<Rightarrow> bool" where
  "free_pages s xs \<longleftrightarrow>
     chain (\<lambda>p. ptr (load64 (mem s) p)) (ptr (freelist s)) xs \<and> (\<forall>p\<in>set xs. page_ok (kend s) p)"

lemma PGSIZE_nat [simp]: "unat PGSIZE = 4096"
  by (simp add: PGSIZE_def)

lemma page_aligned: "p mod PGSIZE = 0 \<longleftrightarrow> aligned 4096 p"
proof -
  have "unat (p mod PGSIZE) = unat p mod 4096" by (simp add: PGSIZE_def unat_mod_distrib)
  then show ?thesis by (metis aligned_def unat_0 unat_eq_zero)
qed

lemma pages_disjoint: "page_ok e p \<Longrightarrow> page_ok e' q \<Longrightarrow> p \<noteq> q \<Longrightarrow> page p \<inter> page q = {}"
  by (rule region_aligned_disjoint) (auto simp: page_ok_def page_aligned)

lemma region_mono: "n \<le> k \<Longrightarrow> region a n \<subseteq> region a k"
  by (auto simp: region_def)

lemma self_in_page: "p \<in> page p"
proof -
  have "region p (Suc 4095) = page p" by simp
  then show ?thesis using region_Suc [of p 4095] by blast
qed

text \<open>The link of a page depends on its own bytes only.\<close>

lemma load64_page: "(\<And>a. a \<in> page p \<Longrightarrow> m a = m' a) \<Longrightarrow> load64 m p = load64 m' p"
  using region_mono [of 8 4096 p] by (intro load_le_cong) auto

lemma store64_outside: "a \<notin> page p \<Longrightarrow> store64 m p v a = m a"
  using region_mono [of 8 4096 p] by (intro store_le_other) auto

lemma free_pages_distinct: "free_pages s xs \<Longrightarrow> distinct xs"
  by (auto simp: free_pages_def intro: chain_distinct)

lemma free_pages_unique: "free_pages s xs \<Longrightarrow> free_pages s ys \<Longrightarrow> xs = ys"
  by (auto simp: free_pages_def intro: chain_unique)

lemma free_pages_cong:
  assumes "freelist s' = freelist s" "kend s' = kend s"
    and "\<And>p a. p \<in> set xs \<Longrightarrow> a \<in> page p \<Longrightarrow> mem s' a = mem s a"
  shows "free_pages s' xs \<longleftrightarrow> free_pages s xs"
proof -
  have "ptr (load64 (mem s') p) = ptr (load64 (mem s) p)" if "p \<in> set xs" for p
    using load64_page [of p "mem s'" "mem s"] assms(3) [OF that] by simp
  then have "chain (\<lambda>p. ptr (load64 (mem s') p)) (ptr (freelist s)) xs \<longleftrightarrow>
      chain (\<lambda>p. ptr (load64 (mem s) p)) (ptr (freelist s)) xs"
    by (intro chain_cong)
  then show ?thesis by (simp add: free_pages_def assms(1,2))
qed

text \<open>Taking a page: the head of the list, filled with junk.\<close>

lemma kalloc_empty: "free_pages s [] \<Longrightarrow> kalloc s = (0, s)"
  by (auto simp: free_pages_def kalloc_def ptr_def split: if_splits)

lemma kalloc_cons:
  assumes "free_pages s (p # xs)"
  shows "\<exists>l. kalloc s = (p, s\<lparr>mem := memset (mem s) p 5 4096, freelist := l\<rparr>) \<and>
    free_pages (s\<lparr>mem := memset (mem s) p 5 4096, freelist := l\<rparr>) xs"
proof -
  have p: "freelist s = p" "p \<noteq> 0" using assms by (auto simp: free_pages_def ptr_def split: if_splits)
  let ?s = "s\<lparr>mem := memset (mem s) p 5 4096, freelist := load64 (mem s) p\<rparr>"
  have "p \<notin> set xs" using free_pages_distinct [OF assms] by simp
  have "mem ?s a = mem s a" if "q \<in> set xs" "a \<in> page q" for q a
  proof -
    have "page p \<inter> page q = {}"
      using assms that(1) \<open>p \<notin> set xs\<close> by (intro pages_disjoint) (auto simp: free_pages_def)
    then show ?thesis using that(2) by (auto simp: memset_apply)
  qed
  then have "free_pages ?s xs \<longleftrightarrow> free_pages (s\<lparr>freelist := load64 (mem s) p\<rparr>) xs"
    by (intro free_pages_cong) simp_all
  moreover have "free_pages (s\<lparr>freelist := load64 (mem s) p\<rparr>) xs"
    using assms by (simp add: free_pages_def)
  moreover have "kalloc s = (p, ?s)" using p by (simp add: kalloc_def Let_def)
  ultimately show ?thesis by blast
qed

lemma kfree_spec:
  assumes "free_pages s xs" "page_ok (kend s) p" "p \<notin> set xs"
  shows "\<exists>m. kfree p s = Ok (s\<lparr>mem := m, freelist := p\<rparr>) \<and>
    free_pages (s\<lparr>mem := m, freelist := p\<rparr>) (p # xs) \<and> (\<forall>a. a \<notin> page p \<longrightarrow> m a = mem s a)"
proof -
  let ?m = "store64 (memset (mem s) p 1 4096) p (freelist s)"
  let ?s = "s\<lparr>mem := ?m, freelist := p\<rparr>"
  have eq: "kfree p s = Ok ?s" using assms(2) by (simp add: kfree_def page_ok_def Let_def not_less not_le)
  have out: "?m a = mem s a" if "a \<notin> page p" for a
    using that by (simp add: store64_outside memset_apply)
  have "mem ?s a = mem s a" if "q \<in> set xs" "a \<in> page q" for q a
  proof -
    have "page p \<inter> page q = {}"
      using assms that(1) by (intro pages_disjoint) (auto simp: free_pages_def)
    then show ?thesis using that(2) out by auto
  qed
  then have "free_pages (s\<lparr>mem := ?m\<rparr>) xs \<longleftrightarrow> free_pages s xs" by (intro free_pages_cong) simp_all
  then have "free_pages ?s (p # xs)"
    using assms(1,2) by (simp add: free_pages_def page_ok_def ptr_nonzero)
  with eq out show ?thesis by blast
qed

section \<open>Initialisation\<close>

lemma round_down: "a AND NOT (PGSIZE - 1) = push_bit 12 (drop_bit 12 a)"
proof -
  have eq: "PGSIZE - 1 = mask 12" by (simp add: PGSIZE_def mask_eq_exp_minus_1)
  show ?thesis unfolding eq by (rule bit_word_eqI) (auto simp: bit_simps)
qed

lemma unat_round_down: "unat (a AND NOT (PGSIZE - 1)) = unat a div 4096 * 4096"
proof -
  have d: "unat (drop_bit 12 a) = unat a div 4096"
    unfolding unat_drop_bit_eq by (simp add: drop_bit_eq_div)
  have "unat a div 4096 * 4096 \<le> unat a" by simp
  moreover have "unat a < 2 ^ 64" using unsigned_less [where w = a and 'a = nat] by simp
  ultimately have "unat a div 4096 * 4096 < 2 ^ 64" by linarith
  then have "unat (drop_bit 12 a * 4096) = unat (drop_bit 12 a) * unat (4096 :: u64)"
    using d by (intro unat_mult_lem [THEN iffD1]) simp
  then show ?thesis unfolding round_down using d by (simp add: push_bit_eq_mult)
qed

lemma unat_PGROUNDDOWN: "unat (PGROUNDDOWN a) = unat a div 4096 * 4096"
  unfolding PGROUNDDOWN_def by (rule unat_round_down)

lemma unat_PGROUNDUP:
  assumes "unat a + 4095 < 2 ^ 64"
  shows "unat (PGROUNDUP a) = (unat a + 4095) div 4096 * 4096"
proof -
  have "unat (a + PGSIZE - 1) = unat a + 4095" using unat_offset [OF assms] by (simp add: PGSIZE_def add.commute)
  then show ?thesis unfolding PGROUNDUP_def unat_round_down by simp
qed

text \<open>The pages of a range, in the order they end up on the list.\<close>

fun range_pages :: "u64 \<Rightarrow> nat \<Rightarrow> u64 list" where
  "range_pages p 0 = []"
| "range_pages p (Suc n) = range_pages (p + PGSIZE) n @ [p]"

lemma unat_next_page: "unat p + 4096 < 2 ^ 64 \<Longrightarrow> unat (p + PGSIZE) = unat p + 4096"
  using unat_offset [of p 4096] by (simp add: PGSIZE_def)

lemma ex_less_Suc: "(\<exists>i<Suc n. P i) \<longleftrightarrow> P 0 \<or> (\<exists>i<n. P (Suc i))"
  using less_Suc_eq_0_disj [of _ n] by auto

lemma set_range_pages:
  "unat p + 4096 * n < 2 ^ 64 \<Longrightarrow> q \<in> set (range_pages p n) \<longleftrightarrow> (\<exists>i<n. unat q = unat p + 4096 * i)"
proof (induction p n rule: range_pages.induct)
  case (2 p n)
  then have u: "unat (p + PGSIZE) = unat p + 4096" by (intro unat_next_page) simp
  have "q \<in> set (range_pages p (Suc n)) \<longleftrightarrow> q = p \<or> (\<exists>i<n. unat q = unat p + 4096 * Suc i)"
    using 2 u by (auto simp: algebra_simps)
  also have "q = p \<longleftrightarrow> unat q = unat p + 4096 * 0" by (simp add: word_unat_eq_iff)
  also have "unat q = unat p + 4096 * 0 \<or> (\<exists>i<n. unat q = unat p + 4096 * Suc i) \<longleftrightarrow>
      (\<exists>i<Suc n. unat q = unat p + 4096 * i)"
    by (simp only: ex_less_Suc)
  finally show ?case .
qed simp

lemma freerange_loop_spec:
  assumes "free_pages s xs" "p mod PGSIZE = 0" "kend s \<le> p" "p \<noteq> 0"
    and "unat p + 4096 * n \<le> unat e" "unat e < unat p + 4096 * Suc n" "unat e \<le> 0x88000000"
    and "\<And>q. q \<in> set xs \<Longrightarrow> unat q < unat p"
  shows "\<exists>s'. freerange_loop p e s = Ok s' \<and> free_pages s' (range_pages p n @ xs) \<and> kend s' = kend s"
  using assms
proof (induction n arbitrary: p s xs)
  case 0
  have "unat (p + PGSIZE) = unat p + 4096" using 0 by (intro unat_next_page) simp
  then have "\<not> p + PGSIZE \<le> e" using 0 by (simp add: word_le_nat_alt)
  then show ?case using 0 by (subst freerange_loop.simps) simp
next
  case (Suc n)
  have lt: "unat p < 0x88000000" using Suc.prems(5,7) by simp
  then have u: "unat (p + PGSIZE) = unat p + 4096" by (intro unat_next_page) simp
  have ok: "page_ok (kend s) p"
    using Suc.prems(2,3,4) lt by (simp add: page_ok_def PHYSTOP_val word_less_nat_alt)
  have "p \<notin> set xs" using Suc.prems(8) by blast
  then obtain s1 where s1: "kfree p s = Ok s1" "free_pages s1 (p # xs)" "kend s1 = kend s"
    using kfree_spec [OF Suc.prems(1) ok] by auto
  have le: "p + PGSIZE \<le> e" using Suc.prems(5) u by (simp add: word_le_nat_alt)
  have "(p + PGSIZE) mod PGSIZE = 0"
    using Suc.prems(2) u unfolding page_aligned aligned_def by simp
  moreover have "kend s1 \<le> p + PGSIZE" using Suc.prems(3) s1(3) u by (simp add: word_le_nat_alt)
  moreover have "p + PGSIZE \<noteq> 0" using u by (metis add_is_0 unat_0 zero_neq_numeral)
  moreover have "unat (p + PGSIZE) + 4096 * n \<le> unat e" "unat e < unat (p + PGSIZE) + 4096 * Suc n"
    using Suc.prems(5,6) u by simp_all
  moreover have "unat q < unat (p + PGSIZE)" if "q \<in> set (p # xs)" for q
    using that Suc.prems(8) [of q] u by auto
  ultimately obtain s2 where "freerange_loop (p + PGSIZE) e s1 = Ok s2"
      "free_pages s2 (range_pages (p + PGSIZE) n @ p # xs)" "kend s2 = kend s1"
    using Suc.IH [OF s1(2), of "p + PGSIZE"] Suc.prems(7) by auto
  with le s1 show ?case by (subst freerange_loop.simps) simp
qed

lemma kinit_spec:
  assumes "freelist s = 0" "0 < kend s" "kend s \<le> PHYSTOP"
  shows "\<exists>s' xs. kinit s = Ok s' \<and> free_pages s' xs \<and> set xs = {p. page_ok (kend s) p} \<and> kend s' = kend s"
proof -
  let ?k = "unat (kend s)" and ?p = "PGROUNDUP (kend s)"
  define r where "r = (?k + 4095) div 4096"
  define n where "n = 557056 - r"
  have k: "0 < ?k" "?k \<le> 0x88000000"
    using assms(2,3) by (simp_all add: PHYSTOP_val word_less_nat_alt word_le_nat_alt)
  then have p: "unat ?p = r * 4096" unfolding r_def by (intro unat_PGROUNDUP) simp
  have ge: "?k \<le> r * 4096" unfolding r_def by linarith
  have "r \<le> (0x88000000 + 4095) div 4096" unfolding r_def using k by (intro div_le_mono) simp
  then have r: "r \<le> 557056" by simp
  have al: "?p mod PGSIZE = 0" using p by (simp add: page_aligned aligned_def)
  have hi: "unat ?p + 4096 * n = 0x88000000" using r by (simp add: n_def p)
  have "free_pages s []" using assms(1) by (simp add: free_pages_def ptr_def)
  moreover have "kend s \<le> ?p" using ge by (simp add: word_le_nat_alt p)
  moreover have "?p \<noteq> 0" using ge k(1) p by (metis gr_implies_not0 le_zero_eq unat_0)
  moreover have "unat PHYSTOP = 0x88000000" by (simp add: PHYSTOP_val)
  ultimately obtain s' where s': "freerange_loop ?p PHYSTOP s = Ok s'"
      "free_pages s' (range_pages ?p n @ [])" "kend s' = kend s"
    using freerange_loop_spec [of s "[]" ?p n PHYSTOP] al hi by auto
  have "q \<in> set (range_pages ?p n) \<longleftrightarrow> page_ok (kend s) q" for q
  proof
    assume "q \<in> set (range_pages ?p n)"
    then show "page_ok (kend s) q" using s'(2,3) by (simp add: free_pages_def)
  next
    assume ok: "page_ok (kend s) q"
    then have q: "unat q mod 4096 = 0" "?k \<le> unat q" "unat q < 0x88000000"
      by (auto simp: page_ok_def page_aligned aligned_def PHYSTOP_val word_le_nat_alt word_less_nat_alt)
    then obtain j where j: "unat q = 4096 * j" by auto
    have "r \<le> (4096 * j + 4095) div 4096" unfolding r_def using q(2) j by (intro div_le_mono) simp
    then have rj: "r \<le> j" by simp
    then have "unat q = unat ?p + 4096 * (j - r)" by (simp add: p j)
    moreover have "j - r < n" using q(3) j rj by (simp add: n_def)
    ultimately show "q \<in> set (range_pages ?p n)"
      using set_range_pages [of ?p n q] hi by auto
  qed
  then have "set (range_pages ?p n) = {p. page_ok (kend s) p}" by blast
  with s' show ?thesis unfolding kinit_def freerange_def by auto
qed

section \<open>The interface of the allocator\<close>

text \<open>
  An allocator of pages: \<open>pages s xs\<close> is its view of the free pages, \<open>bytes s\<close> the memory. An
  allocation takes the first free page and may write only to it; freeing a page that is not free
  puts it in front and may write only to it.
\<close>

locale page_allocator =
  fixes pages :: "'s \<Rightarrow> u64 list \<Rightarrow> bool"
    and bytes :: "'s \<Rightarrow> memory"
    and valid :: "'s \<Rightarrow> u64 \<Rightarrow> bool"
    and alloc :: "'s \<Rightarrow> u64 \<times> 's"
    and free :: "u64 \<Rightarrow> 's \<Rightarrow> 's res"
  assumes pages_valid: "pages s xs \<Longrightarrow> p \<in> set xs \<Longrightarrow> valid s p"
    and valid_nonzero: "valid s p \<Longrightarrow> p \<noteq> 0"
    and pages_distinct: "pages s xs \<Longrightarrow> distinct xs"
    and alloc_none: "pages s [] \<Longrightarrow> alloc s = (0, s)"
    and alloc_some: "pages s (p # xs) \<Longrightarrow>
      \<exists>s'. alloc s = (p, s') \<and> pages s' xs \<and> valid s' = valid s \<and> (\<forall>a. a \<notin> page p \<longrightarrow> bytes s' a = bytes s a)"
    and free_law: "pages s xs \<Longrightarrow> valid s p \<Longrightarrow> p \<notin> set xs \<Longrightarrow>
      \<exists>s'. free p s = Ok s' \<and> pages s' (p # xs) \<and> valid s' = valid s \<and> (\<forall>a. a \<notin> page p \<longrightarrow> bytes s' a = bytes s a)"
begin

text \<open>Allocating \<open>n\<close> pages in a row.\<close>

fun allocs :: "nat \<Rightarrow> 's \<Rightarrow> u64 list \<times> 's" where
  "allocs 0 s = ([], s)"
| "allocs (Suc n) s = (let (p, s) = alloc s; (ps, s) = allocs n s in (p # ps, s))"

lemma alloc_zero_iff: "pages s xs \<Longrightarrow> fst (alloc s) = 0 \<longleftrightarrow> xs = []"
  using alloc_none alloc_some pages_valid valid_nonzero by (cases xs) (auto, fastforce)

text \<open>As long as the list is long enough, \<open>n\<close> allocations return the first \<open>n\<close> free pages.\<close>

lemma allocs_take:
  "pages s xs \<Longrightarrow> n \<le> length xs \<Longrightarrow> \<exists>s'. allocs n s = (take n xs, s') \<and> pages s' (drop n xs)"
proof (induction n arbitrary: s xs)
  case (Suc n)
  then obtain p ys where xs: "xs = p # ys" by (cases xs) auto
  then obtain s1 where s1: "alloc s = (p, s1)" "pages s1 ys" using alloc_some Suc.prems(1) by blast
  then show ?case using Suc.IH [OF s1(2)] Suc.prems(2) xs by auto
qed simp

lemma allocs_distinct:
  assumes "pages s xs" "n \<le> length xs"
  shows "distinct (fst (allocs n s)) \<and> set (fst (allocs n s)) \<inter> set (drop n xs) = {} \<and> 0 \<notin> set (fst (allocs n s))"
proof -
  have "fst (allocs n s) = take n xs" using allocs_take [OF assms] by auto
  moreover have "0 \<notin> set xs" using pages_valid [OF assms(1)] valid_nonzero by blast
  ultimately show ?thesis
    using pages_distinct [OF assms(1)] set_take_disj_set_drop_if_distinct [of xs n n] by (auto dest: in_set_takeD)
qed

text \<open>Freeing the page just allocated restores the list, and leaves every other page alone.\<close>

lemma alloc_free:
  assumes "pages s (p # xs)"
  shows "\<exists>s1 s2. alloc s = (p, s1) \<and> free p s1 = Ok s2 \<and> pages s2 (p # xs) \<and>
    (\<forall>a. a \<notin> page p \<longrightarrow> bytes s2 a = bytes s a)"
proof -
  obtain s1 where s1: "alloc s = (p, s1)" "pages s1 xs" "valid s1 = valid s"
      "\<forall>a. a \<notin> page p \<longrightarrow> bytes s1 a = bytes s a" using alloc_some [OF assms] by blast
  have "valid s1 p" "p \<notin> set xs" using pages_valid [OF assms] pages_distinct [OF assms] s1(3) by auto
  then obtain s2 where "free p s1 = Ok s2" "pages s2 (p # xs)" "\<forall>a. a \<notin> page p \<longrightarrow> bytes s2 a = bytes s1 a"
    using free_law [OF s1(2)] by blast
  with s1 show ?thesis by auto
qed

end

interpretation km: page_allocator free_pages mem "\<lambda>s. page_ok (kend s)" kalloc kfree
proof unfold_locales
  fix s :: "'a kstate_scheme" and xs p
  show "free_pages s xs \<Longrightarrow> p \<in> set xs \<Longrightarrow> page_ok (kend s) p" by (simp add: free_pages_def)
  show "page_ok (kend s) p \<Longrightarrow> p \<noteq> 0" by (simp add: page_ok_def)
  show "free_pages s xs \<Longrightarrow> distinct xs" by (rule free_pages_distinct)
  show "free_pages s [] \<Longrightarrow> kalloc s = (0, s)" by (rule kalloc_empty)
  show "\<exists>s'. kalloc s = (p, s') \<and> free_pages s' xs \<and> page_ok (kend s') = page_ok (kend s) \<and>
      (\<forall>a. a \<notin> page p \<longrightarrow> mem s' a = mem s a)" if "free_pages s (p # xs)"
    using kalloc_cons [OF that] by (auto simp: memset_apply)
  show "\<exists>s'. kfree p s = Ok s' \<and> free_pages s' (p # xs) \<and> page_ok (kend s') = page_ok (kend s) \<and>
      (\<forall>a. a \<notin> page p \<longrightarrow> mem s' a = mem s a)"
    if "free_pages s xs" "page_ok (kend s) p" "p \<notin> set xs"
    using kfree_spec [OF that] by auto
qed

section \<open>Properties\<close>

text \<open>
  (C29) \<^verbatim>\<open>kinit\<close> never panics and puts every page-aligned address from the end of the kernel up to
  \<^verbatim>\<open>PHYSTOP\<close> on the free list, exactly once and nothing else.
\<close>

theorem kinit_frees_all:
  assumes "freelist s = 0" "0 < kend s" "kend s \<le> PHYSTOP"
  shows "\<exists>s' xs. kinit s = Ok s' \<and> free_pages s' xs \<and> distinct xs \<and>
    set xs = {p. p mod PGSIZE = 0 \<and> kend s \<le> p \<and> p < PHYSTOP \<and> p \<noteq> 0}"
proof -
  obtain s' xs where s': "kinit s = Ok s'" "free_pages s' xs" "set xs = {p. page_ok (kend s) p}"
    using kinit_spec [OF assms] by blast
  with km.pages_distinct [OF s'(2)] show ?thesis by (auto simp: page_ok_def)
qed

definition boot_proc :: proc where
  "boot_proc = \<lparr>p_state = UNUSED, p_chan = 0, p_killed = 0, p_xstate = 0, p_pid = 0,
     p_parent = None, p_kstack = 0, p_sz = 0, p_pagetable = 0, p_trapframe = 0,
     p_context = \<lparr>ctx_ra = 0, ctx_sp = 0, ctx_s = replicate 12 0\<rparr>,
     p_ofile = replicate NOFILE None, p_cwd = None,
     p_wq_entry = \<lparr>e_proc = 0, e_chan = 0, e_next = None, e_queued = 0\<rparr>, p_name = replicate 16 0\<rparr>"

definition boot_cpu :: cpu where
  "boot_cpu = \<lparr>c_proc = None, c_context = \<lparr>ctx_ra = 0, ctx_sp = 0, ctx_s = replicate 12 0\<rparr>,
     c_noff = 0, c_intena = False, c_sie = False\<rparr>"

text \<open>A machine at boot, whose kernel ends just below \<^verbatim>\<open>PHYSTOP\<close>.\<close>

definition boot_state :: kstate where
  "boot_state = \<lparr>mem = (\<lambda>_. 0), freelist = 0, procs = (\<lambda>_. boot_proc), cpus = (\<lambda>_. boot_cpu),
     buckets = (\<lambda>_. None), nextpid = 1, initproc = None, ticks = 0, kend = 0x87FFD123\<rparr>"

theorem kinit_frees_all_witness:
  "\<exists>s' xs. kinit boot_state = Ok s' \<and> free_pages s' xs \<and> 0x87FFE000 \<in> set xs \<and> 0x87FFF000 \<in> set xs \<and>
     0x87FFD000 \<notin> set xs"
proof -
  obtain s' xs where "kinit boot_state = Ok s'" "free_pages s' xs"
      "set xs = {p. p mod PGSIZE = 0 \<and> kend boot_state \<le> p \<and> p < PHYSTOP \<and> p \<noteq> 0}"
    using kinit_frees_all [of boot_state] by (auto simp: boot_state_def PHYSTOP_val)
  then show ?thesis by (auto simp: boot_state_def PHYSTOP_val PGSIZE_def)
qed

text \<open>
  (C30) Allocation and freeing are inverse: with a non-empty list \<^verbatim>\<open>kalloc\<close> returns the first free
  page, filled with the byte 5, and takes it off the list; freeing it again does not panic and
  restores the list; no byte outside the page changes. \<^verbatim>\<open>kfree\<close> panics on every address that is
  not a page of the managed range.
\<close>

theorem kalloc_kfree_roundtrip:
  assumes "free_pages s (p # xs)"
  shows "(\<exists>s1 s2. kalloc s = (p, s1) \<and> bytes_at (mem s1) p 4096 = replicate 4096 5 \<and> free_pages s1 xs \<and>
    kfree p s1 = Ok s2 \<and> free_pages s2 (p # xs) \<and> (\<forall>a. a \<notin> page p \<longrightarrow> mem s2 a = mem s a)) \<and>
    (q mod PGSIZE \<noteq> 0 \<or> q < kend s \<or> q \<ge> PHYSTOP \<longrightarrow> kfree q s = Panic ''kfree'')"
proof -
  obtain s1 s2 where s: "kalloc s = (p, s1)" "kfree p s1 = Ok s2" "free_pages s2 (p # xs)"
      "\<forall>a. a \<notin> page p \<longrightarrow> mem s2 a = mem s a"
    using km.alloc_free [OF assms] by blast
  moreover have "bytes_at (mem s1) p 4096 = replicate 4096 5" "free_pages s1 xs"
    using kalloc_cons [OF assms] s(1) by (auto simp: bytes_at_memset)
  moreover have "kfree q s = Panic ''kfree''" if "q mod PGSIZE \<noteq> 0 \<or> q < kend s \<or> q \<ge> PHYSTOP"
    using that by (simp add: kfree_def)
  ultimately show ?thesis by blast
qed

theorem kalloc_kfree_roundtrip_witness:
  "\<exists>s p s1 s2. p \<noteq> 0 \<and> kalloc s = (p, s1) \<and> kfree p s1 = Ok s2 \<and> mem s2 0x1000 = mem s 0x1000 \<and>
     kfree 0x1001 (s :: kstate) = Panic ''kfree''"
proof -
  obtain s xs where s: "free_pages (s :: kstate) xs" "set xs = {p. page_ok (kend boot_state) p}" "kend s = kend boot_state"
    using kinit_spec [of boot_state] by (auto simp: boot_state_def PHYSTOP_val)
  have "0x87FFE000 \<in> set xs" using s(2) by (simp add: page_ok_def boot_state_def PHYSTOP_val PGSIZE_def)
  then obtain p ys where xs: "xs = p # ys" by (cases xs) auto
  have ok: "page_ok (kend s) p" using s(1) xs by (simp add: free_pages_def)
  have "page_ok 0 0x1000" by (simp add: page_ok_def PGSIZE_def PHYSTOP_val)
  moreover have "p \<noteq> 0x1000" using ok s(3) by (auto simp: page_ok_def boot_state_def)
  ultimately have "0x1000 \<notin> page p"
    using pages_disjoint [OF ok, of 0 "0x1000"] self_in_page [of "0x1000"] by blast
  then show ?thesis
    using kalloc_kfree_roundtrip [OF s(1) [unfolded xs], of "0x1001"] ok
    by (auto simp: page_ok_def PGSIZE_def) blast
qed

end
