(* ===== verification/Vm.thy ===== *)
theory Vm
  imports Kalloc
begin

text \<open>
  Virtual memory (\<^verbatim>\<open>kernel/vm.c\<close>): three-level Sv39 page tables that live in the byte memory of the
  machine. A \<^verbatim>\<open>pagetable_t\<close> is the address of a table page and a \<^verbatim>\<open>pte_t *\<close> the address of an
  entry, 0 being the null pointer. Buffers of the kernel that user memory is copied from or to are
  byte lists. Loops that end only because \<^verbatim>\<open>walk\<close> panics beyond \<^verbatim>\<open>MAXVA\<close> carry that argument as
  their termination proof.
\<close>

section \<open>Walking the page table\<close>

definition pte_at :: "u64 \<Rightarrow> nat \<Rightarrow> u64 \<Rightarrow> u64" where
  "pte_at pagetable level va = pagetable + PX level va * 8"

fun walk_level ::
    "nat \<Rightarrow> u64 \<Rightarrow> u64 \<Rightarrow> bool \<Rightarrow> 'a kstate_scheme \<Rightarrow> u64 \<times> 'a kstate_scheme" where
  "walk_level 0 pagetable va alloc s = (pte_at pagetable 0 va, s)"
| "walk_level (Suc l) pagetable va alloc s =
     (let pte = pte_at pagetable (Suc l) va; v = load64 (mem s) pte in
      if v AND PTE_V \<noteq> 0 then walk_level l (PTE2PA v) va alloc s
      else if \<not> alloc then (0, s)
      else (let (p, s) = kalloc s in
            if p = 0 then (0, s)
            else (let s = s\<lparr>mem := memset (mem s) p 0 (unat PGSIZE)\<rparr>;
                      s = s\<lparr>mem := store64 (mem s) pte (PA2PTE p OR PTE_V)\<rparr>
                  in walk_level l p va alloc s)))"

definition walk :: "u64 \<Rightarrow> u64 \<Rightarrow> bool \<Rightarrow> 'a kstate_scheme \<Rightarrow> (u64 \<times> 'a kstate_scheme) res" where
  "walk pagetable va alloc s =
     (if va \<ge> MAXVA then Panic ''walk'' else Ok (walk_level 2 pagetable va alloc s))"

definition walkaddr :: "u64 \<Rightarrow> u64 \<Rightarrow> 'a kstate_scheme \<Rightarrow> (u64 \<times> 'a kstate_scheme) res" where
  "walkaddr pagetable va s =
     (if va \<ge> MAXVA then Ok (0, s)
      else res_bind (walk pagetable va False s) (\<lambda>(pte, s).
        if pte = 0 then Ok (0, s)
        else (let v = load64 (mem s) pte in
              if v AND PTE_V = 0 then Ok (0, s)
              else if v AND PTE_U = 0 then Ok (0, s)
              else Ok (PTE2PA v, s))))"

definition ismapped :: "u64 \<Rightarrow> u64 \<Rightarrow> 'a kstate_scheme \<Rightarrow> (bool \<times> 'a kstate_scheme) res" where
  "ismapped pagetable va s =
     res_bind (walk pagetable va False s) (\<lambda>(pte, s).
       if pte = 0 then Ok (False, s) else Ok (load64 (mem s) pte AND PTE_V \<noteq> 0, s))"

lemma walk_Ok_bound: "walk pt va alloc s = Ok r \<Longrightarrow> va < MAXVA"
  by (auto simp: walk_def not_le split: if_splits)

text \<open>Stepping to the next page terminates: the address grows, and \<^verbatim>\<open>walk\<close> bounds it.\<close>

lemma MAXVA_val: "MAXVA = 0x4000000000"
  by (simp add: MAXVA_def push_bit_eq_mult)

definition va_measure :: "u64 \<Rightarrow> nat" where
  "va_measure a = 0x4000002000 - unat a"

lemma va_measure_step:
  assumes "a < MAXVA" shows "va_measure (a + PGSIZE) < va_measure a"
proof -
  have "unat a < 0x4000000000" using assms by (simp add: MAXVA_val word_less_nat_alt)
  then show ?thesis using unat_next_page [of a] by (simp add: va_measure_def)
qed

section \<open>Mapping and unmapping\<close>

text \<open>\<^verbatim>\<open>mappages\<close>: the result is the C value, 0 or -1.\<close>

function (sequential) mappages_loop ::
    "u64 \<Rightarrow> u64 \<Rightarrow> u64 \<Rightarrow> u64 \<Rightarrow> u64 \<Rightarrow> 'a kstate_scheme \<Rightarrow> (int \<times> 'a kstate_scheme) res" where
  "mappages_loop pagetable a lst pa perm s =
     res_bind (walk pagetable a True s) (\<lambda>(pte, s).
       if pte = 0 then Ok (-1, s)
       else if load64 (mem s) pte AND PTE_V \<noteq> 0 then Panic ''mappages: remap''
       else (let s = s\<lparr>mem := store64 (mem s) pte (PA2PTE pa OR perm OR PTE_V)\<rparr> in
             if a = lst then Ok (0, s)
             else mappages_loop pagetable (a + PGSIZE) lst (pa + PGSIZE) perm s))"
  by pat_completeness auto
termination
  by (relation "measure (\<lambda>(_, a, _). va_measure a)") (auto simp: va_measure_step dest: walk_Ok_bound)

declare mappages_loop.simps [simp del]

definition mappages ::
    "u64 \<Rightarrow> u64 \<Rightarrow> u64 \<Rightarrow> u64 \<Rightarrow> u64 \<Rightarrow> 'a kstate_scheme \<Rightarrow> (int \<times> 'a kstate_scheme) res" where
  "mappages pagetable va sz pa perm s =
     (if va mod PGSIZE \<noteq> 0 then Panic ''mappages: va not aligned''
      else if sz mod PGSIZE \<noteq> 0 then Panic ''mappages: size not aligned''
      else if sz = 0 then Panic ''mappages: size''
      else mappages_loop pagetable va (va + sz - PGSIZE) pa perm s)"

definition kvmmap ::
    "u64 \<Rightarrow> u64 \<Rightarrow> u64 \<Rightarrow> u64 \<Rightarrow> u64 \<Rightarrow> 'a kstate_scheme \<Rightarrow> 'a kstate_scheme res" where
  "kvmmap kpgtbl va pa sz perm s =
     res_bind (mappages kpgtbl va sz pa perm s) (\<lambda>(r, s).
       if r \<noteq> 0 then Panic ''kvmmap'' else Ok s)"

definition uvmcreate :: "'a kstate_scheme \<Rightarrow> u64 \<times> 'a kstate_scheme" where
  "uvmcreate s =
     (let (pagetable, s) = kalloc s in
      if pagetable = 0 then (0, s)
      else (pagetable, s\<lparr>mem := memset (mem s) pagetable 0 (unat PGSIZE)\<rparr>))"

function (sequential) uvmunmap_loop ::
    "u64 \<Rightarrow> u64 \<Rightarrow> u64 \<Rightarrow> bool \<Rightarrow> 'a kstate_scheme \<Rightarrow> 'a kstate_scheme res" where
  "uvmunmap_loop pagetable a lst do_free s =
     (if \<not> a < lst then Ok s
      else res_bind (walk pagetable a False s) (\<lambda>(pte, s).
        if pte = 0 then uvmunmap_loop pagetable (a + PGSIZE) lst do_free s
        else (let v = load64 (mem s) pte in
          if v AND PTE_V = 0 then uvmunmap_loop pagetable (a + PGSIZE) lst do_free s
          else res_bind (if do_free then kfree (PTE2PA v) s else Ok s) (\<lambda>s.
            uvmunmap_loop pagetable (a + PGSIZE) lst do_free
              (s\<lparr>mem := store64 (mem s) pte 0\<rparr>)))))"
  by pat_completeness auto
termination
  by (relation "measure (\<lambda>(_, a, _). va_measure a)") (auto simp: va_measure_step dest: walk_Ok_bound)

declare uvmunmap_loop.simps [simp del]

definition uvmunmap ::
    "u64 \<Rightarrow> u64 \<Rightarrow> u64 \<Rightarrow> bool \<Rightarrow> 'a kstate_scheme \<Rightarrow> 'a kstate_scheme res" where
  "uvmunmap pagetable va npages do_free s =
     (if va mod PGSIZE \<noteq> 0 then Panic ''uvmunmap: not aligned''
      else uvmunmap_loop pagetable va (va + npages * PGSIZE) do_free s)"

text \<open>The C variable \<^verbatim>\<open>int npages\<close> is narrowed to 32 bits and sign-extended again.\<close>

definition uvmdealloc ::
    "u64 \<Rightarrow> u64 \<Rightarrow> u64 \<Rightarrow> 'a kstate_scheme \<Rightarrow> (u64 \<times> 'a kstate_scheme) res" where
  "uvmdealloc pagetable oldsz newsz s =
     (if newsz \<ge> oldsz then Ok (oldsz, s)
      else if PGROUNDUP newsz < PGROUNDUP oldsz
      then (let npages = ucast ((PGROUNDUP oldsz - PGROUNDUP newsz) div PGSIZE) :: u32 in
            res_bind (uvmunmap pagetable (PGROUNDUP newsz) (scast npages) True s) (\<lambda>s. Ok (newsz, s)))
      else Ok (newsz, s))"

lemma mappages_Ok_bound:
  assumes "mappages pt va sz pa perm s = Ok r" shows "va < MAXVA"
proof -
  have "mappages_loop pt va (va + sz - PGSIZE) pa perm s = Ok r"
    using assms by (auto simp: mappages_def split: if_splits)
  then show ?thesis
    by (subst (asm) mappages_loop.simps) (auto simp: res_bind_Ok_iff dest: walk_Ok_bound)
qed

function (sequential) uvmalloc_loop ::
    "u64 \<Rightarrow> u64 \<Rightarrow> u64 \<Rightarrow> u64 \<Rightarrow> u64 \<Rightarrow> 'a kstate_scheme \<Rightarrow> (u64 \<times> 'a kstate_scheme) res" where
  "uvmalloc_loop pagetable a oldsz newsz xperm s =
     (if \<not> a < newsz then Ok (newsz, s)
      else (let (m, s) = kalloc s in
        if m = 0 then res_bind (uvmdealloc pagetable a oldsz s) (\<lambda>(_, s). Ok (0, s))
        else res_bind (mappages pagetable a PGSIZE m (PTE_R OR PTE_U OR xperm)
                         (s\<lparr>mem := memset (mem s) m 0 (unat PGSIZE)\<rparr>)) (\<lambda>(r, s).
          if r \<noteq> 0
          then res_bind (kfree m s) (\<lambda>s.
                 res_bind (uvmdealloc pagetable a oldsz s) (\<lambda>(_, s). Ok (0, s)))
          else uvmalloc_loop pagetable (a + PGSIZE) oldsz newsz xperm s)))"
  by pat_completeness auto
termination
  by (relation "measure (\<lambda>(_, a, _). va_measure a)") (auto simp: va_measure_step dest: mappages_Ok_bound)

declare uvmalloc_loop.simps [simp del]

definition uvmalloc ::
    "u64 \<Rightarrow> u64 \<Rightarrow> u64 \<Rightarrow> u64 \<Rightarrow> 'a kstate_scheme \<Rightarrow> (u64 \<times> 'a kstate_scheme) res" where
  "uvmalloc pagetable oldsz newsz xperm s =
     (if newsz < oldsz then Ok (oldsz, s)
      else (let oldsz = PGROUNDUP oldsz in uvmalloc_loop pagetable oldsz oldsz newsz xperm s))"

text \<open>
  \<^verbatim>\<open>freewalk\<close> recurses through the table pages: \<open>freewalk_loop pagetable i s\<close> is its loop from index
  \<open>i\<close> on, with the final \<^verbatim>\<open>kfree\<close>. A table that contains itself makes the recursion endless.
\<close>

partial_function (option) freewalk_loop ::
    "u64 \<Rightarrow> nat \<Rightarrow> 'a kstate_scheme \<Rightarrow> 'a kstate_scheme res option" where
  "freewalk_loop pagetable i s =
     (if i \<ge> 512 then Some (kfree pagetable s)
      else (let a = pagetable + of_nat i * 8; pte = load64 (mem s) a in
        if pte AND PTE_V \<noteq> 0 \<and> pte AND (PTE_R OR PTE_W OR PTE_X) = 0
        then Option.bind (freewalk_loop (PTE2PA pte) 0 s) (\<lambda>r.
               case r of Ok s \<Rightarrow> freewalk_loop pagetable (i + 1) (s\<lparr>mem := store64 (mem s) a 0\<rparr>)
               | _ \<Rightarrow> Some r)
        else if pte AND PTE_V \<noteq> 0 then Some (Panic ''freewalk: leaf'')
        else freewalk_loop pagetable (i + 1) s))"

definition freewalk :: "u64 \<Rightarrow> 'a kstate_scheme \<Rightarrow> 'a kstate_scheme res" where
  "freewalk pagetable s = res_join (freewalk_loop pagetable 0 s)"

definition uvmfree :: "u64 \<Rightarrow> u64 \<Rightarrow> 'a kstate_scheme \<Rightarrow> 'a kstate_scheme res" where
  "uvmfree pagetable sz s =
     res_bind (if sz > 0 then uvmunmap pagetable 0 (PGROUNDUP sz div PGSIZE) True s else Ok s)
       (freewalk pagetable)"

text \<open>\<^verbatim>\<open>uvmcopy\<close>, with the label \<^verbatim>\<open>err\<close> as the function \<open>uvmcopy_err\<close>.\<close>

definition uvmcopy_err :: "u64 \<Rightarrow> u64 \<Rightarrow> 'a kstate_scheme \<Rightarrow> (int \<times> 'a kstate_scheme) res" where
  "uvmcopy_err new i s =
     res_bind (uvmunmap new 0 (i div PGSIZE) True s) (\<lambda>s. Ok (-1, s))"

function (sequential) uvmcopy_loop ::
    "u64 \<Rightarrow> u64 \<Rightarrow> u64 \<Rightarrow> u64 \<Rightarrow> 'a kstate_scheme \<Rightarrow> (int \<times> 'a kstate_scheme) res" where
  "uvmcopy_loop old new i sz s =
     (if \<not> i < sz then Ok (0, s)
      else res_bind (walk old i False s) (\<lambda>(pte, s).
        if pte = 0 then uvmcopy_loop old new (i + PGSIZE) sz s
        else (let v = load64 (mem s) pte in
          if v AND PTE_V = 0 then uvmcopy_loop old new (i + PGSIZE) sz s
          else (let (m, s) = kalloc s in
            if m = 0 then uvmcopy_err new i s
            else res_bind (mappages new i PGSIZE m (PTE_FLAGS v)
                             (s\<lparr>mem := memmove (mem s) m (PTE2PA v) (unat PGSIZE)\<rparr>)) (\<lambda>(r, s).
              if r \<noteq> 0 then res_bind (kfree m s) (uvmcopy_err new i)
              else uvmcopy_loop old new (i + PGSIZE) sz s)))))"
  by pat_completeness auto
termination
  by (relation "measure (\<lambda>(_, _, i, _). va_measure i)")
    (auto simp: va_measure_step dest: walk_Ok_bound)

declare uvmcopy_loop.simps [simp del]

definition uvmcopy :: "u64 \<Rightarrow> u64 \<Rightarrow> u64 \<Rightarrow> 'a kstate_scheme \<Rightarrow> (int \<times> 'a kstate_scheme) res" where
  "uvmcopy old new sz s = uvmcopy_loop old new 0 sz s"

definition uvmclear :: "u64 \<Rightarrow> u64 \<Rightarrow> 'a kstate_scheme \<Rightarrow> 'a kstate_scheme res" where
  "uvmclear pagetable va s =
     res_bind (walk pagetable va False s) (\<lambda>(pte, s).
       if pte = 0 then Panic ''uvmclear''
       else Ok (s\<lparr>mem := store64 (mem s) pte (load64 (mem s) pte AND NOT PTE_U)\<rparr>))"

section \<open>Copying between user and kernel memory\<close>

text \<open>\<^verbatim>\<open>vmfault\<close> for the running process \<open>me\<close>; the C parameter \<^verbatim>\<open>read\<close> is not used by the code.\<close>

definition vmfault :: "nat \<Rightarrow> u64 \<Rightarrow> u64 \<Rightarrow> 'a kstate_scheme \<Rightarrow> (u64 \<times> 'a kstate_scheme) res" where
  "vmfault me pagetable va s =
     (if va \<ge> p_sz (procs s me) then Ok (0, s)
      else (let va = PGROUNDDOWN va in
        res_bind (ismapped pagetable va s) (\<lambda>(b, s).
          if b then Ok (0, s)
          else (let (m, s) = kalloc s in
            if m = 0 then Ok (0, s)
            else res_bind (mappages (p_pagetable (procs s me)) va PGSIZE m (PTE_W OR PTE_U OR PTE_R)
                             (s\<lparr>mem := memset (mem s) m 0 (unat PGSIZE)\<rparr>)) (\<lambda>(r, s).
              if r \<noteq> 0 then res_bind (kfree m s) (\<lambda>s. Ok (0, s)) else Ok (m, s))))))"

text \<open>The page a copy goes through: mapped already, or faulted in.\<close>

definition copy_page :: "nat \<Rightarrow> u64 \<Rightarrow> u64 \<Rightarrow> 'a kstate_scheme \<Rightarrow> (u64 \<times> 'a kstate_scheme) res" where
  "copy_page me pagetable va0 s =
     res_bind (walkaddr pagetable va0 s) (\<lambda>(pa0, s).
       if pa0 = 0 then vmfault me pagetable va0 s else Ok (pa0, s))"

text \<open>How many bytes of the page are left from \<open>va\<close> on: at least one.\<close>

definition page_rest :: "u64 \<Rightarrow> nat" where
  "page_rest va = unat (PGSIZE - (va - PGROUNDDOWN va))"

definition store_bytes :: "memory \<Rightarrow> u64 \<Rightarrow> u8 list \<Rightarrow> memory" where
  "store_bytes m a xs = fold (\<lambda>i m. m(a + of_nat i := xs ! i)) [0..<length xs] m"

lemma unat_page_offset: "unat (va - PGROUNDDOWN va) = unat va mod 4096"
proof -
  have u: "unat (PGROUNDDOWN va) = unat va div 4096 * 4096" by (rule unat_PGROUNDDOWN)
  then have "PGROUNDDOWN va \<le> va" by (simp add: word_le_nat_alt)
  then have "unat (va - PGROUNDDOWN va) = unat va - unat (PGROUNDDOWN va)" by (rule unat_sub)
  then show ?thesis using u by (simp add: minus_div_mult_eq_mod)
qed

lemma page_rest_eq: "page_rest va = 4096 - unat va mod 4096"
proof -
  have "va - PGROUNDDOWN va \<le> PGSIZE"
    by (simp add: word_le_nat_alt unat_page_offset less_imp_le)
  then show ?thesis unfolding page_rest_def by (simp add: unat_sub unat_page_offset)
qed

lemma page_rest_pos: "0 < page_rest va"
  by (simp add: page_rest_eq)

function (sequential) copyout ::
    "nat \<Rightarrow> u64 \<Rightarrow> u64 \<Rightarrow> u8 list \<Rightarrow> 'a kstate_scheme \<Rightarrow> (int \<times> 'a kstate_scheme) res" where
  "copyout me pagetable dstva src s =
     (if src = [] then Ok (0, s)
      else (let va0 = PGROUNDDOWN dstva in
        if va0 \<ge> MAXVA then Ok (-1, s)
        else res_bind (copy_page me pagetable va0 s) (\<lambda>(pa0, s).
          if pa0 = 0 then Ok (-1, s)
          else res_bind (walk pagetable va0 False s) (\<lambda>(pte, s).
            if load64 (mem s) pte AND PTE_W = 0 then Ok (-1, s)
            else (let n = min (page_rest dstva) (length src) in
                  copyout me pagetable (va0 + PGSIZE) (drop n src)
                    (s\<lparr>mem := store_bytes (mem s) (pa0 + (dstva - va0)) (take n src)\<rparr>))))))"
  by pat_completeness auto
termination
  by (relation "measure (\<lambda>(_, _, _, src, _). length src)") (auto simp: page_rest_pos)

declare copyout.simps [simp del]

text \<open>
  \<^verbatim>\<open>copyin\<close> returns the C result and the bytes it wrote to the kernel buffer, also when it fails
  half way; \<^verbatim>\<open>copyinstr\<close> likewise, with the terminating zero byte when it found one.
\<close>

function (sequential) copyin ::
    "nat \<Rightarrow> u64 \<Rightarrow> u64 \<Rightarrow> nat \<Rightarrow> 'a kstate_scheme \<Rightarrow> (int \<times> u8 list \<times> 'a kstate_scheme) res" where
  "copyin me pagetable srcva len s =
     (if len = 0 then Ok (0, [], s)
      else (let va0 = PGROUNDDOWN srcva in
        res_bind (copy_page me pagetable va0 s) (\<lambda>(pa0, s).
          if pa0 = 0 then Ok (-1, [], s)
          else (let n = min (page_rest srcva) len;
                    xs = bytes_at (mem s) (pa0 + (srcva - va0)) n
                in res_bind (copyin me pagetable (va0 + PGSIZE) (len - n) s) (\<lambda>(r, ys, s).
                     Ok (r, xs @ ys, s))))))"
  by pat_completeness auto
termination
  by (relation "measure (\<lambda>(_, _, _, len, _). len)") (auto simp: page_rest_pos)

declare copyin.simps [simp del]

text \<open>The inner loop of \<^verbatim>\<open>copyinstr\<close> over \<open>n\<close> bytes at \<open>p\<close>.\<close>

fun copy_until_nul :: "memory \<Rightarrow> u64 \<Rightarrow> nat \<Rightarrow> bool \<times> u8 list" where
  "copy_until_nul m p 0 = (False, [])"
| "copy_until_nul m p (Suc n) =
     (if m p = 0 then (True, [0])
      else (let (b, xs) = copy_until_nul m (p + 1) n in (b, m p # xs)))"

function (sequential) copyinstr ::
    "u64 \<Rightarrow> u64 \<Rightarrow> nat \<Rightarrow> 'a kstate_scheme \<Rightarrow> (int \<times> u8 list \<times> 'a kstate_scheme) res" where
  "copyinstr pagetable srcva mx s =
     (if mx = 0 then Ok (-1, [], s)
      else (let va0 = PGROUNDDOWN srcva in
        res_bind (walkaddr pagetable va0 s) (\<lambda>(pa0, s).
          if pa0 = 0 then Ok (-1, [], s)
          else (let n = min (page_rest srcva) mx;
                    (nul, xs) = copy_until_nul (mem s) (pa0 + (srcva - va0)) n
                in if nul then Ok (0, xs, s)
                   else res_bind (copyinstr pagetable (va0 + PGSIZE) (mx - n) s) (\<lambda>(r, ys, s).
                     Ok (r, xs @ ys, s))))))"
  by pat_completeness auto
termination
  by (relation "measure (\<lambda>(_, _, mx, _). mx)") (auto simp: page_rest_pos)

declare copyinstr.simps [simp del]

end
