(* ===== verification/Paging.thy ===== *)
theory Paging
  imports Vm
begin

text \<open>
  The abstraction of page tables: \<open>node m pt d va\<close> is the table page at depth \<open>d\<close> on the path of the
  virtual address \<open>va\<close>, \<open>leaf m pt va\<close> the final entry, \<open>pt_wf\<close> says that the table pages form a tree.
  The lemmas lift \<^verbatim>\<open>walk\<close>, \<^verbatim>\<open>mappages\<close> and the copying routines of theory Vm to this view.
\<close>

section \<open>Entries of table pages\<close>

definition rd :: "memory \<Rightarrow> u64 \<Rightarrow> u64 \<Rightarrow> u64" where
  "rd m a i = load64 m (a + i * 8)"

lemma unat_slot:
  assumes "aligned 4096 a" "i < 512"
  shows "unat (a + i * 8) = unat a + 8 * unat i"
proof -
  have i: "unat i < 512" using assms(2) by (simp add: word_less_nat_alt)
  then have i8: "unat (i * 8) = unat i * 8"
    using unat_mult_lem [of i 8] by simp
  have "unat a < 2 ^ 64" using unsigned_less [where w = a and 'a = nat] by simp
  moreover obtain q where "unat a = 4096 * q" using assms(1) by (auto simp: aligned_def)
  ultimately have "unat a + 4096 \<le> 2 ^ 64" by simp
  then show ?thesis using i i8 unat_add_lem [of a "i * 8"] by simp
qed

lemma slot_aligned: "aligned 4096 a \<Longrightarrow> i < 512 \<Longrightarrow> aligned 8 (a + i * 8)"
proof -
  assume a: "aligned 4096 a" "i < 512"
  then obtain q where "unat a = 4096 * q" by (auto simp: aligned_def)
  then show ?thesis using unat_slot [OF a] by (simp add: aligned_def)
qed

lemma slot_inj:
  assumes "aligned 4096 a" "aligned 4096 b" "i < 512" "j < 512"
  shows "a + i * 8 = b + j * 8 \<longleftrightarrow> a = b \<and> i = j"
proof
  assume eq: "a + i * 8 = b + j * 8"
  obtain q where q1: "unat a = 4096 * q" using assms(1) by (auto simp: aligned_def)
  obtain r where q2: "unat b = 4096 * r" using assms(2) by (auto simp: aligned_def)
  note q = q1 q2
  have ij: "unat i < 512" "unat j < 512" using assms(3,4) by (simp_all add: word_less_nat_alt)
  have "4096 * q + 8 * unat i = 4096 * r + 8 * unat j"
    using unat_slot [OF assms(1,3)] unat_slot [OF assms(2,4)] eq q by simp
  then have e: "512 * q + unat i = 512 * r + unat j" by simp
  have "q = r" using arg_cong [OF e, of "\<lambda>x. x div 512"] ij by simp
  moreover have "unat i = unat j" using arg_cong [OF e, of "\<lambda>x. x mod 512"] ij by simp
  ultimately show "a = b \<and> i = j" using q by (simp add: word_unat_eq_iff)
qed simp

lemma rd_store:
  assumes "aligned 4096 a" "aligned 4096 b" "i < 512" "j < 512"
  shows "rd (store64 m (a + i * 8) v) b j = (if a = b \<and> i = j then v else rd m b j)"
  using load64_store64_aligned [OF slot_aligned [OF assms(1,3)] slot_aligned [OF assms(2,4)], of m v]
    slot_inj [OF assms] by (simp add: rd_def)

lemma slot_in_page:
  assumes "aligned 4096 a" "i < 512"
  shows "region (a + i * 8) 8 \<subseteq> page a"
proof
  fix x assume "x \<in> region (a + i * 8) 8"
  then obtain k where k: "k < 8" "x = a + i * 8 + of_nat k" by (auto simp: region_def)
  have "unat i < 512" using assms(2) by (simp add: word_less_nat_alt)
  then have "8 * unat i + k < 4096" using k(1) by simp
  moreover have "x = a + of_nat (8 * unat i + k)" using k(2) by (simp add: mult.commute)
  ultimately show "x \<in> page a" unfolding region_def by blast
qed

lemma rd_cong: "aligned 4096 a \<Longrightarrow> i < 512 \<Longrightarrow> (\<And>x. x \<in> page a \<Longrightarrow> m x = m' x) \<Longrightarrow> rd m a i = rd m' a i"
  unfolding rd_def using slot_in_page by (intro load_le_cong) blast

lemma aligned_pages_disjoint: "aligned 4096 a \<Longrightarrow> aligned 4096 b \<Longrightarrow> a \<noteq> b \<Longrightarrow> page a \<inter> page b = {}"
  by (rule region_aligned_disjoint) simp_all

lemma load_le_zero: "(\<And>x. x \<in> region a n \<Longrightarrow> m x = 0) \<Longrightarrow> load_le m a n = 0"
  by (induction m a n rule: load_le.induct) (simp_all add: region_Suc)

lemma rd_memset:
  assumes "aligned 4096 p" "aligned 4096 a" "i < 512"
  shows "a \<noteq> p \<Longrightarrow> rd (memset m p c 4096) a i = rd m a i"
    and "rd (memset m p 0 4096) p i = 0"
proof -
  show "a \<noteq> p \<Longrightarrow> rd (memset m p c 4096) a i = rd m a i"
    using aligned_pages_disjoint [OF assms(1,2)] by (intro rd_cong assms(2,3)) (auto simp: memset_apply)
  show "rd (memset m p 0 4096) p i = 0"
    unfolding rd_def using slot_in_page [OF assms(1,3)]
    by (intro load_le_zero) (auto simp: memset_apply)
qed

lemma PX_bound: "PX l va < 512"
proof -
  have "PX l va \<le> 0x1FF" unfolding PX_def by (rule word_and_le1)
  then show ?thesis by (simp add: word_le_nat_alt word_less_nat_alt)
qed

text \<open>The address in an entry survives the round trip through the entry format.\<close>

lemma aligned_low_bits: "aligned 4096 p \<Longrightarrow> n < 12 \<Longrightarrow> \<not> bit p n"
proof -
  assume p: "aligned 4096 p" and n: "n < 12"
  have "take_bit 12 p = 0"
  proof -
    have "unat (take_bit 12 p) = unat p mod 4096"
      unfolding unsigned_take_bit_eq by (simp add: take_bit_eq_mod)
    then have "unat (take_bit 12 p) = 0" using p by (simp add: aligned_def)
    then show ?thesis by (metis unat_eq_zero)
  qed
  then show ?thesis using n by (metis bit_take_bit_iff bit_0_eq bot_apply bot_bool_def)
qed

lemma PTE2PA_PA2PTE:
  assumes "aligned 4096 p" "f AND NOT 0x3FF = 0"
  shows "PTE2PA (PA2PTE p OR f) = p"
proof -
  have f: "\<not> bit f n" if "10 \<le> n" for n
  proof -
    have "(0x3FF :: u64) = mask 10" by (simp add: mask_eq_exp_minus_1)
    then have "f AND NOT (mask 10) = 0" using assms(2) by simp
    then have "\<not> bit (f AND NOT (mask 10)) n" by simp
    then show ?thesis using that by (auto simp: bit_simps dest: bit_imp_le_length)
  qed
  show ?thesis
    unfolding PTE2PA_def PA2PTE_def
  proof (rule bit_word_eqI)
    fix n assume "n < LENGTH(64)"
    then show "bit (push_bit 12 (drop_bit 10 (push_bit 10 (drop_bit 12 p) OR f))) n = bit p n"
      using aligned_low_bits [OF assms(1), of n] f by (cases "12 \<le> n") (auto simp: bit_simps)
  qed
qed

section \<open>The tree of table pages\<close>

definition child :: "memory \<Rightarrow> u64 \<Rightarrow> u64 \<Rightarrow> u64 option" where
  "child m a i = (let v = rd m a i in if v AND PTE_V \<noteq> 0 then Some (PTE2PA v) else None)"

text \<open>Depth 0 is the root page; the table at depth \<open>d\<close> is indexed by \<open>PX (2 - d)\<close>.\<close>

fun node :: "memory \<Rightarrow> u64 \<Rightarrow> nat \<Rightarrow> u64 \<Rightarrow> u64 option" where
  "node m pt 0 va = Some pt"
| "node m pt (Suc d) va = Option.bind (node m pt d va) (\<lambda>a. child m a (PX (2 - d) va))"

definition leaf :: "memory \<Rightarrow> u64 \<Rightarrow> u64 \<Rightarrow> u64" where
  "leaf m pt va = (case node m pt 2 va of None \<Rightarrow> 0 | Some a \<Rightarrow> rd m a (PX 0 va))"

definition same_path :: "nat \<Rightarrow> u64 \<Rightarrow> u64 \<Rightarrow> bool" where
  "same_path d va va' \<longleftrightarrow> (\<forall>k<d. PX (2 - k) va = PX (2 - k) va')"

definition pt_wf :: "memory \<Rightarrow> u64 \<Rightarrow> bool" where
  "pt_wf m pt \<longleftrightarrow>
     (\<forall>d\<le>2. \<forall>va a. node m pt d va = Some a \<longrightarrow> aligned 4096 a \<and> a \<noteq> 0) \<and>
     (\<forall>d\<le>2. \<forall>d'\<le>2. \<forall>va va' a. node m pt d va = Some a \<longrightarrow> node m pt d' va' = Some a \<longrightarrow>
        d = d' \<and> same_path d va va')"

definition tables :: "memory \<Rightarrow> u64 \<Rightarrow> u64 set" where
  "tables m pt = {a. \<exists>d\<le>2. \<exists>va. node m pt d va = Some a}"

lemma pt_wfD:
  assumes "pt_wf m pt" "node m pt d va = Some a" "d \<le> 2"
  shows "aligned 4096 a" "a \<noteq> 0" "a \<in> tables m pt"
    "node m pt d' va' = Some a \<Longrightarrow> d' \<le> 2 \<Longrightarrow> d = d' \<and> same_path d va va'"
  using assms unfolding pt_wf_def tables_def by blast+

lemma same_path_Suc: "same_path (Suc d) va va' \<longleftrightarrow> same_path d va va' \<and> PX (2 - d) va = PX (2 - d) va'"
  by (auto simp: same_path_def less_Suc_eq)

lemma same_path_refl [simp]: "same_path d va va"
  by (simp add: same_path_def)

lemma node_same_path: "same_path d va va' \<Longrightarrow> node m pt d va = node m pt d va'"
  by (induction d) (simp_all add: same_path_Suc)

text \<open>The tree depends on the entries of its pages only.\<close>

lemma node_cong:
  assumes "\<And>a i. a \<in> tables m pt \<Longrightarrow> i < 512 \<Longrightarrow> rd m' a i = rd m a i" "d \<le> 2"
  shows "node m' pt d va = node m pt d va"
  using assms(2)
proof (induction d)
  case (Suc d)
  show ?case
  proof (cases "node m pt d va")
    case (Some a)
    then have "a \<in> tables m pt" using Suc.prems unfolding tables_def by (metis (mono_tags, lifting) Suc_leD mem_Collect_eq)
    then have "child m' a (PX (2 - d) va) = child m a (PX (2 - d) va)"
      using assms(1) PX_bound by (simp add: child_def)
    then show ?thesis using Suc Some by simp
  qed (use Suc in simp)
qed simp

lemma leaf_cong:
  assumes "\<And>a i. a \<in> tables m pt \<Longrightarrow> i < 512 \<Longrightarrow> rd m' a i = rd m a i"
  shows "leaf m' pt va = leaf m pt va"
proof -
  have n: "node m' pt 2 va = node m pt 2 va" by (rule node_cong) (use assms in auto)
  show ?thesis
  proof (cases "node m pt 2 va")
    case (Some a)
    then have "a \<in> tables m pt" unfolding tables_def by blast
    then show ?thesis using n Some assms PX_bound by (simp add: leaf_def)
  qed (use n in \<open>simp add: leaf_def\<close>)
qed

lemma pt_wf_cong:
  assumes "\<And>a i. a \<in> tables m pt \<Longrightarrow> i < 512 \<Longrightarrow> rd m' a i = rd m a i"
  shows "pt_wf m' pt \<longleftrightarrow> pt_wf m pt" "tables m' pt = tables m pt"
proof -
  have n: "d \<le> 2 \<Longrightarrow> node m' pt d va = node m pt d va" for d va using node_cong [OF assms] by blast
  show "tables m' pt = tables m pt" unfolding tables_def by (rule Collect_cong) (metis n)
  show "pt_wf m' pt \<longleftrightarrow> pt_wf m pt" unfolding pt_wf_def using n by simp
qed

text \<open>\<^verbatim>\<open>walk\<close> without allocation finds the entry and changes nothing.\<close>

lemma walk_lookup:
  "walk pt va False s =
     (if va \<ge> MAXVA then Panic ''walk''
      else Ok (case node (mem s) pt 2 va of None \<Rightarrow> 0 | Some a \<Rightarrow> a + PX 0 va * 8, s))"
  by (simp add: walk_def numeral_2_eq_2 Let_def child_def rd_def pte_at_def)

lemma pte_nonzero:
  assumes "pt_wf m pt" "node m pt 2 va = Some a" shows "a + PX 0 va * 8 \<noteq> 0"
proof -
  have a: "aligned 4096 a" "a \<noteq> 0" using pt_wfD [OF assms] by auto
  then have "unat (a + PX 0 va * 8) = unat a + 8 * unat (PX 0 va)" by (intro unat_slot PX_bound)
  then show ?thesis using a(2) by (metis add_is_0 unat_0 unat_eq_zero)
qed

text \<open>The address \<^verbatim>\<open>walkaddr\<close> returns, as a function of the final entry.\<close>

definition user_pa :: "u64 \<Rightarrow> u64" where
  "user_pa v = (if v AND PTE_V \<noteq> 0 \<and> v AND PTE_U \<noteq> 0 then PTE2PA v else 0)"

lemma walkaddr_leaf:
  assumes "pt_wf (mem s) pt"
  shows "walkaddr pt va s = Ok (if va \<ge> MAXVA then 0 else user_pa (leaf (mem s) pt va), s)"
proof (cases "node (mem s) pt 2 va")
  case None
  then show ?thesis by (simp add: walkaddr_def walk_lookup leaf_def user_pa_def)
next
  case (Some a)
  then show ?thesis using pte_nonzero [OF assms Some]
    by (simp add: walkaddr_def walk_lookup leaf_def user_pa_def rd_def Let_def)
qed

section \<open>Adding a table page\<close>

lemma same_path_sym: "same_path d va va' \<Longrightarrow> same_path d va' va"
  by (simp add: same_path_def)

lemma same_path_trans: "same_path d va va' \<Longrightarrow> same_path d va' va'' \<Longrightarrow> same_path d va va''"
  by (simp add: same_path_def)

lemma new_table_nodes:
  assumes wf: "pt_wf m pt" and a: "node m pt d va = Some a" and d: "d < 2"
    and free: "child m a (PX (2 - d) va) = None" and p: "p \<notin> tables m pt" "aligned 4096 p"
    and upd: "\<And>b j. aligned 4096 b \<Longrightarrow> j < 512 \<Longrightarrow>
      rd m' b j = (if b = p then 0 else if b = a \<and> j = PX (2 - d) va then e else rd m b j)"
    and e: "e AND PTE_V \<noteq> 0" "PTE2PA e = p"
  shows "k \<le> 2 \<Longrightarrow> node m' pt k va' =
    (if k = Suc d \<and> same_path (Suc d) va va' then Some p else node m pt k va')"
proof (induction k)
  case (Suc k)
  let ?i = "PX (2 - d) va" and ?j = "PX (2 - k) va'"
  have IH: "node m' pt k va' = (if k = Suc d \<and> same_path (Suc d) va va' then Some p else node m pt k va')"
    using Suc by simp
  show ?case
  proof (cases "k = Suc d \<and> same_path (Suc d) va va'")
    case True
    have "child m' p ?j = None" using upd [OF p(2) PX_bound] by (simp add: child_def)
    moreover have "node m pt (Suc d) va' = None"
      using node_same_path [of "Suc d" va va' m pt] True a free by simp
    ultimately show ?thesis using True IH by simp
  next
    case False
    then have k: "node m' pt k va' = node m pt k va'" using IH by auto
    show ?thesis
    proof (cases "node m pt k va'")
      case None
      then have "\<not> (k = d \<and> same_path d va va')" using a node_same_path [of d va va' m pt] by auto
      then show ?thesis using None k by (auto simp: same_path_Suc)
    next
      case (Some b)
      have b: "aligned 4096 b" "b \<noteq> p"
        using pt_wfD(1,3) [OF wf Some] Suc.prems p(1) by auto
      have "b = a \<longleftrightarrow> k = d \<and> same_path d va va'"
        using pt_wfD(4) [OF wf a, of k va'] Some a d Suc.prems node_same_path [of d va va' m pt] by auto
      then have "child m' b ?j = (if k = d \<and> same_path (Suc d) va va' then Some p else child m b ?j)"
        using upd [OF b(1) PX_bound] b(2) e by (auto simp: child_def same_path_Suc)
      then show ?thesis using Some k by auto
    qed
  qed
qed simp

lemma new_table:
  assumes wf: "pt_wf m pt" and a: "node m pt d va = Some a" and d: "d < 2"
    and free: "child m a (PX (2 - d) va) = None" and p: "p \<notin> tables m pt" "aligned 4096 p" "p \<noteq> 0"
    and upd: "\<And>b j. aligned 4096 b \<Longrightarrow> j < 512 \<Longrightarrow>
      rd m' b j = (if b = p then 0 else if b = a \<and> j = PX (2 - d) va then e else rd m b j)"
    and e: "e AND PTE_V \<noteq> 0" "PTE2PA e = p"
  shows "pt_wf m' pt" "tables m' pt \<subseteq> insert p (tables m pt)" "leaf m' pt va' = leaf m pt va'"
    "node m' pt (Suc d) va = Some p"
proof -
  have n: "node m' pt k va' = (if k = Suc d \<and> same_path (Suc d) va va' then Some p else node m pt k va')"
    if "k \<le> 2" for k va'
    by (rule new_table_nodes [OF wf a d free p(1,2) _ e that]) (use upd in simp)
  show "node m' pt (Suc d) va = Some p" using n [of "Suc d" va] d by simp
  show "tables m' pt \<subseteq> insert p (tables m pt)"
  proof
    fix x assume "x \<in> tables m' pt"
    then obtain k va1 where k: "k \<le> 2" "node m' pt k va1 = Some x" unfolding tables_def by blast
    then have "x = p \<or> node m pt k va1 = Some x" using n [OF k(1), of va1] by (auto split: if_splits)
    then show "x \<in> insert p (tables m pt)" using k(1) unfolding tables_def by blast
  qed
  have old: "x \<noteq> p" if "node m pt k va' = Some x" "k \<le> 2" for k va' x
    using p(1) that unfolding tables_def by blast
  show "pt_wf m' pt"
    unfolding pt_wf_def
  proof (intro conjI allI impI)
    fix k va1 x assume k: "k \<le> 2" and x: "node m' pt k va1 = Some x"
    show "aligned 4096 x" "x \<noteq> 0"
      using x n [OF k, of va1] pt_wfD(1,2) [OF wf _ k] p(2,3) by (auto split: if_splits)
  next
    fix k k' va1 va2 x
    assume k: "k \<le> 2" "k' \<le> 2" and x: "node m' pt k va1 = Some x" "node m' pt k' va2 = Some x"
    have "k = k' \<and> same_path k va1 va2"
    proof (cases "x = p")
      case True
      then have "k = Suc d \<and> same_path (Suc d) va va1" "k' = Suc d \<and> same_path (Suc d) va va2"
        using x n [OF k(1), of va1] n [OF k(2), of va2] old k by (auto split: if_splits)
      then show ?thesis using same_path_trans [OF same_path_sym] by blast
    next
      case False
      then have "node m pt k va1 = Some x" "node m pt k' va2 = Some x"
        using x n [OF k(1), of va1] n [OF k(2), of va2] by (auto split: if_splits)
      then show ?thesis using pt_wfD(4) [OF wf _ k(1)] k(2) by blast
    qed
    then show "k = k'" "same_path k va1 va2" by blast+
  qed
  show "leaf m' pt va' = leaf m pt va'"
  proof (cases "2 = Suc d \<and> same_path (Suc d) va va'")
    case True
    then have "node m' pt 2 va' = Some p" using n [of 2 va'] by simp
    moreover have "node m pt (Suc d) va = None" using a free by simp
    then have "node m pt 2 va' = None" using True node_same_path by metis
    ultimately show ?thesis using upd [OF p(2) PX_bound] by (simp add: leaf_def)
  next
    case False
    then have n2: "node m' pt 2 va' = node m pt 2 va'" using n [of 2 va'] by auto
    show ?thesis
    proof (cases "node m pt 2 va'")
      case (Some b)
      have "b \<noteq> a" using pt_wfD(4) [OF wf a, of 2 va'] Some d by auto
      then show ?thesis
        using upd [OF pt_wfD(1) [OF wf Some order_refl] PX_bound] old [OF Some] n2 Some
        by (simp add: leaf_def)
    qed (use n2 in \<open>simp add: leaf_def\<close>)
  qed
qed

section \<open>\<^verbatim>\<open>walk\<close> with allocation and \<^verbatim>\<open>mappages\<close>\<close>

text \<open>Only memory inside the pages of \<open>T\<close> and the free list changed.\<close>

definition mframe :: "u64 set \<Rightarrow> 'a kstate_scheme \<Rightarrow> 'a kstate_scheme \<Rightarrow> bool" where
  "mframe T s s' \<longleftrightarrow> (\<exists>m f. s' = s\<lparr>mem := m, freelist := f\<rparr>) \<and>
     (\<forall>x. x \<notin> (\<Union>p\<in>T. page p) \<longrightarrow> mem s' x = mem s x)"

lemma mframe_refl [simp]: "mframe T s s"
  unfolding mframe_def by (intro conjI exI [of _ "mem s"] exI [of _ "freelist s"]) simp_all

lemma mframe_trans:
  assumes "mframe T s t" "mframe U t u" shows "mframe (T \<union> U) s u"
proof -
  obtain m f where t: "t = s\<lparr>mem := m, freelist := f\<rparr>" using assms(1) unfolding mframe_def by blast
  obtain m' f' where "u = t\<lparr>mem := m', freelist := f'\<rparr>" using assms(2) unfolding mframe_def by blast
  then have "u = s\<lparr>mem := m', freelist := f'\<rparr>" by (simp add: t)
  then show ?thesis using assms unfolding mframe_def by (intro conjI exI) auto
qed

lemma mframe_mono: "mframe T s t \<Longrightarrow> T \<subseteq> U \<Longrightarrow> mframe U s t"
  unfolding mframe_def by blast

lemma mframe_fields:
  "mframe T s t \<Longrightarrow> procs t = procs s" "mframe T s t \<Longrightarrow> kend t = kend s"
  unfolding mframe_def by auto

lemma mframe_memI: "(\<And>x. x \<notin> (\<Union>p\<in>T. page p) \<Longrightarrow> m x = mem s x) \<Longrightarrow> mframe T s (s\<lparr>mem := m, freelist := f\<rparr>)"
  unfolding mframe_def by auto

text \<open>The state of an address space: a table tree apart from the free pages.\<close>

definition vm_ok :: "u64 \<Rightarrow> u64 list \<Rightarrow> 'a kstate_scheme \<Rightarrow> bool" where
  "vm_ok pt xs s \<longleftrightarrow> pt_wf (mem s) pt \<and> free_pages s xs \<and> tables (mem s) pt \<inter> set xs = {}"

text \<open>Linking a freshly allocated, zeroed page into the tree.\<close>

definition link_page :: "u64 \<Rightarrow> u64 \<Rightarrow> 'a kstate_scheme \<Rightarrow> 'a kstate_scheme" where
  "link_page p pte s =
     (let s = s\<lparr>mem := memset (mem s) p 0 (unat PGSIZE)\<rparr>
      in s\<lparr>mem := store64 (mem s) pte (PA2PTE p OR PTE_V)\<rparr>)"

lemma link_page_ok:
  assumes ok: "vm_ok pt (p # xs) s" and a: "node (mem s) pt d va = Some a" and d: "d < 2"
    and free: "child (mem s) a (PX (2 - d) va) = None" and k: "kalloc s = (p, s1)"
  defines "s2 \<equiv> link_page p (a + PX (2 - d) va * 8) s1"
  shows "vm_ok pt xs s2" "leaf (mem s2) pt va' = leaf (mem s) pt va'"
    "node (mem s2) pt (Suc d) va = Some p" "mframe {a, p} s s2"
    "tables (mem s2) pt \<subseteq> insert p (tables (mem s) pt)"
proof -
  let ?i = "PX (2 - d) va"
  have wf: "pt_wf (mem s) pt" and fp: "free_pages s (p # xs)" and dj: "tables (mem s) pt \<inter> set (p # xs) = {}"
    using ok by (simp_all add: vm_ok_def)
  have at: "a \<in> tables (mem s) pt" "aligned 4096 a" using pt_wfD [OF wf a] d by simp_all
  have p: "p \<notin> tables (mem s) pt" "aligned 4096 p" "p \<noteq> 0"
    using fp dj by (auto simp: free_pages_def page_ok_def page_aligned)
  obtain l where s1: "s1 = s\<lparr>mem := memset (mem s) p 5 4096, freelist := l\<rparr>" "free_pages s1 xs"
    using kalloc_cons [OF fp] k by auto
  define e where "e = PA2PTE p OR PTE_V"
  have m2: "mem s2 = store64 (memset (memset (mem s) p 5 4096) p 0 4096) (a + ?i * 8) e"
    by (simp add: s2_def link_page_def s1 Let_def e_def)
  have e: "e AND PTE_V \<noteq> 0" "PTE2PA e = p"
  proof -
    have "bit (e AND PTE_V) 0" by (simp add: e_def PTE_V_def bit_simps)
    then show "e AND PTE_V \<noteq> 0" by auto
    show "PTE2PA e = p" unfolding e_def PTE_V_def by (rule PTE2PA_PA2PTE [OF p(2)]) simp
  qed
  have ap: "a \<noteq> p" using at(1) p(1) by blast
  have upd: "rd (mem s2) b j = (if b = p then 0 else if b = a \<and> j = ?i then e else rd (mem s) b j)"
    if "aligned 4096 b" "j < 512" for b j
    unfolding m2 using ap that
    by (simp add: rd_store [OF at(2) that(1) PX_bound that(2)] rd_memset [OF p(2) that] )
  have nt: "pt_wf (mem s2) pt" "tables (mem s2) pt \<subseteq> insert p (tables (mem s) pt)"
    "leaf (mem s2) pt va' = leaf (mem s) pt va'" "node (mem s2) pt (Suc d) va = Some p"
    using new_table [OF wf a d free p _ e, of "mem s2"] upd by simp_all
  show "leaf (mem s2) pt va' = leaf (mem s) pt va'" "node (mem s2) pt (Suc d) va = Some p"
    "tables (mem s2) pt \<subseteq> insert p (tables (mem s) pt)" using nt by simp_all
  have out: "mem s2 x = mem s x" if "x \<notin> page a" "x \<notin> page p" for x
    unfolding m2 using that slot_in_page [OF at(2) PX_bound, of "2 - d" va]
    by (subst store_le_other) (auto simp: memset_apply)
  have "s2 = s\<lparr>mem := mem s2, freelist := l\<rparr>" by (simp add: s2_def link_page_def s1 Let_def)
  then show "mframe {a, p} s s2" unfolding mframe_def using out by (intro conjI exI) auto
  have "free_pages s2 xs \<longleftrightarrow> free_pages s1 xs"
  proof (rule free_pages_cong)
    fix q x assume q: "q \<in> set xs" "x \<in> page q"
    have "q \<noteq> a" "q \<noteq> p" using at(1) dj q(1) free_pages_distinct [OF fp] by auto
    moreover have "aligned 4096 q" using fp q(1) by (auto simp: free_pages_def page_ok_def page_aligned)
    ultimately have "x \<notin> page a" "x \<notin> page p"
      using aligned_pages_disjoint at(2) p(2) q(2) by blast+
    then show "mem s2 x = mem s1 x" using out s1 by (simp add: memset_apply)
  qed (simp_all add: s2_def link_page_def Let_def)
  moreover have "tables (mem s2) pt \<inter> set xs = {}"
    using nt(2) dj free_pages_distinct [OF fp] by auto
  ultimately show "vm_ok pt xs s2" using nt(1) s1(2) by (simp add: vm_ok_def)
qed

lemma walk_level_alloc:
  assumes "vm_ok pt xs s" "node (mem s) pt d va = Some a" "l = 2 - d" "d \<le> 2"
  shows "\<exists>r s' n. walk_level l a va True s = (r, s') \<and> n \<le> l \<and> vm_ok pt (drop n xs) s' \<and>
    (\<forall>va'. leaf (mem s') pt va' = leaf (mem s) pt va') \<and>
    mframe (tables (mem s) pt \<union> set (take n xs)) s s' \<and>
    tables (mem s') pt \<subseteq> tables (mem s) pt \<union> set (take n xs) \<and>
    (if r = 0 then drop n xs = [] else \<exists>b. node (mem s') pt 2 va = Some b \<and> r = b + PX 0 va * 8)"
  using assms
proof (induction l arbitrary: d a s xs)
  case 0
  then have d: "d = 2" by simp
  then have "a + PX 0 va * 8 \<noteq> 0"
    using pte_nonzero [of "mem s" pt va a] 0 by (simp add: vm_ok_def)
  then show ?case using 0 d by (intro exI [of _ "pte_at a 0 va"] exI [of _ s] exI [of _ 0]) (simp add: pte_at_def)
next
  case (Suc l)
  have d: "d < 2" "Suc l = 2 - d" "l = 2 - Suc d" using Suc.prems(3,4) by auto
  have wf: "pt_wf (mem s) pt" using Suc.prems(1) by (simp add: vm_ok_def)
  have at: "a \<in> tables (mem s) pt" using pt_wfD(3) [OF wf Suc.prems(2)] Suc.prems(4) .
  let ?pte = "pte_at a (Suc l) va"
  have v: "load64 (mem s) ?pte = rd (mem s) a (PX (2 - d) va)" by (simp add: pte_at_def rd_def d(2))
  show ?case
  proof (cases "child (mem s) a (PX (2 - d) va)")
    case (Some c)
    then have "node (mem s) pt (Suc d) va = Some c" using Suc.prems(2) by simp
    moreover have "walk_level (Suc l) a va True s = walk_level l c va True s"
      using Some v by (auto simp: child_def Let_def split: if_splits)
    ultimately show ?thesis using Suc.IH [OF Suc.prems(1) _ d(3)] d(1) by (metis Suc_leI le_SucI)
  next
    case None
    then have nv: "load64 (mem s) ?pte AND PTE_V = 0" using v by (auto simp: child_def Let_def split: if_splits)
    show ?thesis
    proof (cases xs)
      case Nil
      then have "kalloc s = (0, s)" using Suc.prems(1) kalloc_empty by (auto simp: vm_ok_def)
      then have "walk_level (Suc l) a va True s = (0, s)" using nv by (simp add: Let_def)
      then show ?thesis using Suc.prems(1) Nil by (intro exI [of _ 0] exI [of _ s] exI [of _ 0]) simp
    next
      case (Cons p ys)
      then have ok: "vm_ok pt (p # ys) s" and fp: "free_pages s (p # ys)" using Suc.prems(1) by (simp_all add: vm_ok_def)
      obtain s1 where k: "kalloc s = (p, s1)" using kalloc_cons [OF fp] by blast
      have p0: "p \<noteq> 0" using fp by (simp add: free_pages_def page_ok_def)
      define s2 where "s2 = link_page p (a + PX (2 - d) va * 8) s1"
      note lk = link_page_ok [OF ok Suc.prems(2) d(1) None k, folded s2_def]
      have "walk_level (Suc l) a va True s = walk_level l p va True s2"
        using nv k p0 by (simp add: Let_def s2_def link_page_def pte_at_def d(2) [symmetric])
      moreover obtain r s' n where IH: "walk_level l p va True s2 = (r, s')" "vm_ok pt (drop n ys) s'" "n \<le> l"
          "\<forall>va'. leaf (mem s') pt va' = leaf (mem s2) pt va'"
          "mframe (tables (mem s2) pt \<union> set (take n ys)) s2 s'"
          "tables (mem s') pt \<subseteq> tables (mem s2) pt \<union> set (take n ys)"
          "if r = 0 then drop n ys = [] else \<exists>b. node (mem s') pt 2 va = Some b \<and> r = b + PX 0 va * 8"
        using Suc.IH [OF lk(1,3) d(3)] d(1) by auto
      moreover have "mframe (tables (mem s) pt \<union> set (take (Suc n) xs)) s s'"
        by (rule mframe_mono [OF mframe_trans [OF lk(4) IH(5)]]) (use lk(5) at Cons in auto)
      moreover have "tables (mem s') pt \<subseteq> tables (mem s) pt \<union> set (take (Suc n) xs)"
        using IH(6) lk(5) Cons by auto
      ultimately show ?thesis using lk(2) Cons
        by (intro exI [of _ r] exI [of _ s'] exI [of _ "Suc n"]) simp
    qed
  qed
qed

text \<open>Writing a final entry changes this entry only.\<close>

lemma set_leaf:
  fixes v :: u64
  assumes wf: "pt_wf m pt" and b: "node m pt 2 va = Some b"
  defines "m' \<equiv> store64 m (b + PX 0 va * 8) v"
  shows "pt_wf m' pt" "tables m' pt = tables m pt"
    "leaf m' pt va' = (if same_path 3 va va' then v else leaf m pt va')"
    "node m' pt 2 va' = node m pt 2 va'"
proof -
  have ab: "aligned 4096 b" using pt_wfD(1) [OF wf b] by simp
  have n: "node m' pt k va1 = node m pt k va1" if "k \<le> 2" for k va1
    using that
  proof (induction k)
    case (Suc k)
    show ?case
    proof (cases "node m pt k va1")
      case (Some a)
      have "a \<noteq> b" using pt_wfD(4) [OF wf b, of k va1] Some Suc.prems by auto
      then have "child m' a (PX (2 - k) va1) = child m a (PX (2 - k) va1)"
        using rd_store [OF ab pt_wfD(1) [OF wf Some] PX_bound PX_bound] Suc.prems
        by (simp add: child_def m'_def)
      then show ?thesis using Suc Some by simp
    qed (use Suc in simp)
  qed simp
  then show "node m' pt 2 va' = node m pt 2 va'" by simp
  show "pt_wf m' pt" using wf n unfolding pt_wf_def by simp
  show "tables m' pt = tables m pt" unfolding tables_def by (rule Collect_cong) (metis n)
  show "leaf m' pt va' = (if same_path 3 va va' then v else leaf m pt va')"
  proof (cases "node m pt 2 va'")
    case None
    then have "\<not> same_path 2 va va'" using b node_same_path [of 2 va va' m pt] by auto
    then show ?thesis using None n [of 2 va'] by (auto simp: leaf_def same_path_def)
  next
    case (Some c)
    have ac: "aligned 4096 c" using pt_wfD(1) [OF wf Some] by simp
    have "c = b \<longleftrightarrow> same_path 2 va va'"
      using pt_wfD(4) [OF wf b, of 2 va'] Some b node_same_path [of 2 va va' m pt] by auto
    moreover have "same_path 3 va va' \<longleftrightarrow> same_path 2 va va' \<and> PX 0 va = PX 0 va'"
    proof -
      have "(3 :: nat) = Suc 2" by simp
      then show ?thesis using same_path_Suc [of 2 va va'] by (metis diff_self_eq_0)
    qed
    ultimately show ?thesis
      using rd_store [OF ab ac PX_bound PX_bound, of m 0 va v 0 va'] Some n [of 2 va']
      by (auto simp: leaf_def m'_def)
  qed
qed

lemma PX_bit: "bit (PX l va) n \<longleftrightarrow> n < 9 \<and> bit va (12 + 9 * l + n)"
proof -
  have eq: "(0x1FF :: u64) = mask 9" by (simp add: mask_eq_exp_minus_1)
  show ?thesis unfolding PX_def eq by (auto simp: bit_simps dest: bit_imp_le_length)
qed

text \<open>Below \<^verbatim>\<open>MAXVA\<close>, the three indices determine the page.\<close>

lemma same_path_page:
  assumes "va < MAXVA" "va' < MAXVA"
  shows "same_path 3 va va' \<longleftrightarrow> PGROUNDDOWN va = PGROUNDDOWN va'"
proof -
  have hi: "\<not> bit w n" if "w < MAXVA" "38 \<le> n" for w :: u64 and n
  proof -
    have "unat w < 2 ^ 38" using that(1) by (simp add: MAXVA_val word_less_nat_alt)
    then have "take_bit 38 w = w"
      by (metis take_bit_nat_eq_self_iff unsigned_take_bit_eq word_unat_eq_iff)
    then show ?thesis using that(2) by (metis bit_take_bit_iff linorder_not_le)
  qed
  have rd: "PGROUNDDOWN w = push_bit 12 (drop_bit 12 w)" for w unfolding PGROUNDDOWN_def by (rule round_down)
  have px: "PX l va = PX l va' \<longleftrightarrow> (\<forall>n<9. bit va (12 + 9 * l + n) = bit va' (12 + 9 * l + n))" for l
  proof
    assume "PX l va = PX l va'"
    then show "\<forall>n<9. bit va (12 + 9 * l + n) = bit va' (12 + 9 * l + n)" using PX_bit by metis
  next
    assume "\<forall>n<9. bit va (12 + 9 * l + n) = bit va' (12 + 9 * l + n)"
    then show "PX l va = PX l va'" by (intro bit_word_eqI) (auto simp: PX_bit)
  qed
  have sp: "same_path 3 va va' \<longleftrightarrow> PX 2 va = PX 2 va' \<and> PX 1 va = PX 1 va' \<and> PX 0 va = PX 0 va'"
    by (auto simp: same_path_def numeral_3_eq_3 numeral_2_eq_2 less_Suc_eq)
  show ?thesis
  proof
    assume s: "same_path 3 va va'"
    show "PGROUNDDOWN va = PGROUNDDOWN va'" unfolding rd
    proof (rule bit_word_eqI)
      fix n assume "n < LENGTH(64)"
      have "bit va n = bit va' n" if "12 \<le> n"
      proof -
        consider "n < 21" | "21 \<le> n \<and> n < 30" | "30 \<le> n \<and> n < 39" | "39 \<le> n" by linarith
        then show ?thesis
        proof cases
          case 1
          then show ?thesis using s px [of 0] that by (auto simp: sp dest: spec [of _ "n - 12"])
        next
          case 2
          then show ?thesis using s px [of 1] by (auto simp: sp dest: spec [of _ "n - 21"])
        next
          case 3
          then show ?thesis using s px [of 2] by (auto simp: sp dest: spec [of _ "n - 30"])
        next
          case 4
          then show ?thesis using hi [OF assms(1), of n] hi [OF assms(2), of n] by simp
        qed
      qed
      then show "bit (push_bit 12 (drop_bit 12 va)) n = bit (push_bit 12 (drop_bit 12 va')) n"
        by (auto simp: bit_simps)
    qed
  next
    assume eq: "PGROUNDDOWN va = PGROUNDDOWN va'"
    have "bit va n = bit va' n" if n: "12 \<le> n" "n < 64" for n
    proof -
      have "bit (push_bit 12 (drop_bit 12 va)) n = bit (push_bit 12 (drop_bit 12 va')) n"
        using eq unfolding rd by simp
      then show ?thesis using n by (simp add: bit_simps)
    qed
    then show "same_path 3 va va'" unfolding sp px by auto
  qed
qed

lemma vm_ok_set_leaf:
  fixes v :: u64
  assumes ok: "vm_ok pt xs s" and b: "node (mem s) pt 2 va = Some b"
  shows "vm_ok pt xs (s\<lparr>mem := store64 (mem s) (b + PX 0 va * 8) v\<rparr>)"
    "mframe (tables (mem s) pt) s (s\<lparr>mem := store64 (mem s) (b + PX 0 va * 8) v\<rparr>)"
proof -
  let ?m = "store64 (mem s) (b + PX 0 va * 8) v"
  have wf: "pt_wf (mem s) pt" and fp: "free_pages s xs" and dj: "tables (mem s) pt \<inter> set xs = {}"
    using ok by (simp_all add: vm_ok_def)
  have bt: "aligned 4096 b" "b \<in> tables (mem s) pt" using pt_wfD [OF wf b] by simp_all
  have out: "?m x = mem s x" if "x \<notin> page b" for x
    using that slot_in_page [OF bt(1) PX_bound, of 0 va] by (intro store_le_other) blast
  have "free_pages (s\<lparr>mem := ?m\<rparr>) xs \<longleftrightarrow> free_pages s xs"
  proof (rule free_pages_cong)
    fix q x assume q: "q \<in> set xs" "x \<in> page q"
    then have "q \<noteq> b" "aligned 4096 q"
      using bt(2) dj fp by (auto simp: free_pages_def page_ok_def page_aligned)
    then have "x \<notin> page b" using aligned_pages_disjoint bt(1) q(2) by blast
    then show "mem (s\<lparr>mem := ?m\<rparr>) x = mem s x" using out by simp
  qed simp_all
  then show "vm_ok pt xs (s\<lparr>mem := ?m\<rparr>)"
    using set_leaf [OF wf b, of v] fp dj by (simp add: vm_ok_def)
  have "mframe (tables (mem s) pt) s (s\<lparr>mem := ?m, freelist := freelist s\<rparr>)"
    by (rule mframe_memI) (use out bt(2) in blast)
  then show "mframe (tables (mem s) pt) s (s\<lparr>mem := ?m\<rparr>)" by simp
qed

lemma walk_existing:
  "node (mem s) pt 2 va = Some b \<Longrightarrow> va < MAXVA \<Longrightarrow> walk pt va alloc s = Ok (b + PX 0 va * 8, s)"
  by (auto simp: walk_def numeral_2_eq_2 Let_def child_def rd_def pte_at_def not_le split: if_splits bind_splits)

lemma walk_alloc:
  assumes "vm_ok pt xs s" "va < MAXVA"
  shows "\<exists>r s' n. walk pt va True s = Ok (r, s') \<and> n \<le> 2 \<and> vm_ok pt (drop n xs) s' \<and>
    (\<forall>va'. leaf (mem s') pt va' = leaf (mem s) pt va') \<and>
    mframe (tables (mem s) pt \<union> set (take n xs)) s s' \<and>
    tables (mem s') pt \<subseteq> tables (mem s) pt \<union> set (take n xs) \<and>
    (if r = 0 then drop n xs = [] else \<exists>b. node (mem s') pt 2 va = Some b \<and> r = b + PX 0 va * 8)"
  using walk_level_alloc [OF assms(1), of 0 va pt 2] assms(2) by (simp add: walk_def not_le)

lemma mappages_page:
  assumes ok: "vm_ok pt xs s" and va: "va < MAXVA" "va mod PGSIZE = 0"
    and nv: "leaf (mem s) pt va AND PTE_V = 0"
  shows "\<exists>r s' n. mappages pt va PGSIZE pa perm s = Ok (r, s') \<and> n \<le> 2 \<and> vm_ok pt (drop n xs) s' \<and>
    mframe (tables (mem s) pt \<union> set (take n xs)) s s' \<and>
    tables (mem s') pt \<subseteq> tables (mem s) pt \<union> set (take n xs) \<and>
    (if r = 0 then (\<forall>va'. leaf (mem s') pt va' =
         (if same_path 3 va va' then PA2PTE pa OR perm OR PTE_V else leaf (mem s) pt va'))
     else r = -1 \<and> drop n xs = [] \<and> (\<forall>va'. leaf (mem s') pt va' = leaf (mem s) pt va'))"
proof -
  obtain r s1 n where w: "walk pt va True s = Ok (r, s1)" "vm_ok pt (drop n xs) s1"
      "\<forall>va'. leaf (mem s1) pt va' = leaf (mem s) pt va'"
      "mframe (tables (mem s) pt \<union> set (take n xs)) s s1"
      "tables (mem s1) pt \<subseteq> tables (mem s) pt \<union> set (take n xs)"
      "if r = 0 then drop n xs = [] else \<exists>b. node (mem s1) pt 2 va = Some b \<and> r = b + PX 0 va * 8" "n \<le> 2"
    using walk_alloc [OF ok va(1)] by blast
  have mp: "mappages pt va PGSIZE pa perm s = mappages_loop pt va va pa perm s"
    using va(2) by (simp add: mappages_def PGSIZE_def)
  show ?thesis
  proof (cases "r = 0")
    case True
    then have "mappages pt va PGSIZE pa perm s = Ok (-1, s1)"
      unfolding mp by (subst mappages_loop.simps) (simp add: w(1))
    then show ?thesis using w True by (intro exI [of _ "-1"] exI [of _ s1] exI [of _ n]) simp
  next
    case False
    then obtain b where b: "node (mem s1) pt 2 va = Some b" "r = b + PX 0 va * 8" using w(6) by auto
    let ?v = "PA2PTE pa OR perm OR PTE_V"
    let ?s = "s1\<lparr>mem := store64 (mem s1) (b + PX 0 va * 8) ?v\<rparr>"
    have "load64 (mem s1) r AND PTE_V = 0"
      using nv w(3) b by (simp add: leaf_def rd_def) (metis option.case(2) rd_def)
    then have "mappages pt va PGSIZE pa perm s = Ok (0, ?s)"
      unfolding mp by (subst mappages_loop.simps) (simp add: w(1) False b(2) [symmetric])
    moreover have "pt_wf (mem s1) pt" using w(2) by (simp add: vm_ok_def)
    note sl = set_leaf [OF this b(1), of ?v]
    moreover have "mframe (tables (mem s) pt \<union> set (take n xs)) s ?s"
      by (rule mframe_mono [OF mframe_trans [OF w(4) vm_ok_set_leaf(2) [OF w(2) b(1)]]]) (use w(5) in blast)
    moreover have "\<forall>va'. leaf (mem ?s) pt va' = (if same_path 3 va va' then ?v else leaf (mem s) pt va')"
      using sl(3) w(3) by simp
    ultimately show ?thesis using vm_ok_set_leaf(1) [OF w(2) b(1), of ?v] w(5,7)
      by (intro exI [of _ 0] exI [of _ ?s] exI [of _ n]) simp
  qed
qed

section \<open>User memory\<close>

text \<open>The physical address of the user byte \<open>va\<close>, and the user's view of a range of memory.\<close>

definition tr :: "memory \<Rightarrow> u64 \<Rightarrow> u64 \<Rightarrow> u64" where
  "tr m pt va = user_pa (leaf m pt (PGROUNDDOWN va)) + (va - PGROUNDDOWN va)"

definition user_bytes :: "memory \<Rightarrow> u64 \<Rightarrow> u64 \<Rightarrow> nat \<Rightarrow> u8 list" where
  "user_bytes m pt va n = map (\<lambda>i. m (tr m pt (va + of_nat i))) [0..<n]"

text \<open>A readable range: every page of it is mapped for the user.\<close>

definition readable :: "memory \<Rightarrow> u64 \<Rightarrow> u64 \<Rightarrow> nat \<Rightarrow> bool" where
  "readable m pt va n \<longleftrightarrow> pt_wf m pt \<and> unat va + n \<le> unat MAXVA \<and>
     (\<forall>i<n. user_pa (leaf m pt (PGROUNDDOWN (va + of_nat i))) \<noteq> 0)"

text \<open>
  A writable range: its pages are mapped writable to page-aligned physical pages that hold no page
  table, and different user bytes are different physical bytes.
\<close>

definition writable :: "memory \<Rightarrow> u64 \<Rightarrow> u64 \<Rightarrow> nat \<Rightarrow> bool" where
  "writable m pt va n \<longleftrightarrow> readable m pt va n \<and>
     (\<forall>i<n. leaf m pt (PGROUNDDOWN (va + of_nat i)) AND PTE_W \<noteq> 0 \<and>
        aligned 4096 (user_pa (leaf m pt (PGROUNDDOWN (va + of_nat i)))) \<and>
        user_pa (leaf m pt (PGROUNDDOWN (va + of_nat i))) \<notin> tables m pt) \<and>
     (\<forall>i<n. \<forall>j<n. tr m pt (va + of_nat i) = tr m pt (va + of_nat j) \<longrightarrow> i = j)"

lemma MAXVA_nat: "unat MAXVA = 0x4000000000"
  by (simp add: MAXVA_val)

lemma div_add_small: "r + i < 4096 \<Longrightarrow> (4096 * q + r + i) div 4096 = (q :: nat)"
  by (simp add: add.assoc)

text \<open>The bytes up to the end of the page share their page.\<close>

lemma chunk:
  assumes "i < page_rest va" "unat va + i < 2 ^ 64"
  shows "PGROUNDDOWN (va + of_nat i) = PGROUNDDOWN va"
    "va + of_nat i - PGROUNDDOWN (va + of_nat i) = va - PGROUNDDOWN va + of_nat i"
proof -
  have "unat va mod 4096 + i < 4096" using assms(1) by (simp add: page_rest_eq)
  then have "(unat va + i) div 4096 = unat va div 4096"
    using div_add_small [of "unat va mod 4096" i "unat va div 4096"] by simp
  then show "PGROUNDDOWN (va + of_nat i) = PGROUNDDOWN va"
    using unat_offset [OF assms(2)] by (simp add: word_unat_eq_iff unat_PGROUNDDOWN)
  then show "va + of_nat i - PGROUNDDOWN (va + of_nat i) = va - PGROUNDDOWN va + of_nat i" by simp
qed

lemma next_page_addr:
  assumes "page_rest va = n" shows "PGROUNDDOWN va + PGSIZE = va + of_nat n"
proof -
  have "PGSIZE - (va - PGROUNDDOWN va) = of_nat n" using assms by (auto simp: page_rest_def)
  then show ?thesis by (simp add: algebra_simps)
qed

lemma PGROUNDDOWN_idem [simp]: "PGROUNDDOWN (PGROUNDDOWN va) = PGROUNDDOWN va"
  by (simp add: word_unat_eq_iff unat_PGROUNDDOWN)

lemma PGROUNDDOWN_less: "va < MAXVA \<Longrightarrow> PGROUNDDOWN va < MAXVA"
  using div_times_less_eq_dividend [of "unat va" 4096] by (simp add: word_less_nat_alt unat_PGROUNDDOWN)

lemma user_bytes_split:
  "n \<le> k \<Longrightarrow> user_bytes m pt va k = user_bytes m pt va n @ user_bytes m pt (va + of_nat n) (k - n)"
  by (rule nth_equalityI) (auto simp: user_bytes_def nth_append add.assoc of_nat_diff)

lemma user_bytes_chunk:
  assumes "n \<le> page_rest va" "unat va + n \<le> 2 ^ 64"
  shows "user_bytes m pt va n =
    bytes_at m (user_pa (leaf m pt (PGROUNDDOWN va)) + (va - PGROUNDDOWN va)) n"
proof (rule nth_equalityI)
  fix i assume "i < length (user_bytes m pt va n)"
  then have i: "i < n" by (simp add: user_bytes_def)
  have "i < page_rest va" "unat va + i < 2 ^ 64" using i assms by simp_all
  note c = chunk [OF this]
  show "user_bytes m pt va n ! i =
      bytes_at m (user_pa (leaf m pt (PGROUNDDOWN va)) + (va - PGROUNDDOWN va)) n ! i"
    using i unfolding user_bytes_def by (simp add: tr_def c(2) [simplified c(1)] c(1)) (simp add: algebra_simps)
qed (simp add: user_bytes_def)

lemma readable_mono: "readable m pt va n \<Longrightarrow> k \<le> n \<Longrightarrow> readable m pt va k"
  by (simp add: readable_def)

lemma readable_shift:
  assumes "readable m pt va n" "k \<le> n" shows "readable m pt (va + of_nat k) (n - k)"
proof -
  have "unat (va + of_nat k) = unat va + k"
    using assms by (intro unat_offset) (simp add: readable_def MAXVA_nat)
  then show ?thesis using assms by (auto simp: readable_def add.assoc simp flip: of_nat_add)
qed

lemma copy_page_mapped:
  assumes "readable (mem s) pt va n" "0 < n"
  shows "copy_page me pt (PGROUNDDOWN va) s = Ok (user_pa (leaf (mem s) pt (PGROUNDDOWN va)), s)"
    "user_pa (leaf (mem s) pt (PGROUNDDOWN va)) \<noteq> 0" "va < MAXVA"
proof -
  show va: "va < MAXVA" using assms by (simp add: readable_def word_less_nat_alt)
  show nz: "user_pa (leaf (mem s) pt (PGROUNDDOWN va)) \<noteq> 0"
    using assms by (auto simp: readable_def dest: spec [of _ 0])
  have "pt_wf (mem s) pt" using assms by (simp add: readable_def)
  then show "copy_page me pt (PGROUNDDOWN va) s = Ok (user_pa (leaf (mem s) pt (PGROUNDDOWN va)), s)"
    using nz PGROUNDDOWN_less [OF va] by (auto simp: copy_page_def walkaddr_leaf)
qed

lemma copyin_spec:
  "readable (mem s) pt va n \<Longrightarrow> copyin me pt va n s = Ok (0, user_bytes (mem s) pt va n, s)"
proof (induction n arbitrary: va rule: less_induct)
  case (less n)
  show ?case
  proof (cases "n = 0")
    case True
    then show ?thesis by (simp add: copyin.simps user_bytes_def)
  next
    case False
    note cp = copy_page_mapped [OF less.prems]
    let ?k = "min (page_rest va) n" and ?pa = "user_pa (leaf (mem s) pt (PGROUNDDOWN va))"
    have k: "0 < ?k" "?k \<le> n" "?k \<le> page_rest va" using False page_rest_pos [of va] by auto
    have len: "unat va + n \<le> 0x4000000000" using less.prems by (simp add: readable_def MAXVA_nat)
    have rest: "copyin me pt (PGROUNDDOWN va + PGSIZE) (n - ?k) s =
        Ok (0, user_bytes (mem s) pt (va + of_nat ?k) (n - ?k), s)"
    proof (cases "?k = n")
      case True
      then show ?thesis by (simp add: copyin.simps user_bytes_def)
    next
      case nk: False
      then have "page_rest va = ?k" by auto
      then have "PGROUNDDOWN va + PGSIZE = va + of_nat ?k" by (rule next_page_addr)
      then show ?thesis using less.IH [OF _ readable_shift [OF less.prems k(2)]] k False by simp
    qed
    have "user_bytes (mem s) pt va n =
        bytes_at (mem s) (?pa + (va - PGROUNDDOWN va)) ?k @ user_bytes (mem s) pt (va + of_nat ?k) (n - ?k)"
      using user_bytes_split [OF k(2), of "mem s" pt va] user_bytes_chunk [OF k(3), of "mem s" pt] len k(2) by simp
    moreover have "copyin me pt va n s =
        Ok (0, bytes_at (mem s) (?pa + (va - PGROUNDDOWN va)) ?k @ user_bytes (mem s) pt (va + of_nat ?k) (n - ?k), s)"
      using False cp rest by (subst copyin.simps) (simp add: Let_def)
    ultimately show ?thesis by simp
  qed
qed

lemma unat_of_nat_small: "i < 2 ^ 64 \<Longrightarrow> unat (of_nat i :: u64) = i"
  by (simp add: unat_of_nat)

lemma store_bytes_apply:
  assumes "length xs < 2 ^ 64"
  shows "store_bytes m a xs x = (if x \<in> region a (length xs) then xs ! unat (x - a) else m x)"
proof -
  have "fold (\<lambda>i m. m(a + of_nat i := xs ! i)) [0..<k] m x = (if x \<in> region a k then xs ! unat (x - a) else m x)"
    if "k \<le> length xs" for k
    using that
  proof (induction k)
    case (Suc k)
    have "unat (of_nat k :: u64) = k" using Suc.prems assms by (intro unat_of_nat_small) simp
    then show ?case using Suc by (simp add: region_snoc)
  qed simp
  then show ?thesis by (simp add: store_bytes_def)
qed

lemma bytes_at_store_bytes: "length xs < 2 ^ 64 \<Longrightarrow> bytes_at (store_bytes m a xs) a (length xs) = xs"
  by (rule nth_equalityI) (auto simp: store_bytes_apply region_def unat_of_nat_small)

text \<open>Memory that agrees on the table pages has the same tree and the same entries.\<close>

lemma tables_untouched:
  assumes wf: "pt_wf m pt" and eq: "\<forall>p\<in>tables m pt. \<forall>x\<in>page p. m' x = m x"
  shows "pt_wf m' pt" "tables m' pt = tables m pt" "leaf m' pt va = leaf m pt va" "tr m' pt va = tr m pt va"
proof -
  have r: "rd m' a i = rd m a i" if "a \<in> tables m pt" "i < 512" for a i
  proof (rule rd_cong)
    show "aligned 4096 a" using that wf by (auto simp: tables_def dest: pt_wfD(1))
  qed (use that eq in auto)
  show "pt_wf m' pt" "tables m' pt = tables m pt" using pt_wf_cong [of m pt m'] r wf by auto
  show "leaf m' pt va = leaf m pt va" using leaf_cong [of m pt m'] r by blast
  have "leaf m' pt (PGROUNDDOWN va) = leaf m pt (PGROUNDDOWN va)" using leaf_cong [of m pt m'] r by blast
  then show "tr m' pt va = tr m pt va" by (simp add: tr_def)
qed

lemma writable_page:
  assumes "writable m pt va n" "0 < n"
  shows "leaf m pt (PGROUNDDOWN va) AND PTE_W \<noteq> 0" "aligned 4096 (user_pa (leaf m pt (PGROUNDDOWN va)))"
    "user_pa (leaf m pt (PGROUNDDOWN va)) \<notin> tables m pt" "readable m pt va n"
  using assms by (auto simp: writable_def dest: spec [of _ 0])

lemma writable_shift:
  assumes "writable m pt va n" "k \<le> n"
  shows "writable m pt (va + of_nat k) (n - k)"
proof -
  have sh: "va + of_nat k + of_nat i = va + of_nat (k + i)" for i by (simp add: add.assoc)
  have "i = j" if "i < n - k" "j < n - k" "tr m pt (va + of_nat (k + i)) = tr m pt (va + of_nat (k + j))" for i j
  proof -
    have "k + i < n" "k + j < n" using that assms(2) by simp_all
    then have "k + i = k + j" using assms(1) that(3) unfolding writable_def by blast
    then show ?thesis by simp
  qed
  then show ?thesis
    using assms readable_shift [of m pt va n k] unfolding writable_def sh by (auto simp del: of_nat_add)
qed

lemma writable_cong:
  assumes "writable m pt va n" "\<forall>p\<in>tables m pt. \<forall>x\<in>page p. m' x = m x"
  shows "writable m' pt va n"
proof -
  have "pt_wf m pt" using assms(1) by (simp add: writable_def readable_def)
  from tables_untouched [OF this assms(2)] show ?thesis
    using assms(1) by (simp add: writable_def readable_def)
qed

lemma walk_leaf:
  assumes "pt_wf (mem s) pt" "va < MAXVA" "leaf (mem s) pt va \<noteq> 0"
  shows "\<exists>pte. walk pt va False s = Ok (pte, s) \<and> load64 (mem s) pte = leaf (mem s) pt va"
  using assms by (cases "node (mem s) pt 2 va") (auto simp: walk_lookup leaf_def rd_def)

lemma copyout_spec:
  "writable (mem s) pt va (length src) \<Longrightarrow> length src \<le> 2 ^ 38 \<Longrightarrow>
   \<exists>m. copyout me pt va src s = Ok (0, s\<lparr>mem := m\<rparr>) \<and>
     user_bytes m pt va (length src) = src \<and>
     (\<forall>x. (\<forall>i<length src. x \<noteq> tr (mem s) pt (va + of_nat i)) \<longrightarrow> m x = mem s x) \<and>
     (\<forall>p\<in>tables (mem s) pt. \<forall>x\<in>page p. m x = mem s x)"
proof (induction "length src" arbitrary: src va s rule: less_induct)
  case less
  let ?n = "length src"
  show ?case
  proof (cases "src = []")
    case True
    then show ?thesis by (intro exI [of _ "mem s"]) (simp add: copyout.simps user_bytes_def)
  next
    case False
    then have n: "0 < ?n" by simp
    note wp = writable_page [OF less.prems(1) n]
    note cp = copy_page_mapped [OF wp(4) n]
    define kk where "kk = min (page_rest va) ?n"
    let ?pa = "user_pa (leaf (mem s) pt (PGROUNDDOWN va))"
    define a where "a = ?pa + (va - PGROUNDDOWN va)"
    define m1 where "m1 = store_bytes (mem s) a (take kk src)"
    have k: "0 < kk" "kk \<le> ?n" "kk \<le> page_rest va" using n page_rest_pos [of va] by (auto simp: kk_def)
    have wf: "pt_wf (mem s) pt" using wp(4) by (simp add: readable_def)
    have len: "unat va + ?n \<le> 0x4000000000" using wp(4) by (simp add: readable_def MAXVA_nat)
    have trk: "tr (mem s) pt (va + of_nat i) = a + of_nat i" if "i < kk" for i
      using chunk [of i va] that k len by (simp add: tr_def a_def add.assoc)
    have m_in: "m1 (a + of_nat i) = src ! i" if "i < kk" for i
    proof -
      have "unat (of_nat i :: u64) = i" using that k(2) less.prems(2) by (intro unat_of_nat_small) simp
      then show ?thesis using that k(2) less.prems(2)
        unfolding m1_def by (subst store_bytes_apply) (auto simp: region_def)
    qed
    have m_out: "m1 x = mem s x" if "\<forall>i<kk. x \<noteq> a + of_nat i" for x
      unfolding m1_def using that less.prems(2) by (subst store_bytes_apply) (auto simp: region_def)
    have tab: "m1 x = mem s x" if "p \<in> tables (mem s) pt" "x \<in> page p" for p x
    proof (rule m_out, intro allI impI notI)
      fix i assume i: "i < kk" "x = a + of_nat i"
      have "unat va mod 4096 + i < 4096" using i(1) k(3) by (simp add: page_rest_eq less_diff_conv add.commute)
      moreover have "x = ?pa + of_nat (unat va mod 4096 + i)"
        using i(2) by (simp add: a_def unat_page_offset [symmetric] add.assoc)
      ultimately have "x \<in> page ?pa" unfolding region_def by blast
      moreover have "aligned 4096 p" using that(1) wf by (auto simp: tables_def dest: pt_wfD(1))
      ultimately show False using aligned_pages_disjoint [OF wp(2)] wp(3) that by blast
    qed
    let ?s = "s\<lparr>mem := m1\<rparr>"
    have w': "writable (mem ?s) pt (va + of_nat kk) (length (drop kk src))"
      using writable_cong [OF writable_shift [OF less.prems(1) k(2)], of m1] tab by simp
    have l2: "length (drop kk src) \<le> 2 ^ 38"
      using less.prems(2) by (rule order_trans [rotated]) simp
    obtain m where m: "copyout me pt (va + of_nat kk) (drop kk src) ?s = Ok (0, ?s\<lparr>mem := m\<rparr>)"
        "user_bytes m pt (va + of_nat kk) (?n - kk) = drop kk src"
        "\<forall>x. (\<forall>i<?n - kk. x \<noteq> tr m1 pt (va + of_nat kk + of_nat i)) \<longrightarrow> m x = m1 x"
        "\<forall>p\<in>tables m1 pt. \<forall>x\<in>page p. m x = m1 x"
      using less.hyps [OF _ w' l2] k(1) n by auto
    have tabs: "\<forall>p\<in>tables (mem s) pt. \<forall>x\<in>page p. m1 x = mem s x" using tab by blast
    note tu = tables_untouched [OF wf tabs]
    have tab': "m x = mem s x" if "p \<in> tables (mem s) pt" "x \<in> page p" for p x
      using m(4) tu(2) tab that by simp
    then have "\<forall>p\<in>tables (mem s) pt. \<forall>x\<in>page p. m x = mem s x" by blast
    note tu' = tables_untouched [OF wf this]
    have trs: "tr m1 pt (va + of_nat kk + of_nat i) = tr (mem s) pt (va + of_nat (kk + i))" for i
      using tu(4) by (simp add: add.assoc)
    have rest: "copyout me pt (PGROUNDDOWN va + PGSIZE) (drop kk src) ?s = Ok (0, ?s\<lparr>mem := m\<rparr>)"
    proof (cases "kk = ?n")
      case True
      then show ?thesis using m(1) by (simp add: copyout.simps)
    next
      case nk: False
      then have "page_rest va = kk" by (auto simp: kk_def)
      then have "PGROUNDDOWN va + PGSIZE = va + of_nat kk" by (rule next_page_addr)
      then show ?thesis using m(1) by simp
    qed
    have "leaf (mem s) pt (PGROUNDDOWN va) \<noteq> 0" using wp(1) by auto
    then obtain pte where pte: "walk pt (PGROUNDDOWN va) False s = Ok (pte, s)"
        "load64 (mem s) pte = leaf (mem s) pt (PGROUNDDOWN va)"
      using walk_leaf [OF wf PGROUNDDOWN_less [OF cp(3)]] by blast
    have c: "copyout me pt va src s = Ok (0, ?s\<lparr>mem := m\<rparr>)"
      using False cp PGROUNDDOWN_less [OF cp(3)] pte wp(1) rest
      by (subst copyout.simps) (simp add: Let_def not_le kk_def m1_def a_def)
    have keep: "m (a + of_nat i) = src ! i" if i: "i < kk" for i
    proof -
      have "a + of_nat i \<noteq> tr m1 pt (va + of_nat kk + of_nat j)" if j: "j < ?n - kk" for j
      proof -
        have "i < ?n" "kk + j < ?n" "i \<noteq> kk + j" using i j k(2) by simp_all
        then have "tr (mem s) pt (va + of_nat i) \<noteq> tr (mem s) pt (va + of_nat (kk + j))"
          using less.prems(1) unfolding writable_def by blast
        then show ?thesis unfolding trs using trk [OF i] by simp
      qed
      then show ?thesis using m(3) m_in [OF i] by simp
    qed
    have "user_bytes m pt va kk = take kk src"
      by (rule nth_equalityI) (use k(2) in \<open>auto simp: user_bytes_def tu'(4) trk keep\<close>)
    then have u: "user_bytes m pt va ?n = src"
      using user_bytes_split [OF k(2), of m pt va] m(2) by simp
    have "m x = mem s x" if x: "\<forall>i<?n. x \<noteq> tr (mem s) pt (va + of_nat i)" for x
    proof -
      have "\<forall>i<?n - kk. x \<noteq> tr m1 pt (va + of_nat kk + of_nat i)" unfolding trs
      proof (intro allI impI)
        fix i assume "i < ?n - kk"
        then have "kk + i < ?n" using k(2) by simp
        then show "x \<noteq> tr (mem s) pt (va + of_nat (kk + i))" using x by blast
      qed
      moreover have "\<forall>i<kk. x \<noteq> a + of_nat i"
      proof (intro allI impI)
        fix i assume i: "i < kk"
        then show "x \<noteq> a + of_nat i" using x trk [OF i] k(2) by (metis less_le_trans)
      qed
      ultimately show ?thesis using m(3) m_out by simp
    qed
    with c u tab' show ?thesis by (intro exI [of _ m]) simp
  qed
qed

section \<open>A fresh address space\<close>

lemma uvmcreate_ok:
  assumes "free_pages s (p # xs)"
  shows "\<exists>s'. uvmcreate s = (p, s') \<and> vm_ok p xs s' \<and> (\<forall>va. leaf (mem s') p va = 0) \<and> tables (mem s') p = {p}"
proof -
  have p: "aligned 4096 p" "p \<noteq> 0" using assms by (auto simp: free_pages_def page_ok_def page_aligned)
  obtain l where k: "kalloc s = (p, s\<lparr>mem := memset (mem s) p 5 4096, freelist := l\<rparr>)"
      "free_pages (s\<lparr>mem := memset (mem s) p 5 4096, freelist := l\<rparr>) xs"
    using kalloc_cons [OF assms] by blast
  define s' where "s' = s\<lparr>mem := memset (memset (mem s) p 5 4096) p 0 4096, freelist := l\<rparr>"
  have "child (mem s') p (PX l va) = None" for l va
    using rd_memset(2) [OF p(1) p(1) PX_bound] by (simp add: child_def s'_def)
  then have n: "node (mem s') p d va = (if d = 0 then Some p else None)" for d va
    by (induction d) auto
  have dp: "distinct (p # xs)" using assms by (rule free_pages_distinct)
  have "free_pages s' xs \<longleftrightarrow> free_pages (s\<lparr>mem := memset (mem s) p 5 4096, freelist := l\<rparr>) xs"
  proof (rule free_pages_cong)
    fix q x assume q: "q \<in> set xs" "x \<in> page q"
    then have "x \<notin> page p"
      using dp aligned_pages_disjoint [OF p(1), of q] assms by (auto simp: free_pages_def page_ok_def page_aligned)
    then show "mem s' x = mem (s\<lparr>mem := memset (mem s) p 5 4096, freelist := l\<rparr>) x"
      by (simp add: s'_def memset_apply)
  qed (simp_all add: s'_def)
  moreover have "pt_wf (mem s') p" using p by (auto simp: pt_wf_def n same_path_def split: if_splits)
  moreover have t: "tables (mem s') p = {p}" by (auto simp: tables_def n split: if_splits)
  ultimately have "vm_ok p xs s'" using k(2) dp by (simp add: vm_ok_def)
  moreover have "uvmcreate s = (p, s')" using k(1) p(2) by (simp add: uvmcreate_def s'_def)
  moreover have "leaf (mem s') p va = 0" for va by (simp add: leaf_def n)
  ultimately show ?thesis using t by blast
qed

lemma writable_one_page:
  assumes wf: "pt_wf m pt" and lf: "leaf m pt (PGROUNDDOWN va) = PA2PTE pa OR (PTE_R OR PTE_W OR PTE_U) OR PTE_V"
    and pa: "aligned 4096 pa" "pa \<noteq> 0" "pa \<notin> tables m pt"
    and n: "n \<le> page_rest va" "unat va + n \<le> unat MAXVA"
  shows "writable m pt va n"
proof -
  let ?v = "leaf m pt (PGROUNDDOWN va)"
  have fl: "(PTE_R OR PTE_W OR PTE_U) OR PTE_V = (0x17 :: u64)" by (simp add: PTE_R_def PTE_W_def PTE_U_def PTE_V_def)
  have v: "?v = PA2PTE pa OR 0x17" unfolding lf using fl by (simp add: or.assoc)
  have "bit (?v AND PTE_V) 0" "bit (?v AND PTE_U) 4" "bit (?v AND PTE_W) 2"
    unfolding v by (simp_all add: PTE_V_def PTE_U_def PTE_W_def bit_simps)
  then have f: "?v AND PTE_V \<noteq> 0" "?v AND PTE_U \<noteq> 0" "?v AND PTE_W \<noteq> 0" by auto
  have up: "user_pa ?v = pa" using f PTE2PA_PA2PTE [OF pa(1), of "0x17"] unfolding user_pa_def v by simp
  have c: "PGROUNDDOWN (va + of_nat i) = PGROUNDDOWN va" if "i < n" for i
    using chunk [of i va] that n by (simp add: MAXVA_nat)
  have t: "tr m pt (va + of_nat i) = pa + (va - PGROUNDDOWN va) + of_nat i" if "i < n" for i
    using chunk [of i va] that n by (simp add: tr_def up MAXVA_nat add.assoc)
  have "i = j" if "i < n" "j < n" "tr m pt (va + of_nat i) = tr m pt (va + of_nat j)" for i j
  proof -
    have "(of_nat i :: u64) = of_nat j" using that(3) unfolding t [OF that(1)] t [OF that(2)] by simp
    moreover have "i < 2 ^ 64" "j < 2 ^ 64" using that n by (simp_all add: MAXVA_nat)
    ultimately show ?thesis using unat_of_nat_small by metis
  qed
  moreover have "readable m pt va n" unfolding readable_def using wf n up pa(2) c by simp
  moreover have "\<forall>i<n. leaf m pt (PGROUNDDOWN (va + of_nat i)) AND PTE_W \<noteq> 0 \<and>
        aligned 4096 (user_pa (leaf m pt (PGROUNDDOWN (va + of_nat i)))) \<and>
        user_pa (leaf m pt (PGROUNDDOWN (va + of_nat i))) \<notin> tables m pt"
    using c f(3) up pa by simp
  ultimately show ?thesis unfolding writable_def by blast
qed

text \<open>An address space set up from boot: an empty table, a spare page, and free pages.\<close>

lemma boot_space:
  "\<exists>(s :: kstate) pt q xs. vm_ok pt xs s \<and> (\<forall>va. leaf (mem s) pt va = 0) \<and> tables (mem s) pt = {pt} \<and>
     aligned 4096 q \<and> q \<noteq> 0 \<and> q \<noteq> pt \<and> q \<notin> set xs \<and> 3 \<le> length xs \<and> (\<forall>p\<in>insert pt (set xs). page_ok 0x87F00000 p)"
proof -
  let ?b = "boot_state\<lparr>kend := 0x87F00000\<rparr>"
  obtain s xs where s: "free_pages (s :: kstate) xs" "set xs = {p. page_ok (kend ?b) p}"
    using kinit_spec [of ?b] by (auto simp: boot_state_def PHYSTOP_val)
  have "{0x87F00000, 0x87F01000, 0x87F02000, 0x87F03000, 0x87F04000} \<subseteq> set xs"
    unfolding s(2) by (simp add: page_ok_def PHYSTOP_val PGSIZE_def)
  then have "card {0x87F00000, 0x87F01000, 0x87F02000, 0x87F03000, 0x87F04000 :: u64} \<le> card (set xs)"
    by (intro card_mono) simp_all
  then have "5 \<le> length xs" using card_length [of xs] by simp
  then obtain q pt ys where xs: "xs = q # pt # ys" "3 \<le> length ys"
    by (cases xs; cases "tl xs") auto
  have d: "distinct xs" using s(1) by (rule free_pages_distinct)
  have q: "aligned 4096 q" "q \<noteq> 0" using s(1) xs by (auto simp: free_pages_def page_ok_def page_aligned)
  obtain s1 where "free_pages (s1 :: kstate) (pt # ys)" using kalloc_cons s(1) xs by blast
  from uvmcreate_ok [OF this] obtain s2 where
      "vm_ok pt ys (s2 :: kstate)" "\<forall>va. leaf (mem s2) pt va = 0" "tables (mem s2) pt = {pt}" by blast
  moreover have "\<forall>p\<in>set xs. page_ok 0x87F00000 p" unfolding s(2) by simp
  ultimately show ?thesis using q d xs by (intro exI [of _ s2] exI [of _ pt] exI [of _ q] exI [of _ ys]) auto
qed

text \<open>A user page mapped at \<open>0x1000\<close>, with all tables at the end of the physical memory.\<close>

lemma boot_mapped:
  "\<exists>(s :: kstate) pt. writable (mem s) pt 0x1FFE 2 \<and> pt_wf (mem s) pt \<and> (\<forall>p\<in>tables (mem s) pt. page_ok 0x87F00000 p)"
proof -
  obtain s pt q xs where s: "vm_ok pt xs (s :: kstate)" "\<forall>va. leaf (mem s) pt va = 0" "tables (mem s) pt = {pt}"
      "aligned 4096 q" "q \<noteq> 0" "q \<noteq> pt" "q \<notin> set xs" "3 \<le> length xs" "\<forall>p\<in>insert pt (set xs). page_ok 0x87F00000 p"
    using boot_space by blast
  have va: "(0x1000 :: u64) < MAXVA" "(0x1000 :: u64) mod PGSIZE = 0" by (simp_all add: MAXVA_val PGSIZE_def)
  have nv: "leaf (mem s) pt 0x1000 AND PTE_V = 0" using s(2) by simp
  obtain r s' n where m: "mappages pt 0x1000 PGSIZE q (PTE_R OR PTE_W OR PTE_U) s = Ok (r, s')" "n \<le> 2"
      "vm_ok pt (drop n xs) s'" "tables (mem s') pt \<subseteq> tables (mem s) pt \<union> set (take n xs)"
      "if r = 0 then (\<forall>va'. leaf (mem s') pt va' =
         (if same_path 3 0x1000 va' then PA2PTE q OR (PTE_R OR PTE_W OR PTE_U) OR PTE_V else leaf (mem s) pt va'))
       else r = -1 \<and> drop n xs = [] \<and> (\<forall>va'. leaf (mem s') pt va' = leaf (mem s) pt va')"
    using mappages_page [OF s(1) va nv, of q "PTE_R OR PTE_W OR PTE_U"] by blast
  have "drop n xs \<noteq> []" using m(2) s(8) by simp
  then have "leaf (mem s') pt 0x1000 = PA2PTE q OR (PTE_R OR PTE_W OR PTE_U) OR PTE_V"
    using m(5) by (auto split: if_splits)
  moreover have "PGROUNDDOWN 0x1FFE = 0x1000" by (simp add: PGROUNDDOWN_def PGSIZE_def)
  moreover have "q \<notin> tables (mem s') pt" using m(4) s(3,6,7) by (auto dest: in_set_takeD)
  moreover have wf: "pt_wf (mem s') pt" using m(3) by (simp add: vm_ok_def)
  ultimately have "writable (mem s') pt 0x1FFE 2"
    using s(4,5) by (intro writable_one_page [of _ _ _ q]) (simp_all add: page_rest_eq MAXVA_nat)
  moreover have "\<forall>p\<in>tables (mem s') pt. page_ok 0x87F00000 p" using m(4) s(3,9) by (auto dest: in_set_takeD)
  ultimately show ?thesis using wf by blast
qed

section \<open>Properties\<close>

text \<open>
  (C16) \<^verbatim>\<open>mappages\<close> of one page maps exactly this page: on an address space whose tables form a tree
  apart from the free pages, with the page not yet mapped, it either reports -1 because memory ran
  out, with every translation unchanged, or returns 0 and then exactly the addresses of this page
  translate to the new entry. It keeps the tables a tree and writes only to table pages, old or
  newly allocated, of which there are at most two. Mapping a mapped page panics.
\<close>

theorem mappages_maps_exactly:
  assumes "vm_ok pt xs s" "va < MAXVA" "va mod PGSIZE = 0"
  shows "(leaf (mem s) pt va AND PTE_V \<noteq> 0 \<longrightarrow> mappages pt va PGSIZE pa perm s = Panic ''mappages: remap'') \<and>
   (leaf (mem s) pt va AND PTE_V = 0 \<longrightarrow> (\<exists>r s' n. mappages pt va PGSIZE pa perm s = Ok (r, s') \<and> n \<le> 2 \<and>
      vm_ok pt (drop n xs) s' \<and> mframe (tables (mem s) pt \<union> set (take n xs)) s s' \<and>
      (r = 0 \<and> (\<forall>va'<MAXVA. leaf (mem s') pt va' =
          (if PGROUNDDOWN va' = va then PA2PTE pa OR perm OR PTE_V else leaf (mem s) pt va')) \<or>
       r = -1 \<and> drop n xs = [] \<and> (\<forall>va'. leaf (mem s') pt va' = leaf (mem s) pt va'))))"
proof (intro conjI impI)
  have rd: "PGROUNDDOWN va = va"
    using assms(3) unfolding page_aligned aligned_def by (auto simp: word_unat_eq_iff unat_PGROUNDDOWN)
  show "mappages pt va PGSIZE pa perm s = Panic ''mappages: remap''" if nz: "leaf (mem s) pt va AND PTE_V \<noteq> 0"
  proof -
    have wf: "pt_wf (mem s) pt" using assms(1) by (simp add: vm_ok_def)
    obtain b where b: "node (mem s) pt 2 va = Some b" using nz by (cases "node (mem s) pt 2 va") (auto simp: leaf_def)
    have "load64 (mem s) (b + PX 0 va * 8) = leaf (mem s) pt va" using b by (simp add: leaf_def rd_def)
    then show ?thesis using walk_existing [OF b assms(2)] nz assms(3) pte_nonzero [OF wf b]
      unfolding mappages_def by (subst mappages_loop.simps) (simp add: PGSIZE_def)
  qed
  assume nv: "leaf (mem s) pt va AND PTE_V = 0"
  obtain r s' n where m: "mappages pt va PGSIZE pa perm s = Ok (r, s')" "vm_ok pt (drop n xs) s'"
      "mframe (tables (mem s) pt \<union> set (take n xs)) s s'" "n \<le> 2"
      "if r = 0 then (\<forall>va'. leaf (mem s') pt va' =
           (if same_path 3 va va' then PA2PTE pa OR perm OR PTE_V else leaf (mem s) pt va'))
       else r = -1 \<and> drop n xs = [] \<and> (\<forall>va'. leaf (mem s') pt va' = leaf (mem s) pt va')"
    using mappages_page [OF assms nv, of pa perm] by blast
  have "same_path 3 va va' \<longleftrightarrow> PGROUNDDOWN va' = va" if "va' < MAXVA" for va'
    using same_path_page [OF assms(2) that] rd by auto
  then show "\<exists>r s' n. mappages pt va PGSIZE pa perm s = Ok (r, s') \<and> n \<le> 2 \<and>
      vm_ok pt (drop n xs) s' \<and> mframe (tables (mem s) pt \<union> set (take n xs)) s s' \<and>
      (r = 0 \<and> (\<forall>va'<MAXVA. leaf (mem s') pt va' =
          (if PGROUNDDOWN va' = va then PA2PTE pa OR perm OR PTE_V else leaf (mem s) pt va')) \<or>
       r = -1 \<and> drop n xs = [] \<and> (\<forall>va'. leaf (mem s') pt va' = leaf (mem s) pt va'))"
    using m by (intro exI [of _ r] exI [of _ s'] exI [of _ n]) (cases "r = 0", simp_all)
qed

theorem mappages_maps_exactly_witness:
  "\<exists>(s :: kstate) pt s'. mappages pt 0x1000 PGSIZE 0x87F00000 PTE_R s = Ok (0, s') \<and>
     leaf (mem s') pt 0x1234 = PA2PTE 0x87F00000 OR PTE_R OR PTE_V"
proof -
  obtain s pt xs where s: "vm_ok pt xs (s :: kstate)" "\<forall>va. leaf (mem s) pt va = 0" "3 \<le> length xs"
    using boot_space by blast
  have va: "(0x1000 :: u64) < MAXVA" "(0x1000 :: u64) mod PGSIZE = 0" "(0x1234 :: u64) < MAXVA"
    by (simp_all add: MAXVA_val PGSIZE_def)
  have nv: "leaf (mem s) pt 0x1000 AND PTE_V = 0" using s(2) by simp
  obtain r s' n where m: "mappages pt 0x1000 PGSIZE 0x87F00000 PTE_R s = Ok (r, s')" "n \<le> 2"
      "r = 0 \<and> (\<forall>va'<MAXVA. leaf (mem s') pt va' =
          (if PGROUNDDOWN va' = 0x1000 then PA2PTE 0x87F00000 OR PTE_R OR PTE_V else leaf (mem s) pt va')) \<or>
       r = -1 \<and> drop n xs = [] \<and> (\<forall>va'. leaf (mem s') pt va' = leaf (mem s) pt va')"
    using mappages_maps_exactly [OF s(1) va(1,2), of "0x87F00000" PTE_R] nv by blast
  have "drop n xs \<noteq> []" using m(2) s(3) by simp
  moreover have "PGROUNDDOWN 0x1234 = 0x1000" by (simp add: PGROUNDDOWN_def PGSIZE_def)
  ultimately have "r = 0 \<and> leaf (mem s') pt 0x1234 = PA2PTE 0x87F00000 OR PTE_R OR PTE_V"
    using m(3) va(3) by auto
  with m(1) show ?thesis by blast
qed

text \<open>
  (C17) \<^verbatim>\<open>copyout\<close> followed by \<^verbatim>\<open>copyin\<close> gives the bytes back: for a user range that is mapped
  writable to physical pages holding no page table, with no two user bytes at the same physical
  byte, \<^verbatim>\<open>copyout\<close> succeeds, changes exactly the physical bytes behind the range, and a \<^verbatim>\<open>copyin\<close> of
  the range then returns what was written. The range may start and end anywhere in a page and span
  any number of pages.
\<close>

theorem copyout_copyin_roundtrip:
  assumes "writable (mem s) pt va (length src)"
  shows "\<exists>s'. copyout me pt va src s = Ok (0, s') \<and> copyin me' pt va (length src) s' = Ok (0, src, s') \<and>
    s' = s\<lparr>mem := mem s'\<rparr> \<and>
    (\<forall>x. (\<forall>i<length src. x \<noteq> tr (mem s) pt (va + of_nat i)) \<longrightarrow> mem s' x = mem s x)"
proof -
  have "length src \<le> 2 ^ 38" using assms by (simp add: writable_def readable_def MAXVA_nat)
  then obtain m where m: "copyout me pt va src s = Ok (0, s\<lparr>mem := m\<rparr>)"
      "user_bytes m pt va (length src) = src"
      "\<forall>x. (\<forall>i<length src. x \<noteq> tr (mem s) pt (va + of_nat i)) \<longrightarrow> m x = mem s x"
      "\<forall>p\<in>tables (mem s) pt. \<forall>x\<in>page p. m x = mem s x"
    using copyout_spec [OF assms] by blast
  have "readable m pt va (length src)"
    using writable_cong [OF assms m(4)] by (simp add: writable_def)
  then have "copyin me' pt va (length src) (s\<lparr>mem := m\<rparr>) = Ok (0, src, s\<lparr>mem := m\<rparr>)"
    using copyin_spec [of "s\<lparr>mem := m\<rparr>" pt va "length src" me'] m(2) by simp
  with m show ?thesis by (intro exI [of _ "s\<lparr>mem := m\<rparr>"]) simp
qed

theorem copyout_copyin_roundtrip_witness:
  "\<exists>(s :: kstate) pt s'. copyout 0 pt 0x1FFE [104, 105] s = Ok (0, s') \<and> copyin 0 pt 0x1FFE 2 s' = Ok (0, [104, 105], s')"
proof -
  obtain s pt where "writable (mem (s :: kstate)) pt 0x1FFE 2" using boot_mapped by blast
  then have "writable (mem s) pt 0x1FFE (length [104, 105 :: u8])" by (simp add: numeral_2_eq_2)
  from copyout_copyin_roundtrip [OF this, of 0 0] show ?thesis by (auto simp: numeral_2_eq_2)
qed

end
