(* ===== verification/Spinlock.thy ===== *)
theory Spinlock
  imports Machine
begin

text \<open>
  Spin locks (\<^verbatim>\<open>kernel/spinlock.c\<close>): the nesting of interrupt disabling by \<^verbatim>\<open>push_off\<close> and
  \<^verbatim>\<open>pop_off\<close>, and the lock operations. Interrupt state and nesting depth live in the \<open>cpus\<close> of the
  kernel state; \<open>c\<close> is the index of the executing CPU, \<^verbatim>\<open>cpuid()\<close>. The concurrent behaviour of one
  lock is the step relation \<open>lock_step\<close>, with one step per memory operation of \<^verbatim>\<open>acquire\<close> and
  \<^verbatim>\<open>release\<close> on any number of CPUs.
\<close>

section \<open>Operations\<close>

definition initlock :: "string \<Rightarrow> spinlock" where
  "initlock name = \<lparr>lk_locked = 0, lk_name = name, lk_cpu = None\<rparr>"

definition holding :: "nat \<Rightarrow> spinlock \<Rightarrow> bool" where
  "holding c lk \<longleftrightarrow> lk_locked lk \<noteq> 0 \<and> lk_cpu lk = Some c"

text \<open>\<^verbatim>\<open>push_off\<close> and \<^verbatim>\<open>pop_off\<close> on the state of the executing CPU.\<close>

definition push_off :: "cpu \<Rightarrow> cpu" where
  "push_off k =
     (let old = c_sie k;
          k = k\<lparr>c_sie := False\<rparr>;
          k = (if c_noff k = 0 then k\<lparr>c_intena := old\<rparr> else k)
      in k\<lparr>c_noff := c_noff k + 1\<rparr>)"

definition pop_off :: "cpu \<Rightarrow> cpu res" where
  "pop_off k =
     (if c_sie k then Panic ''pop_off - interruptible''
      else if c_noff k < 1 then Panic ''pop_off''
      else (let k = k\<lparr>c_noff := c_noff k - 1\<rparr> in
            Ok (if c_noff k = 0 \<and> c_intena k then k\<lparr>c_sie := True\<rparr> else k)))"

text \<open>
  \<^verbatim>\<open>acquire\<close> by CPU \<open>c\<close> when the lock is free, and \<open>None\<close> when the test-and-set finds it taken and
  the CPU goes on spinning.
\<close>

definition test_and_set :: "spinlock \<Rightarrow> u32 \<times> spinlock" where
  "test_and_set lk = (lk_locked lk, lk\<lparr>lk_locked := 1\<rparr>)"

definition acquire :: "nat \<Rightarrow> spinlock \<Rightarrow> cpu \<Rightarrow> (spinlock \<times> cpu) option res" where
  "acquire c lk k =
     (let k = push_off k in
      if holding c lk then Panic ''acquire''
      else (let (old, lk) = test_and_set lk in
            if old \<noteq> 0 then Ok None
            else Ok (Some (lk\<lparr>lk_cpu := Some c\<rparr>, k))))"

definition release :: "nat \<Rightarrow> spinlock \<Rightarrow> cpu \<Rightarrow> (spinlock \<times> cpu) res" where
  "release c lk k =
     (if \<not> holding c lk then Panic ''release''
      else (let lk = lk\<lparr>lk_cpu := None\<rparr>; lk = lk\<lparr>lk_locked := 0\<rparr> in
            res_bind (pop_off k) (\<lambda>k. Ok (lk, k))))"

section \<open>Nesting\<close>

text \<open>A CPU whose interrupt nesting is consistent: inside a section interrupts are off.\<close>

definition cpu_ok :: "cpu \<Rightarrow> bool" where
  "cpu_ok k \<longleftrightarrow> c_noff k \<ge> 0 \<and> (c_noff k > 0 \<longrightarrow> \<not> c_sie k)"

lemma push_off_simps [simp]:
  "c_noff (push_off k) = c_noff k + 1" "c_sie (push_off k) = False"
  "c_intena (push_off k) = (if c_noff k = 0 then c_sie k else c_intena k)"
  by (simp_all add: push_off_def Let_def)

lemma cpu_ok_push [simp]: "cpu_ok k \<Longrightarrow> cpu_ok (push_off k)"
  by (simp add: cpu_ok_def)

lemma pop_push:
  "cpu_ok k \<Longrightarrow>
   pop_off (push_off k) = Ok (if c_noff k = 0 then k\<lparr>c_intena := c_sie k\<rparr> else k)"
  by (auto simp: cpu_ok_def pop_off_def push_off_def Let_def)

lemma pop_off_Ok:
  "cpu_ok k \<Longrightarrow> 0 < c_noff k \<Longrightarrow> \<exists>k'. pop_off k = Ok k' \<and> cpu_ok k' \<and> c_noff k' = c_noff k - 1"
  by (auto simp: cpu_ok_def pop_off_def Let_def)

lemma pop_off_cpu_ok: "pop_off k = Ok k' \<Longrightarrow> cpu_ok k \<Longrightarrow> cpu_ok k'"
  by (auto simp: cpu_ok_def pop_off_def Let_def split: if_splits)

fun pops :: "nat \<Rightarrow> cpu \<Rightarrow> cpu res" where
  "pops 0 k = Ok k"
| "pops (Suc n) k = res_bind (pop_off k) (pops n)"

lemma pops_Suc: "pops (Suc n) k = res_bind (pops n k) pop_off"
proof (induction n arbitrary: k)
  case 0
  then show ?case by (cases "pop_off k") simp_all
next
  case (Suc n)
  have "pops (Suc (Suc n)) k = res_bind (pop_off k) (pops (Suc n))" by simp
  also have "\<dots> = res_bind (pop_off k) (\<lambda>x. res_bind (pops n x) pop_off)" using Suc.IH by presburger
  also have "\<dots> = res_bind (pops (Suc n) k) pop_off" by (simp add: res_bind_assoc)
  finally show ?case .
qed

lemma pops_pushes_inner:
  assumes "cpu_ok k" "0 < c_noff k"
  shows "pops n ((push_off ^^ n) k) = Ok k"
  using assms
proof (induction n arbitrary: k)
  case (Suc n)
  have "(push_off ^^ Suc n) k = (push_off ^^ n) (push_off k)" by (simp only: funpow_Suc_right o_apply)
  then show ?case
    using Suc by (simp only: pops_Suc) (simp add: pop_push)
qed simp

text \<open>
  (C40) \<^verbatim>\<open>push_off\<close> and \<^verbatim>\<open>pop_off\<close> are matched: after \<open>n\<close> calls of \<^verbatim>\<open>push_off\<close> interrupts are off, and
  \<open>n\<close> calls of \<^verbatim>\<open>pop_off\<close> succeed and restore the interrupt state and the depth the CPU started
  with; from an unnested CPU only the saved \<^verbatim>\<open>intena\<close> differs.
\<close>

theorem push_pop_matched:
  assumes "cpu_ok k" "0 < n"
  shows "\<not> c_sie ((push_off ^^ n) k) \<and>
    pops n ((push_off ^^ n) k) = Ok (if c_noff k = 0 then k\<lparr>c_intena := c_sie k\<rparr> else k)"
proof -
  obtain m where n: "n = Suc m" using assms(2) by (cases n) auto
  have "\<not> c_sie ((push_off ^^ n) k)" by (simp add: n)
  moreover have "(push_off ^^ n) k = (push_off ^^ m) (push_off k)"
    unfolding n by (simp only: funpow_Suc_right o_apply)
  moreover have "pops m ((push_off ^^ m) (push_off k)) = Ok (push_off k)"
    by (rule pops_pushes_inner) (use assms in \<open>auto simp: cpu_ok_def\<close>)
  ultimately have "pops n ((push_off ^^ n) k) = pop_off (push_off k)"
    by (simp only: n pops_Suc res_bind_simps)
  with \<open>\<not> c_sie ((push_off ^^ n) k)\<close> show ?thesis using assms(1) by (simp add: pop_push)
qed

definition idle_cpu :: cpu where
  "idle_cpu = \<lparr>c_proc = None, c_context = \<lparr>ctx_ra = 0, ctx_sp = 0, ctx_s = []\<rparr>, c_noff = 0,
     c_intena = False, c_sie = True\<rparr>"

theorem push_pop_matched_witness:
  "pops 2 (push_off (push_off idle_cpu)) = Ok (idle_cpu\<lparr>c_intena := True\<rparr>)"
  using push_pop_matched [of idle_cpu 2]
  by (simp add: cpu_ok_def idle_cpu_def numeral_2_eq_2)

section \<open>One lock, many CPUs\<close>

text \<open>
  Where a CPU stands: outside (where it may be inside sections of other locks, or switch
  interrupts when it is in none), after \<^verbatim>\<open>push_off\<close>, in the test-and-set loop, before the store to
  \<^verbatim>\<open>lk->cpu\<close>, inside the critical section, between the two stores of \<^verbatim>\<open>release\<close>, before
  \<^verbatim>\<open>pop_off\<close>, or stopped in \<^verbatim>\<open>panic\<close>.
\<close>

datatype lpc = Outside | Check | Spin | Record | Critical | Clear | Pop | Panicked

record lstate =
  l_lock :: spinlock
  l_cpus :: "nat \<Rightarrow> cpu"
  l_pc :: "nat \<Rightarrow> lpc"

definition lmove :: "nat \<Rightarrow> lpc \<Rightarrow> spinlock \<Rightarrow> cpu \<Rightarrow> lstate \<Rightarrow> lstate" where
  "lmove c p lk k s = s\<lparr>l_lock := lk, l_cpus := (l_cpus s)(c := k), l_pc := (l_pc s)(c := p)\<rparr>"

inductive lock_step :: "lstate \<Rightarrow> lstate \<Rightarrow> bool" where
  push: "l_pc s c = Outside \<Longrightarrow> lock_step s (lmove c Check (l_lock s) (push_off (l_cpus s c)) s)"
| check: "l_pc s c = Check \<Longrightarrow>
    lock_step s (lmove c (if holding c (l_lock s) then Panicked else Spin) (l_lock s) (l_cpus s c) s)"
| swap: "l_pc s c = Spin \<Longrightarrow> test_and_set (l_lock s) = (old, lk) \<Longrightarrow>
    lock_step s (lmove c (if old \<noteq> 0 then Spin else Record) lk (l_cpus s c) s)"
| record_cpu: "l_pc s c = Record \<Longrightarrow>
    lock_step s (lmove c Critical ((l_lock s)\<lparr>lk_cpu := Some c\<rparr>) (l_cpus s c) s)"
| clear_cpu: "l_pc s c = Critical \<Longrightarrow> holding c (l_lock s) \<Longrightarrow>
    lock_step s (lmove c Clear ((l_lock s)\<lparr>lk_cpu := None\<rparr>) (l_cpus s c) s)"
| not_held: "l_pc s c = Critical \<Longrightarrow> \<not> holding c (l_lock s) \<Longrightarrow>
    lock_step s (lmove c Panicked (l_lock s) (l_cpus s c) s)"
| unlock: "l_pc s c = Clear \<Longrightarrow>
    lock_step s (lmove c Pop ((l_lock s)\<lparr>lk_locked := 0\<rparr>) (l_cpus s c) s)"
| pop: "l_pc s c = Pop \<Longrightarrow> pop_off (l_cpus s c) = Ok k \<Longrightarrow> lock_step s (lmove c Outside (l_lock s) k s)"
| pop_panic: "l_pc s c = Pop \<Longrightarrow> pop_off (l_cpus s c) = Panic m \<Longrightarrow>
    lock_step s (lmove c Panicked (l_lock s) (l_cpus s c) s)"
| outer_push: "l_pc s c = Outside \<Longrightarrow>
    lock_step s (lmove c Outside (l_lock s) (push_off (l_cpus s c)) s)"
| outer_pop: "l_pc s c = Outside \<Longrightarrow> pop_off (l_cpus s c) = Ok k \<Longrightarrow>
    lock_step s (lmove c Outside (l_lock s) k s)"
| intr: "l_pc s c = Outside \<Longrightarrow> c_noff (l_cpus s c) = 0 \<Longrightarrow>
    lock_step s (lmove c Outside (l_lock s) ((l_cpus s c)\<lparr>c_sie := b\<rparr>) s)"

inductive lock_reach :: "string \<Rightarrow> lstate \<Rightarrow> bool" for name where
  init: "\<forall>c. cpu_ok (k c) \<Longrightarrow>
    lock_reach name \<lparr>l_lock = initlock name, l_cpus = k, l_pc = (\<lambda>_. Outside)\<rparr>"
| step: "lock_reach name s \<Longrightarrow> lock_step s s' \<Longrightarrow> lock_reach name s'"

definition owns :: "lpc \<Rightarrow> bool" where
  "owns p \<longleftrightarrow> p \<in> {Record, Critical, Clear}"

definition lock_inv :: "lstate \<Rightarrow> bool" where
  "lock_inv s \<longleftrightarrow>
     (\<forall>c d. owns (l_pc s c) \<longrightarrow> owns (l_pc s d) \<longrightarrow> c = d) \<and>
     ((\<exists>c. owns (l_pc s c)) \<longleftrightarrow> lk_locked (l_lock s) \<noteq> 0) \<and>
     (\<forall>c. lk_cpu (l_lock s) = Some c \<longleftrightarrow> l_pc s c = Critical) \<and>
     (\<forall>c. l_pc s c \<noteq> Panicked \<and> cpu_ok (l_cpus s c) \<and>
        (l_pc s c \<noteq> Outside \<longrightarrow> 0 < c_noff (l_cpus s c)))"

lemma lmove_simps [simp]:
  "l_lock (lmove c p lk k s) = lk" "l_cpus (lmove c p lk k s) = (l_cpus s)(c := k)"
  "l_pc (lmove c p lk k s) = (l_pc s)(c := p)"
  by (simp_all add: lmove_def)

lemma owns_simps [simp]:
  "owns Record" "owns Critical" "owns Clear" "\<not> owns Outside" "\<not> owns Check" "\<not> owns Spin"
  "\<not> owns Pop" "\<not> owns Panicked"
  by (simp_all add: owns_def)

lemma lock_invD:
  assumes "lock_inv s"
  shows "owns (l_pc s c) \<Longrightarrow> owns (l_pc s d) \<Longrightarrow> c = d"
    and "owns (l_pc s c) \<Longrightarrow> lk_locked (l_lock s) \<noteq> 0"
    and "lk_locked (l_lock s) \<noteq> 0 \<Longrightarrow> \<exists>c. owns (l_pc s c)"
    and "lk_cpu (l_lock s) = Some c \<longleftrightarrow> l_pc s c = Critical"
    and "l_pc s c \<noteq> Panicked" "cpu_ok (l_cpus s c)"
    and "l_pc s c \<noteq> Outside \<Longrightarrow> 0 < c_noff (l_cpus s c)"
  using assms unfolding lock_inv_def by blast+

text \<open>A step of CPU \<open>c\<close> that neither takes nor gives up the lock.\<close>

lemma lock_inv_local:
  assumes i: "lock_inv s" and "owns p = owns (l_pc s c)" "p = Critical \<longleftrightarrow> l_pc s c = Critical"
    and "p \<noteq> Panicked" "cpu_ok k" "p \<noteq> Outside \<Longrightarrow> 0 < c_noff k"
    and "lk_locked lk \<noteq> 0 \<longleftrightarrow> lk_locked (l_lock s) \<noteq> 0" "lk_cpu lk = lk_cpu (l_lock s)"
  shows "lock_inv (lmove c p lk k s)"
proof -
  have o: "owns (((l_pc s)(c := p)) d) \<longleftrightarrow> owns (l_pc s d)" for d using assms(2) by simp
  show ?thesis
    unfolding lock_inv_def lmove_simps o
    using lock_invD [OF i] assms(3-8) by (auto split: if_splits)
qed

lemma lock_inv_step:
  assumes "lock_step s s'" and i: "lock_inv s" shows "lock_inv s'"
  using assms(1)
proof cases
  case (push c)
  then show ?thesis
    using lock_invD(6,7) [OF i, of c] by (auto intro!: lock_inv_local [OF i] simp: cpu_ok_def)
next
  case (check c)
  then have "\<not> holding c (l_lock s)" using lock_invD(4) [OF i, of c] by (simp add: holding_def)
  then show ?thesis
    using check lock_invD(6,7) [OF i, of c] by (auto intro!: lock_inv_local [OF i])
next
  case (swap c old lk)
  then have lk: "lk = (l_lock s)\<lparr>lk_locked := 1\<rparr>" "old = lk_locked (l_lock s)"
    by (simp_all add: test_and_set_def)
  show ?thesis
  proof (cases "old = 0")
    case False
    then show ?thesis
      using swap lk lock_invD(6,7) [OF i, of c] by (auto intro!: lock_inv_local [OF i])
  next
    case True
    then have "\<not> owns (l_pc s d)" for d using lock_invD(2) [OF i, of d] lk by auto
    then show ?thesis
      using swap lk True lock_invD(4,5,6,7) [OF i] lock_invD(7) [OF i, of c] unfolding lock_inv_def by auto
  qed
next
  case (record_cpu c)
  have "l_pc s d \<noteq> Critical" for d using lock_invD(1) [OF i, of c d] record_cpu by auto
  then show ?thesis
    using record_cpu lock_invD [OF i] lock_invD(2) [OF i, of c] unfolding lock_inv_def
    by (auto split: if_splits)
next
  case (clear_cpu c)
  have "l_pc s d = Critical \<Longrightarrow> d = c" for d using lock_invD(1) [OF i, of c d] clear_cpu by auto
  then show ?thesis
    using clear_cpu lock_invD [OF i] lock_invD(2) [OF i, of c] unfolding lock_inv_def
    by (auto split: if_splits)
next
  case (not_held c)
  then show ?thesis using lock_invD(2,4) [OF i, of c] by (simp add: holding_def)
next
  case (unlock c)
  have "owns (l_pc s d) \<Longrightarrow> d = c" for d using lock_invD(1) [OF i, of c d] unlock by auto
  then show ?thesis
    using unlock lock_invD(4,5,6,7) [OF i] unfolding lock_inv_def by (auto split: if_splits)
next
  case (pop c k)
  then show ?thesis
    using lock_invD(6,7) [OF i, of c] pop_off_Ok [of "l_cpus s c"] by (auto intro!: lock_inv_local [OF i])
next
  case (pop_panic c m)
  then show ?thesis using lock_invD(6,7) [OF i, of c] pop_off_Ok [of "l_cpus s c"] by auto
next
  case (outer_push c)
  then show ?thesis
    using lock_invD(6) [OF i, of c] by (auto intro!: lock_inv_local [OF i])
next
  case (outer_pop c k)
  then show ?thesis
    using lock_invD(6) [OF i, of c] pop_off_cpu_ok by (auto intro!: lock_inv_local [OF i])
next
  case (intr c b)
  then show ?thesis
    using lock_invD(6,7) [OF i, of c] by (auto intro!: lock_inv_local [OF i] simp: cpu_ok_def)
qed


lemma lock_reach_inv: "lock_reach name s \<Longrightarrow> lock_inv s"
proof (induction rule: lock_reach.induct)
  case (init k)
  then show ?case by (simp add: lock_inv_def initlock_def)
qed (rule lock_inv_step)

text \<open>
  (C28) Mutual exclusion of spin locks. In every state reachable by any interleaving of CPUs that acquire and
  release a lock: no CPU has panicked, in \<^verbatim>\<open>acquire\<close>, \<^verbatim>\<open>release\<close> or \<^verbatim>\<open>pop_off\<close>, whether or not the lock is
  taken; at most one CPU is between winning the test-and-set and giving the lock up, and such a CPU has its
  interrupts off; the lock word is set exactly while there is such a CPU; and \<^verbatim>\<open>holding\<close> is true exactly for the
  CPU in the critical section.
\<close>

theorem spinlock_mutual_exclusion:
  assumes "lock_reach name s"
  shows "(\<forall>c. l_pc s c \<noteq> Panicked) \<and>
    (\<forall>c d. owns (l_pc s c) \<and> owns (l_pc s d) \<longrightarrow> c = d) \<and>
    (\<forall>c. owns (l_pc s c) \<longrightarrow> \<not> c_sie (l_cpus s c)) \<and>
    (lk_locked (l_lock s) \<noteq> 0 \<longleftrightarrow> (\<exists>c. owns (l_pc s c))) \<and>
    (\<forall>c. holding c (l_lock s) \<longleftrightarrow> l_pc s c = Critical)"
proof (intro conjI allI impI)
  note d = lock_invD [OF lock_reach_inv [OF assms]]
  show "l_pc s c \<noteq> Panicked" for c by (rule d(5))
  show "c = e" if "owns (l_pc s c) \<and> owns (l_pc s e)" for c e using d(1) that by blast
  show "\<not> c_sie (l_cpus s c)" if o: "owns (l_pc s c)" for c
  proof -
    have "l_pc s c \<noteq> Outside" using o by auto
    then show ?thesis using d(6,7) [of c] by (simp add: cpu_ok_def)
  qed
  show "lk_locked (l_lock s) \<noteq> 0 \<longleftrightarrow> (\<exists>c. owns (l_pc s c))" using d(2,3) by blast
  show "holding c (l_lock s) \<longleftrightarrow> l_pc s c = Critical" for c
    using d(2) [of c] d(4) [of c] by (auto simp: holding_def)
qed

text \<open>CPU 0 takes the lock, CPU 1 waits for it, CPU 0 releases it; the states before and after.\<close>

theorem spinlock_mutual_exclusion_witness:
  "\<exists>s s'. lock_reach ''kmem'' s \<and> l_pc s 0 = Critical \<and> l_pc s 1 = Spin \<and> holding 0 (l_lock s) \<and> \<not> c_sie (l_cpus s 0) \<and>
     lock_reach ''kmem'' s' \<and> l_pc s' 0 = Pop \<and> lk_locked (l_lock s') = 0 \<and> (\<forall>c. l_pc s' c \<noteq> Panicked)"
proof -
  let ?s0 = "\<lparr>l_lock = initlock ''kmem'', l_cpus = (\<lambda>_. idle_cpu), l_pc = (\<lambda>_. Outside)\<rparr>" and ?k = "push_off idle_cpu"
  let ?taken = "(initlock ''kmem'')\<lparr>lk_locked := 1\<rparr>"
  have 0: "lock_reach ''kmem'' ?s0" by (rule lock_reach.init) (simp add: cpu_ok_def idle_cpu_def)
  let ?s1 = "lmove 0 Check (initlock ''kmem'') ?k ?s0"
  have 1: "lock_reach ''kmem'' ?s1" using lock_reach.step [OF 0 lock_step.push [of _ 0]] by simp
  let ?s2 = "lmove 0 Spin (initlock ''kmem'') ?k ?s1"
  have 2: "lock_reach ''kmem'' ?s2"
    using lock_reach.step [OF 1 lock_step.check [of _ 0]] by (simp add: holding_def initlock_def)
  let ?s3 = "lmove 0 Record ?taken ?k ?s2"
  have 3: "lock_reach ''kmem'' ?s3"
    using lock_reach.step [OF 2 lock_step.swap [of _ 0]] by (simp add: test_and_set_def initlock_def)
  let ?s4 = "lmove 1 Check ?taken ?k ?s3"
  have 4: "lock_reach ''kmem'' ?s4" using lock_reach.step [OF 3 lock_step.push [of _ 1]] by simp
  let ?s5 = "lmove 1 Spin ?taken ?k ?s4"
  have 5: "lock_reach ''kmem'' ?s5"
    using lock_reach.step [OF 4 lock_step.check [of _ 1]] by (simp add: holding_def initlock_def)
  let ?s6 = "lmove 0 Critical (?taken\<lparr>lk_cpu := Some 0\<rparr>) ?k ?s5"
  have 6: "lock_reach ''kmem'' ?s6" using lock_reach.step [OF 5 lock_step.record_cpu [of _ 0]] by simp
  have h: "holding 0 (l_lock ?s6)" "\<not> c_sie (l_cpus ?s6 0)" using spinlock_mutual_exclusion [OF 6] by auto
  let ?s7 = "lmove 0 Clear (?taken\<lparr>lk_cpu := None\<rparr>) ?k ?s6"
  have 7: "lock_reach ''kmem'' ?s7" using lock_reach.step [OF 6 lock_step.clear_cpu [of _ 0]] h(1) by simp
  let ?s8 = "lmove 0 Pop (?taken\<lparr>lk_cpu := None, lk_locked := 0\<rparr>) ?k ?s7"
  have 8: "lock_reach ''kmem'' ?s8" using lock_reach.step [OF 7 lock_step.unlock [of _ 0]] by simp
  have "\<forall>c. l_pc ?s8 c \<noteq> Panicked" using spinlock_mutual_exclusion [OF 8] by blast
  then show ?thesis using 6 8 h by (intro exI [of _ ?s6] exI [of _ ?s8]) simp
qed

text \<open>The whole operations: \<^verbatim>\<open>acquire\<close> of a free lock followed by \<^verbatim>\<open>release\<close>.\<close>

lemma acquire_release:
  assumes "lk_locked lk = 0" "cpu_ok k"
  shows "\<exists>lk1 k1. acquire c lk k = Ok (Some (lk1, k1)) \<and> holding c lk1 \<and> \<not> c_sie k1 \<and>
    c_noff k1 = c_noff k + 1 \<and>
    release c lk1 k1 = Ok (lk\<lparr>lk_cpu := None\<rparr>, if c_noff k = 0 then k\<lparr>c_intena := c_sie k\<rparr> else k)"
  using assms pop_push [OF assms(2)]
  by (simp add: acquire_def release_def holding_def test_and_set_def Let_def)

lemma acquire_twice_panics: "holding c lk \<Longrightarrow> acquire c lk k = Panic ''acquire''"
  by (simp add: acquire_def)

end
