(* ===== verification/Sleeplock.thy ===== *)
theory Sleeplock
  imports Sched Spinlock
begin

text \<open>
  Sleep locks (\<^verbatim>\<open>kernel/sleeplock.c\<close>). The bodies run under the spin lock \<^verbatim>\<open>lk->lk\<close>, which \<^verbatim>\<open>sleep\<close>
  gives up; \<open>acquiresleep\<close> is therefore one visit of its loop, which either takes the lock or goes
  to sleep on the address of the lock. The step relation \<open>sl_step\<close> lets any number of processes
  use one lock on top of the scheduler's \<^verbatim>\<open>sleep\<close> and \<^verbatim>\<open>wakeup\<close>.
\<close>

section \<open>Operations\<close>

record sleeplock =
  sl_locked :: u32
  sl_lk :: spinlock
  sl_name :: string
  sl_pid :: u32

definition initsleeplock :: "string \<Rightarrow> sleeplock" where
  "initsleeplock name =
     \<lparr>sl_locked = 0, sl_lk = initlock ''sleep lock'', sl_name = name, sl_pid = 0\<rparr>"

text \<open>One visit of the loop of \<^verbatim>\<open>acquiresleep\<close>: the flag says whether the lock was taken.\<close>

definition acquiresleep ::
    "nat \<Rightarrow> chan \<Rightarrow> sleeplock \<Rightarrow> 'a kstate_scheme \<Rightarrow> bool \<times> sleeplock \<times> 'a kstate_scheme" where
  "acquiresleep me a lk s =
     (if sl_locked lk \<noteq> 0 then (False, lk, sleep_prepare me a s)
      else (True, lk\<lparr>sl_locked := 1, sl_pid := p_pid (procs s me)\<rparr>, s))"

definition releasesleep :: "chan \<Rightarrow> sleeplock \<Rightarrow> 'a kstate_scheme \<Rightarrow> (sleeplock \<times> 'a kstate_scheme) option" where
  "releasesleep a lk s =
     (let lk = lk\<lparr>sl_locked := 0, sl_pid := 0\<rparr> in
      map_option (\<lambda>s. (lk, s)) (wakeup a s))"

definition holdingsleep :: "nat \<Rightarrow> sleeplock \<Rightarrow> 'a kstate_scheme \<Rightarrow> bool" where
  "holdingsleep me lk s \<longleftrightarrow> sl_locked lk \<noteq> 0 \<and> sl_pid lk = p_pid (procs s me)"

section \<open>One sleep lock, many processes\<close>

datatype slpc = SlOutside | SlWaiting | SlHolding

record slstate =
  sl_lock :: sleeplock
  sl_ks :: kstate
  sl_pc :: "nat \<Rightarrow> slpc"

definition sl_try :: "nat \<Rightarrow> chan \<Rightarrow> slstate \<Rightarrow> slstate" where
  "sl_try me a s =
     (let (ok, lk, k) = acquiresleep me a (sl_lock s) (sl_ks s) in
      s\<lparr>sl_lock := lk, sl_ks := k, sl_pc := (sl_pc s)(me := if ok then SlHolding else SlWaiting)\<rparr>)"

inductive sl_step :: "chan \<Rightarrow> slstate \<Rightarrow> slstate \<Rightarrow> bool" for a where
  enter: "me < NPROC \<Longrightarrow> sl_pc s me = SlOutside \<Longrightarrow> p_state (procs (sl_ks s) me) = RUNNING \<Longrightarrow>
    sl_step a s (sl_try me a s)"
| again: "me < NPROC \<Longrightarrow> sl_pc s me = SlWaiting \<Longrightarrow> p_state (procs (sl_ks s) me) = RUNNABLE \<Longrightarrow>
    k = sleep_finish me (upd_proc me (\<lambda>p. p\<lparr>p_state := RUNNING\<rparr>) (sl_ks s)) \<Longrightarrow>
    sl_step a s (sl_try me a (s\<lparr>sl_ks := k\<rparr>))"
| leave: "sl_pc s me = SlHolding \<Longrightarrow> releasesleep a (sl_lock s) (sl_ks s) = Some (lk, k) \<Longrightarrow>
    sl_step a s (s\<lparr>sl_lock := lk, sl_ks := k, sl_pc := (sl_pc s)(me := SlOutside)\<rparr>)"

definition sl_start :: "chan \<Rightarrow> slstate \<Rightarrow> bool" where
  "sl_start a s \<longleftrightarrow>
     (\<exists>name. sl_lock s = initsleeplock name) \<and> sl_pc s = (\<lambda>_. SlOutside) \<and>
     (\<exists>qs. sched_inv (sl_ks s) qs) \<and> (\<forall>i<NPROC. \<not> sleeps_on (sl_ks s) i a)"

inductive sl_reach :: "chan \<Rightarrow> slstate \<Rightarrow> bool" for a where
  sl_init: "sl_start a s \<Longrightarrow> sl_reach a s"
| sl_next: "sl_reach a s \<Longrightarrow> sl_step a s s' \<Longrightarrow> sl_reach a s'"

text \<open>
  The invariant: the lock word says whether somebody holds the lock, the holder is unique and its
  pid is recorded, and processes sleep on the lock only while it is held.
\<close>

definition sl_inv :: "chan \<Rightarrow> slstate \<Rightarrow> bool" where
  "sl_inv a s \<longleftrightarrow>
     (\<exists>qs. sched_inv (sl_ks s) qs) \<and>
     (\<forall>i j. sl_pc s i = SlHolding \<longrightarrow> sl_pc s j = SlHolding \<longrightarrow> i = j) \<and>
     (sl_locked (sl_lock s) \<noteq> 0 \<longleftrightarrow> (\<exists>i. sl_pc s i = SlHolding)) \<and>
     (\<forall>i. sl_pc s i = SlHolding \<longrightarrow> sl_pid (sl_lock s) = p_pid (procs (sl_ks s) i)) \<and>
     (\<forall>i<NPROC. sleeps_on (sl_ks s) i a \<longrightarrow> sl_locked (sl_lock s) \<noteq> 0)"

lemma sleep_prepare_pid: "p_pid (procs (sleep_prepare me c s) j) = p_pid (procs s j)"
  using arg_cong [OF sleep_prepare_procs [of me c s j], of p_pid] by (auto split: if_splits)

lemma sl_inv_try:
  assumes i: "sl_inv a s" and me: "me < NPROC" "p_state (procs (sl_ks s) me) \<noteq> SLEEPING" "sl_pc s me \<noteq> SlHolding"
  shows "sl_inv a (sl_try me a s)"
proof -
  obtain qs where q: "sched_inv (sl_ks s) qs" using i by (auto simp: sl_inv_def)
  show ?thesis
  proof (cases "sl_locked (sl_lock s) = 0")
    case True
    then have "sl_pc s j \<noteq> SlHolding" for j using i by (auto simp: sl_inv_def)
    then show ?thesis using i True by (auto simp: sl_inv_def sl_try_def acquiresleep_def)
  next
    case False
    have "\<exists>qs. sched_inv (sleep_prepare me a (sl_ks s)) qs"
      using sleep_prepare_inv [OF q me(1,2), of a] by blast
    then show ?thesis using i False me(3)
      unfolding sl_inv_def sl_try_def acquiresleep_def
      by (simp add: sleep_prepare_pid) metis
  qed
qed

lemma wakeup_clears:
  assumes "sched_inv s qs" "wakeup c s = Some s'"
  shows "(\<exists>qs'. sched_inv s' qs') \<and> (\<forall>j<NPROC. \<not> sleeps_on s' j c) \<and>
    (\<forall>j. p_pid (procs s' j) = p_pid (procs s j))"
proof -
  have w: "\<forall>j. pcore (procs s' j) = pcore (procs (wakeup_scan c s) j)" "\<exists>qs'. sched_inv s' qs'"
    using wakeup_spec [OF assms(1), of c] assms(2) by auto
  have f: "p_state (procs s' j) = p_state (procs (wakeup_scan c s) j)"
    "p_chan (procs s' j) = p_chan (procs (wakeup_scan c s) j)"
    "p_pid (procs s' j) = p_pid (procs (wakeup_scan c s) j)" for j
    using w(1) pcore_simps(1,2,4) by metis+
  show ?thesis using w(2) by (auto simp: f sleeps_on_def wakeup_scan_procs)
qed

lemma sl_inv_step: "sl_step a s s' \<Longrightarrow> sl_inv a s \<Longrightarrow> sl_inv a s'"
proof (induction rule: sl_step.induct)
  case (enter me s)
  then show ?case by (simp add: sl_inv_try)
next
  case (again me s k)
  obtain qs where q: "sched_inv (sl_ks s) qs" using again by (auto simp: sl_inv_def)
  have "sched_inv k qs" unfolding again(4) sleep_finish_def
    by (intro sched_inv_upd_proc q) (use again in simp_all)
  then have "sl_inv a (s\<lparr>sl_ks := k\<rparr>)"
    using again unfolding sl_inv_def by (auto simp: sleep_finish_def sleeps_on_def split: if_splits)
  then show ?case using again by (intro sl_inv_try) (auto simp: sleep_finish_def)
next
  case (leave s me lk k)
  obtain qs where q: "sched_inv (sl_ks s) qs" using leave by (auto simp: sl_inv_def)
  have w: "wakeup a (sl_ks s) = Some k" "sl_locked lk = 0"
    using leave(2) by (auto simp: releasesleep_def Let_def)
  show ?case using leave(1,3) wakeup_clears [OF q w(1)] w(2) unfolding sl_inv_def by (auto split: if_splits)
qed

lemma sl_reach_inv: "sl_reach a s \<Longrightarrow> sl_inv a s"
proof (induction rule: sl_reach.induct)
  case (sl_init s)
  then show ?case by (auto simp: sl_start_def sl_inv_def initsleeplock_def)
qed (rule sl_inv_step)

section \<open>Properties\<close>

text \<open>
  (C27) Sleep locks exclude each other and strand nobody: in every reachable state at most one
  process holds the lock, it is the one \<^verbatim>\<open>holdingsleep\<close> recognises, and a process can be asleep on
  the lock only while somebody holds it and so is still going to wake it.
\<close>

theorem sleeplock_exclusion:
  assumes "sl_reach a s"
  shows "(sl_pc s i = SlHolding \<longrightarrow> holdingsleep i (sl_lock s) (sl_ks s)) \<and>
    (sl_pc s i = SlHolding \<and> sl_pc s j = SlHolding \<longrightarrow> i = j) \<and>
    (i < NPROC \<and> sleeps_on (sl_ks s) i a \<longrightarrow> (\<exists>h. sl_pc s h = SlHolding))"
  using sl_reach_inv [OF assms] unfolding sl_inv_def holdingsleep_def by metis

text \<open>Processes 1 and 2 want the lock: 1 takes it, 2 goes to sleep on it.\<close>

definition sl_demo :: slstate where
  "sl_demo = sl_try 2 0x80010000 (sl_try 1 0x80010000
     \<lparr>sl_lock = initsleeplock ''inode'', sl_ks = demo_run, sl_pc = (\<lambda>_. SlOutside)\<rparr>)"

theorem sleeplock_exclusion_witness:
  "sl_reach 0x80010000 sl_demo \<and> sl_pc sl_demo 1 = SlHolding \<and> sleeps_on (sl_ks sl_demo) 2 0x80010000 \<and>
   holdingsleep 1 (sl_lock sl_demo) (sl_ks sl_demo)"
proof -
  let ?s0 = "\<lparr>sl_lock = initsleeplock ''inode'', sl_ks = demo_run, sl_pc = (\<lambda>_. SlOutside)\<rparr>"
  have 0: "sl_reach 0x80010000 ?s0"
    using demo_run_inv by (intro sl_reach.sl_init) (auto simp: sl_start_def sleeps_on_def demo_run_state)
  have 1: "sl_reach 0x80010000 (sl_try 1 0x80010000 ?s0)"
    by (rule sl_reach.sl_next [OF 0 sl_step.enter]) (simp_all add: NPROC_def demo_run_state)
  have 2: "sl_reach 0x80010000 sl_demo" unfolding sl_demo_def
    by (rule sl_reach.sl_next [OF 1 sl_step.enter])
      (simp_all add: NPROC_def demo_run_state sl_try_def acquiresleep_def initsleeplock_def)
  have 3: "sl_pc sl_demo 1 = SlHolding" "sleeps_on (sl_ks sl_demo) 2 0x80010000"
    by (simp_all add: sl_demo_def sl_try_def acquiresleep_def initsleeplock_def sleeps_on_def sleep_prepare_state)
  show ?thesis using sleeplock_exclusion [OF 2, of 1] 2 3 by blast
qed

text \<open>
  The releasing process always gets through \<^verbatim>\<open>releasesleep\<close>: the wakeup inside it returns.
\<close>

lemma releasesleep_returns:
  assumes "sl_reach a s" shows "\<exists>lk k. releasesleep a (sl_lock s) (sl_ks s) = Some (lk, k)"
proof -
  obtain qs where "sched_inv (sl_ks s) qs" using sl_reach_inv [OF assms] by (auto simp: sl_inv_def)
  then show ?thesis using wakeup_spec [of "sl_ks s" qs a] by (auto simp: releasesleep_def Let_def)
qed

end
