(* ===== verification/KernelState.thy ===== *)
theory KernelState
  imports Sleeplock Vm
begin

text \<open>
  The state of the rest of the kernel: the structures of \<^verbatim>\<open>kernel/buf.h\<close>, \<^verbatim>\<open>kernel/fs.h\<close>,
  \<^verbatim>\<open>kernel/file.h\<close>, \<^verbatim>\<open>kernel/log.c\<close>, \<^verbatim>\<open>kernel/pipe.c\<close> and \<^verbatim>\<open>kernel/console.c\<close>, and the record
  \<open>kernel\<close> that adds them to \<open>kstate\<close>. An element of \<^verbatim>\<open>bcache.buf[]\<close>, \<^verbatim>\<open>itable.inode[]\<close> or
  \<^verbatim>\<open>ftable.file[]\<close> is named by its index; a pipe is named by the address of its page. On-disk
  structures are decoded from and encoded into the bytes of a block.
\<close>

section \<open>Little-endian numbers in byte lists\<close>

fun get_le :: "u8 list \<Rightarrow> nat \<Rightarrow> nat \<Rightarrow> u64" where
  "get_le xs o1 0 = 0"
| "get_le xs o1 (Suc k) = ucast (xs ! o1) OR push_bit 8 (get_le xs (Suc o1) k)"

fun le_bytes :: "nat \<Rightarrow> u64 \<Rightarrow> u8 list" where
  "le_bytes 0 v = []"
| "le_bytes (Suc k) v = ucast v # le_bytes k (drop_bit 8 v)"

definition patch :: "u8 list \<Rightarrow> nat \<Rightarrow> u8 list \<Rightarrow> u8 list" where
  "patch xs o1 ys = take o1 xs @ ys @ drop (o1 + length ys) xs"

definition slice :: "nat \<Rightarrow> nat \<Rightarrow> u8 list \<Rightarrow> u8 list" where
  "slice o1 n xs = take n (drop o1 xs)"

definition get16 :: "u8 list \<Rightarrow> nat \<Rightarrow> u16" where "get16 xs o1 = ucast (get_le xs o1 2)"
definition get32 :: "u8 list \<Rightarrow> nat \<Rightarrow> u32" where "get32 xs o1 = ucast (get_le xs o1 4)"
definition get64 :: "u8 list \<Rightarrow> nat \<Rightarrow> u64" where "get64 xs o1 = get_le xs o1 8"

definition bytes16 :: "u16 \<Rightarrow> u8 list" where "bytes16 v = le_bytes 2 (ucast v)"
definition bytes32 :: "u32 \<Rightarrow> u8 list" where "bytes32 v = le_bytes 4 (ucast v)"
definition bytes64 :: "u64 \<Rightarrow> u8 list" where "bytes64 v = le_bytes 8 v"

lemma length_le_bytes [simp]: "length (le_bytes k v) = k"
  by (induction k v rule: le_bytes.induct) simp_all

lemma length_bytes [simp]:
  "length (bytes16 a) = 2" "length (bytes32 b) = 4" "length (bytes64 c) = 8"
  by (simp_all add: bytes16_def bytes32_def bytes64_def)

lemma length_patch [simp]: "o1 + length ys \<le> length xs \<Longrightarrow> length (patch xs o1 ys) = length xs"
  by (simp add: patch_def)

lemma length_slice [simp]: "o1 + n \<le> length xs \<Longrightarrow> length (slice o1 n xs) = n"
  by (simp add: slice_def)

lemma nth_slice [simp]: "i < n \<Longrightarrow> o1 + i < length xs \<Longrightarrow> slice o1 n xs ! i = xs ! (o1 + i)"
  by (simp add: slice_def)

lemma nth_patch:
  "o1 + length ys \<le> length xs \<Longrightarrow> i < length xs \<Longrightarrow>
   patch xs o1 ys ! i = (if o1 \<le> i \<and> i < o1 + length ys then ys ! (i - o1) else xs ! i)"
  by (auto simp: patch_def nth_append min_def)

lemma slice_patch_same [simp]:
  "o1 + length ys \<le> length xs \<Longrightarrow> n = length ys \<Longrightarrow> slice o1 n (patch xs o1 ys) = ys"
  by (simp add: slice_def patch_def)

lemma slice_patch_disjoint:
  assumes "o1 + length ys \<le> length xs" "p + n \<le> length xs" "p + n \<le> o1 \<or> o1 + length ys \<le> p"
  shows "slice p n (patch xs o1 ys) = slice p n xs"
  using assms by (intro nth_equalityI) (auto simp: nth_patch)

lemma get_le_cong:
  "(\<And>i. i < k \<Longrightarrow> xs ! (o1 + i) = ys ! (p + i)) \<Longrightarrow> get_le xs o1 k = get_le ys p k"
proof (induction k arbitrary: o1 p)
  case (Suc k)
  have "xs ! o1 = ys ! p" using Suc.prems [of 0] by simp
  moreover have "get_le xs (Suc o1) k = get_le ys (Suc p) k"
    by (rule Suc.IH) (use Suc.prems [of "Suc _"] in simp)
  ultimately show ?case by simp
qed simp

lemma get_le_bytes: "get_le (le_bytes k v) 0 k = take_bit (8 * k) v"
proof (induction k arbitrary: v)
  case (Suc k)
  have "get_le (le_bytes (Suc k) v) (Suc 0) k = get_le (le_bytes k (drop_bit 8 v)) 0 k"
    by (rule get_le_cong) simp
  then show ?case using Suc take_bit_byte_split [of v k] by simp
qed simp

lemma get_le_slice:
  assumes "p + k \<le> n" "o1 + n \<le> length xs"
  shows "get_le (slice o1 n xs) p k = get_le xs (o1 + p) k"
  using assms by (intro get_le_cong) (simp add: add.assoc)

lemma get_le_append:
  "length xs = p \<Longrightarrow> length ys = k \<Longrightarrow> get_le (xs @ ys @ zs) p k = get_le ys 0 k"
  by (rule get_le_cong) (auto simp: nth_append)

lemma get_le_patch:
  assumes "o1 + k \<le> length xs"
  shows "get_le (patch xs o1 (le_bytes k v)) o1 k = take_bit (8 * k) v"
proof -
  have "get_le (patch xs o1 (le_bytes k v)) o1 k = get_le (le_bytes k v) 0 k"
    using assms by (intro get_le_cong) (auto simp: nth_patch)
  then show ?thesis by (simp add: get_le_bytes)
qed

lemma get_le_patch_disjoint:
  assumes "o1 + length ys \<le> length xs" "p + k \<le> length xs" "p + k \<le> o1 \<or> o1 + length ys \<le> p"
  shows "get_le (patch xs o1 ys) p k = get_le xs p k"
  using assms by (intro get_le_cong) (auto simp: nth_patch)

lemma get_bytes_patch [simp]:
  "o1 + 2 \<le> length xs \<Longrightarrow> get16 (patch xs o1 (bytes16 a)) o1 = a"
  "o1 + 4 \<le> length xs \<Longrightarrow> get32 (patch xs o1 (bytes32 b)) o1 = b"
  "o1 + 8 \<le> length xs \<Longrightarrow> get64 (patch xs o1 (bytes64 c)) o1 = c"
proof -
  show "o1 + 2 \<le> length xs \<Longrightarrow> get16 (patch xs o1 (bytes16 a)) o1 = a"
    by (simp add: get16_def bytes16_def get_le_patch)
      (rule bit_word_eqI, simp add: bit_simps)
  show "o1 + 4 \<le> length xs \<Longrightarrow> get32 (patch xs o1 (bytes32 b)) o1 = b"
    by (simp add: get32_def bytes32_def get_le_patch)
      (rule bit_word_eqI, simp add: bit_simps)
  show "o1 + 8 \<le> length xs \<Longrightarrow> get64 (patch xs o1 (bytes64 c)) o1 = c"
    by (simp add: get64_def bytes64_def get_le_patch take_bit_word_eq_self)
qed

section \<open>Structures\<close>

definition BSIZE :: nat where "BSIZE = 1024"
definition ROOTDEV :: u32 where "ROOTDEV = 1"
definition ROOTINO :: u32 where "ROOTINO = 1"
definition FSMAGIC :: u32 where "FSMAGIC = 0x10203040"
definition NDIRECT :: nat where "NDIRECT = 12"
definition NINDIRECT :: nat where "NINDIRECT = BSIZE div 4"
definition MAXFILE :: nat where "MAXFILE = NDIRECT + NINDIRECT"
definition IPB :: nat where "IPB = BSIZE div 64"
definition BPB :: nat where "BPB = BSIZE * 8"
definition DIRSIZ :: nat where "DIRSIZ = 14"
definition PIPESIZE :: nat where "PIPESIZE = 512"
definition INPUT_BUF_SIZE :: nat where "INPUT_BUF_SIZE = 128"

definition T_DIR :: u16 where "T_DIR = 1"
definition T_FILE :: u16 where "T_FILE = 2"
definition T_DEVICE :: u16 where "T_DEVICE = 3"

lemmas fs_consts [simp] =
  BSIZE_def NDIRECT_def NINDIRECT_def MAXFILE_def IPB_def BPB_def DIRSIZ_def

text \<open>\<^verbatim>\<open>struct buf\<close>; \<open>b_prev\<close> and \<open>b_next\<close> are buffer indices, \<open>NBUF\<close> naming \<^verbatim>\<open>bcache.head\<close>.\<close>

record buf =
  b_valid :: u32
  b_disk :: u32
  b_dev :: u32
  b_blockno :: u32
  b_lock :: sleeplock
  b_refcnt :: u32
  b_prev :: nat
  b_next :: nat
  b_data :: "u8 list"

record logheader =
  lh_n :: int
  lh_block :: "u32 list"

text \<open>
  \<^verbatim>\<open>struct log\<close>; the list \<open>lh_block\<close> is the array of the C structure, of length LOGBLOCKS. The C code
  keeps block numbers in \<^verbatim>\<open>int\<close> variables and passes them on as \<^verbatim>\<open>uint\<close>; here they are the bit patterns.
\<close>

record logstate =
  lg_start :: u32
  lg_outstanding :: int
  lg_committing :: int
  lg_dev :: u32
  lg_lh :: logheader

record superblock =
  sb_magic :: u32
  sb_size :: u32
  sb_nblocks :: u32
  sb_ninodes :: u32
  sb_nlog :: u32
  sb_logstart :: u32
  sb_inodestart :: u32
  sb_bmapstart :: u32

text \<open>\<^verbatim>\<open>struct dinode\<close> and \<^verbatim>\<open>struct inode\<close>: \<open>i_addrs\<close> has NDIRECT + 1 elements.\<close>

record dinode =
  di_type :: u16
  di_major :: u16
  di_minor :: u16
  di_nlink :: u16
  di_size :: u32
  di_addrs :: "u32 list"

record inode =
  i_dev :: u32
  i_inum :: u32
  i_ref :: int
  i_lock :: sleeplock
  i_valid :: u32
  i_type :: u16
  i_major :: u16
  i_minor :: u16
  i_nlink :: u16
  i_size :: u32
  i_addrs :: "u32 list"

datatype ftype = FD_NONE | FD_PIPE | FD_INODE | FD_DEVICE

record kfile =
  f_type :: ftype
  f_ref :: int
  f_readable :: bool
  f_writable :: bool
  f_pipe :: u64
  f_ip :: nat
  f_off :: u32
  f_major :: u16

record pipe =
  pi_data :: "u8 list"
  pi_nread :: u32
  pi_nwrite :: u32
  pi_readopen :: bool
  pi_writeopen :: bool

record consbuf =
  cons_buf :: "u8 list"
  cons_r :: u32
  cons_w :: u32
  cons_e :: u32

text \<open>The functions \<^verbatim>\<open>devsw[]\<close> can point to.\<close>

datatype devfun = Consoleread | Consolewrite

text \<open>Addresses the linker chooses, used as wait channels and as code addresses.\<close>

record layout =
  a_proc :: "nat \<Rightarrow> u64"
  a_buf :: "nat \<Rightarrow> u64"
  a_buflock :: "nat \<Rightarrow> u64"
  a_inodelock :: "nat \<Rightarrow> u64"
  a_log :: u64
  a_ticks :: u64
  a_cons_r :: u64
  a_tx_chan :: u64
  a_trampoline :: u64
  a_uservec :: u64
  a_userret :: u64
  a_forkret :: u64
  a_usertrap :: u64

section \<open>The kernel state\<close>

text \<open>
  \<open>disk\<close> is the content of the device, a list of BSIZE bytes for every block, and \<open>dtrace\<close> the
  sequence of writes the device has completed, oldest first: a crash may leave the disk as it was
  after any prefix of them. \<open>uart_out\<close> is the sequence of bytes given to the UART.
\<close>

record kernel = kstate +
  syms :: layout
  disk :: "u32 \<Rightarrow> u8 list"
  dtrace :: "(u32 \<times> u8 list) list"
  bufs :: "nat \<Rightarrow> buf"
  klog :: logstate
  sb :: superblock
  itable :: "nat \<Rightarrow> inode"
  ftable :: "nat \<Rightarrow> kfile"
  devsw_read :: "nat \<Rightarrow> devfun option"
  devsw_write :: "nat \<Rightarrow> devfun option"
  pipes :: "u64 \<Rightarrow> pipe"
  cons :: consbuf
  tx_busy :: bool
  uart_out :: "u8 list"
  panicking :: bool
  panicked :: bool
  forkret_first :: bool

definition upd_buf :: "nat \<Rightarrow> (buf \<Rightarrow> buf) \<Rightarrow> kernel \<Rightarrow> kernel" where
  "upd_buf i f s = s\<lparr>bufs := (bufs s)(i := f (bufs s i))\<rparr>"

definition upd_inode :: "nat \<Rightarrow> (inode \<Rightarrow> inode) \<Rightarrow> kernel \<Rightarrow> kernel" where
  "upd_inode i f s = s\<lparr>itable := (itable s)(i := f (itable s i))\<rparr>"

definition upd_file :: "nat \<Rightarrow> (kfile \<Rightarrow> kfile) \<Rightarrow> kernel \<Rightarrow> kernel" where
  "upd_file i f s = s\<lparr>ftable := (ftable s)(i := f (ftable s i))\<rparr>"

definition upd_pipe :: "u64 \<Rightarrow> (pipe \<Rightarrow> pipe) \<Rightarrow> kernel \<Rightarrow> kernel" where
  "upd_pipe a f s = s\<lparr>pipes := (pipes s)(a := f (pipes s a))\<rparr>"

lemma upd_buf_simps [simp]:
  "bufs (upd_buf i f s) j = (if j = i then f (bufs s i) else bufs s j)"
  "disk (upd_buf i f s) = disk s" "dtrace (upd_buf i f s) = dtrace s" "procs (upd_buf i f s) = procs s"
  "syms (upd_buf i f s) = syms s" "klog (upd_buf i f s) = klog s" "sb (upd_buf i f s) = sb s"
  "itable (upd_buf i f s) = itable s" "buckets (upd_buf i f s) = buckets s"
  "mem (upd_buf i f s) = mem s" "freelist (upd_buf i f s) = freelist s"
  by (simp_all add: upd_buf_def)

lemma upd_inode_simps [simp]:
  "itable (upd_inode i f s) j = (if j = i then f (itable s i) else itable s j)"
  "disk (upd_inode i f s) = disk s" "dtrace (upd_inode i f s) = dtrace s" "procs (upd_inode i f s) = procs s"
  "syms (upd_inode i f s) = syms s" "klog (upd_inode i f s) = klog s" "sb (upd_inode i f s) = sb s"
  "bufs (upd_inode i f s) = bufs s" "buckets (upd_inode i f s) = buckets s"
  "mem (upd_inode i f s) = mem s" "freelist (upd_inode i f s) = freelist s"
  by (simp_all add: upd_inode_def)

text \<open>
  \<open>woke s s'\<close>: only scheduling states and wait-queue links differ, as after a \<^verbatim>\<open>wakeup\<close>, and the
  wait queues are in order.
\<close>

definition sched_ok :: "'a kstate_scheme \<Rightarrow> bool" where
  "sched_ok s \<longleftrightarrow> (\<exists>qs. sched_inv s qs)"

definition woke :: "kernel \<Rightarrow> kernel \<Rightarrow> bool" where
  "woke s s' \<longleftrightarrow> sched_ok s' \<and>
     (\<exists>ps bs. s' = s\<lparr>procs := ps, buckets := bs\<rparr> \<and>
       (\<forall>j. \<exists>st e. ps j = (procs s j)\<lparr>p_state := st, p_wq_entry := e\<rparr>))"

lemma sched_ok_cong: "procs s' = procs s \<Longrightarrow> buckets s' = buckets s \<Longrightarrow> sched_ok s' \<longleftrightarrow> sched_ok s"
  unfolding sched_ok_def sched_inv_def wq_queues_def wq_queue_def queued_ok_def enext_def by simp

lemma woke_simps:
  assumes "woke s s'"
  shows "syms s' = syms s" "disk s' = disk s" "dtrace s' = dtrace s" "bufs s' = bufs s"
    "klog s' = klog s" "sb s' = sb s" "itable s' = itable s" "ftable s' = ftable s" "pipes s' = pipes s"
    "mem s' = mem s" "freelist s' = freelist s" "kend s' = kend s" "uart_out s' = uart_out s"
    "panicked s' = panicked s" "cons s' = cons s"
    "p_pid (procs s' j) = p_pid (procs s j)" "p_pagetable (procs s' j) = p_pagetable (procs s j)"
    "p_sz (procs s' j) = p_sz (procs s j)" "p_cwd (procs s' j) = p_cwd (procs s j)"
    "p_ofile (procs s' j) = p_ofile (procs s j)" "p_trapframe (procs s' j) = p_trapframe (procs s j)"
    "p_killed (procs s' j) = p_killed (procs s j)" "p_chan (procs s' j) = p_chan (procs s j)"
    "p_parent (procs s' j) = p_parent (procs s j)" "p_name (procs s' j) = p_name (procs s j)"
    "p_xstate (procs s' j) = p_xstate (procs s j)"
proof -
  obtain ps bs st e where s': "s' = s\<lparr>procs := ps, buckets := bs\<rparr>"
      and j: "ps j = (procs s j)\<lparr>p_state := st, p_wq_entry := e\<rparr>"
    using assms unfolding woke_def by blast
  show "syms s' = syms s" "disk s' = disk s" "dtrace s' = dtrace s" "bufs s' = bufs s"
    "klog s' = klog s" "sb s' = sb s" "itable s' = itable s" "ftable s' = ftable s" "pipes s' = pipes s"
    "mem s' = mem s" "freelist s' = freelist s" "kend s' = kend s" "uart_out s' = uart_out s"
    "panicked s' = panicked s" "cons s' = cons s"
    "p_pid (procs s' j) = p_pid (procs s j)" "p_pagetable (procs s' j) = p_pagetable (procs s j)"
    "p_sz (procs s' j) = p_sz (procs s j)" "p_cwd (procs s' j) = p_cwd (procs s j)"
    "p_ofile (procs s' j) = p_ofile (procs s j)" "p_trapframe (procs s' j) = p_trapframe (procs s j)"
    "p_killed (procs s' j) = p_killed (procs s j)" "p_chan (procs s' j) = p_chan (procs s j)"
    "p_parent (procs s' j) = p_parent (procs s j)" "p_name (procs s' j) = p_name (procs s j)"
    "p_xstate (procs s' j) = p_xstate (procs s j)"
    by (simp_all add: s' j)
qed

text \<open>
  A sleep lock inside an object: \<open>Sleeps\<close> when it is held. The address of the lock is its wait
  channel.
\<close>

definition lock_buf :: "nat \<Rightarrow> nat \<Rightarrow> kernel \<Rightarrow> kernel res" where
  "lock_buf me i s =
     (let a = a_buflock (syms s) i; (ok, lk, s) = acquiresleep me a (b_lock (bufs s i)) s in
      if ok then Ok (upd_buf i (\<lambda>b. b\<lparr>b_lock := lk\<rparr>) s) else Sleeps a)"

definition unlock_buf :: "nat \<Rightarrow> kernel \<Rightarrow> kernel res" where
  "unlock_buf i s =
     res_bind (res_of (releasesleep (a_buflock (syms s) i) (b_lock (bufs s i)) s)) (\<lambda>(lk, s).
       Ok (upd_buf i (\<lambda>b. b\<lparr>b_lock := lk\<rparr>) s))"

definition lock_inode :: "nat \<Rightarrow> nat \<Rightarrow> kernel \<Rightarrow> kernel res" where
  "lock_inode me i s =
     (let a = a_inodelock (syms s) i; (ok, lk, s) = acquiresleep me a (i_lock (itable s i)) s in
      if ok then Ok (upd_inode i (\<lambda>p. p\<lparr>i_lock := lk\<rparr>) s) else Sleeps a)"

definition unlock_inode :: "nat \<Rightarrow> kernel \<Rightarrow> kernel res" where
  "unlock_inode i s =
     res_bind (res_of (releasesleep (a_inodelock (syms s) i) (i_lock (itable s i)) s)) (\<lambda>(lk, s).
       Ok (upd_inode i (\<lambda>p. p\<lparr>i_lock := lk\<rparr>) s))"

text \<open>\<^verbatim>\<open>wakeup\<close> as a statement of kernel code.\<close>

definition do_wakeup :: "chan \<Rightarrow> kernel \<Rightarrow> kernel res" where
  "do_wakeup c s = res_of (wakeup c s)"

lemma pcore_eq_state:
  assumes "pcore p = (pcore q)\<lparr>p_state := st\<rparr>"
  shows "p = q\<lparr>p_state := st, p_wq_entry := p_wq_entry p\<rparr>"
  using assms by (cases p; cases q) (simp add: pcore_def)

lemma wakeup_woke:
  assumes "sched_ok s" shows "\<exists>s'. wakeup c s = Some s' \<and> woke s s'"
proof -
  obtain qs where q: "sched_inv s qs" using assms by (auto simp: sched_ok_def)
  obtain s' qs' where w: "wakeup c s = Some s'" "sched_inv s' qs'" "wake_frame s s'"
      "\<And>j. pcore (procs s' j) = pcore (procs (wakeup_scan c s) j)"
    using wakeup_spec [OF q, of c] by blast
  have "\<exists>st e. procs s' j = (procs s j)\<lparr>p_state := st, p_wq_entry := e\<rparr>" for j
  proof -
    have "\<exists>st. pcore (procs s' j) = (pcore (procs s j))\<lparr>p_state := st\<rparr>"
      using w(4) [of j] by (auto simp: wakeup_scan_procs intro: exI [where x = "p_state (procs s j)"])
    then show ?thesis using pcore_eq_state by blast
  qed
  moreover obtain ps bs where "s' = s\<lparr>procs := ps, buckets := bs\<rparr>"
    using w(3) by (auto simp: wake_frame_def)
  ultimately have "woke s s'" using w(2) unfolding woke_def sched_ok_def by auto
  then show ?thesis using w(1) by blast
qed

lemma do_wakeup_woke: "sched_ok s \<Longrightarrow> \<exists>s'. do_wakeup c s = Ok s' \<and> woke s s'"
  using wakeup_woke [of s c] by (auto simp: do_wakeup_def)

section \<open>Copying to and from kernel buffers\<close>

text \<open>
  Where \<^verbatim>\<open>either_copyout\<close> delivers bytes: a user address, a kernel address in the memory of the
  machine, or a local variable of the caller, whose new value is the list of bytes delivered.
  \<^verbatim>\<open>either_copyin\<close> takes them from a user address or from a local variable.
\<close>

datatype kdst = UserDst u64 | MemDst u64 | LocalDst

datatype ksrc = UserSrc u64 | LocalSrc "u8 list"

definition kdst_add :: "kdst \<Rightarrow> u64 \<Rightarrow> kdst" where
  "kdst_add d n = (case d of UserDst a \<Rightarrow> UserDst (a + n) | MemDst a \<Rightarrow> MemDst (a + n)
     | LocalDst \<Rightarrow> LocalDst)"

definition ksrc_add :: "ksrc \<Rightarrow> u64 \<Rightarrow> ksrc" where
  "ksrc_add c n = (case c of UserSrc a \<Rightarrow> UserSrc (a + n) | LocalSrc xs \<Rightarrow> LocalSrc (drop (unat n) xs))"

definition either_copyout :: "nat \<Rightarrow> kdst \<Rightarrow> u8 list \<Rightarrow> 'a kstate_scheme \<Rightarrow> (int \<times> 'a kstate_scheme) res" where
  "either_copyout me d src s =
     (case d of
        UserDst dst \<Rightarrow> copyout me (p_pagetable (procs s me)) dst src s
      | MemDst dst \<Rightarrow> Ok (0, s\<lparr>mem := store_bytes (mem s) dst src\<rparr>)
      | LocalDst \<Rightarrow> Ok (0, s))"

definition either_copyin :: "nat \<Rightarrow> ksrc \<Rightarrow> nat \<Rightarrow> 'a kstate_scheme \<Rightarrow> (int \<times> u8 list \<times> 'a kstate_scheme) res" where
  "either_copyin me c len s =
     (case c of
        UserSrc src \<Rightarrow> copyin me (p_pagetable (procs s me)) src len s
      | LocalSrc xs \<Rightarrow> Ok (0, take len xs, s))"

section \<open>The kernel at boot\<close>

text \<open>Zeroed data and a blank disk: the starting point of the concrete runs in the development.\<close>

definition boot_lock :: sleeplock where
  "boot_lock = \<lparr>sl_locked = 0, sl_lk = initlock [], sl_name = [], sl_pid = 0\<rparr>"

definition boot_buf :: buf where
  "boot_buf = \<lparr>b_valid = 0, b_disk = 0, b_dev = 0, b_blockno = 0, b_lock = boot_lock, b_refcnt = 0,
     b_prev = 0, b_next = 0, b_data = replicate BSIZE 0\<rparr>"

definition boot_inode :: inode where
  "boot_inode = \<lparr>i_dev = 0, i_inum = 0, i_ref = 0, i_lock = boot_lock, i_valid = 0, i_type = 0,
     i_major = 0, i_minor = 0, i_nlink = 0, i_size = 0, i_addrs = replicate 13 0\<rparr>"

definition boot_file :: kfile where
  "boot_file = \<lparr>f_type = FD_NONE, f_ref = 0, f_readable = False, f_writable = False, f_pipe = 0,
     f_ip = 0, f_off = 0, f_major = 0\<rparr>"

definition boot_layout :: layout where
  "boot_layout = \<lparr>a_proc = (\<lambda>i. 0x80020000 + of_nat i * 408), a_buf = (\<lambda>i. 0x80030000 + of_nat i * 1120),
     a_buflock = (\<lambda>i. 0x80030010 + of_nat i * 1120), a_inodelock = (\<lambda>i. 0x80040010 + of_nat i * 136),
     a_log = 0x80050000, a_ticks = 0x80051000, a_cons_r = 0x80052000, a_tx_chan = 0x80053000,
     a_trampoline = 0x80007000, a_uservec = 0x80007000, a_userret = 0x8000709c,
     a_forkret = 0x80002000, a_usertrap = 0x80002100\<rparr>"

definition boot_kernel :: kernel where
  "boot_kernel = \<lparr>mem = (\<lambda>_. 0), freelist = 0, procs = (\<lambda>_. boot_proc), cpus = (\<lambda>_. boot_cpu),
     buckets = (\<lambda>_. None), nextpid = 1, initproc = None, ticks = 0, kend = 0x87FFD123,
     syms = boot_layout, disk = (\<lambda>_. replicate BSIZE 0), dtrace = [], bufs = (\<lambda>_. boot_buf),
     klog = \<lparr>lg_start = 0, lg_outstanding = 0, lg_committing = 0, lg_dev = 0,
       lg_lh = \<lparr>lh_n = 0, lh_block = replicate LOGBLOCKS 0\<rparr>\<rparr>,
     sb = \<lparr>sb_magic = 0, sb_size = 0, sb_nblocks = 0, sb_ninodes = 0, sb_nlog = 0, sb_logstart = 0,
       sb_inodestart = 0, sb_bmapstart = 0\<rparr>,
     itable = (\<lambda>_. boot_inode), ftable = (\<lambda>_. boot_file), devsw_read = (\<lambda>_. None),
     devsw_write = (\<lambda>_. None),
     pipes = (\<lambda>_. \<lparr>pi_data = replicate PIPESIZE 0, pi_nread = 0, pi_nwrite = 0, pi_readopen = False,
       pi_writeopen = False\<rparr>),
     cons = \<lparr>cons_buf = replicate INPUT_BUF_SIZE 0, cons_r = 0, cons_w = 0, cons_e = 0\<rparr>,
     tx_busy = False, uart_out = [], panicking = False, panicked = False, forkret_first = True\<rparr>"

end
