(* ===== verification/Printf.thy ===== *)
theory Printf
  imports KernelState
begin

text \<open>
  Formatted output of the kernel (\<^verbatim>\<open>kernel/printf.c\<close>), with \<^verbatim>\<open>consputc\<close> of \<^verbatim>\<open>kernel/console.c\<close> and
  \<^verbatim>\<open>uartputc_sync\<close> of \<^verbatim>\<open>kernel/uart.c\<close> below it. A format is the list of its bytes without the
  terminating zero. The UART is assumed to become ready, so the wait for an idle transmitter ends.
  The reference \<open>numeral_of\<close> is the usual recursive definition of a number's digits.
\<close>

section \<open>Characters\<close>

definition uartputc_sync :: "u32 \<Rightarrow> kernel \<Rightarrow> kernel res" where
  "uartputc_sync c s =
     (if panicked s then Loops else Ok (s\<lparr>uart_out := uart_out s @ [ucast c]\<rparr>))"

definition BACKSPACE :: u32 where "BACKSPACE = 0x100"

definition consputc :: "u32 \<Rightarrow> kernel \<Rightarrow> kernel res" where
  "consputc c s =
     (if c = BACKSPACE
      then res_bind (uartputc_sync 8 s) (\<lambda>s. res_bind (uartputc_sync 32 s) (uartputc_sync 8))
      else uartputc_sync c s)"

fun consputs :: "u8 list \<Rightarrow> kernel \<Rightarrow> kernel res" where
  "consputs [] s = Ok s"
| "consputs (c # cs) s = res_bind (consputc (ucast c) s) (consputs cs)"

section \<open>Numbers\<close>

definition digits :: "u8 list" where "digits = str ''0123456789abcdef''"

text \<open>
  The loop of \<^verbatim>\<open>printint\<close> that fills \<^verbatim>\<open>buf\<close>, least significant digit first. \<open>ds\<close> is the table of
  digits, lower case in the kernel and upper case in the user library.
\<close>

partial_function (option) printint_buf :: "u8 list \<Rightarrow> u64 \<Rightarrow> u64 \<Rightarrow> u8 list \<Rightarrow> u8 list option" where
  "printint_buf ds x base buf =
     (let buf = buf @ [ds ! unat (x mod base)]; x = x div base in
      if x \<noteq> 0 then printint_buf ds x base buf else Some buf)"

definition printint :: "u64 \<Rightarrow> u64 \<Rightarrow> bool \<Rightarrow> kernel \<Rightarrow> kernel res" where
  "printint xx base sign s =
     (let sign = (sign \<and> sint xx < 0); x = (if sign then - xx else xx) in
      res_bind (res_of (printint_buf digits x base [])) (\<lambda>buf.
        let buf = (if sign then buf @ [asc CHR ''-''] else buf) in consputs (rev buf) s))"

fun ptr_digits :: "u8 list \<Rightarrow> nat \<Rightarrow> u64 \<Rightarrow> u8 list" where
  "ptr_digits ds 0 x = []"
| "ptr_digits ds (Suc i) x = ds ! unat (drop_bit (64 - 4) x) # ptr_digits ds i (push_bit 4 x)"

definition printptr :: "u64 \<Rightarrow> kernel \<Rightarrow> kernel res" where
  "printptr x s = consputs (str ''0x'' @ ptr_digits digits 16 x) s"

section \<open>Formats\<close>

text \<open>
  The arguments after the format: numbers as 64-bit registers and strings, \<open>None\<close> being the null
  pointer. Reading a missing argument or one of the other kind is undefined in C and gives 0 or the
  null pointer here; no call in the kernel does it.
\<close>

datatype varg = VNum u64 | VStr "u8 list option"

definition va_num :: "varg list \<Rightarrow> u64" where
  "va_num ap = (case ap of VNum v # _ \<Rightarrow> v | _ \<Rightarrow> 0)"

definition va_str :: "varg list \<Rightarrow> u8 list" where
  "va_str ap = (case ap of VStr (Some s) # _ \<Rightarrow> s | _ \<Rightarrow> str ''(null)'')"

definition va_int :: "varg list \<Rightarrow> u64" where
  "va_int ap = scast (ucast (va_num ap) :: u32)"

definition va_uint32 :: "varg list \<Rightarrow> u64" where
  "va_uint32 ap = ucast (ucast (va_num ap) :: u32)"

text \<open>The byte at index \<open>i\<close> of the rest of the format, the terminating zero included.\<close>

definition at0 :: "u8 list \<Rightarrow> nat \<Rightarrow> u8" where
  "at0 xs i = (if i < length xs then xs ! i else 0)"

text \<open>
  The conversions: \<open>c0\<close>, \<open>c1\<close> and \<open>c2\<close> are the bytes after the percent sign. The result says how
  many bytes after \<open>c0\<close> the conversion uses up, and which arguments are left.
\<close>

definition printf_conv ::
    "u8 \<Rightarrow> u8 \<Rightarrow> u8 \<Rightarrow> varg list \<Rightarrow> kernel \<Rightarrow> (nat \<times> varg list \<times> kernel) res" where
  "printf_conv c0 c1 c2 ap s =
     (let l = asc CHR ''l'';
          k = (\<lambda>r i. res_bind r (\<lambda>s. Ok (i, drop 1 ap, s))) in
      if c0 = asc CHR ''d'' then k (printint (va_int ap) 10 True s) 0
      else if c0 = l \<and> c1 = asc CHR ''d'' then k (printint (va_num ap) 10 True s) 1
      else if c0 = l \<and> c1 = l \<and> c2 = asc CHR ''d'' then k (printint (va_num ap) 10 True s) 2
      else if c0 = asc CHR ''u'' then k (printint (va_uint32 ap) 10 False s) 0
      else if c0 = l \<and> c1 = asc CHR ''u'' then k (printint (va_num ap) 10 False s) 1
      else if c0 = l \<and> c1 = l \<and> c2 = asc CHR ''u'' then k (printint (va_num ap) 10 False s) 2
      else if c0 = asc CHR ''x'' then k (printint (va_uint32 ap) 16 False s) 0
      else if c0 = l \<and> c1 = asc CHR ''x'' then k (printint (va_num ap) 16 False s) 1
      else if c0 = l \<and> c1 = l \<and> c2 = asc CHR ''x'' then k (printint (va_num ap) 16 False s) 2
      else if c0 = asc CHR ''p'' then k (printptr (va_num ap) s) 0
      else if c0 = asc CHR ''c'' then k (consputc (ucast (va_num ap)) s) 0
      else if c0 = asc CHR ''s'' then k (consputs (va_str ap) s) 0
      else if c0 = asc CHR ''%'' then res_bind (consputc 37 s) (\<lambda>s. Ok (0, ap, s))
      else res_bind (consputc 37 s) (\<lambda>s. res_bind (consputc (ucast c0) s) (\<lambda>s. Ok (0, ap, s))))"

fun printf_loop :: "u8 list \<Rightarrow> varg list \<Rightarrow> kernel \<Rightarrow> kernel res" where
  "printf_loop [] ap s = Ok s"
| "printf_loop (cx # fmt) ap s =
     (if cx \<noteq> asc CHR ''%'' then res_bind (consputc (ucast cx) s) (printf_loop fmt ap)
      else (let c0 = at0 fmt 0;
                c1 = (if c0 \<noteq> 0 then at0 fmt 1 else 0);
                c2 = (if c1 \<noteq> 0 then at0 fmt 2 else 0) in
        if c0 = 0 then Ok s
        else res_bind (printf_conv c0 c1 c2 ap s) (\<lambda>(i, ap, s). printf_loop (drop (1 + i) fmt) ap s)))"

definition printf :: "string \<Rightarrow> varg list \<Rightarrow> kernel \<Rightarrow> kernel res" where
  "printf fmt ap s = printf_loop (str fmt) ap s"

text \<open>\<^verbatim>\<open>panic\<close> up to its final endless loop.\<close>

definition panic :: "string \<Rightarrow> kernel \<Rightarrow> kernel res" where
  "panic msg s =
     res_bind (printf ''panic: '' [] (s\<lparr>panicking := True\<rparr>)) (\<lambda>s.
       res_bind (printf ''%s\<newline>'' [VStr (Some (str msg))] s) (\<lambda>s. Ok (s\<lparr>panicked := True\<rparr>)))"

section \<open>Numbers are printed correctly\<close>

text \<open>The reference: the digits of a number in a base, most significant first.\<close>

fun numeral_of :: "u8 list \<Rightarrow> nat \<Rightarrow> nat \<Rightarrow> u8 list" where
  "numeral_of ds base n =
     (if base < 2 \<or> n < base then [ds ! n]
      else numeral_of ds base (n div base) @ [ds ! (n mod base)])"

declare numeral_of.simps [simp del]

lemma printint_buf_numeral:
  assumes "2 \<le> unat base"
  shows "printint_buf ds x base buf = Some (buf @ rev (numeral_of ds (unat base) (unat x)))"
  using assms
proof (induction "unat x" arbitrary: x buf rule: less_induct)
  case less
  let ?d = "ds ! (unat x mod unat base)"
  have q: "unat (x div base) = unat x div unat base" by (simp add: unat_div)
  have m: "unat (x mod base) = unat x mod unat base" by (simp add: unat_mod)
  show ?case
  proof (cases "x div base = 0")
    case True
    then have "unat x < unat base" using q less.prems by (simp add: div_eq_0_iff)
    then have "numeral_of ds (unat base) (unat x) = [?d]" by (subst numeral_of.simps) simp
    then show ?thesis using True by (subst printint_buf.simps) (simp add: Let_def m)
  next
    case False
    then have nz: "unat x div unat base \<noteq> 0" by (simp add: unat_eq_zero flip: q)
    then have "0 < unat x" by (cases "unat x = 0") simp_all
    then have "unat (x div base) < unat x" using less.prems q by simp
    then have "printint_buf ds (x div base) base (buf @ [?d])
        = Some ((buf @ [?d]) @ rev (numeral_of ds (unat base) (unat (x div base))))"
      using less by blast
    moreover have "numeral_of ds (unat base) (unat x)
        = numeral_of ds (unat base) (unat x div unat base) @ [?d]"
      using nz less.prems by (subst numeral_of.simps) (simp add: div_eq_0_iff)
    ultimately show ?thesis using False by (subst printint_buf.simps) (simp add: Let_def m q)
  qed
qed

lemma length_numeral_of:
  assumes "2 \<le> base" "n < base ^ k" "0 < k"
  shows "length (numeral_of ds base n) \<le> k"
  using assms
proof (induction k arbitrary: n)
  case (Suc k)
  show ?case
  proof (cases "n < base")
    case True
    then show ?thesis by (subst numeral_of.simps) simp
  next
    case False
    have "n div base < base ^ k"
      using Suc.prems by (simp add: less_mult_imp_div_less mult.commute)
    moreover have "0 < k"
    proof (rule ccontr)
      assume "\<not> 0 < k"
      then show False using Suc.prems False by simp
    qed
    ultimately have "length (numeral_of ds base (n div base)) \<le> k" using Suc by blast
    then show ?thesis using False Suc.prems by (subst numeral_of.simps) simp
  qed
qed simp

lemma consputs_out:
  "\<not> panicked s \<Longrightarrow> consputs cs s = Ok (s\<lparr>uart_out := uart_out s @ cs\<rparr>)"
proof (induction cs arbitrary: s)
  case (Cons c cs)
  have "\<not> bit (ucast c :: u32) 8" "bit BACKSPACE 8"
    by (auto simp: bit_simps BACKSPACE_def bit_numeral_rec dest: bit_imp_le_length)
  then have "(ucast c :: u32) \<noteq> BACKSPACE" by metis
  moreover have "(ucast (ucast c :: u32) :: u8) = c" by (rule bit_word_eqI) (simp add: bit_simps)
  ultimately have "consputc (ucast c) s = Ok (s\<lparr>uart_out := uart_out s @ [c]\<rparr>)"
    using Cons.prems by (simp add: consputc_def uartputc_sync_def)
  then show ?case using Cons by simp
qed simp

definition signed_numeral :: "u8 list \<Rightarrow> nat \<Rightarrow> int \<Rightarrow> u8 list" where
  "signed_numeral ds base n =
     (if n < 0 then asc CHR ''-'' # numeral_of ds base (nat (- n)) else numeral_of ds base (nat n))"

lemma unat_word_of_int:
  assumes "0 \<le> n" "n < 2 ^ 64" shows "unat (word_of_int n :: u64) = nat n"
  using assms by (simp add: unat_eq_nat_uint uint_word_of_int take_bit_int_eq_self_iff)

lemma unat_uminus_sint: "sint (x :: u64) < 0 \<Longrightarrow> unat (- x) = nat (- sint x)"
  using unat_word_of_int [of "- sint x"] sint_ge [of x] by simp

lemma unat_nonneg_sint: "\<not> sint (x :: u64) < 0 \<Longrightarrow> unat x = nat (sint x)"
  using unat_word_of_int [of "sint x"] sint_lt [of x] by simp

lemma printint_spec:
  assumes "\<not> panicked s" "2 \<le> unat base"
  shows "printint xx base sign s =
    Ok (s\<lparr>uart_out := uart_out s @ (if sign then signed_numeral digits (unat base) (sint xx)
                                     else numeral_of digits (unat base) (unat xx))\<rparr>)"
  using assms
  by (auto simp: printint_def Let_def printint_buf_numeral consputs_out signed_numeral_def
      unat_uminus_sint unat_nonneg_sint)

text \<open>Whatever the format, output only grows and nothing else changes.\<close>

lemma consputc_ok: "\<not> panicked s \<Longrightarrow> \<exists>out. consputc c s = Ok (s\<lparr>uart_out := uart_out s @ out\<rparr>)"
  by (auto simp: consputc_def uartputc_sync_def)

lemma printf_conv_ok:
  assumes "\<not> panicked s"
  shows "\<exists>i ap' out. printf_conv c0 c1 c2 ap s = Ok (i, ap', s\<lparr>uart_out := uart_out s @ out\<rparr>)"
proof -
  define Q where "Q r \<longleftrightarrow> (\<exists>i ap' out. r = Ok (i, ap', s\<lparr>uart_out := uart_out s @ out\<rparr>))"
    for r :: "(nat \<times> varg list \<times> kernel) res"
  have if_Q: "Q a \<Longrightarrow> Q b \<Longrightarrow> Q (if c then a else b)" for a b c by simp
  have pi: "Q (res_bind (printint x b sg s) (\<lambda>s. Ok (k, as, s)))" if "b = 10 \<or> b = 16" for x b sg k as
    using printint_spec [OF assms, of b] that by (cases sg) (auto simp: Q_def)
  have pp: "Q (res_bind (printptr x s) (\<lambda>s. Ok (k, as, s)))" for x k as
    using consputs_out [OF assms] by (auto simp: printptr_def Q_def)
  have ps: "Q (res_bind (consputs x s) (\<lambda>s. Ok (k, as, s)))" for x k as
    using consputs_out [OF assms] by (auto simp: Q_def)
  have pc: "Q (res_bind (consputc x s) (\<lambda>s. Ok (k, as, s)))" for x k as
    using consputc_ok [OF assms, of x] by (auto simp: Q_def)
  have two: "Q (res_bind (consputc 37 s) (\<lambda>s. res_bind (consputc c s) (\<lambda>s. Ok (k, as, s))))" for c k as
    using assms by (auto simp: consputc_def uartputc_sync_def Q_def)
  have "Q (printf_conv c0 c1 c2 ap s)" unfolding printf_conv_def Let_def
    by (intro if_Q pi pp ps pc two) simp_all
  then show ?thesis by (simp add: Q_def)
qed

lemma printf_loop_ok:
  "\<not> panicked s \<Longrightarrow> \<exists>out. printf_loop fmt ap s = Ok (s\<lparr>uart_out := uart_out s @ out\<rparr>)"
proof (induction "length fmt" arbitrary: fmt ap s rule: less_induct)
  case less
  show ?case
  proof (cases fmt)
    case Nil
    then show ?thesis by (auto intro!: exI [of _ "[]"])
  next
    case (Cons cx rest)
    have IH: "\<exists>out. printf_loop f as t = Ok (t\<lparr>uart_out := uart_out t @ out\<rparr>)"
      if "length f < length fmt" "\<not> panicked t" for f as t using less that by blast
    show ?thesis
    proof (cases "cx = asc CHR ''%''")
      case False
      obtain o1 where 1: "consputc (ucast cx) s = Ok (s\<lparr>uart_out := uart_out s @ o1\<rparr>)"
        using consputc_ok less.prems by blast
      then show ?thesis
        using IH [of rest "s\<lparr>uart_out := uart_out s @ o1\<rparr>" ap] less.prems Cons False by auto
    next
      case True
      define c0 where "c0 = at0 rest 0"
      define c1 where "c1 = (if c0 \<noteq> 0 then at0 rest 1 else 0)"
      define c2 where "c2 = (if c1 \<noteq> 0 then at0 rest 2 else 0)"
      obtain i as o1 where 1: "printf_conv c0 c1 c2 ap s = Ok (i, as, s\<lparr>uart_out := uart_out s @ o1\<rparr>)"
        using printf_conv_ok less.prems by blast
      have e: "printf_loop fmt ap s = (if c0 = 0 then Ok s
          else res_bind (printf_conv c0 c1 c2 ap s) (\<lambda>(i, ap, s). printf_loop (drop (1 + i) rest) ap s))"
        using True Cons by (simp add: c0_def c1_def c2_def Let_def)
      show ?thesis
      proof (cases "c0 = 0")
        case True
        then show ?thesis unfolding e by (intro exI [of _ "[]"]) simp
      next
        case False
        obtain o2 where "printf_loop (drop (1 + i) rest) as (s\<lparr>uart_out := uart_out s @ o1\<rparr>)
            = Ok (s\<lparr>uart_out := (uart_out s @ o1) @ o2\<rparr>)"
          using IH [of "drop (1 + i) rest" "s\<lparr>uart_out := uart_out s @ o1\<rparr>" as] less.prems Cons
          by (auto simp: less_Suc_eq_le)
        then show ?thesis using False 1 unfolding e by auto
      qed
    qed
  qed
qed

lemma printf_ok: "\<not> panicked s \<Longrightarrow> \<exists>out. printf fmt ap s = Ok (s\<lparr>uart_out := uart_out s @ out\<rparr>)"
  unfolding printf_def by (rule printf_loop_ok)

lemma length_signed_numeral:
  assumes "2 \<le> base" "- (2 ^ 63) \<le> n" "n < 2 ^ 63" "2 ^ 63 < base ^ k" "0 < k"
  shows "length (signed_numeral ds base n) \<le> Suc k"
proof -
  have "nat (- n) \<le> 2 ^ 63" "nat n \<le> 2 ^ 63" using assms(2,3) by (simp_all add: nat_le_iff)
  then have "nat (- n) < base ^ k" "nat n < base ^ k" using assms(4) by linarith+
  then have "length (numeral_of ds base (nat (- n))) \<le> k" "length (numeral_of ds base (nat n)) \<le> k"
    using assms by (simp_all add: length_numeral_of)
  then show ?thesis by (simp add: signed_numeral_def)
qed

text \<open>
  (C38) \<^verbatim>\<open>printint\<close> in the two bases the kernel uses prints the number: the bytes it hands to the
  console are the digits of the argument, most significant first and without leading zeros, after a
  minus sign when the number is signed and negative; the most negative 64-bit number is no
  exception. It never writes outside its 20-byte buffer.
\<close>

theorem printint_prints_numeral:
  assumes "\<not> panicked s" "base = 10 \<or> base = 16"
  shows "\<exists>out. printint xx base sign s = Ok (s\<lparr>uart_out := uart_out s @ out\<rparr>) \<and> length out \<le> 20 \<and>
    out = (if sign then signed_numeral digits (unat base) (sint xx)
           else numeral_of digits (unat base) (unat xx))"
proof -
  have b: "2 \<le> unat base" "(2::nat) ^ 63 < unat base ^ 19" "2 ^ 64 < unat base ^ 20" using assms(2) by auto
  have "length (signed_numeral digits (unat base) (sint xx)) \<le> Suc 19"
    using b sint_ge [of xx] sint_lt [of xx] by (intro length_signed_numeral) simp_all
  moreover have "unat xx < unat base ^ 20"
    using b(3) unsigned_less [where w = xx and 'a = nat] by (simp add: less_trans)
  then have "length (numeral_of digits (unat base) (unat xx)) \<le> 20"
    using b(1) by (intro length_numeral_of) simp_all
  ultimately show ?thesis using printint_spec [OF assms(1) b(1)] by simp
qed

theorem printint_prints_numeral_witness:
  "\<exists>out. printint (- 1205) 10 True boot_kernel = Ok (boot_kernel\<lparr>uart_out := out\<rparr>) \<and> out = str ''-1205''"
  using printint_prints_numeral [of boot_kernel 10 "- 1205" True]
  by (simp add: boot_kernel_def signed_numeral_def numeral_of.simps digits_def str_def asc_def)

end
