(* ===== verification/Bio.thy ===== *)
theory Bio
  imports Printf
begin

text \<open>
  The buffer cache (\<^verbatim>\<open>kernel/bio.c\<close>): NBUF buffers on a doubly linked list in the order of their
  last use, with \<^verbatim>\<open>bcache.head\<close> as the element \<open>NBUF\<close> of the model's table. \<^verbatim>\<open>virtio_disk_rw\<close> appears
  with the effect it has when the device has completed the request. The invariant \<open>bci\<close> describes
  a cache used by one process: which buffers it holds, which blocks are pinned, and that every
  other buffer agrees with the disk. \<open>blk s n\<close> is the content of block \<open>n\<close> as seen through the
  cache.
\<close>

section \<open>Operations\<close>

definition virtio_disk_rw :: "nat \<Rightarrow> bool \<Rightarrow> kernel \<Rightarrow> kernel" where
  "virtio_disk_rw i wr s =
     (let b = bufs s i in
      if wr then s\<lparr>disk := (disk s)(b_blockno b := b_data b), dtrace := dtrace s @ [(b_blockno b, b_data b)]\<rparr>
      else upd_buf i (\<lambda>b. b\<lparr>b_data := disk s (b_blockno b)\<rparr>) s)"

text \<open>One turn of the loop in \<^verbatim>\<open>binit\<close>: put buffer \<open>i\<close> behind the head.\<close>

definition push_front :: "nat \<Rightarrow> kernel \<Rightarrow> kernel" where
  "push_front i s =
     (let s = upd_buf i (\<lambda>b. b\<lparr>b_next := b_next (bufs s NBUF)\<rparr>) s;
          s = upd_buf i (\<lambda>b. b\<lparr>b_prev := NBUF\<rparr>) s;
          s = upd_buf (b_next (bufs s NBUF)) (\<lambda>b. b\<lparr>b_prev := i\<rparr>) s
      in upd_buf NBUF (\<lambda>b. b\<lparr>b_next := i\<rparr>) s)"

definition binit :: "kernel \<Rightarrow> kernel" where
  "binit s =
     fold (\<lambda>i s. upd_buf i (\<lambda>b. b\<lparr>b_lock := initsleeplock ''buffer''\<rparr>) (push_front i s)) [0..<NBUF]
       (upd_buf NBUF (\<lambda>b. b\<lparr>b_prev := NBUF, b_next := NBUF\<rparr>) s)"

text \<open>
  A walk along the list from \<open>e\<close>, following \<open>nxt\<close> until the head, for the first buffer with \<open>P\<close>.
\<close>

partial_function (option) ring_find :: "(nat \<Rightarrow> nat) \<Rightarrow> (nat \<Rightarrow> bool) \<Rightarrow> nat \<Rightarrow> nat option option" where
  "ring_find nxt P e =
     (if e = NBUF then Some None else if P e then Some (Some e) else ring_find nxt P (nxt e))"

definition bget_cached :: "u32 \<Rightarrow> u32 \<Rightarrow> kernel \<Rightarrow> nat option option" where
  "bget_cached dev blockno s =
     ring_find (\<lambda>i. b_next (bufs s i)) (\<lambda>i. b_dev (bufs s i) = dev \<and> b_blockno (bufs s i) = blockno)
       (b_next (bufs s NBUF))"

definition bget_lru :: "kernel \<Rightarrow> nat option option" where
  "bget_lru s =
     ring_find (\<lambda>i. b_prev (bufs s i)) (\<lambda>i. b_refcnt (bufs s i) = 0) (b_prev (bufs s NBUF))"

definition bget :: "nat \<Rightarrow> u32 \<Rightarrow> u32 \<Rightarrow> kernel \<Rightarrow> (nat \<times> kernel) res" where
  "bget me dev blockno s =
     res_bind (res_of (bget_cached dev blockno s)) (\<lambda>r. case r of
       Some i \<Rightarrow>
         (let s = upd_buf i (\<lambda>b. b\<lparr>b_refcnt := b_refcnt b + 1\<rparr>) s in
          res_bind (lock_buf me i s) (\<lambda>s. Ok (i, s)))
     | None \<Rightarrow>
         res_bind (res_of (bget_lru s)) (\<lambda>r. case r of
           Some i \<Rightarrow>
             (let s = upd_buf i (\<lambda>b. b\<lparr>b_dev := dev, b_blockno := blockno, b_valid := 0, b_refcnt := 1\<rparr>) s in
              res_bind (lock_buf me i s) (\<lambda>s. Ok (i, s)))
         | None \<Rightarrow> Panic ''bget: no buffers''))"

definition bread :: "nat \<Rightarrow> u32 \<Rightarrow> u32 \<Rightarrow> kernel \<Rightarrow> (nat \<times> kernel) res" where
  "bread me dev blockno s =
     res_bind (bget me dev blockno s) (\<lambda>(b, s).
       if b_valid (bufs s b) = 0
       then Ok (b, upd_buf b (\<lambda>x. x\<lparr>b_valid := 1\<rparr>) (virtio_disk_rw b False s))
       else Ok (b, s))"

definition bwrite :: "nat \<Rightarrow> nat \<Rightarrow> kernel \<Rightarrow> kernel res" where
  "bwrite me b s =
     (if \<not> holdingsleep me (b_lock (bufs s b)) s then Panic ''bwrite''
      else Ok (virtio_disk_rw b True s))"

definition unlink_buf :: "nat \<Rightarrow> kernel \<Rightarrow> kernel" where
  "unlink_buf i s =
     (let s = upd_buf (b_next (bufs s i)) (\<lambda>b. b\<lparr>b_prev := b_prev (bufs s i)\<rparr>) s
      in upd_buf (b_prev (bufs s i)) (\<lambda>b. b\<lparr>b_next := b_next (bufs s i)\<rparr>) s)"

definition brelse :: "nat \<Rightarrow> nat \<Rightarrow> kernel \<Rightarrow> kernel res" where
  "brelse me i s =
     (if \<not> holdingsleep me (b_lock (bufs s i)) s then Panic ''brelse''
      else res_bind (unlock_buf i s) (\<lambda>s.
        let s = upd_buf i (\<lambda>b. b\<lparr>b_refcnt := b_refcnt b - 1\<rparr>) s in
        Ok (if b_refcnt (bufs s i) = 0 then push_front i (unlink_buf i s) else s)))"

definition bpin :: "nat \<Rightarrow> kernel \<Rightarrow> kernel" where
  "bpin i s = upd_buf i (\<lambda>b. b\<lparr>b_refcnt := b_refcnt b + 1\<rparr>) s"

definition bunpin :: "nat \<Rightarrow> kernel \<Rightarrow> kernel" where
  "bunpin i s = upd_buf i (\<lambda>b. b\<lparr>b_refcnt := b_refcnt b - 1\<rparr>) s"

section \<open>The list\<close>

text \<open>\<open>links nxt prv a xs z\<close>: the elements \<open>xs\<close> lie between \<open>a\<close> and \<open>z\<close>, linked in both directions.\<close>

fun links :: "('a \<Rightarrow> 'a) \<Rightarrow> ('a \<Rightarrow> 'a) \<Rightarrow> 'a \<Rightarrow> 'a list \<Rightarrow> 'a \<Rightarrow> bool" where
  "links nxt prv a [] z \<longleftrightarrow> nxt a = z \<and> prv z = a"
| "links nxt prv a (x # xs) z \<longleftrightarrow> nxt a = x \<and> prv x = a \<and> links nxt prv x xs z"

lemma links_append:
  "links nxt prv a (xs @ x # ys) z \<longleftrightarrow> links nxt prv a xs x \<and> links nxt prv x ys z"
  by (induction xs arbitrary: a) auto

lemma links_rev: "links nxt prv a xs z \<longleftrightarrow> links prv nxt z (rev xs) a"
proof (induction xs arbitrary: a)
  case (Cons x xs)
  then show ?case by (auto simp: links_append)
qed auto

lemma links_cong:
  assumes "\<And>y. y \<in> set (a # xs) \<Longrightarrow> nxt' y = nxt y" "\<And>y. y \<in> set (xs @ [z]) \<Longrightarrow> prv' y = prv y"
  shows "links nxt' prv' a xs z \<longleftrightarrow> links nxt prv a xs z"
  using assms by (induction xs arbitrary: a) auto

lemma links_retarget:
  assumes "links nxt prv x ys z" "a \<notin> set ys" "distinct ys" "z \<notin> set ys"
  shows "links (nxt(a := nxt x)) (prv(nxt x := a)) a ys z"
proof (cases ys)
  case Nil
  then show ?thesis using assms by simp
next
  case (Cons y yt)
  have "links (nxt(a := y)) (prv(y := a)) y yt z \<longleftrightarrow> links nxt prv y yt z"
    by (rule links_cong) (use Cons assms in auto)
  then show ?thesis using Cons assms by simp
qed

lemma links_unlink:
  assumes "links nxt prv a (xs @ x # ys) z" "distinct (xs @ x # ys)" "a \<notin> set (xs @ x # ys)" "z \<notin> set (xs @ x # ys)"
  shows "links (nxt(prv x := nxt x)) (prv(nxt x := prv x)) a (xs @ ys) z"
proof -
  have l: "links nxt prv a xs x" "links nxt prv x ys z" using assms(1) by (simp_all add: links_append)
  have nx: "nxt x \<notin> set xs" using l(2) assms(2-4) by (cases ys) auto
  show ?thesis
  proof (cases xs rule: rev_cases)
    case Nil
    then show ?thesis using links_retarget [OF l(2), of a] l(1) assms(2-4) by simp
  next
    case (snoc us u)
    have lu: "links nxt prv a us u" "nxt u = x" "prv x = u" using l(1) snoc by (auto simp: links_append)
    have "links (nxt(u := nxt x)) (prv(nxt x := u)) a us u \<longleftrightarrow> links nxt prv a us u"
      by (rule links_cong) (use nx snoc assms(2-4) in auto)
    moreover have "links (nxt(u := nxt x)) (prv(nxt x := u)) u ys z"
      using snoc assms(2-4) by (intro links_retarget [OF l(2)]) auto
    ultimately show ?thesis using snoc lu by (simp add: links_append)
  qed
qed

lemma links_push:
  assumes "links nxt prv h xs h" "x \<notin> set xs" "x \<noteq> h" "distinct xs" "h \<notin> set xs"
  shows "links (nxt(x := nxt h, h := x)) (prv(x := h, nxt h := x)) h (x # xs) h"
proof -
  have "links (nxt(x := nxt h)) (prv(nxt h := x)) x xs h"
    using assms by (intro links_retarget)
  moreover have "links (nxt(x := nxt h, h := x)) (prv(x := h, nxt h := x)) x xs h \<longleftrightarrow>
      links (nxt(x := nxt h)) (prv(nxt h := x)) x xs h"
    by (rule links_cong) (use assms in auto)
  moreover have "nxt h \<noteq> x" using assms by (cases xs) auto
  ultimately show ?thesis by simp
qed

lemma ring_find_links:
  "links nxt prv a xs NBUF \<Longrightarrow> NBUF \<notin> set xs \<Longrightarrow> ring_find nxt P (nxt a) = Some (find P xs)"
proof (induction xs arbitrary: a)
  case Nil
  then show ?case by (subst ring_find.simps) simp
next
  case (Cons x xs)
  then show ?case by (subst ring_find.simps) auto
qed

definition bring :: "kernel \<Rightarrow> nat list \<Rightarrow> bool" where
  "bring s xs \<longleftrightarrow>
     links (\<lambda>i. b_next (bufs s i)) (\<lambda>i. b_prev (bufs s i)) NBUF xs NBUF \<and> distinct xs \<and> set xs = {..<NBUF}"

section \<open>The invariant\<close>

text \<open>Buffer \<open>i\<close> is the one of block \<open>n\<close>.\<close>

definition buf_of :: "kernel \<Rightarrow> nat \<Rightarrow> u32 \<Rightarrow> bool" where
  "buf_of s i n \<longleftrightarrow> b_dev (bufs s i) = ROOTDEV \<and> b_blockno (bufs s i) = n"

text \<open>
  \<open>bci me s H P\<close>: process \<open>me\<close> is the only user of the cache and holds the buffers \<open>H\<close>; the blocks
  \<open>P\<close> are pinned by the log. Reference counts count just that; no block has two buffers; a buffer
  that is neither held nor pinned has the content of the disk.
\<close>

definition bci :: "nat \<Rightarrow> kernel \<Rightarrow> nat set \<Rightarrow> u32 set \<Rightarrow> bool" where
  "bci me s H P \<longleftrightarrow>
     (\<exists>xs. bring s xs) \<and> sched_ok s \<and>
     (\<forall>i<NBUF. \<forall>j<NBUF. \<forall>n. buf_of s i n \<longrightarrow> buf_of s j n \<longrightarrow> i = j) \<and>
     (\<forall>i\<in>H. i < NBUF \<and> b_dev (bufs s i) = ROOTDEV \<and> b_valid (bufs s i) \<noteq> 0 \<and>
        holdingsleep me (b_lock (bufs s i)) s) \<and>
     (\<forall>i<NBUF. i \<notin> H \<longrightarrow> sl_locked (b_lock (bufs s i)) = 0) \<and>
     (\<forall>i<NBUF. length (b_data (bufs s i)) = BSIZE) \<and> (\<forall>n. length (disk s n) = BSIZE) \<and>
     (\<forall>n\<in>P. \<exists>i<NBUF. buf_of s i n \<and> b_valid (bufs s i) \<noteq> 0) \<and>
     (\<forall>i<NBUF. b_refcnt (bufs s i) = of_bool (i \<in> H) + of_bool (\<exists>n\<in>P. buf_of s i n)) \<and>
     (\<forall>i<NBUF. \<forall>n. i \<notin> H \<longrightarrow> buf_of s i n \<longrightarrow> n \<notin> P \<longrightarrow> b_valid (bufs s i) \<noteq> 0 \<longrightarrow> b_data (bufs s i) = disk s n)"

lemma bciD:
  assumes "bci me s H P"
  shows "\<exists>xs. bring s xs" "sched_ok s"
    "i < NBUF \<Longrightarrow> j < NBUF \<Longrightarrow> buf_of s i n \<Longrightarrow> buf_of s j n \<Longrightarrow> i = j"
    "i \<in> H \<Longrightarrow> i < NBUF" "i \<in> H \<Longrightarrow> b_dev (bufs s i) = ROOTDEV" "i \<in> H \<Longrightarrow> b_valid (bufs s i) \<noteq> 0"
    "i \<in> H \<Longrightarrow> holdingsleep me (b_lock (bufs s i)) s"
    "i < NBUF \<Longrightarrow> i \<notin> H \<Longrightarrow> sl_locked (b_lock (bufs s i)) = 0"
    "i < NBUF \<Longrightarrow> length (b_data (bufs s i)) = BSIZE" "length (disk s n) = BSIZE"
    "n \<in> P \<Longrightarrow> \<exists>i<NBUF. buf_of s i n \<and> b_valid (bufs s i) \<noteq> 0"
    "i < NBUF \<Longrightarrow> b_refcnt (bufs s i) = of_bool (i \<in> H) + of_bool (\<exists>n\<in>P. buf_of s i n)"
    "i < NBUF \<Longrightarrow> i \<notin> H \<Longrightarrow> buf_of s i n \<Longrightarrow> n \<notin> P \<Longrightarrow> b_valid (bufs s i) \<noteq> 0 \<Longrightarrow> b_data (bufs s i) = disk s n"
  using assms unfolding bci_def by (elim conjE; (assumption | simp))+

text \<open>The content of a block, as the file system sees it.\<close>

definition blk :: "kernel \<Rightarrow> u32 \<Rightarrow> u8 list" where
  "blk s n =
     (case find (\<lambda>i. buf_of s i n \<and> b_valid (bufs s i) \<noteq> 0) [0..<NBUF] of
        Some i \<Rightarrow> b_data (bufs s i) | None \<Rightarrow> disk s n)"

lemma blk_cached:
  assumes "bci me s H P" "i < NBUF" "buf_of s i n" "b_valid (bufs s i) \<noteq> 0"
  shows "blk s n = b_data (bufs s i)"
proof -
  let ?Q = "\<lambda>i. buf_of s i n \<and> b_valid (bufs s i) \<noteq> 0"
  obtain j where j: "find ?Q [0..<NBUF] = Some j"
    using assms(2-4) by (cases "find ?Q [0..<NBUF]") (auto simp: find_None_iff)
  then have "j < NBUF" "?Q j" by (auto simp: find_Some_iff)
  then have "j = i" using bciD(3) [OF assms(1)] assms(2,3) by blast
  then show ?thesis using j by (simp add: blk_def)
qed

lemma blk_uncached:
  "(\<And>i. i < NBUF \<Longrightarrow> buf_of s i n \<Longrightarrow> b_valid (bufs s i) = 0) \<Longrightarrow> blk s n = disk s n"
  by (cases "find (\<lambda>i. buf_of s i n \<and> b_valid (bufs s i) \<noteq> 0) [0..<NBUF]")
    (auto simp: blk_def find_Some_iff)

lemma blk_cong:
  assumes "disk s' = disk s" "\<And>j. b_valid (bufs s' j) = b_valid (bufs s j)" "\<And>j. b_dev (bufs s' j) = b_dev (bufs s j)"
    "\<And>j. b_blockno (bufs s' j) = b_blockno (bufs s j)" "\<And>j. b_data (bufs s' j) = b_data (bufs s j)"
  shows "blk s' = blk s"
  by (simp add: fun_eq_iff blk_def buf_of_def assms split: option.split)

lemma length_blk: "bci me s H P \<Longrightarrow> length (blk s n) = BSIZE"
proof (cases "\<exists>i<NBUF. buf_of s i n \<and> b_valid (bufs s i) \<noteq> 0")
  case True
  then show "bci me s H P \<Longrightarrow> ?thesis" using bciD(9) blk_cached by metis
next
  case False
  then have "blk s n = disk s n" by (intro blk_uncached) auto
  then show "bci me s H P \<Longrightarrow> ?thesis" using bciD(10) by metis
qed

section \<open>Operations on the invariant\<close>

lemma bring_cong:
  "(\<And>j. b_next (bufs s' j) = b_next (bufs s j)) \<Longrightarrow> (\<And>j. b_prev (bufs s' j) = b_prev (bufs s j)) \<Longrightarrow>
   bring s' xs = bring s xs"
  by (simp add: bring_def)

text \<open>A change of one buffer that leaves the list alone.\<close>

lemma bci_upd_buf:
  assumes b: "bci me s H P" and i: "i < NBUF"
    and lst: "b_next (f (bufs s i)) = b_next (bufs s i)" "b_prev (f (bufs s i)) = b_prev (bufs s i)"
    and len: "length (b_data (f (bufs s i))) = BSIZE"
    and H: "H' - {i} = H - {i}"
    and uniq: "\<And>j. j < NBUF \<Longrightarrow> j \<noteq> i \<Longrightarrow> b_dev (f (bufs s i)) = ROOTDEV \<Longrightarrow> \<not> buf_of s j (b_blockno (f (bufs s i)))"
    and held: "i \<in> H' \<Longrightarrow> b_dev (f (bufs s i)) = ROOTDEV \<and> b_valid (f (bufs s i)) \<noteq> 0 \<and>
      holdingsleep me (b_lock (f (bufs s i))) s"
    and free: "i \<notin> H' \<Longrightarrow> sl_locked (b_lock (f (bufs s i))) = 0"
    and pin: "\<And>n. n \<in> P' \<Longrightarrow> (n \<in> P \<and> \<not> buf_of s i n) \<or>
      (b_dev (f (bufs s i)) = ROOTDEV \<and> b_blockno (f (bufs s i)) = n \<and> b_valid (f (bufs s i)) \<noteq> 0)"
    and pin': "\<And>n. n \<in> P \<Longrightarrow> \<not> buf_of s i n \<Longrightarrow> n \<in> P'"
    and ref: "b_refcnt (f (bufs s i)) =
      of_bool (i \<in> H') + of_bool (b_dev (f (bufs s i)) = ROOTDEV \<and> b_blockno (f (bufs s i)) \<in> P')"
    and clean: "i \<notin> H' \<Longrightarrow> b_dev (f (bufs s i)) = ROOTDEV \<Longrightarrow> b_valid (f (bufs s i)) \<noteq> 0 \<Longrightarrow>
      b_blockno (f (bufs s i)) \<notin> P' \<Longrightarrow> b_data (f (bufs s i)) = disk s (b_blockno (f (bufs s i)))"
  shows "bci me (upd_buf i f s) H' P'"
proof -
  let ?s = "upd_buf i f s" and ?b = "f (bufs s i)"
  note d = bciD [OF b]
  have of_i: "buf_of ?s i n \<longleftrightarrow> b_dev ?b = ROOTDEV \<and> b_blockno ?b = n" for n by (simp add: buf_of_def)
  have of_j: "buf_of ?s j n = buf_of s j n" if "j \<noteq> i" for j n using that by (simp add: buf_of_def)
  have Hj: "j \<in> H' \<longleftrightarrow> j \<in> H" if "j \<noteq> i" for j using H that by blast
  have Pj: "n \<in> P' \<longleftrightarrow> n \<in> P" if "j < NBUF" "j \<noteq> i" "buf_of s j n" for j n
  proof
    assume "n \<in> P'"
    then show "n \<in> P" using pin [of n] uniq [OF that(1,2)] that(3) by blast
  next
    assume "n \<in> P"
    moreover have "\<not> buf_of s i n" using d(3) [OF that(1) i that(3)] that(2) by blast
    ultimately show "n \<in> P'" by (rule pin')
  qed
  have hs: "holdingsleep me l ?s = holdingsleep me l s" for l by (simp add: holdingsleep_def)
  have "\<exists>xs. bring ?s xs" using d(1) bring_cong [of ?s s] lst by simp
  moreover have "sched_ok ?s" using d(2) sched_ok_cong [of ?s s] by simp
  moreover have "j = k" if "j < NBUF" "k < NBUF" "buf_of ?s j n" "buf_of ?s k n" for j k n
    using that uniq d(3) of_i of_j by (cases "j = i"; cases "k = i") auto
  moreover have "j < NBUF \<and> b_dev (bufs ?s j) = ROOTDEV \<and> b_valid (bufs ?s j) \<noteq> 0 \<and>
      holdingsleep me (b_lock (bufs ?s j)) ?s" if "j \<in> H'" for j
    using that held i d(4-7) [of j] Hj hs by (cases "j = i") auto
  moreover have "sl_locked (b_lock (bufs ?s j)) = 0" if "j < NBUF" "j \<notin> H'" for j
    using that free d(8) [of j] Hj by (cases "j = i") auto
  moreover have "length (b_data (bufs ?s j)) = BSIZE" if "j < NBUF" for j
    using that len d(9) [of j] by (cases "j = i") auto
  moreover have "length (disk ?s n) = BSIZE" for n using d(10) by simp
  moreover have "\<exists>j<NBUF. buf_of ?s j n \<and> b_valid (bufs ?s j) \<noteq> 0" if n: "n \<in> P'" for n
  proof (cases "buf_of ?s i n \<and> b_valid ?b \<noteq> 0")
    case True
    then show ?thesis using i by (intro exI [of _ i]) auto
  next
    case False
    then have "n \<in> P" "\<not> buf_of s i n" using pin [OF n] of_i by auto
    then obtain j where "j < NBUF" "buf_of s j n" "b_valid (bufs s j) \<noteq> 0" "j \<noteq> i" using d(11) by blast
    then show ?thesis using of_j by (intro exI [of _ j]) auto
  qed
  moreover have "b_refcnt (bufs ?s j) = of_bool (j \<in> H') + of_bool (\<exists>n\<in>P'. buf_of ?s j n)" if j: "j < NBUF" for j
  proof (cases "j = i")
    case True
    have "(\<exists>n\<in>P'. buf_of ?s i n) \<longleftrightarrow> b_dev ?b = ROOTDEV \<and> b_blockno ?b \<in> P'" using of_i by auto
    then show ?thesis using True ref by simp
  next
    case False
    then have "(\<exists>n\<in>P'. buf_of ?s j n) \<longleftrightarrow> (\<exists>n\<in>P. buf_of s j n)" using of_j Pj [OF j] by blast
    then show ?thesis using False d(12) [OF j] Hj by simp
  qed
  moreover have "b_data (bufs ?s j) = disk ?s n"
    if "j < NBUF" "j \<notin> H'" "buf_of ?s j n" "n \<notin> P'" "b_valid (bufs ?s j) \<noteq> 0" for j n
  proof (cases "j = i")
    case True
    then show ?thesis using that clean of_i by auto
  next
    case False
    then show ?thesis using that d(13) [of j n] Hj of_j Pj [of j n] by simp
  qed
  ultimately show ?thesis unfolding bci_def by blast
qed

lemma bci_free_buffer:
  assumes b: "bci me s H P" and f: "finite P" and c: "card H + card P < NBUF"
  shows "\<exists>i<NBUF. b_refcnt (bufs s i) = 0"
proof (rule ccontr)
  let ?K = "{i. i < NBUF \<and> (\<exists>n\<in>P. buf_of s i n)}"
  assume "\<not> ?thesis"
  then have "\<forall>i<NBUF. i \<in> H \<or> i \<in> ?K" using bciD(12) [OF b] by fastforce
  then have "{..<NBUF} \<subseteq> H \<union> ?K" by auto
  moreover have "finite H" using bciD(4) [OF b] by (meson finite_lessThan finite_subset lessThan_iff subsetI)
  moreover have k: "(\<lambda>i. b_blockno (bufs s i)) ` ?K \<subseteq> P" by (auto simp: buf_of_def)
  moreover have "inj_on (\<lambda>i. b_blockno (bufs s i)) ?K"
    by (rule inj_onI) (use bciD(3) [OF b] in \<open>auto simp: buf_of_def\<close>)
  then have "card ?K \<le> card P" using k f by (rule card_inj_on_le)
  ultimately have "NBUF \<le> card H + card P"
    using card_mono [of "H \<union> ?K" "{..<NBUF}"] card_Un_le [of H ?K] by simp
  then show False using c by simp
qed

lemma lock_buf_free:
  "sl_locked (b_lock (bufs s i)) = 0 \<Longrightarrow>
   lock_buf me i s = Ok (upd_buf i (\<lambda>b. b\<lparr>b_lock := (b_lock b)\<lparr>sl_locked := 1, sl_pid := p_pid (procs s me)\<rparr>\<rparr>) s)"
  by (simp add: lock_buf_def acquiresleep_def upd_buf_def)

lemma upd_buf_twice: "upd_buf i g (upd_buf i f s) = upd_buf i (g \<circ> f) s"
  by (simp add: upd_buf_def)

text \<open>The buffer \<^verbatim>\<open>bread\<close> returns, and the change it makes to it.\<close>

definition grab :: "nat \<Rightarrow> u32 \<Rightarrow> kernel \<Rightarrow> buf \<Rightarrow> buf" where
  "grab me n s b =
     (let lk = (b_lock b)\<lparr>sl_locked := 1, sl_pid := p_pid (procs s me)\<rparr> in
      if b_dev b = ROOTDEV \<and> b_blockno b = n
      then if b_valid b = 0 then b\<lparr>b_refcnt := b_refcnt b + 1, b_lock := lk, b_data := disk s n, b_valid := 1\<rparr>
           else b\<lparr>b_refcnt := b_refcnt b + 1, b_lock := lk\<rparr>
      else b\<lparr>b_dev := ROOTDEV, b_blockno := n, b_refcnt := 1, b_lock := lk, b_data := disk s n, b_valid := 1\<rparr>)"

lemma grab_simps [simp]:
  "b_next (grab me n s b) = b_next b" "b_prev (grab me n s b) = b_prev b"
  "b_dev (grab me n s b) = ROOTDEV" "b_blockno (grab me n s b) = n" "b_valid (grab me n s b) \<noteq> 0"
  "b_lock (grab me n s b) = (b_lock b)\<lparr>sl_locked := 1, sl_pid := p_pid (procs s me)\<rparr>"
  by (simp_all add: grab_def Let_def)

lemma bget_cached_find:
  "bring s xs \<Longrightarrow> bget_cached ROOTDEV n s = Some (find (\<lambda>i. buf_of s i n) xs)"
  unfolding bget_cached_def buf_of_def
  by (rule ring_find_links) (auto simp: bring_def)

lemma bget_lru_find:
  "bring s xs \<Longrightarrow> bget_lru s = Some (find (\<lambda>i. b_refcnt (bufs s i) = 0) (rev xs))"
  unfolding bget_lru_def
  by (rule ring_find_links [where prv = "\<lambda>i. b_next (bufs s i)"]) (auto simp: bring_def links_rev [symmetric])

text \<open>A buffer of the block, or one that may be recycled, and unlocked.\<close>

definition grabbable :: "kernel \<Rightarrow> u32 \<Rightarrow> nat \<Rightarrow> bool" where
  "grabbable s n i \<longleftrightarrow> i < NBUF \<and> sl_locked (b_lock (bufs s i)) = 0 \<and>
     (buf_of s i n \<or> (b_refcnt (bufs s i) = 0 \<and> (\<forall>j<NBUF. \<not> buf_of s j n)))"

lemma bread_grab:
  assumes b: "bci me s H P" "finite P" "card H + card P < NBUF" and n: "\<forall>i\<in>H. \<not> buf_of s i n"
  shows "\<exists>i. grabbable s n i \<and> bread me ROOTDEV n s = Ok (i, upd_buf i (grab me n s) s)"
proof -
  obtain xs where r: "bring s xs" using bciD(1) [OF b(1)] by blast
  then have xs: "set xs = {..<NBUF}" by (simp add: bring_def)
  show ?thesis
  proof (cases "find (\<lambda>i. buf_of s i n) xs")
    case (Some i)
    then have i: "i < NBUF" "buf_of s i n" using xs by (auto simp: find_Some_iff)
    then have l: "sl_locked (b_lock (bufs s i)) = 0" using bciD(8) [OF b(1)] n by blast
    have "bread me ROOTDEV n s = Ok (i, upd_buf i (grab me n s) s)"
      using i(2) l bget_cached_find [OF r, of n] Some
      by (auto simp: bread_def bget_def lock_buf_free virtio_disk_rw_def grab_def buf_of_def Let_def upd_buf_def)
    then show ?thesis using i l by (intro exI [of _ i]) (simp add: grabbable_def)
  next
    case None
    then have none: "\<forall>j<NBUF. \<not> buf_of s j n" using xs by (auto simp: find_None_iff)
    obtain k where "k < NBUF" "b_refcnt (bufs s k) = 0" using bci_free_buffer [OF b] by blast
    then obtain i where f: "find (\<lambda>i. b_refcnt (bufs s i) = 0) (rev xs) = Some i"
      using xs by (cases "find (\<lambda>i. b_refcnt (bufs s i) = 0) (rev xs)") (auto simp: find_None_iff)
    then have i: "i < NBUF" "b_refcnt (bufs s i) = 0"
      using xs by (auto simp: find_Some_iff) (metis lessThan_iff length_rev nth_mem set_rev)
    then have "i \<notin> H" using bciD(12) [OF b(1) i(1)] by (auto simp: of_bool_def split: if_splits)
    then have l: "sl_locked (b_lock (bufs s i)) = 0" using bciD(8) [OF b(1) i(1)] by blast
    have "bread me ROOTDEV n s = Ok (i, upd_buf i (grab me n s) s)"
    proof -
      have "bget_cached ROOTDEV n s = Some None" "bget_lru s = Some (Some i)"
        using bget_cached_find [OF r, of n] bget_lru_find [OF r] None f by simp_all
      moreover have "\<not> (b_dev (bufs s i) = ROOTDEV \<and> b_blockno (bufs s i) = n)"
        using none i(1) by (simp add: buf_of_def)
      then have "grab me n s (bufs s i) = (bufs s i)\<lparr>b_dev := ROOTDEV, b_blockno := n, b_refcnt := 1,
          b_lock := (b_lock (bufs s i))\<lparr>sl_locked := 1, sl_pid := p_pid (procs s me)\<rparr>,
          b_data := disk s n, b_valid := 1\<rparr>"
        unfolding grab_def Let_def by (rule if_not_P)
      ultimately show ?thesis using l
        by (simp add: bread_def bget_def lock_buf_free virtio_disk_rw_def Let_def upd_buf_def)
    qed
    then show ?thesis using i l none by (intro exI [of _ i]) (simp add: grabbable_def)
  qed
qed

lemma blk_upd_other:
  assumes "\<And>j. j < NBUF \<Longrightarrow> j \<noteq> i \<Longrightarrow> bufs s' j = bufs s j" "disk s' = disk s"
    "bci me s H P" "bci me s' H' P'" "\<not> buf_of s i n \<or> b_valid (bufs s i) = 0" "\<not> buf_of s' i n \<or> b_valid (bufs s' i) = 0"
  shows "blk s' n = blk s n"
proof (cases "\<exists>j<NBUF. buf_of s j n \<and> b_valid (bufs s j) \<noteq> 0")
  case True
  then obtain j where j: "j < NBUF" "buf_of s j n" "b_valid (bufs s j) \<noteq> 0" by blast
  then have "j \<noteq> i" using assms(5) by blast
  then have "bufs s' j = bufs s j" using assms(1) j by blast
  then show ?thesis using blk_cached [OF assms(3) j] blk_cached [OF assms(4) j(1), of n] j by (simp add: buf_of_def)
next
  case False
  then have "blk s n = disk s n" by (intro blk_uncached) auto
  moreover have "blk s' n = disk s' n"
  proof (rule blk_uncached)
    show "b_valid (bufs s' j) = 0" if "j < NBUF" "buf_of s' j n" for j
      using that False assms(1) [of j] assms(6) by (cases "j = i") (auto simp: buf_of_def)
  qed
  ultimately show ?thesis using assms(2) by simp
qed

lemma bread_ok:
  assumes b: "bci me s H P" "finite P" "card H + card P < NBUF" and n: "\<forall>i\<in>H. \<not> buf_of s i n"
  shows "\<exists>i s'. bread me ROOTDEV n s = Ok (i, s') \<and> i \<notin> H \<and> bci me s' (insert i H) P \<and> buf_of s' i n \<and>
    b_data (bufs s' i) = blk s n \<and> blk s' = blk s \<and> (\<forall>j. j \<noteq> i \<longrightarrow> bufs s' j = bufs s j) \<and>
    (\<exists>bs. s' = s\<lparr>bufs := bs\<rparr>)"
proof -
  obtain i where g: "grabbable s n i" and r: "bread me ROOTDEV n s = Ok (i, upd_buf i (grab me n s) s)"
    using bread_grab [OF assms] by blast
  let ?s = "upd_buf i (grab me n s) s"
  have i: "i < NBUF" and l: "sl_locked (b_lock (bufs s i)) = 0" using g by (simp_all add: grabbable_def)
  have H: "i \<notin> H" using bciD(7) [OF b(1), of i] l by (auto simp: holdingsleep_def)
  have ref: "b_refcnt (bufs s i) = of_bool (\<exists>m\<in>P. buf_of s i m)" using bciD(12) [OF b(1) i] H by simp
  have notP: "\<not> buf_of s i n \<Longrightarrow> m \<in> P \<Longrightarrow> \<not> buf_of s i m" for m
    using ref g by (auto simp: grabbable_def split: if_splits)
  have nP: "\<not> buf_of s i n \<Longrightarrow> n \<notin> P" using g bciD(11) [OF b(1), of n] by (auto simp: grabbable_def)
  have len: "length (b_data (grab me n s (bufs s i))) = BSIZE"
    using bciD(9,10) [OF b(1)] i by (auto simp: grab_def Let_def)
  have uniq: "\<not> buf_of s j n" if "j < NBUF" "j \<noteq> i" for j
    using g that bciD(3) [OF b(1) that(1) i] by (auto simp: grabbable_def)
  have c: "b_refcnt (grab me n s (bufs s i)) = 1 + of_bool (n \<in> P)"
  proof (cases "buf_of s i n")
    case True
    then have "(\<exists>m\<in>P. buf_of s i m) \<longleftrightarrow> n \<in> P" by (auto simp: buf_of_def)
    then show ?thesis using True ref by (simp add: grab_def Let_def buf_of_def)
  next
    case False
    then show ?thesis using nP by (auto simp: grab_def Let_def buf_of_def)
  qed
  have b': "bci me ?s (insert i H) P"
    by (rule bci_upd_buf [OF b(1) i]) (use len uniq c notP nP H in \<open>auto simp: holdingsleep_def buf_of_def\<close>)
  have of_i: "buf_of ?s i n" by (simp add: buf_of_def)
  have data: "b_data (bufs ?s i) = blk s n"
  proof (cases "buf_of s i n \<and> b_valid (bufs s i) \<noteq> 0")
    case True
    then show ?thesis using blk_cached [OF b(1) i] by (auto simp: grab_def Let_def buf_of_def)
  next
    case False
    then have "blk s n = disk s n"
    proof (intro blk_uncached)
      show "b_valid (bufs s j) = 0" if "j < NBUF" "buf_of s j n" for j
        using that False uniq by blast
    qed
    then show ?thesis using False by (auto simp: grab_def Let_def buf_of_def)
  qed
  have "blk ?s m = blk s m" for m
  proof (cases "m = n")
    case True
    then show ?thesis using blk_cached [OF b' i of_i] data by simp
  next
    case False
    show ?thesis
    proof (cases "buf_of s i m \<and> b_valid (bufs s i) \<noteq> 0")
      case True
      then have nn: "\<not> buf_of s i n" using False by (auto simp: buf_of_def)
      then have "m \<notin> P" using True notP by blast
      then have "b_data (bufs s i) = disk s m" using bciD(13) [OF b(1) i H] True by blast
      then have "blk s m = disk s m" using blk_cached [OF b(1) i] True by auto
      moreover have "blk ?s m = disk ?s m"
      proof (rule blk_uncached)
        show "b_valid (bufs ?s j) = 0" if "j < NBUF" "buf_of ?s j m" for j
          using that True False bciD(3) [OF b(1) that(1) i] by (cases "j = i") (auto simp: buf_of_def)
      qed
      ultimately show ?thesis by simp
    next
      case 2: False
      show ?thesis by (rule blk_upd_other [OF _ _ b(1) b']) (use 2 False in \<open>auto simp: buf_of_def\<close>)
    qed
  qed
  then have "blk ?s = blk s" by blast
  then show ?thesis using r H b' of_i data
    by (intro exI [of _ i] exI [of _ ?s]) (auto simp: upd_buf_def)
qed

text \<open>Moving a buffer to the front of the list changes nothing but the list.\<close>

definition relinked :: "kernel \<Rightarrow> kernel \<Rightarrow> bool" where
  "relinked s s' \<longleftrightarrow> (\<exists>bs. s' = s\<lparr>bufs := bs\<rparr>) \<and>
     (\<forall>j. b_valid (bufs s' j) = b_valid (bufs s j) \<and> b_dev (bufs s' j) = b_dev (bufs s j) \<and>
       b_blockno (bufs s' j) = b_blockno (bufs s j) \<and> b_lock (bufs s' j) = b_lock (bufs s j) \<and>
       b_refcnt (bufs s' j) = b_refcnt (bufs s j) \<and> b_data (bufs s' j) = b_data (bufs s j))"

lemma relinkedD:
  assumes "relinked s s'"
  shows "b_valid (bufs s' j) = b_valid (bufs s j)" "b_dev (bufs s' j) = b_dev (bufs s j)"
    "b_blockno (bufs s' j) = b_blockno (bufs s j)" "b_lock (bufs s' j) = b_lock (bufs s j)"
    "b_refcnt (bufs s' j) = b_refcnt (bufs s j)" "b_data (bufs s' j) = b_data (bufs s j)"
    "\<exists>bs. s' = s\<lparr>bufs := bs\<rparr>"
  using assms by (simp_all add: relinked_def)

lemma relinked_refl [simp]: "relinked s s"
  unfolding relinked_def by (rule conjI, rule exI [of _ "bufs s"]) simp_all

lemma relinked_trans: "relinked s t \<Longrightarrow> relinked t u \<Longrightarrow> relinked s u"
  unfolding relinked_def by auto

lemma relinked_upd_prev: "relinked s (upd_buf i (\<lambda>b. b\<lparr>b_prev := p\<rparr>) s)"
  by (auto simp: relinked_def upd_buf_def)

lemma relinked_upd_next: "relinked s (upd_buf i (\<lambda>b. b\<lparr>b_next := p\<rparr>) s)"
  by (auto simp: relinked_def upd_buf_def)

lemma relinked_push_front: "relinked s (push_front i s)"
  unfolding push_front_def Let_def
  by (rule relinked_trans [OF relinked_trans [OF relinked_trans [OF relinked_upd_next relinked_upd_prev]
        relinked_upd_prev] relinked_upd_next])

lemma relinked_unlink: "relinked s (unlink_buf i s)"
  unfolding unlink_buf_def Let_def by (rule relinked_trans [OF relinked_upd_prev relinked_upd_next])

lemma relinked_buf_of: assumes "relinked s s'" shows "buf_of s' = buf_of s"
  by (simp add: fun_eq_iff buf_of_def relinkedD(2,3) [OF assms])

lemma relinked_blk: assumes "relinked s s'" shows "blk s' = blk s"
proof (rule blk_cong)
  show "disk s' = disk s" using relinkedD(7) [OF assms] by auto
qed (rule relinkedD [OF assms])+

lemma bci_relinked:
  assumes "bci me s H P" "relinked s s'" "bring s' xs" shows "bci me s' H P"
proof -
  obtain bs where s': "s' = s\<lparr>bufs := bs\<rparr>" using relinkedD(7) [OF assms(2)] by blast
  have "sched_ok s' = sched_ok s" by (rule sched_ok_cong) (simp_all add: s')
  moreover have "holdingsleep me l s' = holdingsleep me l s" for l by (simp add: holdingsleep_def s')
  moreover have "disk s' = disk s" by (simp add: s')
  moreover have "(\<exists>xs. bring s' xs) \<longleftrightarrow> (\<exists>xs. bring s xs)" using assms(3) bciD(1) [OF assms(1)] by blast
  ultimately show ?thesis
    using assms(1) unfolding bci_def
    by (simp add: relinkedD(1-6) [OF assms(2)] relinked_buf_of [OF assms(2)])
qed

lemma push_front_links:
  assumes "i \<noteq> NBUF"
  shows "(\<lambda>j. b_next (bufs (push_front i s) j)) =
      (\<lambda>j. b_next (bufs s j))(i := b_next (bufs s NBUF), NBUF := i)"
    "(\<lambda>j. b_prev (bufs (push_front i s) j)) =
      (\<lambda>j. b_prev (bufs s j))(i := NBUF, b_next (bufs s NBUF) := i)"
  using assms by (auto simp: push_front_def Let_def fun_eq_iff)

lemma unlink_links:
  assumes "b_next (bufs s i) \<noteq> i"
  shows "(\<lambda>j. b_next (bufs (unlink_buf i s) j)) =
      (\<lambda>j. b_next (bufs s j))(b_prev (bufs s i) := b_next (bufs s i))"
    "(\<lambda>j. b_prev (bufs (unlink_buf i s) j)) =
      (\<lambda>j. b_prev (bufs s j))(b_next (bufs s i) := b_prev (bufs s i))"
  using assms by (auto simp: unlink_buf_def Let_def fun_eq_iff)

lemma bring_move_front:
  assumes "bring s xs" "i < NBUF"
  shows "\<exists>ys. bring (push_front i (unlink_buf i s)) (i # ys) \<and> ys = remove1 i xs"
proof -
  have d: "distinct xs" "set xs = {..<NBUF}" and l: "links (\<lambda>i. b_next (bufs s i)) (\<lambda>i. b_prev (bufs s i)) NBUF xs NBUF"
    using assms(1) by (simp_all add: bring_def)
  obtain as bs where xs: "xs = as @ i # bs" using assms(2) d(2) by (metis lessThan_iff split_list)
  have N: "NBUF \<notin> set xs" using d by simp
  have "links (\<lambda>i. b_next (bufs s i)) (\<lambda>i. b_prev (bufs s i)) i bs NBUF" using l by (simp add: xs links_append)
  then have "b_next (bufs s i) \<noteq> i" using d N xs by (cases bs) auto
  note u = unlink_links [OF this]
  have "links (\<lambda>j. b_next (bufs (unlink_buf i s) j)) (\<lambda>j. b_prev (bufs (unlink_buf i s) j)) NBUF (as @ bs) NBUF"
    unfolding u by (rule links_unlink) (use l d N xs in auto)
  note p = links_push [OF this, of i]
  have "i \<noteq> NBUF" using assms(2) by simp
  note q = push_front_links [OF this, of "unlink_buf i s"]
  have "links (\<lambda>j. b_next (bufs (push_front i (unlink_buf i s)) j))
      (\<lambda>j. b_prev (bufs (push_front i (unlink_buf i s)) j)) NBUF (i # as @ bs) NBUF"
    unfolding q by (rule p) (use assms(2) d N xs in auto)
  moreover have "remove1 i xs = as @ bs" using d xs by (simp add: remove1_append)
  moreover have "distinct (i # as @ bs)" "set (i # as @ bs) = {..<NBUF}" using d xs by auto
  ultimately show ?thesis unfolding bring_def by auto
qed

lemma bci_woke: "bci me s H P \<Longrightarrow> woke s s' \<Longrightarrow> bci me s' H P"
proof -
  assume b: "bci me s H P" and w: "woke s s'"
  have "buf_of s' = buf_of s" by (simp add: fun_eq_iff buf_of_def woke_simps(4) [OF w])
  moreover have "bring s' = bring s" by (simp add: fun_eq_iff bring_def woke_simps(4) [OF w])
  moreover have "sched_ok s'" using w by (simp add: woke_def)
  ultimately show "bci me s' H P"
    using b unfolding bci_def by (simp add: holdingsleep_def woke_simps(2,4,16) [OF w])
qed

lemma blk_woke: assumes "woke s s'" shows "blk s' = blk s"
  by (rule blk_cong) (simp_all add: woke_simps(2,4) [OF assms])

text \<open>What the cache operations may change besides the cache: scheduling states and wait queues.\<close>

definition cframe :: "kernel \<Rightarrow> kernel \<Rightarrow> bool" where
  "cframe s s' \<longleftrightarrow>
     (\<exists>bf ps bs. s' = s\<lparr>bufs := bf, procs := ps, buckets := bs\<rparr> \<and>
       (\<forall>j. \<exists>st e. ps j = (procs s j)\<lparr>p_state := st, p_wq_entry := e\<rparr>))"

lemma proc_keep: "\<exists>st e. p = p\<lparr>p_state := st, p_wq_entry := e\<rparr>"
  by (rule exI [of _ "p_state p"], rule exI [of _ "p_wq_entry p"]) simp

lemma cframe_bufs: "cframe s (s\<lparr>bufs := bf\<rparr>)"
  unfolding cframe_def
  by (rule exI [of _ bf], rule exI [of _ "procs s"], rule exI [of _ "buckets s"]) (simp add: proc_keep)

lemma cframe_trans:
  assumes "cframe s t" "cframe t u" shows "cframe s u"
proof -
  obtain bf ps bs where t: "t = s\<lparr>bufs := bf, procs := ps, buckets := bs\<rparr>"
      and p: "\<forall>j. \<exists>st e. ps j = (procs s j)\<lparr>p_state := st, p_wq_entry := e\<rparr>"
    using assms(1) unfolding cframe_def by blast
  obtain bf' ps' bs' where u: "u = t\<lparr>bufs := bf', procs := ps', buckets := bs'\<rparr>"
      and q: "\<forall>j. \<exists>st e. ps' j = (procs t j)\<lparr>p_state := st, p_wq_entry := e\<rparr>"
    using assms(2) unfolding cframe_def by blast
  have "\<exists>st e. ps' j = (procs s j)\<lparr>p_state := st, p_wq_entry := e\<rparr>" for j
  proof -
    obtain st e st' e' where "ps j = (procs s j)\<lparr>p_state := st, p_wq_entry := e\<rparr>"
        "ps' j = (procs t j)\<lparr>p_state := st', p_wq_entry := e'\<rparr>" using p q by meson
    then have "ps' j = (procs s j)\<lparr>p_state := st', p_wq_entry := e'\<rparr>" by (simp add: t)
    then show ?thesis by blast
  qed
  then show ?thesis unfolding cframe_def
    by (intro exI [of _ bf'] exI [of _ ps'] exI [of _ bs']) (simp add: u t)
qed

lemma cframe_woke: "woke s s' \<Longrightarrow> cframe s s'"
  unfolding woke_def cframe_def
  by (elim conjE exE) (rule_tac x = "bufs s" in exI, rule_tac x = ps in exI, rule_tac x = bs in exI, simp)

lemma cframe_upd_buf: "cframe s (upd_buf i f s)"
  unfolding upd_buf_def by (rule cframe_bufs)

lemma cframe_relinked: "relinked s s' \<Longrightarrow> cframe s s'"
  unfolding relinked_def using cframe_bufs by auto

lemma cframeD:
  assumes "cframe s s'"
  shows "syms s' = syms s" "disk s' = disk s" "dtrace s' = dtrace s"
    "klog s' = klog s" "sb s' = sb s" "itable s' = itable s" "ftable s' = ftable s" "pipes s' = pipes s"
    "mem s' = mem s" "freelist s' = freelist s" "kend s' = kend s" "uart_out s' = uart_out s" "panicked s' = panicked s"
    "p_pid (procs s' j) = p_pid (procs s j)" "p_pagetable (procs s' j) = p_pagetable (procs s j)"
    "p_sz (procs s' j) = p_sz (procs s j)" "p_cwd (procs s' j) = p_cwd (procs s j)"
    "p_ofile (procs s' j) = p_ofile (procs s j)"
proof -
  obtain bf ps bs st e where s': "s' = s\<lparr>bufs := bf, procs := ps, buckets := bs\<rparr>"
      and j: "ps j = (procs s j)\<lparr>p_state := st, p_wq_entry := e\<rparr>"
    using assms unfolding cframe_def by blast
  show "syms s' = syms s" "disk s' = disk s" "dtrace s' = dtrace s"
    "klog s' = klog s" "sb s' = sb s" "itable s' = itable s" "ftable s' = ftable s" "pipes s' = pipes s"
    "mem s' = mem s" "freelist s' = freelist s" "kend s' = kend s" "uart_out s' = uart_out s" "panicked s' = panicked s"
    "p_pid (procs s' j) = p_pid (procs s j)" "p_pagetable (procs s' j) = p_pagetable (procs s j)"
    "p_sz (procs s' j) = p_sz (procs s j)" "p_cwd (procs s' j) = p_cwd (procs s j)"
    "p_ofile (procs s' j) = p_ofile (procs s j)"
    by (simp_all add: s' j)
qed

text \<open>\<open>same_content s s' j\<close>: buffer \<open>j\<close> still belongs to the same block and has the same data.\<close>

definition same_content :: "kernel \<Rightarrow> kernel \<Rightarrow> nat \<Rightarrow> bool" where
  "same_content s s' j \<longleftrightarrow> b_dev (bufs s' j) = b_dev (bufs s j) \<and>
     b_blockno (bufs s' j) = b_blockno (bufs s j) \<and> b_data (bufs s' j) = b_data (bufs s j)"

lemma brelse_ok:
  assumes b: "bci me s H P" and i: "i \<in> H"
    and c: "b_blockno (bufs s i) \<in> P \<or> b_data (bufs s i) = disk s (b_blockno (bufs s i))"
  shows "\<exists>s'. brelse me i s = Ok s' \<and> bci me s' (H - {i}) P \<and> blk s' = blk s \<and> cframe s s' \<and>
    (\<forall>j. same_content s s' j)"
proof -
  note d = bciD [OF b]
  have iN: "i < NBUF" using d(4) i by blast
  obtain t where t: "wakeup (a_buflock (syms s) i) s = Some t" "woke s t" using wakeup_woke [OF d(2)] by blast
  define f where "f = (\<lambda>b :: buf. b\<lparr>b_lock := (b_lock (bufs s i))\<lparr>sl_locked := 0, sl_pid := 0\<rparr>,
    b_refcnt := b_refcnt b - 1\<rparr>)"
  let ?u = "upd_buf i f t"
  have bt: "bufs t = bufs s" "disk t = disk s" using woke_simps(2,4) [OF t(2)] by simp_all
  have bci_t: "bci me t H P" using bci_woke [OF b t(2)] .
  have of_t: "buf_of t = buf_of s" by (simp add: fun_eq_iff buf_of_def bt)
  have "(\<exists>n\<in>P. buf_of s i n) \<longleftrightarrow> b_blockno (bufs s i) \<in> P" using d(5) [OF i] by (auto simp: buf_of_def)
  then have ref: "b_refcnt (f (bufs t i)) = of_bool (b_blockno (bufs s i) \<in> P)"
    using d(12) [OF iN] i by (simp add: f_def bt)
  have u: "bci me ?u (H - {i}) P"
  proof (rule bci_upd_buf [OF bci_t iN])
    show "\<not> buf_of t j (b_blockno (f (bufs t i)))" if "j < NBUF" "j \<noteq> i" for j
      using d(3) [OF that(1) iN, of "b_blockno (bufs s i)"] that(2) d(5) [OF i]
      by (auto simp: buf_of_def of_t bt f_def)
  qed (use ref c d(5,6) [OF i] d(9) [OF iN] d(11) in \<open>auto simp: f_def bt of_t buf_of_def\<close>)
  have blk_u: "blk ?u = blk s" by (rule blk_cong) (simp_all add: bt f_def)
  define s' where "s' = (if b_refcnt (bufs ?u i) = 0 then push_front i (unlink_buf i ?u) else ?u)"
  have rel: "relinked ?u s'"
    using relinked_trans [OF relinked_unlink relinked_push_front] by (simp add: s'_def)
  have "\<exists>xs. bring s' xs"
    using bciD(1) [OF u] bring_move_front iN unfolding s'_def by (auto split: if_splits)
  then have "bci me s' (H - {i}) P" using bci_relinked [OF u rel] by blast
  moreover have "blk s' = blk s" using relinked_blk [OF rel] blk_u by simp
  moreover have "cframe s s'"
    using cframe_trans [OF cframe_trans [OF cframe_woke [OF t(2)] cframe_upd_buf] cframe_relinked [OF rel]] .
  moreover have "same_content s s' j" for j
    using relinkedD(2,3,6) [OF rel, of j] by (auto simp: same_content_def f_def bt)
  moreover have "brelse me i s = Ok s'"
    using d(7) [OF i] t(1)
    by (simp add: brelse_def unlock_buf_def releasesleep_def Let_def s'_def f_def upd_buf_twice o_def)
  ultimately show ?thesis by blast
qed

lemma bwrite_ok:
  assumes b: "bci me s H P" and i: "i \<in> H"
  defines "n \<equiv> b_blockno (bufs s i)"
  shows "\<exists>s'. bwrite me i s = Ok s' \<and> bci me s' H P \<and> blk s' = blk s \<and> bufs s' = bufs s \<and>
    s' = s\<lparr>disk := (disk s)(n := b_data (bufs s i)), dtrace := dtrace s @ [(n, b_data (bufs s i))]\<rparr>"
proof -
  note d = bciD [OF b]
  let ?s = "s\<lparr>disk := (disk s)(n := b_data (bufs s i)), dtrace := dtrace s @ [(n, b_data (bufs s i))]\<rparr>"
  have iN: "i < NBUF" using d(4) i by blast
  have of: "buf_of ?s = buf_of s" by (simp add: fun_eq_iff buf_of_def)
  have ii: "buf_of s i n" using d(5) [OF i] by (simp add: buf_of_def n_def)
  have only: "j = i" if "j < NBUF" "buf_of s j n" for j using d(3) [OF that(1) iN that(2) ii] .
  have "bring ?s = bring s" by (simp add: fun_eq_iff bring_def)
  moreover have "sched_ok ?s = sched_ok s" by (rule sched_ok_cong) simp_all
  moreover have "b_data (bufs s j) = disk ?s m"
    if "j < NBUF" "j \<notin> H" "buf_of s j m" "m \<notin> P" "b_valid (bufs s j) \<noteq> 0" for j m
    using d(13) [OF that(1,2,3,4,5)] only that(1,2,3) i by (auto simp: buf_of_def)
  ultimately have b': "bci me ?s H P"
    using b d(9) [OF iN] unfolding bci_def of by (simp add: holdingsleep_def)
  have "blk ?s m = blk s m" for m
  proof (cases "m = n")
    case True
    then show ?thesis using blk_cached [OF b iN ii d(6) [OF i]] blk_cached [OF b' iN, of n] ii d(6) [OF i] of by simp
  next
    case False
    then show ?thesis by (simp add: blk_def of split: option.split)
  qed
  then show ?thesis using b' d(7) [OF i]
    by (intro exI [of _ ?s]) (auto simp: bwrite_def virtio_disk_rw_def n_def Let_def)
qed

text \<open>Changing the data of a held buffer changes the content of its block.\<close>

definition set_data :: "nat \<Rightarrow> u8 list \<Rightarrow> kernel \<Rightarrow> kernel" where
  "set_data i xs s = upd_buf i (\<lambda>b. b\<lparr>b_data := xs\<rparr>) s"

lemma set_data_ok:
  assumes b: "bci me s H P" and i: "i \<in> H" and l: "length xs = BSIZE"
  shows "bci me (set_data i xs s) H P" "blk (set_data i xs s) = (blk s)(b_blockno (bufs s i) := xs)"
    "cframe s (set_data i xs s)"
proof -
  note d = bciD [OF b]
  have iN: "i < NBUF" using d(4) i by blast
  let ?s = "set_data i xs s" and ?n = "b_blockno (bufs s i)"
  have of: "buf_of ?s = buf_of s" by (auto simp: fun_eq_iff buf_of_def set_data_def)
  have ii: "buf_of s i ?n" using d(5) [OF i] by (simp add: buf_of_def)
  have "(\<exists>n\<in>P. buf_of s i n) \<longleftrightarrow> ?n \<in> P" using d(5) [OF i] by (auto simp: buf_of_def)
  then have ref: "b_refcnt (bufs s i) = 1 + of_bool (?n \<in> P)" using d(12) [OF iN] i by simp
  show b': "bci me ?s H P" unfolding set_data_def
  proof (rule bci_upd_buf [OF b iN])
    show "\<not> buf_of s j (b_blockno ((bufs s i)\<lparr>b_data := xs\<rparr>))" if "j < NBUF" "j \<noteq> i" for j
      using d(3) [OF that(1) iN _ ii] that(2) by (auto simp: buf_of_def)
  qed (use ref i l d(5-7) [OF i] in \<open>auto simp: buf_of_def\<close>)
  show "blk ?s = (blk s)(?n := xs)"
  proof
    fix m
    show "blk ?s m = ((blk s)(?n := xs)) m"
    proof (cases "m = ?n")
      case True
      have "blk ?s ?n = b_data (bufs ?s i)"
        by (rule blk_cached [OF b' iN]) (use ii d(6) [OF i] of in \<open>auto simp: set_data_def\<close>)
      then show ?thesis using True by (simp add: set_data_def)
    next
      case False
      have "blk ?s m = blk s m"
      proof (cases "\<exists>j<NBUF. buf_of s j m \<and> b_valid (bufs s j) \<noteq> 0")
        case True
        then obtain j where j: "j < NBUF" "buf_of s j m" "b_valid (bufs s j) \<noteq> 0" by blast
        then have "j \<noteq> i" using False by (auto simp: buf_of_def)
        then show ?thesis using blk_cached [OF b j] blk_cached [OF b' j(1), of m] j of by (simp add: set_data_def)
      next
        case none: False
        have "blk ?s m = disk ?s m"
        proof (rule blk_uncached)
          show "b_valid (bufs ?s j) = 0" if "j < NBUF" "buf_of ?s j m" for j
            using that none of by (auto simp: set_data_def)
        qed
        moreover have "blk s m = disk s m" by (rule blk_uncached) (use none in auto)
        ultimately show ?thesis by (simp add: set_data_def)
      qed
      then show ?thesis using False by simp
    qed
  qed
  show "cframe s ?s" unfolding set_data_def by (rule cframe_upd_buf)
qed

lemma buf_pinned:
  "bci me s H P \<Longrightarrow> i \<in> H \<Longrightarrow> (\<exists>n\<in>P. buf_of s i n) \<longleftrightarrow> b_blockno (bufs s i) \<in> P"
  using bciD(5) [of me s H P i] by (auto simp: buf_of_def)

lemma bpin_ok:
  assumes b: "bci me s H P" and i: "i \<in> H" and n: "b_blockno (bufs s i) \<notin> P"
  shows "bci me (bpin i s) H (insert (b_blockno (bufs s i)) P)" "blk (bpin i s) = blk s" "cframe s (bpin i s)"
    "same_content s (bpin i s) j"
proof -
  note d = bciD [OF b]
  have iN: "i < NBUF" using d(4) i by blast
  have ref: "b_refcnt (bufs s i) = 1" using d(12) [OF iN] i buf_pinned [OF b i] n by simp
  show "bci me (bpin i s) H (insert (b_blockno (bufs s i)) P)" unfolding bpin_def
  proof (rule bci_upd_buf [OF b iN])
    show "\<not> buf_of s j (b_blockno ((bufs s i)\<lparr>b_refcnt := b_refcnt (bufs s i) + 1\<rparr>))" if "j < NBUF" "j \<noteq> i" for j
      using d(3) [OF that(1) iN, of "b_blockno (bufs s i)"] that(2) d(5) [OF i] by (auto simp: buf_of_def)
  qed (use ref i n d(5-7) [OF i] d(9) [OF iN] in \<open>auto simp: buf_of_def\<close>)
  show "blk (bpin i s) = blk s" by (rule blk_cong) (simp_all add: bpin_def)
  show "cframe s (bpin i s)" unfolding bpin_def by (rule cframe_upd_buf)
  show "same_content s (bpin i s) j" by (simp add: same_content_def bpin_def)
qed

lemma bunpin_ok:
  assumes b: "bci me s H P" and i: "i \<in> H" and n: "b_blockno (bufs s i) \<in> P"
  shows "bci me (bunpin i s) H (P - {b_blockno (bufs s i)})" "blk (bunpin i s) = blk s" "cframe s (bunpin i s)"
    "same_content s (bunpin i s) j"
proof -
  note d = bciD [OF b]
  have iN: "i < NBUF" using d(4) i by blast
  have ref: "b_refcnt (bufs s i) = 2" using d(12) [OF iN] i buf_pinned [OF b i] n by simp
  show "bci me (bunpin i s) H (P - {b_blockno (bufs s i)})" unfolding bunpin_def
  proof (rule bci_upd_buf [OF b iN])
    show "\<not> buf_of s j (b_blockno ((bufs s i)\<lparr>b_refcnt := b_refcnt (bufs s i) - 1\<rparr>))" if "j < NBUF" "j \<noteq> i" for j
      using d(3) [OF that(1) iN, of "b_blockno (bufs s i)"] that(2) d(5) [OF i] by (auto simp: buf_of_def)
  qed (use ref i n d(5-7) [OF i] d(9) [OF iN] in \<open>auto simp: buf_of_def\<close>)
  show "blk (bunpin i s) = blk s" by (rule blk_cong) (simp_all add: bunpin_def)
  show "cframe s (bunpin i s)" unfolding bunpin_def by (rule cframe_upd_buf)
  show "same_content s (bunpin i s) j" by (simp add: same_content_def bunpin_def)
qed

section \<open>Initialisation\<close>

definition binit_step :: "nat \<Rightarrow> kernel \<Rightarrow> kernel" where
  "binit_step i s = upd_buf i (\<lambda>b. b\<lparr>b_lock := initsleeplock ''buffer''\<rparr>) (push_front i s)"

lemma binit_fold:
  defines "s0 \<equiv> (\<lambda>s. upd_buf NBUF (\<lambda>b. b\<lparr>b_prev := NBUF, b_next := NBUF\<rparr>) s)"
  assumes "k \<le> NBUF"
  shows "let t = fold binit_step [0..<k] (s0 s) in
    links (\<lambda>i. b_next (bufs t i)) (\<lambda>i. b_prev (bufs t i)) NBUF (rev [0..<k]) NBUF \<and>
    (\<exists>bf. t = s\<lparr>bufs := bf\<rparr>) \<and>
    (\<forall>j. j \<noteq> NBUF \<longrightarrow> b_valid (bufs t j) = b_valid (bufs s j) \<and> b_dev (bufs t j) = b_dev (bufs s j) \<and>
      b_blockno (bufs t j) = b_blockno (bufs s j) \<and> b_refcnt (bufs t j) = b_refcnt (bufs s j) \<and>
      b_data (bufs t j) = b_data (bufs s j) \<and> (j < k \<longrightarrow> sl_locked (b_lock (bufs t j)) = 0))"
  using assms(2)
proof (induction k)
  case 0
  have "\<exists>bf. s0 s = s\<lparr>bufs := bf\<rparr>" unfolding s0_def upd_buf_def by blast
  then show ?case by (simp add: s0_def Let_def)
next
  case (Suc k)
  define t where "t = fold binit_step [0..<k] (s0 s)"
  have k: "k < NBUF" "k \<noteq> NBUF" using Suc.prems by simp_all
  have IH: "links (\<lambda>i. b_next (bufs t i)) (\<lambda>i. b_prev (bufs t i)) NBUF (rev [0..<k]) NBUF"
      "\<exists>bf. t = s\<lparr>bufs := bf\<rparr>"
      "\<forall>j. j \<noteq> NBUF \<longrightarrow> b_valid (bufs t j) = b_valid (bufs s j) \<and> b_dev (bufs t j) = b_dev (bufs s j) \<and>
        b_blockno (bufs t j) = b_blockno (bufs s j) \<and> b_refcnt (bufs t j) = b_refcnt (bufs s j) \<and>
        b_data (bufs t j) = b_data (bufs s j) \<and> (j < k \<longrightarrow> sl_locked (b_lock (bufs t j)) = 0)"
    using Suc unfolding t_def Let_def by simp_all
  let ?u = "binit_step k t"
  have e: "fold binit_step [0..<Suc k] (s0 s) = ?u" by (simp add: t_def)
  have r: "relinked t (push_front k t)" by (rule relinked_push_front)
  have "links (\<lambda>j. b_next (bufs (push_front k t) j)) (\<lambda>j. b_prev (bufs (push_front k t) j)) NBUF (k # rev [0..<k]) NBUF"
    unfolding push_front_links [OF k(2)] by (rule links_push [OF IH(1)]) (use k in auto)
  moreover have "(\<lambda>j. b_next (bufs ?u j)) = (\<lambda>j. b_next (bufs (push_front k t) j))"
      "(\<lambda>j. b_prev (bufs ?u j)) = (\<lambda>j. b_prev (bufs (push_front k t) j))"
    by (auto simp: binit_step_def fun_eq_iff)
  moreover have "rev [0..<Suc k] = k # rev [0..<k]" by simp
  ultimately have "links (\<lambda>j. b_next (bufs ?u j)) (\<lambda>j. b_prev (bufs ?u j)) NBUF (rev [0..<Suc k]) NBUF"
    by (simp only:)
  moreover have "\<exists>bf. ?u = s\<lparr>bufs := bf\<rparr>"
    using IH(2) relinkedD(7) [OF r] by (auto simp: binit_step_def upd_buf_def)
  moreover have "j \<noteq> NBUF \<longrightarrow> b_valid (bufs ?u j) = b_valid (bufs s j) \<and> b_dev (bufs ?u j) = b_dev (bufs s j) \<and>
      b_blockno (bufs ?u j) = b_blockno (bufs s j) \<and> b_refcnt (bufs ?u j) = b_refcnt (bufs s j) \<and>
      b_data (bufs ?u j) = b_data (bufs s j) \<and> (j < Suc k \<longrightarrow> sl_locked (b_lock (bufs ?u j)) = 0)" for j
    using IH(3) relinkedD(1-6) [OF r, of j] by (auto simp: binit_step_def initsleeplock_def less_Suc_eq)
  ultimately show ?case unfolding e Let_def by blast
qed

lemma binit_bci:
  assumes "\<And>i. i < NBUF \<Longrightarrow> b_dev (bufs s i) = 0 \<and> b_refcnt (bufs s i) = 0 \<and> length (b_data (bufs s i)) = BSIZE"
    "\<And>n. length (disk s n) = BSIZE" "sched_ok s"
  shows "bci me (binit s) {} {}" "\<exists>bf. binit s = s\<lparr>bufs := bf\<rparr>" "blk (binit s) = disk s"
proof -
  define t where "t = binit s"
  have e: "t = fold binit_step [0..<NBUF] (upd_buf NBUF (\<lambda>b. b\<lparr>b_prev := NBUF, b_next := NBUF\<rparr>) s)"
    by (simp add: t_def binit_def binit_step_def [abs_def])
  note f = binit_fold [of NBUF s, folded e, unfolded Let_def, simplified]
  have l: "links (\<lambda>i. b_next (bufs t i)) (\<lambda>i. b_prev (bufs t i)) NBUF (rev [0..<NBUF]) NBUF" using f by blast
  obtain bf where t: "t = s\<lparr>bufs := bf\<rparr>" using f by blast
  have "bring t (rev [0..<NBUF])" using l by (auto simp: bring_def)
  moreover have "sched_ok t" using assms(3) sched_ok_cong [of t s] by (simp add: t)
  moreover have dev: "b_dev (bufs t i) \<noteq> ROOTDEV" if "i < NBUF" for i
    using f assms(1) [OF that] that by (auto simp: ROOTDEV_def)
  ultimately have "bci me t {} {}" using f assms(1,2)
    unfolding bci_def buf_of_def by (auto simp: t)
  then show "bci me (binit s) {} {}" by (simp add: t_def)
  show "\<exists>bf. binit s = s\<lparr>bufs := bf\<rparr>" using t by (auto simp: t_def)
  have "blk t n = disk t n" for n by (rule blk_uncached) (use dev in \<open>auto simp: buf_of_def\<close>)
  then show "blk (binit s) = disk s" by (simp add: t_def [symmetric] fun_eq_iff t)
qed

section \<open>The cache as a block device\<close>

text \<open>
  The interface of a block device: reading a block returns its content and changes no content,
  writing a block changes that block only. Programs of reads and writes then behave as on an array
  of blocks.
\<close>

datatype bop = BRead u32 | BWrite u32 "u8 list"

fun array_op :: "bop \<Rightarrow> (u32 \<Rightarrow> u8 list) \<Rightarrow> u8 list \<times> (u32 \<Rightarrow> u8 list)" where
  "array_op (BRead n) d = (d n, d)"
| "array_op (BWrite n xs) d = (xs, d(n := xs))"

fun array_run :: "bop list \<Rightarrow> (u32 \<Rightarrow> u8 list) \<Rightarrow> u8 list list \<times> (u32 \<Rightarrow> u8 list)" where
  "array_run [] d = ([], d)"
| "array_run (p # ps) d = (let (x, d) = array_op p d; (xs, d) = array_run ps d in (x # xs, d))"

fun run_with :: "(u32 \<Rightarrow> 's \<Rightarrow> (u8 list \<times> 's) res) \<Rightarrow> (u32 \<Rightarrow> u8 list \<Rightarrow> 's \<Rightarrow> 's res) \<Rightarrow> bop list \<Rightarrow>
    's \<Rightarrow> (u8 list list \<times> 's) res" where
  "run_with rd wr [] s = Ok ([], s)"
| "run_with rd wr (BRead n # ps) s =
     res_bind (rd n s) (\<lambda>(x, s). res_bind (run_with rd wr ps s) (\<lambda>(xs, s). Ok (x # xs, s)))"
| "run_with rd wr (BWrite n x # ps) s =
     res_bind (wr n x s) (\<lambda>s. res_bind (run_with rd wr ps s) (\<lambda>(xs, s). Ok (x # xs, s)))"

definition full_writes :: "bop list \<Rightarrow> bool" where
  "full_writes ps \<longleftrightarrow> (\<forall>p\<in>set ps. case p of BRead _ \<Rightarrow> True | BWrite _ xs \<Rightarrow> length xs = BSIZE)"

locale block_device =
  fixes rd :: "u32 \<Rightarrow> 's \<Rightarrow> (u8 list \<times> 's) res"
    and wr :: "u32 \<Rightarrow> u8 list \<Rightarrow> 's \<Rightarrow> 's res"
    and dinv :: "'s \<Rightarrow> bool"
    and content :: "'s \<Rightarrow> u32 \<Rightarrow> u8 list"
  assumes read_law: "dinv s \<Longrightarrow> \<exists>s'. rd n s = Ok (content s n, s') \<and> dinv s' \<and> content s' = content s"
    and write_law: "dinv s \<Longrightarrow> length xs = BSIZE \<Longrightarrow>
      \<exists>s'. wr n xs s = Ok s' \<and> dinv s' \<and> content s' = (content s)(n := xs)"
begin

lemma run_array:
  "dinv s \<Longrightarrow> full_writes ps \<Longrightarrow>
   \<exists>s'. run_with rd wr ps s = Ok (fst (array_run ps (content s)), s') \<and> dinv s' \<and>
     content s' = snd (array_run ps (content s))"
proof (induction ps arbitrary: s)
  case (Cons p ps)
  have w: "full_writes ps" using Cons.prems(2) by (simp add: full_writes_def)
  show ?case
  proof (cases p)
    case (BRead n)
    obtain s1 where 1: "rd n s = Ok (content s n, s1)" "dinv s1" "content s1 = content s"
      using read_law [OF Cons.prems(1)] by blast
    show ?thesis using Cons.IH [OF 1(2) w] 1 BRead by (auto simp: split_beta)
  next
    case (BWrite n xs)
    then have "length xs = BSIZE" using Cons.prems(2) by (simp add: full_writes_def)
    then obtain s1 where 1: "wr n xs s = Ok s1" "dinv s1" "content s1 = (content s)(n := xs)"
      using write_law [OF Cons.prems(1)] by blast
    show ?thesis using Cons.IH [OF 1(2) w] 1 BWrite by (auto simp: split_beta simp del: fun_upd_apply)
  qed
qed simp

end

text \<open>One client operation on the cache: \<^verbatim>\<open>bread\<close>, use the data, \<^verbatim>\<open>bwrite\<close> when it changed, \<^verbatim>\<open>brelse\<close>.\<close>

definition cache_read :: "nat \<Rightarrow> u32 \<Rightarrow> kernel \<Rightarrow> (u8 list \<times> kernel) res" where
  "cache_read me n s =
     res_bind (bread me ROOTDEV n s) (\<lambda>(i, s).
       let xs = b_data (bufs s i) in res_bind (brelse me i s) (\<lambda>s. Ok (xs, s)))"

definition cache_write :: "nat \<Rightarrow> u32 \<Rightarrow> u8 list \<Rightarrow> kernel \<Rightarrow> kernel res" where
  "cache_write me n xs s =
     res_bind (bread me ROOTDEV n s) (\<lambda>(i, s).
       res_bind (bwrite me i (set_data i xs s)) (brelse me i))"

lemma NBUF_val: "NBUF = 30" "LOGBLOCKS = 30"
  by (simp_all add: NBUF_def LOGBLOCKS_def MAXOPBLOCKS_def)

lemma blk_idle: "bci me s {} {} \<Longrightarrow> blk s = disk s"
proof
  fix n assume b: "bci me s {} {}"
  show "blk s n = disk s n"
  proof (cases "\<exists>i<NBUF. buf_of s i n \<and> b_valid (bufs s i) \<noteq> 0")
    case True
    then obtain i where i: "i < NBUF" "buf_of s i n" "b_valid (bufs s i) \<noteq> 0" by blast
    then show ?thesis using bciD(13) [OF b i(1) _ i(2) _ i(3)] blk_cached [OF b i] by simp
  next
    case False
    then show ?thesis by (intro blk_uncached) auto
  qed
qed

lemma set_data_simps [simp]:
  "bufs (set_data i xs s) j = (if j = i then (bufs s i)\<lparr>b_data := xs\<rparr> else bufs s j)"
  by (simp add: set_data_def)

interpretation bc: block_device "cache_read me" "cache_write me" "\<lambda>s. bci me s {} {}" disk
proof
  fix s n assume b: "bci me s {} {}"
  obtain i s1 where 1: "bread me ROOTDEV n s = Ok (i, s1)" "bci me s1 {i} {}" "buf_of s1 i n"
      "b_data (bufs s1 i) = blk s n" "blk s1 = blk s" "\<exists>bs. s1 = s\<lparr>bufs := bs\<rparr>"
    using bread_ok [OF b, of n] by (auto simp: NBUF_val)
  have "blk s n = disk s n" using blk_idle [OF b] by simp
  then have "b_data (bufs s1 i) = disk s1 (b_blockno (bufs s1 i))" using 1 by (auto simp: buf_of_def)
  then obtain s2 where "brelse me i s1 = Ok s2" "bci me s2 {} {}" "cframe s1 s2"
    using brelse_ok [OF 1(2), of i] by auto
  then show "\<exists>s'. cache_read me n s = Ok (disk s n, s') \<and> bci me s' {} {} \<and> disk s' = disk s"
    using 1 \<open>blk s n = disk s n\<close> cframeD(2) [of s1 s2] by (auto simp: cache_read_def)
next
  fix s n and xs :: "u8 list" assume b: "bci me s {} {}" and l: "length xs = BSIZE"
  obtain i s1 where 1: "bread me ROOTDEV n s = Ok (i, s1)" "bci me s1 {i} {}" "buf_of s1 i n"
      "\<exists>bs. s1 = s\<lparr>bufs := bs\<rparr>"
    using bread_ok [OF b, of n] by (auto simp: NBUF_val)
  let ?t = "set_data i xs s1"
  have n: "b_blockno (bufs s1 i) = n" using 1(3) by (simp add: buf_of_def)
  have t: "bci me ?t {i} {}" using set_data_ok(1) [OF 1(2) _ l] by simp
  obtain s2 where 2: "bwrite me i ?t = Ok s2" "bci me s2 {i} {}" "bufs s2 = bufs ?t"
      "disk s2 = (disk ?t)(n := xs)"
    using bwrite_ok [OF t, of i] n by auto
  have "b_data (bufs s2 i) = disk s2 (b_blockno (bufs s2 i))" using 2(3,4) n by simp
  then obtain s3 where "brelse me i s2 = Ok s3" "bci me s3 {} {}" "cframe s2 s3"
    using brelse_ok [OF 2(2), of i] by auto
  moreover have "disk ?t = disk s" using 1(4) by (auto simp: set_data_def)
  ultimately show "\<exists>s'. cache_write me n xs s = Ok s' \<and> bci me s' {} {} \<and> disk s' = (disk s)(n := xs)"
    using 1(1) 2 cframeD(2) [of s2 s3] by (auto simp: cache_write_def)
qed

section \<open>Properties\<close>

text \<open>
  (C4) The buffer cache is transparent: on a cache in order, any sequence of reads and writes of
  blocks runs without panicking or blocking, however often buffers are recycled, returns what the
  same sequence returns on a plain array of blocks, leaves exactly the array's content on the disk,
  and keeps the cache in order (one buffer per block, an intact list, no reference left behind).
\<close>

theorem bcache_refines_array:
  assumes "bci me s {} {}" "full_writes ps"
  shows "\<exists>s'. run_with (cache_read me) (cache_write me) ps s = Ok (fst (array_run ps (disk s)), s') \<and>
    bci me s' {} {} \<and> disk s' = snd (array_run ps (disk s))"
  using bc.run_array [OF assms] .

lemma boot_cache: "bci me (binit (boot_kernel\<lparr>disk := d\<rparr>)) {} {}" "disk (binit (boot_kernel\<lparr>disk := d\<rparr>)) = d"
  if "\<And>n. length (d n) = BSIZE"
proof -
  have q: "sched_ok (boot_kernel\<lparr>disk := d\<rparr>)"
    unfolding sched_ok_def sched_inv_def wq_queues_def wq_queue_def
    by (rule exI [of _ "\<lambda>_. []"]) (simp add: boot_kernel_def boot_proc_def)
  have "b_dev (bufs (boot_kernel\<lparr>disk := d\<rparr>) i) = 0 \<and> b_refcnt (bufs (boot_kernel\<lparr>disk := d\<rparr>) i) = 0 \<and>
      length (b_data (bufs (boot_kernel\<lparr>disk := d\<rparr>) i)) = BSIZE" for i
    by (simp add: boot_kernel_def boot_buf_def)
  moreover have "length (disk (boot_kernel\<lparr>disk := d\<rparr>) n) = BSIZE" for n using that by simp
  ultimately have "bci me (binit (boot_kernel\<lparr>disk := d\<rparr>)) {} {}"
      "\<exists>bf. binit (boot_kernel\<lparr>disk := d\<rparr>) = boot_kernel\<lparr>disk := d, bufs := bf\<rparr>"
    using binit_bci(1,2) [OF _ _ q] by blast+
  then show "bci me (binit (boot_kernel\<lparr>disk := d\<rparr>)) {} {}" "disk (binit (boot_kernel\<lparr>disk := d\<rparr>)) = d"
    by auto
qed

theorem bcache_refines_array_witness:
  "\<exists>s' xs. run_with (cache_read 0) (cache_write 0)
       [BRead 7, BWrite 5 (replicate BSIZE 1), BWrite 7 (replicate BSIZE 2), BRead 5]
       (binit (boot_kernel\<lparr>disk := \<lambda>_. replicate BSIZE 0\<rparr>)) = Ok (xs, s') \<and>
     xs = [replicate BSIZE 0, replicate BSIZE 1, replicate BSIZE 2, replicate BSIZE 1] \<and>
     disk s' 7 = replicate BSIZE 2"
proof -
  let ?d = "\<lambda>_ :: u32. replicate BSIZE (0 :: u8)"
  let ?s = "binit (boot_kernel\<lparr>disk := ?d\<rparr>)"
  have s: "bci 0 ?s {} {}" "disk ?s = ?d" using boot_cache(1) [of ?d 0] boot_cache(2) [of ?d] by simp_all
  show ?thesis
    using bcache_refines_array [OF s(1), of "[BRead 7, BWrite 5 (replicate BSIZE 1), BWrite 7 (replicate BSIZE 2), BRead 5]"] s(2)
    by (auto simp: full_writes_def split_beta)
qed

text \<open>
  (C26) \<^verbatim>\<open>bread\<close> panics exactly when the block is not cached and every buffer is in use; otherwise it
  returns a buffer of the block, or goes to sleep because another process has that buffer locked.
\<close>

theorem bread_panics_iff:
  assumes "bring s xs"
  shows "(\<exists>m. bread me dev n s = Panic m) \<longleftrightarrow>
    (\<forall>i<NBUF. b_refcnt (bufs s i) \<noteq> 0 \<and> \<not> (b_dev (bufs s i) = dev \<and> b_blockno (bufs s i) = n))"
proof -
  have x: "set xs = {..<NBUF}" using assms by (simp add: bring_def)
  have l: "\<not> lock_buf me i t = Panic m \<and> lock_buf me i t \<noteq> Loops" for i t m
    by (simp add: lock_buf_def Let_def split: prod.split)
  have c: "bget_cached dev n s = Some (find (\<lambda>i. b_dev (bufs s i) = dev \<and> b_blockno (bufs s i) = n) xs)"
    unfolding bget_cached_def by (rule ring_find_links) (use assms in \<open>auto simp: bring_def\<close>)
  have k: "(\<exists>m. res_bind (res_bind (lock_buf me i t) (\<lambda>s. Ok (i, s))) (\<lambda>(b, s). if b_valid (bufs s b) = 0
      then Ok (b, upd_buf b (\<lambda>x. x\<lparr>b_valid := 1\<rparr>) (virtio_disk_rw b False s)) else Ok (b, s)) = Panic m) = False" for i t
    using l [of i t] by (cases "lock_buf me i t") auto
  show ?thesis
  proof (cases "find (\<lambda>i. b_dev (bufs s i) = dev \<and> b_blockno (bufs s i) = n) xs")
    case (Some i)
    then have "i < NBUF" "b_dev (bufs s i) = dev" "b_blockno (bufs s i) = n"
      using x by (auto simp: find_Some_iff)
    then show ?thesis using k Some c by (auto simp: bread_def bget_def Let_def)
  next
    case None
    then have n: "\<forall>i<NBUF. \<not> (b_dev (bufs s i) = dev \<and> b_blockno (bufs s i) = n)"
      using x by (auto simp: find_None_iff)
    show ?thesis
    proof (cases "find (\<lambda>i. b_refcnt (bufs s i) = 0) (rev xs)")
      case None2: None
      then have "\<forall>i<NBUF. b_refcnt (bufs s i) \<noteq> 0" using x by (auto simp: find_None_iff)
      then show ?thesis using n None None2 c bget_lru_find [OF assms] by (simp add: bread_def bget_def)
    next
      case (Some i)
      then have "i \<in> set xs" "b_refcnt (bufs s i) = 0" by (auto simp: find_Some_iff) (metis length_rev nth_mem set_rev)
      then have "i < NBUF" "b_refcnt (bufs s i) = 0" using x by auto
      then show ?thesis using k None Some c bget_lru_find [OF assms] by (auto simp: bread_def bget_def Let_def)
    qed
  qed
qed

theorem bread_panics_iff_witness:
  "\<exists>m. bread 0 1 9 ((binit boot_kernel)\<lparr>bufs := \<lambda>i. (bufs (binit boot_kernel) i)\<lparr>b_refcnt := 1\<rparr>\<rparr>) = Panic m"
proof -
  let ?d = "\<lambda>_ :: u32. replicate BSIZE (0 :: u8)"
  let ?s = "(binit boot_kernel)\<lparr>bufs := \<lambda>i. (bufs (binit boot_kernel) i)\<lparr>b_refcnt := 1\<rparr>\<rparr>"
  have e: "boot_kernel\<lparr>disk := ?d\<rparr> = boot_kernel" by (simp add: boot_kernel_def)
  have b: "bci 0 (binit boot_kernel) {} {}" using boot_cache(1) [of ?d 0] e by simp
  obtain xs where "bring (binit boot_kernel) xs" using bciD(1) [OF b] by blast
  then have r: "bring ?s xs" by (simp add: bring_def)
  have "b_dev (bufs (binit boot_kernel) i) = 0" if "i < NBUF" for i
    using binit_fold [of NBUF boot_kernel] that
    by (simp add: binit_def binit_step_def [abs_def] Let_def boot_kernel_def boot_buf_def)
  then show ?thesis using bread_panics_iff [OF r, of 0 1 9] by simp
qed

end
