(* ===== verification/Log.thy ===== *)
theory Log
  imports Bio
begin

text \<open>
  The write-ahead log (\<^verbatim>\<open>kernel/log.c\<close>). The definitions follow the code; \<^verbatim>\<open>begin_op\<close> is one visit of its
  loop, which sleeps on the address of \<^verbatim>\<open>log\<close> when the operation must wait. The disk remembers the
  sequence of completed writes (\<open>dtrace\<close>), so a crash is the disk after a prefix of that sequence.
\<close>

section \<open>Operations\<close>

definition upd_log :: "(logstate \<Rightarrow> logstate) \<Rightarrow> kernel \<Rightarrow> kernel" where
  "upd_log f s = s\<lparr>klog := f (klog s)\<rparr>"

definition set_lh_n :: "int \<Rightarrow> kernel \<Rightarrow> kernel" where
  "set_lh_n n = upd_log (\<lambda>l. l\<lparr>lg_lh := (lg_lh l)\<lparr>lh_n := n\<rparr>\<rparr>)"

abbreviation logn :: "kernel \<Rightarrow> nat" where
  "logn s \<equiv> nat (lh_n (lg_lh (klog s)))"

abbreviation logblock :: "kernel \<Rightarrow> nat \<Rightarrow> u32" where
  "logblock s t \<equiv> lh_block (lg_lh (klog s)) ! t"

fun install_trans_loop :: "nat \<Rightarrow> bool \<Rightarrow> nat list \<Rightarrow> kernel \<Rightarrow> kernel res" where
  "install_trans_loop me recovering [] s = Ok s"
| "install_trans_loop me recovering (tail # ts) s =
     res_bind (if recovering
               then printf ''recovering tail %d dst %d\<newline>'' [VNum (of_nat tail), VNum (ucast (logblock s tail))] s
               else Ok s) (\<lambda>s.
     res_bind (bread me (lg_dev (klog s)) (lg_start (klog s) + of_nat tail + 1) s) (\<lambda>(lbuf, s).
     res_bind (bread me (lg_dev (klog s)) (logblock s tail) s) (\<lambda>(dbuf, s).
     let s = set_data dbuf (b_data (bufs s lbuf)) s in
     res_bind (bwrite me dbuf s) (\<lambda>s.
     let s = (if \<not> recovering then bunpin dbuf s else s) in
     res_bind (brelse me lbuf s) (\<lambda>s.
     res_bind (brelse me dbuf s) (install_trans_loop me recovering ts))))))"

definition install_trans :: "nat \<Rightarrow> bool \<Rightarrow> kernel \<Rightarrow> kernel res" where
  "install_trans me recovering s = install_trans_loop me recovering [0..<logn s] s"

text \<open>The on-disk header: the count at offset 0, the block numbers from offset 4 on.\<close>

definition read_head :: "nat \<Rightarrow> kernel \<Rightarrow> kernel res" where
  "read_head me s =
     res_bind (bread me (lg_dev (klog s)) (lg_start (klog s)) s) (\<lambda>(b, s).
       let d = b_data (bufs s b); s = set_lh_n (sint (get32 d 0)) s;
           s = fold (\<lambda>i. upd_log (\<lambda>l. l\<lparr>lg_lh := (lg_lh l)\<lparr>lh_block := (lh_block (lg_lh l))[i := get32 d (4 + 4 * i)]\<rparr>\<rparr>))
                 [0..<logn s] s
       in brelse me b s)"

definition head_image :: "logheader \<Rightarrow> u8 list \<Rightarrow> u8 list" where
  "head_image h d =
     fold (\<lambda>i d. patch d (4 + 4 * i) (bytes32 (lh_block h ! i))) [0..<nat (lh_n h)]
       (patch d 0 (bytes32 (word_of_int (lh_n h))))"

definition write_head :: "nat \<Rightarrow> kernel \<Rightarrow> kernel res" where
  "write_head me s =
     res_bind (bread me (lg_dev (klog s)) (lg_start (klog s)) s) (\<lambda>(b, s).
       let s = set_data b (head_image (lg_lh (klog s)) (b_data (bufs s b))) s in
       res_bind (bwrite me b s) (brelse me b))"

definition recover_from_log :: "nat \<Rightarrow> kernel \<Rightarrow> kernel res" where
  "recover_from_log me s =
     res_bind (read_head me s) (\<lambda>s.
     res_bind (install_trans me True s) (\<lambda>s. write_head me (set_lh_n 0 s)))"

definition initlog :: "nat \<Rightarrow> u32 \<Rightarrow> superblock \<Rightarrow> kernel \<Rightarrow> kernel res" where
  "initlog me dev sbk s =
     (if 4 + 4 * LOGBLOCKS \<ge> BSIZE then Panic ''initlog: too big logheader''
      else recover_from_log me (upd_log (\<lambda>l. l\<lparr>lg_start := sb_logstart sbk, lg_dev := dev\<rparr>) s))"

text \<open>The two reasons for which \<^verbatim>\<open>begin_op\<close> sleeps.\<close>

definition op_must_wait :: "logstate \<Rightarrow> bool" where
  "op_must_wait l \<longleftrightarrow> lg_committing l \<noteq> 0 \<or>
     lh_n (lg_lh l) + (lg_outstanding l + 1) * int MAXOPBLOCKS > int LOGBLOCKS"

definition begin_op :: "kernel \<Rightarrow> kernel res" where
  "begin_op s =
     (if op_must_wait (klog s) then Sleeps (a_log (syms s))
      else Ok (upd_log (\<lambda>l. l\<lparr>lg_outstanding := lg_outstanding l + 1\<rparr>) s))"

fun write_log_loop :: "nat \<Rightarrow> nat list \<Rightarrow> kernel \<Rightarrow> kernel res" where
  "write_log_loop me [] s = Ok s"
| "write_log_loop me (tail # ts) s =
     res_bind (bread me (lg_dev (klog s)) (lg_start (klog s) + of_nat tail + 1) s) (\<lambda>(to1, s).
     res_bind (bread me (lg_dev (klog s)) (logblock s tail) s) (\<lambda>(from1, s).
     let s = set_data to1 (b_data (bufs s from1)) s in
     res_bind (bwrite me to1 s) (\<lambda>s.
     res_bind (brelse me from1 s) (\<lambda>s.
     res_bind (brelse me to1 s) (write_log_loop me ts)))))"

definition write_log :: "nat \<Rightarrow> kernel \<Rightarrow> kernel res" where
  "write_log me s = write_log_loop me [0..<logn s] s"

definition commit :: "nat \<Rightarrow> kernel \<Rightarrow> kernel res" where
  "commit me s =
     (if lh_n (lg_lh (klog s)) > 0
      then res_bind (write_log me s) (\<lambda>s.
           res_bind (write_head me s) (\<lambda>s.
           res_bind (install_trans me False s) (\<lambda>s.
           write_head me (set_lh_n 0 s))))
      else Ok s)"

definition end_op :: "nat \<Rightarrow> kernel \<Rightarrow> kernel res" where
  "end_op me s =
     (let s = upd_log (\<lambda>l. l\<lparr>lg_outstanding := lg_outstanding l - 1\<rparr>) s in
      if lg_committing (klog s) \<noteq> 0 then Panic ''log.committing''
      else if lg_outstanding (klog s) = 0
      then (let s = upd_log (\<lambda>l. l\<lparr>lg_committing := 1\<rparr>) s in
            res_bind (commit me s) (\<lambda>s.
              do_wakeup (a_log (syms s)) (upd_log (\<lambda>l. l\<lparr>lg_committing := 0\<rparr>) s)))
      else do_wakeup (a_log (syms s)) s)"

text \<open>
  \<^verbatim>\<open>log_write\<close>: the search for the block among those already in the transaction gives the index
  \<open>absorb_index\<close>, the number of blocks when it is new.
\<close>

definition absorb_index :: "u32 \<Rightarrow> logheader \<Rightarrow> nat" where
  "absorb_index n h =
     (case find (\<lambda>i. lh_block h ! i = n) [0..<nat (lh_n h)] of Some i \<Rightarrow> i | None \<Rightarrow> nat (lh_n h))"

definition log_record :: "u32 \<Rightarrow> logheader \<Rightarrow> logheader" where
  "log_record n h =
     (let i = absorb_index n h; h' = h\<lparr>lh_block := (lh_block h)[i := n]\<rparr> in
      if int i = lh_n h then h'\<lparr>lh_n := lh_n h + 1\<rparr> else h')"

definition log_write :: "nat \<Rightarrow> kernel \<Rightarrow> kernel res" where
  "log_write b s =
     (let h = lg_lh (klog s); n = b_blockno (bufs s b) in
      if lh_n h \<ge> int LOGBLOCKS then Panic ''too big a transaction''
      else if lg_outstanding (klog s) < 1 then Panic ''log_write outside of trans''
      else (let s' = upd_log (\<lambda>l. l\<lparr>lg_lh := log_record n (lg_lh l)\<rparr>) s in
            Ok (if int (absorb_index n h) = lh_n h then bpin b s' else s')))"

section \<open>What the log does not touch\<close>

text \<open>
  The state with everything cleared that the log and the cache may change: two states that agree
  here differ in the cache, the disk, the log, the console output and scheduling states only.
\<close>

definition rest :: "kernel \<Rightarrow> kernel" where
  "rest s = s\<lparr>disk := \<lambda>_. [], dtrace := [], klog := klog boot_kernel, bufs := \<lambda>_. boot_buf, uart_out := [],
     buckets := \<lambda>_. None,
     procs := \<lambda>j. (procs s j)\<lparr>p_state := UNUSED, p_wq_entry := \<lparr>e_proc = 0, e_chan = 0, e_next = None, e_queued = 0\<rparr>\<rparr>\<rparr>"

lemma rest_simps [simp]:
  "rest (s\<lparr>disk := d\<rparr>) = rest s" "rest (s\<lparr>dtrace := t\<rparr>) = rest s" "rest (s\<lparr>klog := l\<rparr>) = rest s"
  "rest (s\<lparr>bufs := b\<rparr>) = rest s" "rest (s\<lparr>uart_out := v\<rparr>) = rest s" "rest (upd_buf i f s) = rest s"
  "rest (upd_log g s) = rest s" "rest (set_lh_n n s) = rest s" "rest (set_data i xs s) = rest s"
  by (simp_all add: rest_def upd_buf_def upd_log_def set_lh_n_def set_data_def)

lemma restD:
  assumes "rest s' = rest s"
  shows "syms s' = syms s" "sb s' = sb s" "itable s' = itable s" "ftable s' = ftable s" "pipes s' = pipes s"
    "mem s' = mem s" "freelist s' = freelist s" "kend s' = kend s" "panicked s' = panicked s"
    "p_pid (procs s' j) = p_pid (procs s j)" "p_pagetable (procs s' j) = p_pagetable (procs s j)"
    "p_sz (procs s' j) = p_sz (procs s j)" "p_cwd (procs s' j) = p_cwd (procs s j)"
    "p_ofile (procs s' j) = p_ofile (procs s j)"
proof -
  have "procs (rest s') j = procs (rest s) j" using assms by simp
  then have "p_pid (procs (rest s') j) = p_pid (procs (rest s) j)"
      "p_pagetable (procs (rest s') j) = p_pagetable (procs (rest s) j)"
      "p_sz (procs (rest s') j) = p_sz (procs (rest s) j)" "p_cwd (procs (rest s') j) = p_cwd (procs (rest s) j)"
      "p_ofile (procs (rest s') j) = p_ofile (procs (rest s) j)" by simp_all
  then show "p_pid (procs s' j) = p_pid (procs s j)" "p_pagetable (procs s' j) = p_pagetable (procs s j)"
    "p_sz (procs s' j) = p_sz (procs s j)" "p_cwd (procs s' j) = p_cwd (procs s j)"
    "p_ofile (procs s' j) = p_ofile (procs s j)" by (simp_all add: rest_def)
  have "syms (rest s') = syms (rest s)" "sb (rest s') = sb (rest s)" "itable (rest s') = itable (rest s)"
    "ftable (rest s') = ftable (rest s)" "pipes (rest s') = pipes (rest s)" "mem (rest s') = mem (rest s)"
    "freelist (rest s') = freelist (rest s)" "kend (rest s') = kend (rest s)" "panicked (rest s') = panicked (rest s)"
    using assms by simp_all
  then show "syms s' = syms s" "sb s' = sb s" "itable s' = itable s" "ftable s' = ftable s" "pipes s' = pipes s"
    "mem s' = mem s" "freelist s' = freelist s" "kend s' = kend s" "panicked s' = panicked s"
    by (simp_all add: rest_def)
qed

lemma rest_cframe:
  assumes "cframe s s'" shows "rest s' = rest s"
proof -
  obtain bf ps bs where s': "s' = s\<lparr>bufs := bf, procs := ps, buckets := bs\<rparr>"
      and j: "\<forall>j. \<exists>st e. ps j = (procs s j)\<lparr>p_state := st, p_wq_entry := e\<rparr>"
    using assms unfolding cframe_def by blast
  have "(ps j)\<lparr>p_state := st, p_wq_entry := e\<rparr> = (procs s j)\<lparr>p_state := st, p_wq_entry := e\<rparr>" for j st e
    using j [rule_format, of j] by auto
  then show ?thesis by (simp add: rest_def s')
qed

lemma bci_cong:
  "bufs s' = bufs s \<Longrightarrow> disk s' = disk s \<Longrightarrow> procs s' = procs s \<Longrightarrow> buckets s' = buckets s \<Longrightarrow>
   bci me s' H P \<longleftrightarrow> bci me s H P"
  unfolding bci_def bring_def buf_of_def holdingsleep_def using sched_ok_cong [of s' s] by simp

lemma bci_simps [simp]:
  "bci me (s\<lparr>uart_out := v\<rparr>) H P = bci me s H P" "bci me (upd_log g s) H P = bci me s H P"
  "bci me (set_lh_n n s) H P = bci me s H P"
  by (rule bci_cong; simp add: upd_log_def set_lh_n_def)+

lemma blk_simps [simp]:
  "blk (s\<lparr>uart_out := v\<rparr>) = blk s" "blk (upd_log g s) = blk s" "blk (set_lh_n n s) = blk s"
  by (rule blk_cong; simp add: upd_log_def set_lh_n_def)+

lemma upd_log_simps [simp]:
  "disk (upd_log g s) = disk s" "dtrace (upd_log g s) = dtrace s" "klog (upd_log g s) = g (klog s)"
  "bufs (upd_log g s) = bufs s" "disk (set_lh_n n s) = disk s" "dtrace (set_lh_n n s) = dtrace s"
  "bufs (set_lh_n n s) = bufs s"
  "klog (set_lh_n n s) = (klog s)\<lparr>lg_lh := (lg_lh (klog s))\<lparr>lh_n := n\<rparr>\<rparr>"
  by (simp_all add: upd_log_def set_lh_n_def)

lemma blk_unpinned:
  assumes "bci me s {} P" "n \<notin> P" shows "blk s n = disk s n"
proof (cases "\<exists>i<NBUF. buf_of s i n \<and> b_valid (bufs s i) \<noteq> 0")
  case True
  then obtain i where i: "i < NBUF" "buf_of s i n" "b_valid (bufs s i) \<noteq> 0" by blast
  then show ?thesis using bciD(13) [OF assms(1) i(1) _ i(2) assms(2) i(3)] blk_cached [OF assms(1) i] by simp
next
  case False
  then show ?thesis by (intro blk_uncached) auto
qed

section \<open>Reading and writing two blocks\<close>

lemma two_bread:
  assumes b: "bci me s {} P" "finite P" "card P + 1 < NBUF" "a \<noteq> c"
  shows "\<exists>i j s1 s2. bread me ROOTDEV a s = Ok (i, s1) \<and> bread me ROOTDEV c s1 = Ok (j, s2) \<and> i \<noteq> j \<and>
    bci me s2 {i, j} P \<and> buf_of s2 i a \<and> buf_of s2 j c \<and> b_data (bufs s2 i) = blk s a \<and>
    b_data (bufs s2 j) = blk s c \<and> blk s2 = blk s \<and> (\<exists>bs. s1 = s\<lparr>bufs := bs\<rparr>) \<and> (\<exists>bs. s2 = s\<lparr>bufs := bs\<rparr>)"
proof -
  obtain i s1 where 1: "bread me ROOTDEV a s = Ok (i, s1)" "bci me s1 {i} P" "buf_of s1 i a"
      "b_data (bufs s1 i) = blk s a" "blk s1 = blk s" "\<exists>bs. s1 = s\<lparr>bufs := bs\<rparr>"
    using bread_ok [OF b(1,2), of a] b(3) by auto
  have "\<forall>k\<in>{i}. \<not> buf_of s1 k c" using 1(3) b(4) by (auto simp: buf_of_def)
  then obtain j s2 where 2: "bread me ROOTDEV c s1 = Ok (j, s2)" "j \<notin> {i}" "bci me s2 (insert j {i}) P"
      "buf_of s2 j c" "b_data (bufs s2 j) = blk s1 c" "blk s2 = blk s1" "\<forall>k. k \<noteq> j \<longrightarrow> bufs s2 k = bufs s1 k"
      "\<exists>bs. s2 = s1\<lparr>bufs := bs\<rparr>"
    using bread_ok [OF 1(2) b(2), of c] b(3) by auto
  have "bufs s2 i = bufs s1 i" using 2(2,7) by simp
  then have "buf_of s2 i a" "b_data (bufs s2 i) = blk s a" using 1(3,4) by (simp_all add: buf_of_def)
  moreover have "\<exists>bs. s2 = s\<lparr>bufs := bs\<rparr>" using 1(6) 2(8) by auto
  moreover have "bci me s2 {i, j} P" using 2(3) by (simp add: insert_commute)
  ultimately show ?thesis using 1 2
    by (intro exI [of _ i] exI [of _ j] exI [of _ s1] exI [of _ s2] conjI) simp_all
qed

text \<open>
  Copying the content of one block over another and writing it to the disk, with both buffers held
  and then released in turn.
\<close>

lemma overwrite_step:
  assumes b: "bci me s {i, j} P" "i \<noteq> j" and n: "buf_of s i a" "buf_of s j c"
  defines "x \<equiv> b_data (bufs s j)"
  shows "\<exists>s1. bwrite me i (set_data i x s) = Ok s1 \<and> bci me s1 {i, j} P \<and> blk s1 = (blk s)(a := x) \<and>
    disk s1 = (disk s)(a := x) \<and> dtrace s1 = dtrace s @ [(a, x)] \<and> klog s1 = klog s \<and> rest s1 = rest s \<and>
    buf_of s1 i a \<and> buf_of s1 j c \<and> b_data (bufs s1 i) = x \<and> b_data (bufs s1 j) = x"
proof -
  have jN: "j < NBUF" using bciD(4) [OF b(1)] by simp
  have len: "length x = BSIZE" unfolding x_def using bciD(9) [OF b(1) jN] .
  let ?t = "set_data i x s"
  have a: "b_blockno (bufs s i) = a" using n(1) by (simp add: buf_of_def)
  have t: "bci me ?t {i, j} P" "blk ?t = (blk s)(a := x)" using set_data_ok(1,2) [OF b(1) _ len, of i] a by simp_all
  obtain s1 where s1: "bwrite me i ?t = Ok s1" "bci me s1 {i, j} P" "blk s1 = blk ?t" "bufs s1 = bufs ?t"
      "s1 = ?t\<lparr>disk := (disk ?t)(a := x), dtrace := dtrace ?t @ [(a, x)]\<rparr>"
    using bwrite_ok [OF t(1), of i] a by auto
  have "klog ?t = klog s" "disk ?t = disk s" "dtrace ?t = dtrace s" by (simp_all add: set_data_def)
  then show ?thesis using s1 t n b(2) by (auto simp: buf_of_def x_def)
qed

lemma release_step:
  assumes b: "bci me s H P" "i \<in> H" "buf_of s i a" "a \<in> P \<or> b_data (bufs s i) = disk s a"
  shows "\<exists>s1. brelse me i s = Ok s1 \<and> bci me s1 (H - {i}) P \<and> blk s1 = blk s \<and> disk s1 = disk s \<and>
    dtrace s1 = dtrace s \<and> klog s1 = klog s \<and> rest s1 = rest s \<and>
    (\<forall>j n. buf_of s1 j n = buf_of s j n) \<and> (\<forall>j. b_data (bufs s1 j) = b_data (bufs s j))"
proof -
  have "b_blockno (bufs s i) = a" using b(3) by (simp add: buf_of_def)
  then obtain s1 where s1: "brelse me i s = Ok s1" "bci me s1 (H - {i}) P" "blk s1 = blk s" "cframe s s1"
      "\<forall>j. same_content s s1 j"
    using brelse_ok [OF b(1,2)] b(4) by auto
  then show ?thesis using cframeD(2,3,4) [OF s1(4)] rest_cframe [OF s1(4)]
    by (intro exI [of _ s1]) (simp add: same_content_def buf_of_def)
qed

section \<open>The log on disk\<close>

text \<open>Block \<open>t\<close> of the log, and all blocks of the log with its header.\<close>

definition log_slot :: "u32 \<Rightarrow> nat \<Rightarrow> u32" where
  "log_slot st t = st + of_nat t + 1"

definition log_area :: "u32 \<Rightarrow> u32 set" where
  "log_area st = insert st (log_slot st ` {..<LOGBLOCKS})"

text \<open>
  \<open>log_env s st bl\<close>: the log starts at \<open>st\<close> and its in-memory header lists the blocks \<open>bl\<close>, which are
  distinct and outside the log, and few enough for the cache to hold two more.
\<close>

definition log_env :: "kernel \<Rightarrow> u32 \<Rightarrow> u32 list \<Rightarrow> bool" where
  "log_env s st bl \<longleftrightarrow>
     lg_dev (klog s) = ROOTDEV \<and> lg_start (klog s) = st \<and> lh_n (lg_lh (klog s)) = int (length bl) \<and>
     length (lh_block (lg_lh (klog s))) = LOGBLOCKS \<and> take (length bl) (lh_block (lg_lh (klog s))) = bl \<and>
     distinct bl \<and> set bl \<inter> log_area st = {} \<and> length bl + 2 \<le> NBUF"

lemma log_envD:
  assumes "log_env s st bl"
  shows "lg_dev (klog s) = ROOTDEV" "lg_start (klog s) = st" "logn s = length bl"
    "t < length bl \<Longrightarrow> logblock s t = bl ! t" "distinct bl" "set bl \<inter> log_area st = {}" "length bl \<le> 28"
proof -
  show "logblock s t = bl ! t" if "t < length bl"
    using assms that unfolding log_env_def by (metis nth_take)
qed (use assms in \<open>simp_all add: log_env_def NBUF_val\<close>)

lemma log_slot_inj:
  assumes "t < LOGBLOCKS" "t' < LOGBLOCKS" "log_slot st t = log_slot st t'" shows "t = t'"
proof -
  have "(of_nat t :: u32) = of_nat t'" using assms(3) by (simp add: log_slot_def)
  then have "unat (of_nat t :: u32) = unat (of_nat t' :: u32)" by simp
  then show ?thesis using assms(1,2) by (simp add: NBUF_val unat_of_nat)
qed

lemma log_slot_start: assumes "t < LOGBLOCKS" shows "log_slot st t \<noteq> st"
proof
  assume "log_slot st t = st"
  then have "of_nat (Suc t) = (0 :: u32)" by (simp add: log_slot_def add.commute)
  then have "(2::nat) ^ 32 dvd Suc t" by (subst (asm) word_of_nat_eq_0_iff) simp
  then show False using assms dvd_imp_le [of "2 ^ 32" "Suc t"] by (simp add: NBUF_val)
qed

lemma log_slot_area: "t < LOGBLOCKS \<Longrightarrow> log_slot st t \<in> log_area st"
  by (simp add: log_area_def)

definition apply_writes :: "(u32 \<times> u8 list) list \<Rightarrow> (u32 \<Rightarrow> u8 list) \<Rightarrow> u32 \<Rightarrow> u8 list" where
  "apply_writes ws d = fold (\<lambda>(n, x) d. d(n := x)) ws d"

lemma apply_writes_simps [simp]:
  "apply_writes [] d = d" "apply_writes ((n, x) # ws) d = apply_writes ws (d(n := x))"
  "apply_writes (us @ ws) d = apply_writes ws (apply_writes us d)"
  by (simp_all add: apply_writes_def)

lemma apply_writes_other: "n \<notin> fst ` set ws \<Longrightarrow> apply_writes ws d n = d n"
  by (induction ws arbitrary: d) auto

lemma apply_writes_map:
  assumes "distinct (map f ts)" "t \<in> set ts"
  shows "apply_writes (map (\<lambda>t. (f t, g t)) ts) d (f t) = g t"
  using assms
proof (induction ts arbitrary: d)
  case (Cons u us)
  show ?case
  proof (cases "t \<in> set us")
    case False
    then have "t = u" using Cons.prems by simp
    moreover have "f u \<notin> fst ` set (map (\<lambda>t. (f t, g t)) us)" using Cons.prems(1) by auto
    ultimately show ?thesis using apply_writes_other [of "f u"] by simp
  qed (use Cons in simp)
qed simp

lemma write_log_step:
  assumes e: "log_env s st bl" and b: "bci me s {} (set bl)" and t: "t < length bl"
  shows "\<exists>s'. (\<forall>ts. write_log_loop me (t # ts) s = write_log_loop me ts s') \<and> bci me s' {} (set bl) \<and>
    klog s' = klog s \<and> rest s' = rest s \<and> disk s' = (disk s)(log_slot st t := blk s (bl ! t)) \<and>
    dtrace s' = dtrace s @ [(log_slot st t, blk s (bl ! t))] \<and>
    blk s' = (blk s)(log_slot st t := blk s (bl ! t))"
proof -
  note d = log_envD [OF e]
  have tl: "t < LOGBLOCKS" using t d(7) by (simp add: NBUF_val)
  have a: "log_slot st t \<in> log_area st" using log_slot_area [OF tl] .
  have c: "bl ! t \<in> set bl" using t by simp
  have ne: "log_slot st t \<noteq> bl ! t" using a c d(6) by auto
  have card: "card (set bl) + 1 < NBUF" using d(5,7) by (simp add: distinct_card NBUF_val)
  obtain i j s1 s2 where 2: "bread me ROOTDEV (log_slot st t) s = Ok (i, s1)" "bread me ROOTDEV (bl ! t) s1 = Ok (j, s2)"
      "i \<noteq> j" "bci me s2 {i, j} (set bl)" "buf_of s2 i (log_slot st t)" "buf_of s2 j (bl ! t)"
      "b_data (bufs s2 j) = blk s (bl ! t)" "blk s2 = blk s" "\<exists>bs. s1 = s\<lparr>bufs := bs\<rparr>" "\<exists>bs. s2 = s\<lparr>bufs := bs\<rparr>"
    using two_bread [OF b finite_set card ne] by (elim exE conjE) (rule that; (assumption | blast))
  have k1: "klog s1 = klog s" using 2(9) by auto
  have k2: "klog s2 = klog s" "disk s2 = disk s" "dtrace s2 = dtrace s" "rest s2 = rest s" using 2(10) by auto
  obtain s3 where 3: "bwrite me i (set_data i (blk s (bl ! t)) s2) = Ok s3" "bci me s3 {i, j} (set bl)"
      "blk s3 = (blk s)(log_slot st t := blk s (bl ! t))" "disk s3 = (disk s)(log_slot st t := blk s (bl ! t))"
      "dtrace s3 = dtrace s @ [(log_slot st t, blk s (bl ! t))]" "klog s3 = klog s" "rest s3 = rest s"
      "buf_of s3 i (log_slot st t)" "buf_of s3 j (bl ! t)" "b_data (bufs s3 i) = blk s (bl ! t)"
    using overwrite_step [OF 2(4,3,5,6)] 2(7,8) k2 by auto
  obtain s4 where 4: "brelse me j s3 = Ok s4" "bci me s4 ({i, j} - {j}) (set bl)" "blk s4 = blk s3" "disk s4 = disk s3"
      "dtrace s4 = dtrace s3" "klog s4 = klog s3" "rest s4 = rest s3" "\<forall>k n. buf_of s4 k n = buf_of s3 k n"
      "\<forall>k. b_data (bufs s4 k) = b_data (bufs s3 k)"
    using release_step [OF 3(2) _ 3(9), of] c by auto
  have 4: "bci me s4 {i} (set bl)" "buf_of s4 i (log_slot st t)" "b_data (bufs s4 i) = disk s4 (log_slot st t)"
      "brelse me j s3 = Ok s4" "blk s4 = blk s3" "disk s4 = disk s3" "dtrace s4 = dtrace s3" "klog s4 = klog s3" "rest s4 = rest s3"
    using 4 2(3) 3(4,8,10) by (auto simp: insert_Diff_if)
  obtain s5 where 5: "brelse me i s4 = Ok s5" "bci me s5 ({i} - {i}) (set bl)" "blk s5 = blk s4" "disk s5 = disk s4"
      "dtrace s5 = dtrace s4" "klog s5 = klog s4" "rest s5 = rest s4"
    using release_step [OF 4(1) _ 4(2)] 4(3) by auto
  have "write_log_loop me (t # ts) s = write_log_loop me ts s5" for ts
    using 2(1,2,7) 3(1) 4(4) 5(1) d(1,2) d(4) [of t] t k1 by (simp add: log_slot_def Let_def)
  then show ?thesis using 5 4 3 by (intro exI [of _ s5]) simp
qed

lemma log_env_cong: "klog s' = klog s \<Longrightarrow> log_env s' st bl = log_env s st bl"
  by (simp add: log_env_def)

lemma write_log_loop_ok:
  assumes "log_env s st bl" "bci me s {} (set bl)" "k \<le> length bl"
  defines "ws \<equiv> \<lambda>f. map (\<lambda>t. (log_slot st t, f (bl ! t))) [k..<length bl]"
  shows "\<exists>s'. write_log_loop me [k..<length bl] s = Ok s' \<and> bci me s' {} (set bl) \<and> klog s' = klog s \<and>
    rest s' = rest s \<and> disk s' = apply_writes (ws (blk s)) (disk s) \<and> dtrace s' = dtrace s @ ws (blk s) \<and>
    (\<forall>n. n \<notin> log_area st \<longrightarrow> blk s' n = blk s n)"
  using assms(1-3) unfolding ws_def
proof (induction "length bl - k" arbitrary: k s)
  case 0
  then show ?case by simp
next
  case (Suc m)
  then have k: "k < length bl" and m: "m = length bl - Suc k" by simp_all
  then have l: "[k..<length bl] = k # [Suc k..<length bl]" by (simp add: upt_conv_Cons)
  obtain s1 where 1: "\<forall>ts. write_log_loop me (k # ts) s = write_log_loop me ts s1" "bci me s1 {} (set bl)"
      "klog s1 = klog s" "rest s1 = rest s" "disk s1 = (disk s)(log_slot st k := blk s (bl ! k))"
      "dtrace s1 = dtrace s @ [(log_slot st k, blk s (bl ! k))]" "blk s1 = (blk s)(log_slot st k := blk s (bl ! k))"
    using write_log_step [OF Suc.prems(1,2) k] by blast
  have a: "log_slot st k \<in> log_area st" using k log_envD(7) [OF Suc.prems(1)] by (simp add: log_slot_area NBUF_val)
  have same: "blk s1 n = blk s n" if "n \<notin> log_area st" for n using 1(7) a that by auto
  have e1: "log_env s1 st bl" using Suc.prems(1) log_env_cong [OF 1(3)] by simp
  obtain s' where s': "write_log_loop me [Suc k..<length bl] s1 = Ok s'" "bci me s' {} (set bl)" "klog s' = klog s1"
      "rest s' = rest s1" "disk s' = apply_writes (map (\<lambda>t. (log_slot st t, blk s1 (bl ! t))) [Suc k..<length bl]) (disk s1)"
      "dtrace s' = dtrace s1 @ map (\<lambda>t. (log_slot st t, blk s1 (bl ! t))) [Suc k..<length bl]"
      "\<forall>n. n \<notin> log_area st \<longrightarrow> blk s' n = blk s1 n"
    using Suc.hyps(1) [OF m e1 1(2)] k by auto
  have eq: "map (\<lambda>t. (log_slot st t, blk s1 (bl ! t))) [Suc k..<length bl]
      = map (\<lambda>t. (log_slot st t, blk s (bl ! t))) [Suc k..<length bl]"
    using same log_envD(6) [OF Suc.prems(1)] by (auto simp: disjoint_iff)
  show ?case unfolding l using s' [unfolded eq] 1(1,3-6) same
    by (intro exI [of _ s']) (simp del: upt_Suc write_log_loop.simps)
qed

text \<open>The blocks still pinned when \<^verbatim>\<open>install_trans\<close> has done the first \<open>k\<close>: none during recovery.\<close>

definition pins :: "bool \<Rightarrow> nat \<Rightarrow> u32 list \<Rightarrow> u32 set" where
  "pins recovering k bl = (if recovering then {} else set (drop k bl))"

lemma pins_step:
  assumes "distinct bl" "t < length bl"
  shows "\<not> r \<Longrightarrow> bl ! t \<in> pins r t bl" "\<not> r \<Longrightarrow> pins r t bl - {bl ! t} = pins r (Suc t) bl" "r \<Longrightarrow> pins r t bl = pins r (Suc t) bl"
    "finite (pins r t bl)" "card (pins r t bl) \<le> length bl" "pins r t bl \<subseteq> set bl"
proof -
  have d: "drop t bl = bl ! t # drop (Suc t) bl" using assms(2) by (simp add: Cons_nth_drop_Suc)
  have "distinct (drop t bl)" using assms(1) by simp
  then have "bl ! t \<notin> set (drop (Suc t) bl)" by (simp add: d)
  then show "\<not> r \<Longrightarrow> pins r t bl - {bl ! t} = pins r (Suc t) bl" by (auto simp: pins_def d)
  show "\<not> r \<Longrightarrow> bl ! t \<in> pins r t bl" by (simp add: pins_def d)
  show "card (pins r t bl) \<le> length bl"
    using card_length [of "drop t bl"] by (auto simp: pins_def)
  show "pins r t bl \<subseteq> set bl" using set_drop_subset [of t bl] by (simp add: pins_def)
qed (simp_all add: pins_def)

lemma install_step:
  assumes e: "log_env s st bl" and b: "bci me s {} (pins r t bl)" and t: "t < length bl" and np: "\<not> panicked s"
  defines "x \<equiv> disk s (log_slot st t)"
  shows "\<exists>s'. (\<forall>ts. install_trans_loop me r (t # ts) s = install_trans_loop me r ts s') \<and>
    bci me s' {} (pins r (Suc t) bl) \<and> klog s' = klog s \<and> rest s' = rest s \<and>
    disk s' = (disk s)(bl ! t := x) \<and> dtrace s' = dtrace s @ [(bl ! t, x)]"
proof -
  note d = log_envD [OF e]
  note p = pins_step [OF d(5) t, where r = r]
  let ?P = "pins r t bl" and ?a = "log_slot st t" and ?c = "bl ! t"
  have tl: "t < LOGBLOCKS" using t d(7) by (simp add: NBUF_val)
  have c: "?c \<in> set bl" using t by simp
  have a: "?a \<in> log_area st" using log_slot_area [OF tl] .
  have ne: "?a \<noteq> ?c" using a c d(6) by auto
  have aP: "?a \<notin> ?P" using a p(6) d(6) by blast
  have card: "card ?P + 1 < NBUF" using p(5) d(7) by (simp add: NBUF_val)
  obtain s0 where 0: "(if r then printf ''recovering tail %d dst %d\<newline>'' [VNum (of_nat t), VNum (ucast (logblock s t))] s
      else Ok s) = Ok s0" "\<exists>v. s0 = s\<lparr>uart_out := v\<rparr>"
  proof (cases r)
    case True
    then show ?thesis using printf_ok [OF np] that by (metis (full_types))
  next
    case False
    show ?thesis by (rule that [of s], simp add: False, rule exI [of _ "uart_out s"]) simp
  qed
  have k0: "klog s0 = klog s" "rest s0 = rest s" "disk s0 = disk s" "dtrace s0 = dtrace s" "bci me s0 {} ?P"
      "blk s0 = blk s" using 0(2) b by auto
  obtain i j s1 s2 where 2: "bread me ROOTDEV ?a s0 = Ok (i, s1)" "bread me ROOTDEV ?c s1 = Ok (j, s2)"
      "i \<noteq> j" "bci me s2 {i, j} ?P" "buf_of s2 i ?a" "buf_of s2 j ?c"
      "b_data (bufs s2 i) = blk s0 ?a" "\<exists>bs. s1 = s0\<lparr>bufs := bs\<rparr>" "\<exists>bs. s2 = s0\<lparr>bufs := bs\<rparr>"
    using two_bread [OF k0(5) p(4) card ne] by (elim exE conjE) (rule that; (assumption | blast))
  have x: "b_data (bufs s2 i) = x" using 2(7) blk_unpinned [OF b aP] k0(6) by (simp add: x_def)
  have k1: "klog s1 = klog s" using 2(8) k0 by auto
  have k2: "klog s2 = klog s" "disk s2 = disk s" "dtrace s2 = dtrace s" "rest s2 = rest s" using 2(9) k0 by auto
  have ji: "bci me s2 {j, i} ?P" "j \<noteq> i" using 2(3,4) by (simp_all add: insert_commute)
  obtain s3 where 3: "bwrite me j (set_data j x s2) = Ok s3" "bci me s3 {i, j} ?P" "disk s3 = (disk s)(?c := x)"
      "dtrace s3 = dtrace s @ [(?c, x)]" "klog s3 = klog s" "rest s3 = rest s" "buf_of s3 j ?c" "buf_of s3 i ?a"
      "b_data (bufs s3 j) = x" "b_data (bufs s3 i) = x"
    using overwrite_step [OF ji 2(6,5)] x k2 by (auto simp: insert_commute)
  define s4 where "s4 = (if \<not> r then bunpin j s3 else s3)"
  have cj: "b_blockno (bufs s3 j) = ?c" using 3(7) by (simp add: buf_of_def)
  have b4: "bci me s4 {i, j} (pins r (Suc t) bl)"
  proof (cases r)
    case True
    then show ?thesis using 3(2) p(3) by (simp add: s4_def)
  next
    case False
    then show ?thesis using bunpin_ok(1) [OF 3(2), of j, unfolded cj] p(1,2) by (simp add: s4_def)
  qed
  have k4: "disk s4 = disk s3" "dtrace s4 = dtrace s3" "klog s4 = klog s3" "rest s4 = rest s3"
      "buf_of s4 i ?a" "buf_of s4 j ?c" "b_data (bufs s4 i) = x" "b_data (bufs s4 j) = x"
    using 3(7-10) by (auto simp: s4_def bunpin_def buf_of_def)
  have "disk s4 ?a = x" "disk s4 ?c = x" using k4(1) 3(3) ne by (auto simp: x_def)
  note x4 = this
  obtain s5 where 5: "brelse me i s4 = Ok s5" "bci me s5 ({i, j} - {i}) (pins r (Suc t) bl)" "disk s5 = disk s4"
      "dtrace s5 = dtrace s4" "klog s5 = klog s4" "rest s5 = rest s4" "\<forall>k n. buf_of s5 k n = buf_of s4 k n"
      "\<forall>k. b_data (bufs s5 k) = b_data (bufs s4 k)"
    using release_step [OF b4 _ k4(5)] x4 k4(7) by auto
  have b5: "bci me s5 {j} (pins r (Suc t) bl)" using 5(2) 2(3) by (simp add: insert_Diff_if)
  obtain s6 where 6: "brelse me j s5 = Ok s6" "bci me s6 ({j} - {j}) (pins r (Suc t) bl)" "disk s6 = disk s5"
      "dtrace s6 = dtrace s5" "klog s6 = klog s5" "rest s6 = rest s5"
    using release_step [OF b5, of j ?c] 5(3,7,8) k4(6,8) x4 by auto
  have "install_trans_loop me r (t # ts) s = install_trans_loop me r ts s6" for ts
    using 0(1) 2(1,2) x 3(1) 5(1) 6(1) d(1,2) d(4) [OF t] k0(1) k1
    by (simp add: log_slot_def Let_def s4_def)
  then show ?thesis using 6 5 k4 3 by (intro exI [of _ s6]) simp
qed

lemma install_loop_ok:
  assumes "log_env s st bl" "bci me s {} (pins r k bl)" "k \<le> length bl" "\<not> panicked s"
  defines "ws \<equiv> \<lambda>f. map (\<lambda>t. (bl ! t, f (log_slot st t))) [k..<length bl]"
  shows "\<exists>s'. install_trans_loop me r [k..<length bl] s = Ok s' \<and> bci me s' {} {} \<and> klog s' = klog s \<and>
    rest s' = rest s \<and> disk s' = apply_writes (ws (disk s)) (disk s) \<and> dtrace s' = dtrace s @ ws (disk s)"
  using assms(1-4) unfolding ws_def
proof (induction "length bl - k" arbitrary: k s)
  case 0
  then show ?case by (auto simp: pins_def split: if_splits)
next
  case (Suc m)
  then have k: "k < length bl" and m: "m = length bl - Suc k" by simp_all
  then have l: "[k..<length bl] = k # [Suc k..<length bl]" by (simp add: upt_conv_Cons)
  note d = log_envD [OF Suc.prems(1)]
  obtain s1 where 1: "\<forall>ts. install_trans_loop me r (k # ts) s = install_trans_loop me r ts s1"
      "bci me s1 {} (pins r (Suc k) bl)" "klog s1 = klog s" "rest s1 = rest s"
      "disk s1 = (disk s)(bl ! k := disk s (log_slot st k))" "dtrace s1 = dtrace s @ [(bl ! k, disk s (log_slot st k))]"
    using install_step [OF Suc.prems(1,2) k Suc.prems(4)] by blast
  have e1: "log_env s1 st bl" using Suc.prems(1) log_env_cong [OF 1(3)] by simp
  have np: "\<not> panicked s1" using restD(9) [OF 1(4)] Suc.prems(4) by simp
  obtain s' where s': "install_trans_loop me r [Suc k..<length bl] s1 = Ok s'" "bci me s' {} {}" "klog s' = klog s1"
      "rest s' = rest s1" "disk s' = apply_writes (map (\<lambda>t. (bl ! t, disk s1 (log_slot st t))) [Suc k..<length bl]) (disk s1)"
      "dtrace s' = dtrace s1 @ map (\<lambda>t. (bl ! t, disk s1 (log_slot st t))) [Suc k..<length bl]"
    using Suc.hyps(1) [OF m e1 1(2) _ np] k by auto
  have "disk s1 (log_slot st t) = disk s (log_slot st t)" if "t < length bl" for t
  proof -
    have "log_slot st t \<in> log_area st" using that d(7) by (simp add: log_slot_area NBUF_val)
    moreover have "bl ! k \<in> set bl" using k by simp
    ultimately have "log_slot st t \<noteq> bl ! k" using d(6) by auto
    then show ?thesis by (simp add: 1(5))
  qed
  then have eq: "map (\<lambda>t. (bl ! t, disk s1 (log_slot st t))) [Suc k..<length bl]
      = map (\<lambda>t. (bl ! t, disk s (log_slot st t))) [Suc k..<length bl]" by simp
  show ?case unfolding l using s' [unfolded eq] 1(1,3-6)
    by (intro exI [of _ s']) (simp del: upt_Suc install_trans_loop.simps)
qed

section \<open>The header block\<close>

lemma get32_patch_disjoint:
  "o1 + length ys \<le> length xs \<Longrightarrow> p + 4 \<le> length xs \<Longrightarrow> p + 4 \<le> o1 \<or> o1 + length ys \<le> p \<Longrightarrow>
   get32 (patch xs o1 ys) p = get32 xs p"
  by (simp add: get32_def get_le_patch_disjoint)

text \<open>The block numbers a header block lists.\<close>

definition disk_blocks :: "u8 list \<Rightarrow> u32 list" where
  "disk_blocks d = map (\<lambda>i. get32 d (4 + 4 * i)) [0..<nat (sint (get32 d 0))]"

lemma head_fold:
  fixes bs :: "u32 list"
  assumes "k \<le> LOGBLOCKS" "length d = BSIZE"
  defines "D \<equiv> fold (\<lambda>i d. patch d (4 + 4 * i) (bytes32 (bs ! i))) [0..<k] d"
  shows "length D = BSIZE \<and> get32 D 0 = get32 d 0 \<and> (\<forall>i<k. get32 D (4 + 4 * i) = bs ! i)"
  using assms(1) unfolding D_def
proof (induction k)
  case (Suc k)
  let ?E = "fold (\<lambda>i d. patch d (4 + 4 * i) (bytes32 (bs ! i))) [0..<k] d"
  have k: "k < 30" using Suc.prems by (simp add: NBUF_val)
  have IH: "length ?E = BSIZE" "get32 ?E 0 = get32 d 0" "\<And>i. i < k \<Longrightarrow> get32 ?E (4 + 4 * i) = bs ! i"
    using Suc by simp_all
  have "get32 (patch ?E (4 + 4 * k) (bytes32 (bs ! k))) (4 + 4 * i) = bs ! i" if "i < Suc k" for i
    using that IH(1,3) k by (cases "i = k") (auto simp: get32_patch_disjoint)
  moreover have "get32 (patch ?E (4 + 4 * k) (bytes32 (bs ! k))) 0 = get32 d 0"
    using IH(1,2) k by (subst get32_patch_disjoint) auto
  ultimately show ?case using IH(1) k by simp
qed (use assms(2) in simp)

lemma head_image_blocks:
  assumes "lh_n h = int n" "n \<le> LOGBLOCKS" "length d = BSIZE" "n \<le> length (lh_block h)"
  shows "length (head_image h d) = BSIZE" "disk_blocks (head_image h d) = take n (lh_block h)"
    "sint (get32 (head_image h d) 0) = int n"
proof -
  let ?d = "patch d 0 (bytes32 (word_of_int (lh_n h)))"
  have l: "length ?d = BSIZE" using assms(3) by simp
  note f = head_fold [OF assms(2) l, of "lh_block h"]
  have e: "head_image h d = fold (\<lambda>i d. patch d (4 + 4 * i) (bytes32 (lh_block h ! i))) [0..<n] ?d"
    using assms(1) by (simp add: head_image_def)
  show "length (head_image h d) = BSIZE" unfolding e using f by blast
  have "get32 (head_image h d) 0 = word_of_int (int n)"
    unfolding e using f assms(1,3) by simp
  moreover have "sint (word_of_int (int n) :: u32) = int n"
    using assms(2) by (subst sint_sbintrunc') (simp add: NBUF_val signed_take_bit_int_eq_self)
  ultimately show s: "sint (get32 (head_image h d) 0) = int n" by simp
  show "disk_blocks (head_image h d) = take n (lh_block h)"
    unfolding disk_blocks_def s using f assms(4) unfolding e [symmetric]
    by (intro nth_equalityI) simp_all
qed

lemma write_head_ok:
  assumes b: "bci me s {} P" "finite P" "card P < NBUF" and st: "lg_start (klog s) = st" "st \<notin> P"
    and h: "lg_dev (klog s) = ROOTDEV" "lh_n (lg_lh (klog s)) = int n" "n \<le> LOGBLOCKS"
      "length (lh_block (lg_lh (klog s))) = LOGBLOCKS"
  defines "x \<equiv> head_image (lg_lh (klog s)) (disk s st)"
  shows "\<exists>s'. write_head me s = Ok s' \<and> bci me s' {} P \<and> klog s' = klog s \<and> rest s' = rest s \<and>
    disk s' = (disk s)(st := x) \<and> dtrace s' = dtrace s @ [(st, x)] \<and> (\<forall>m. m \<noteq> st \<longrightarrow> blk s' m = blk s m)"
proof -
  obtain i s1 where 1: "bread me ROOTDEV st s = Ok (i, s1)" "bci me s1 {i} P" "buf_of s1 i st"
      "b_data (bufs s1 i) = blk s st" "blk s1 = blk s" "\<exists>bs. s1 = s\<lparr>bufs := bs\<rparr>"
    using bread_ok [OF b(1,2), of st] b(3) by auto
  have k1: "klog s1 = klog s" "rest s1 = rest s" "disk s1 = disk s" "dtrace s1 = dtrace s" using 1(6) by auto
  have d: "b_data (bufs s1 i) = disk s st" using 1(4) blk_unpinned [OF b(1) st(2)] by simp
  have "length (disk s st) = BSIZE" using bciD(10) [OF b(1)] .
  then have len: "length x = BSIZE" unfolding x_def using head_image_blocks(1) [OF h(2,3)] h(3,4) by simp
  have n: "b_blockno (bufs s1 i) = st" using 1(3) by (simp add: buf_of_def)
  let ?t = "set_data i x s1"
  have t: "bci me ?t {i} P" "blk ?t = (blk s)(st := x)" using set_data_ok(1,2) [OF 1(2) _ len, of i] n 1(5) by simp_all
  obtain s2 where 2: "bwrite me i ?t = Ok s2" "bci me s2 {i} P" "blk s2 = blk ?t" "bufs s2 = bufs ?t"
      "s2 = ?t\<lparr>disk := (disk ?t)(st := x), dtrace := dtrace ?t @ [(st, x)]\<rparr>"
    using bwrite_ok [OF t(1), of i] n by auto
  have k2: "klog s2 = klog s" "rest s2 = rest s" "disk s2 = (disk s)(st := x)" "dtrace s2 = dtrace s @ [(st, x)]"
      "buf_of s2 i st" "b_data (bufs s2 i) = disk s2 st"
    unfolding 2(5) using k1 1(3) by (simp_all add: set_data_def buf_of_def)
  obtain s3 where 3: "brelse me i s2 = Ok s3" "bci me s3 ({i} - {i}) P" "blk s3 = blk s2" "disk s3 = disk s2"
      "dtrace s3 = dtrace s2" "klog s3 = klog s2" "rest s3 = rest s2"
    using release_step [OF 2(2) _ k2(5)] k2(6) by auto
  have "write_head me s = Ok s3"
    using 1(1) 2(1) 3(1) st(1) h(1) d k1 by (simp add: write_head_def x_def Let_def)
  then show ?thesis using 3 k2 2(3) t(2) by (intro exI [of _ s3]) simp
qed

lemma read_head_fold:
  fixes f :: "nat \<Rightarrow> u32" and ks :: "nat list"
  defines "g \<equiv> \<lambda>i. upd_log (\<lambda>l. l\<lparr>lg_lh := (lg_lh l)\<lparr>lh_block := (lh_block (lg_lh l))[i := f i]\<rparr>\<rparr>)"
  shows "fold g ks s = upd_log (\<lambda>l. l\<lparr>lg_lh := (lg_lh l)\<lparr>lh_block := fold (\<lambda>i bs. bs[i := f i]) ks (lh_block (lg_lh l))\<rparr>\<rparr>) s"
  by (induction ks arbitrary: s) (simp_all add: g_def upd_log_def)

lemma fold_list_update:
  "n \<le> length bs \<Longrightarrow> fold (\<lambda>i bs. bs[i := f i]) [0..<n] bs = map f [0..<n] @ drop n bs"
proof (induction n)
  case (Suc n)
  then have "fold (\<lambda>i bs. bs[i := f i]) [0..<n] bs = map f [0..<n] @ drop n bs" by simp
  moreover have "drop n bs = bs ! n # drop (Suc n) bs" using Suc.prems by (simp add: Cons_nth_drop_Suc)
  ultimately show ?case by (simp add: list_update_append)
qed simp

text \<open>
  Reading the header brings the block numbers on disk into memory.
\<close>

lemma read_head_ok:
  assumes b: "bci me s {} {}" and st: "lg_start (klog s) = st" "lg_dev (klog s) = ROOTDEV"
      "length (lh_block (lg_lh (klog s))) = LOGBLOCKS"
    and n: "0 \<le> sint (get32 (disk s st) 0)" "length (disk_blocks (disk s st)) \<le> LOGBLOCKS"
  shows "\<exists>s'. read_head me s = Ok s' \<and> bci me s' {} {} \<and> rest s' = rest s \<and> disk s' = disk s \<and> dtrace s' = dtrace s \<and>
    lg_start (klog s') = st \<and> lg_dev (klog s') = ROOTDEV \<and> length (lh_block (lg_lh (klog s'))) = LOGBLOCKS \<and>
    lh_n (lg_lh (klog s')) = int (length (disk_blocks (disk s st))) \<and>
    take (length (disk_blocks (disk s st))) (lh_block (lg_lh (klog s'))) = disk_blocks (disk s st)"
proof -
  let ?x = "disk s st" and ?n = "nat (sint (get32 (disk s st) 0))"
  obtain i s1 where 1: "bread me ROOTDEV st s = Ok (i, s1)" "bci me s1 {i} {}" "buf_of s1 i st"
      "b_data (bufs s1 i) = blk s st" "\<exists>bs. s1 = s\<lparr>bufs := bs\<rparr>"
    using bread_ok [OF b, of st] by (auto simp: NBUF_val)
  have k1: "klog s1 = klog s" "rest s1 = rest s" "disk s1 = disk s" "dtrace s1 = dtrace s" using 1(5) by auto
  have x: "b_data (bufs s1 i) = ?x" using 1(4) blk_unpinned [OF b] by simp
  have ln: "?n \<le> length (lh_block (lg_lh (klog s1)))" using n(2) st(3) k1(1) by (simp add: disk_blocks_def)
  define s2 where "s2 = upd_log (\<lambda>l. l\<lparr>lg_lh := (lg_lh l)\<lparr>lh_block := fold (\<lambda>i bs. bs[i := get32 ?x (4 + 4 * i)])
    [0..<?n] (lh_block (lg_lh l))\<rparr>\<rparr>) (set_lh_n (sint (get32 ?x 0)) s1)"
  have k2: "klog s2 = (klog s)\<lparr>lg_lh := \<lparr>lh_n = sint (get32 ?x 0),
      lh_block = disk_blocks ?x @ drop ?n (lh_block (lg_lh (klog s)))\<rparr>\<rparr>"
    using fold_list_update [OF ln, of "\<lambda>i. get32 ?x (4 + 4 * i)"] k1(1) by (simp add: s2_def disk_blocks_def)
  have b2: "bci me s2 {i} {}" "buf_of s2 i st" "b_data (bufs s2 i) = disk s2 st" "disk s2 = disk s" "dtrace s2 = dtrace s"
      "rest s2 = rest s"
    using 1(2,3) x k1 by (simp_all add: s2_def buf_of_def)
  obtain s3 where 3: "brelse me i s2 = Ok s3" "bci me s3 ({i} - {i}) {}" "disk s3 = disk s2" "dtrace s3 = dtrace s2"
      "klog s3 = klog s2" "rest s3 = rest s2"
    using release_step [OF b2(1) _ b2(2)] b2(3) by auto
  have "read_head me s = Ok s3"
    using 1(1) st x 3(1) by (simp add: read_head_def Let_def read_head_fold s2_def)
  moreover have "length (disk_blocks ?x) = ?n" by (simp add: disk_blocks_def)
  ultimately show ?thesis using 3 b2 k2 n st(1-3) by (intro exI [of _ s3]) simp
qed

section \<open>Commit and recovery\<close>

definition log_writes :: "u32 \<Rightarrow> u32 list \<Rightarrow> (u32 \<Rightarrow> u8 list) \<Rightarrow> (u32 \<times> u8 list) list" where
  "log_writes st bl f = map (\<lambda>t. (log_slot st t, f (bl ! t))) [0..<length bl]"

definition home_writes :: "u32 list \<Rightarrow> (u32 \<Rightarrow> u8 list) \<Rightarrow> (u32 \<times> u8 list) list" where
  "home_writes bl f = map (\<lambda>t. (bl ! t, f (bl ! t))) [0..<length bl]"

lemma length_writes [simp]: "length (log_writes st bl f) = length bl" "length (home_writes bl f) = length bl"
  by (simp_all add: log_writes_def home_writes_def)

lemma log_writes_area: "length bl \<le> LOGBLOCKS \<Longrightarrow> fst ` set (log_writes st bl f) \<subseteq> log_area st - {st}"
  using log_slot_area log_slot_start by (auto simp: log_writes_def)

lemma home_writes_set: "fst ` set (home_writes bl f) \<subseteq> set bl"
  by (auto simp: home_writes_def)

lemma log_writes_slot:
  assumes "length bl \<le> LOGBLOCKS" "t < length bl"
  shows "apply_writes (log_writes st bl f) d (log_slot st t) = f (bl ! t)"
proof -
  have "inj_on (log_slot st) {0..<length bl}"
    by (rule inj_onI) (use log_slot_inj assms(1) in \<open>auto intro: log_slot_inj\<close>)
  then have "distinct (map (log_slot st) [0..<length bl])" by (simp add: distinct_map)
  then show ?thesis
    using apply_writes_map [of "log_slot st" "[0..<length bl]" t "\<lambda>t. f (bl ! t)" d] assms(2)
    by (simp add: log_writes_def)
qed

lemma home_writes_block:
  assumes "distinct bl" "n \<in> set bl" shows "apply_writes (home_writes bl f) d n = f n"
proof -
  obtain t where t: "t < length bl" "n = bl ! t" using assms(2) by (auto simp: in_set_conv_nth)
  have "distinct (map (\<lambda>t. bl ! t) [0..<length bl])" using assms(1) by (simp add: map_nth)
  then show ?thesis
    using apply_writes_map [of "\<lambda>t. bl ! t" "[0..<length bl]" t "\<lambda>t. f (bl ! t)" d] t
    by (simp add: home_writes_def)
qed

lemma commit_ok:
  assumes e: "log_env s st bl" and b: "bci me s {} (set bl)" and ne: "bl \<noteq> []" and np: "\<not> panicked s"
  shows "\<exists>s' h1 h2. commit me s = Ok s' \<and> bci me s' {} {} \<and> log_env s' st [] \<and> rest s' = rest s \<and>
    (let ws = log_writes st bl (blk s) @ [(st, h1)] @ home_writes bl (blk s) @ [(st, h2)] in
     dtrace s' = dtrace s @ ws \<and> disk s' = apply_writes ws (disk s)) \<and>
    disk_blocks h1 = bl \<and> 0 \<le> sint (get32 h1 0) \<and> disk_blocks h2 = [] \<and> 0 \<le> sint (get32 h2 0) \<and>
    lg_outstanding (klog s') = lg_outstanding (klog s) \<and> lg_committing (klog s') = lg_committing (klog s)"
proof -
  note d = log_envD [OF e]
  let ?n = "length bl"
  have n: "?n \<le> LOGBLOCKS" using d(7) by (simp add: NBUF_val)
  have hn: "lh_n (lg_lh (klog s)) = int ?n" "length (lh_block (lg_lh (klog s))) = LOGBLOCKS"
      "take ?n (lh_block (lg_lh (klog s))) = bl" using e by (simp_all add: log_env_def)
  have area: "st \<notin> set bl" using d(6) by (auto simp: log_area_def)
  have cd: "card (set bl) < NBUF" using d(5,7) by (simp add: distinct_card NBUF_val)
  obtain s1 where 1: "write_log me s = Ok s1" "bci me s1 {} (set bl)" "klog s1 = klog s" "rest s1 = rest s"
      "disk s1 = apply_writes (log_writes st bl (blk s)) (disk s)" "dtrace s1 = dtrace s @ log_writes st bl (blk s)"
    using write_log_loop_ok [OF e b, of 0] d(3) by (auto simp: write_log_def log_writes_def)
  define h1 where "h1 = head_image (lg_lh (klog s)) (disk s1 st)"
  obtain s2 where 2: "write_head me s1 = Ok s2" "bci me s2 {} (set bl)" "klog s2 = klog s" "rest s2 = rest s"
      "disk s2 = (disk s1)(st := h1)" "dtrace s2 = dtrace s1 @ [(st, h1)]"
    using write_head_ok [OF 1(2) finite_set cd _ area, of ?n] 1(3,4) d(1,2) hn n unfolding h1_def by auto
  have e2: "log_env s2 st bl" using e log_env_cong [OF 2(3)] by simp
  have "bci me s2 {} (pins False 0 bl)" using 2(2) by (simp add: pins_def)
  moreover have "\<not> panicked s2" using restD(9) [OF 2(4)] np by simp
  ultimately obtain s3 where 3: "install_trans me False s2 = Ok s3" "bci me s3 {} {}" "klog s3 = klog s2" "rest s3 = rest s2"
      "disk s3 = apply_writes (map (\<lambda>t. (bl ! t, disk s2 (log_slot st t))) [0..<?n]) (disk s2)"
      "dtrace s3 = dtrace s2 @ map (\<lambda>t. (bl ! t, disk s2 (log_slot st t))) [0..<?n]"
    using install_loop_ok [OF e2, of me False 0] log_envD(3) [OF e2] by (auto simp: install_trans_def)
  have hw: "map (\<lambda>t. (bl ! t, disk s2 (log_slot st t))) [0..<?n] = home_writes bl (blk s)"
  proof -
    have "disk s2 (log_slot st t) = blk s (bl ! t)" if "t < ?n" for t
      using log_writes_slot [OF n that] log_slot_start [of t st] that n by (simp add: 2(5) 1(5))
    then show ?thesis by (simp add: home_writes_def)
  qed
  let ?s3 = "set_lh_n 0 s3"
  have k3: "klog ?s3 = (klog s)\<lparr>lg_lh := (lg_lh (klog s))\<lparr>lh_n := 0\<rparr>\<rparr>" using 3(3) 2(3) by simp
  define h2 where "h2 = head_image (lg_lh (klog ?s3)) (disk ?s3 st)"
  obtain s4 where 4: "write_head me ?s3 = Ok s4" "bci me s4 {} {}" "klog s4 = klog ?s3" "rest s4 = rest ?s3"
      "disk s4 = (disk ?s3)(st := h2)" "dtrace s4 = dtrace ?s3 @ [(st, h2)]"
    using write_head_ok [of me ?s3 "{}" st 0] 3(2,3) 2(3) d(1,2) hn(2) unfolding h2_def by (auto simp: NBUF_val)
  have len: "length (disk s1 st) = BSIZE" "length (disk ?s3 st) = BSIZE"
    using bciD(10) [OF 1(2)] bciD(10) [OF 3(2)] by simp_all
  have "commit me s = Ok s4" using 1(1) 2(1) 3(1) 4(1) ne hn(1) by (simp add: commit_def)
  moreover have "disk_blocks h1 = bl" "0 \<le> sint (get32 h1 0)"
    using head_image_blocks(2,3) [OF hn(1) n len(1)] hn(2,3) n by (simp_all add: h1_def)
  moreover have "disk_blocks h2 = []" "0 \<le> sint (get32 h2 0)"
    using head_image_blocks(2,3) [of "lg_lh (klog ?s3)" 0, OF _ _ len(2)] by (simp_all add: h2_def)
  moreover have "log_env s4 st []" using e 4(3) k3 by (simp add: log_env_def NBUF_val)
  moreover have "dtrace s4 = dtrace s @ log_writes st bl (blk s) @ [(st, h1)] @ home_writes bl (blk s) @ [(st, h2)]"
      "disk s4 = apply_writes (log_writes st bl (blk s) @ [(st, h1)] @ home_writes bl (blk s) @ [(st, h2)]) (disk s)"
    using 4(5,6) 3(5,6) 2(5,6) 1(5,6) hw by simp_all
  ultimately show ?thesis using 4(2,3,4) 3(4) 2(4) k3
    by (intro exI [of _ s4] exI [of _ h1] exI [of _ h2]) (simp add: Let_def)
qed

lemma recover_ok:
  assumes b: "bci me s {} {}" and np: "\<not> panicked s"
    and st: "lg_start (klog s) = st" "lg_dev (klog s) = ROOTDEV" "length (lh_block (lg_lh (klog s))) = LOGBLOCKS"
    and hd: "disk_blocks (disk s st) = bl" "0 \<le> sint (get32 (disk s st) 0)"
    and bl: "distinct bl" "set bl \<inter> log_area st = {}" "length bl + 2 \<le> NBUF"
  shows "\<exists>s'. recover_from_log me s = Ok s' \<and> bci me s' {} {} \<and> rest s' = rest s \<and> log_env s' st [] \<and>
    disk_blocks (disk s' st) = [] \<and> (\<forall>t<length bl. disk s' (bl ! t) = disk s (log_slot st t)) \<and>
    (\<forall>n. n \<notin> set bl \<longrightarrow> n \<noteq> st \<longrightarrow> disk s' n = disk s n)"
proof -
  have n: "length bl \<le> LOGBLOCKS" using bl(3) by (simp add: NBUF_val)
  obtain s1 where 1: "read_head me s = Ok s1" "bci me s1 {} {}" "rest s1 = rest s" "disk s1 = disk s"
      "lg_start (klog s1) = st" "lg_dev (klog s1) = ROOTDEV" "length (lh_block (lg_lh (klog s1))) = LOGBLOCKS"
      "lh_n (lg_lh (klog s1)) = int (length bl)" "take (length bl) (lh_block (lg_lh (klog s1))) = bl"
    using read_head_ok [OF b st hd(2)] hd(1) n by auto
  have e: "log_env s1 st bl" using 1(5-9) bl by (simp add: log_env_def)
  have "bci me s1 {} (pins True 0 bl)" "\<not> panicked s1"
    using 1(2) restD(9) [OF 1(3)] np by (simp_all add: pins_def)
  then obtain s2 where 2: "install_trans me True s1 = Ok s2" "bci me s2 {} {}" "klog s2 = klog s1" "rest s2 = rest s1"
      "disk s2 = apply_writes (map (\<lambda>t. (bl ! t, disk s1 (log_slot st t))) [0..<length bl]) (disk s1)"
    using install_loop_ok [OF e, of me True 0] log_envD(3) [OF e] by (auto simp: install_trans_def)
  let ?s2 = "set_lh_n 0 s2"
  obtain s3 where 3: "write_head me ?s2 = Ok s3" "bci me s3 {} {}" "klog s3 = klog ?s2" "rest s3 = rest ?s2"
      "disk s3 = (disk ?s2)(st := head_image (lg_lh (klog ?s2)) (disk ?s2 st))"
    using write_head_ok [of me ?s2 "{}" st 0] 2(2,3) 1(5-7) by (auto simp: NBUF_val)
  have stbl: "st \<notin> set bl" using bl(2) by (auto simp: log_area_def)
  have "length (disk s2 st) = BSIZE" using bciD(10) [OF 2(2)] .
  then have "disk_blocks (disk s3 st) = []"
    using head_image_blocks(2) [of "lg_lh (klog ?s2)" 0 "disk s2 st"] 3(5) by simp
  moreover have "disk s3 (bl ! t) = disk s (log_slot st t)" if t: "t < length bl" for t
  proof -
    have "distinct (map (\<lambda>t. bl ! t) [0..<length bl])" using bl(1) by (simp add: map_nth)
    then have "disk s2 (bl ! t) = disk s1 (log_slot st t)"
      using apply_writes_map [of "\<lambda>t. bl ! t" "[0..<length bl]" t] t 2(5) by simp
    moreover have "bl ! t \<noteq> st" using stbl t by (metis nth_mem)
    ultimately show ?thesis using 3(5) 1(4) by simp
  qed
  moreover have "disk s3 m = disk s m" if "m \<notin> set bl" "m \<noteq> st" for m
    using apply_writes_other [of m "map (\<lambda>t. (bl ! t, disk s1 (log_slot st t))) [0..<length bl]" "disk s1"]
      that 3(5) 2(5) 1(4) by (force simp: set_conv_nth)
  moreover have "recover_from_log me s = Ok s3" using 1(1) 2(1) 3(1) by (simp add: recover_from_log_def)
  moreover have "log_env s3 st []" using e 3(3) 2(3) by (simp add: log_env_def NBUF_val)
  ultimately show ?thesis using 3(2,4) 2(4) 1(3) by (intro exI [of _ s3]) simp
qed

text \<open>A machine that has just booted with disk \<open>d\<close>: an empty cache and nothing logged.\<close>

definition rebooted :: "nat \<Rightarrow> (u32 \<Rightarrow> u8 list) \<Rightarrow> kernel \<Rightarrow> bool" where
  "rebooted me d r \<longleftrightarrow> bci me r {} {} \<and> disk r = d \<and> \<not> panicked r \<and>
     length (lh_block (lg_lh (klog r))) = LOGBLOCKS"

lemma reboot_recovers:
  assumes r: "rebooted me d r" and sbk: "sb_logstart sbk = st"
    and hd: "disk_blocks (d st) = bl" "0 \<le> sint (get32 (d st) 0)"
    and bl: "distinct bl" "set bl \<inter> log_area st = {}" "length bl + 2 \<le> NBUF"
  shows "\<exists>r'. initlog me ROOTDEV sbk r = Ok r' \<and> bci me r' {} {} \<and> log_env r' st [] \<and> disk_blocks (disk r' st) = [] \<and>
    (\<forall>t<length bl. disk r' (bl ! t) = d (log_slot st t)) \<and> (\<forall>n. n \<notin> set bl \<longrightarrow> n \<noteq> st \<longrightarrow> disk r' n = d n)"
proof -
  let ?r = "upd_log (\<lambda>l. l\<lparr>lg_start := st, lg_dev := ROOTDEV\<rparr>) r"
  have np: "\<not> panicked ?r" using r by (simp add: rebooted_def upd_log_def)
  have "initlog me ROOTDEV sbk r = recover_from_log me ?r" by (simp add: initlog_def sbk NBUF_val)
  then show ?thesis
    using recover_ok [of me ?r st bl] np r hd bl by (auto simp: rebooted_def)
qed

lemma take_append_cases:
  "take k (xs @ ys) = (if k \<le> length xs then take k xs else xs @ take (k - length xs) ys)"
  by auto

text \<open>
  The disk after a prefix of the writes of a commit: nothing but log blocks written, or the header
  written and all copies in the log, or everything in place.
\<close>

lemma crash_disk:
  fixes f d :: "u32 \<Rightarrow> u8 list" and ha hb :: "u8 list"
  assumes n: "length bl \<le> LOGBLOCKS" and bl: "distinct bl" "set bl \<inter> log_area st = {}"
  defines "ws \<equiv> log_writes st bl f @ [(st, ha)] @ home_writes bl f @ [(st, hb)]"
  defines "e \<equiv> \<lambda>k. apply_writes (take k ws) d"
  shows "k \<le> length bl \<Longrightarrow> e k st = d st \<and> (\<forall>m. m \<notin> log_area st \<longrightarrow> e k m = d m)"
    "length bl < k \<Longrightarrow> k \<le> 2 * length bl + 1 \<Longrightarrow>
      e k st = ha \<and> (\<forall>t<length bl. e k (log_slot st t) = f (bl ! t)) \<and>
      (\<forall>m. m \<notin> log_area st \<longrightarrow> m \<notin> set bl \<longrightarrow> e k m = d m)"
    "2 * length bl + 1 < k \<Longrightarrow>
      e k st = hb \<and> (\<forall>m. m \<notin> log_area st \<longrightarrow> e k m = (if m \<in> set bl then f m else d m))"
proof -
  let ?n = "length bl" and ?A = "log_writes st bl f" and ?B = "home_writes bl f"
  have st: "st \<notin> set bl" "st \<in> log_area st" using bl(2) by (auto simp: log_area_def)
  have A_out: "apply_writes (take j ?A) x m = x m" if "m \<notin> log_area st - {st}" for j x m
    using apply_writes_other [of m "take j ?A" x] log_writes_area [OF n] set_take_subset [of j ?A] that by blast
  have B_out: "apply_writes (take j ?B) x m = x m" if "m \<notin> set bl" for j x m
    using apply_writes_other [of m "take j ?B" x] home_writes_set [of bl f] set_take_subset [of j ?B] that by blast
  show "e k st = d st \<and> (\<forall>m. m \<notin> log_area st \<longrightarrow> e k m = d m)" if "k \<le> ?n"
    using that A_out by (simp add: e_def ws_def take_append_cases)
  show "e k st = hb \<and> (\<forall>m. m \<notin> log_area st \<longrightarrow> e k m = (if m \<in> set bl then f m else d m))" if "2 * ?n + 1 < k"
    using that home_writes_block [OF bl(1)] A_out [of _ ?n] B_out [of _ ?n] st by (auto simp: e_def ws_def)
  assume k: "?n < k" "k \<le> 2 * ?n + 1"
  then obtain j where "k = Suc (?n + j)" "j \<le> ?n" using less_imp_Suc_add [of ?n k] by auto
  then have e: "e k = apply_writes (take j ?B) ((apply_writes ?A d)(st := ha))"
    by (simp add: e_def ws_def take_append_cases)
  have "e k (log_slot st t) = f (bl ! t)" if t: "t < ?n" for t
  proof -
    have a: "log_slot st t \<in> log_area st" "log_slot st t \<noteq> st"
      using t n log_slot_area [of t st] log_slot_start [of t st] by simp_all
    then have "log_slot st t \<notin> set bl" using bl(2) by blast
    then show ?thesis using B_out a(2) log_writes_slot [OF n t] by (simp add: e)
  qed
  then show "e k st = ha \<and> (\<forall>t<?n. e k (log_slot st t) = f (bl ! t)) \<and>
      (\<forall>m. m \<notin> log_area st \<longrightarrow> m \<notin> set bl \<longrightarrow> e k m = d m)"
    using B_out A_out [of _ ?n] st by (auto simp: e)
qed

text \<open>
  (C3) Committing a transaction is atomic with respect to crashes. Let the log hold a transaction
  of distinct blocks outside the log area, with the on-disk header clear. Then \<^verbatim>\<open>commit\<close> succeeds, and
  if the machine stops after any prefix of the disk writes it makes, rebooting and running
  \<^verbatim>\<open>initlog\<close> succeeds and leaves every block outside the log either as it was before the transaction
  or, for all blocks at once, as the transaction left it; the log is clear again. If all the writes
  are done, the transaction is there.
\<close>

theorem commit_crash_atomic:
  assumes env: "log_env s st bl" "bci me s {} (set bl)" "bl \<noteq> []" "\<not> panicked s"
    and clear: "disk_blocks (disk s st) = []" "0 \<le> sint (get32 (disk s st) 0)"
    and sbk: "sb_logstart sbk = st"
  shows "\<exists>s' ws. commit me s = Ok s' \<and> dtrace s' = dtrace s @ ws \<and> disk s' = apply_writes ws (disk s) \<and>
    (\<forall>k r. rebooted me (apply_writes (take k ws) (disk s)) r \<longrightarrow>
      (\<exists>r'. initlog me ROOTDEV sbk r = Ok r' \<and> bci me r' {} {} \<and> disk_blocks (disk r' st) = [] \<and>
        ((\<forall>n. n \<notin> log_area st \<longrightarrow> disk r' n = disk s n) \<and> k < length ws \<or>
         (\<forall>n. n \<notin> log_area st \<longrightarrow> disk r' n = blk s n))))"
proof -
  note d = log_envD [OF env(1)]
  let ?n = "length bl" and ?d = "disk s"
  obtain s' h1 h2 where c: "commit me s = Ok s'"
      "dtrace s' = dtrace s @ log_writes st bl (blk s) @ [(st, h1)] @ home_writes bl (blk s) @ [(st, h2)]"
      "disk s' = apply_writes (log_writes st bl (blk s) @ [(st, h1)] @ home_writes bl (blk s) @ [(st, h2)]) ?d"
      "disk_blocks h1 = bl" "0 \<le> sint (get32 h1 0)" "disk_blocks h2 = []" "0 \<le> sint (get32 h2 0)"
    using commit_ok [OF env] by (auto simp: Let_def)
  let ?ws = "log_writes st bl (blk s) @ [(st, h1)] @ home_writes bl (blk s) @ [(st, h2)]"
  have n: "?n \<le> LOGBLOCKS" "?n + 2 \<le> NBUF" using d(7) by (simp_all add: NBUF_val)
  note cd = crash_disk [OF n(1) d(5,6), where f = "blk s" and d = ?d and ha = h1 and hb = h2]
  have st: "m \<notin> log_area st \<Longrightarrow> m \<noteq> st" for m by (auto simp: log_area_def)
  have old: "blk s m = ?d m" if "m \<notin> set bl" for m using blk_unpinned [OF env(2) that] .
  have "\<exists>r'. initlog me ROOTDEV sbk r = Ok r' \<and> bci me r' {} {} \<and> disk_blocks (disk r' st) = [] \<and>
        ((\<forall>m. m \<notin> log_area st \<longrightarrow> disk r' m = ?d m) \<and> k < length ?ws \<or> (\<forall>m. m \<notin> log_area st \<longrightarrow> disk r' m = blk s m))"
    if r: "rebooted me (apply_writes (take k ?ws) ?d) r" for k r
  proof -
    let ?e = "apply_writes (take k ?ws) ?d"
    consider "k \<le> ?n" | "?n < k" "k \<le> 2 * ?n + 1" | "2 * ?n + 1 < k" by linarith
    then show ?thesis
    proof cases
      case 1
      note e = cd(1) [OF 1]
      obtain r' where r': "initlog me ROOTDEV sbk r = Ok r'" "bci me r' {} {}" "disk_blocks (disk r' st) = []"
          "\<forall>m. m \<noteq> st \<longrightarrow> disk r' m = ?e m"
        using reboot_recovers [OF r sbk, of "[]"] clear e by (auto simp: NBUF_val)
      then show ?thesis using 1 e st by (intro exI [of _ r']) simp
    next
      case 2
      note e = cd(2) [OF 2]
      obtain r' where r': "initlog me ROOTDEV sbk r = Ok r'" "bci me r' {} {}" "disk_blocks (disk r' st) = []"
          "\<forall>t<?n. disk r' (bl ! t) = ?e (log_slot st t)" "\<forall>m. m \<notin> set bl \<longrightarrow> m \<noteq> st \<longrightarrow> disk r' m = ?e m"
        using reboot_recovers [OF r sbk, of bl] c(4,5) d(5,6) n(2) e by auto
      have "disk r' m = blk s m" if m: "m \<notin> log_area st" for m
        using r'(4,5) e old st [OF m] m by (cases "m \<in> set bl") (auto simp: in_set_conv_nth)
      then show ?thesis using r'(1-3) by (intro exI [of _ r']) simp
    next
      case 3
      note e = cd(3) [OF 3]
      obtain r' where r': "initlog me ROOTDEV sbk r = Ok r'" "bci me r' {} {}" "disk_blocks (disk r' st) = []"
          "\<forall>m. m \<noteq> st \<longrightarrow> disk r' m = ?e m"
        using reboot_recovers [OF r sbk, of "[]"] c(6,7) e by (auto simp: NBUF_val)
      then have "disk r' m = blk s m" if "m \<notin> log_area st" for m using that e old st by simp
      then show ?thesis using r'(1-3) by (intro exI [of _ r']) simp
    qed
  qed
  then show ?thesis using c(1-3) by (intro exI [of _ s'] exI [of _ ?ws]) simp
qed

section \<open>Recording blocks\<close>

text \<open>\<open>log_list h bl\<close>: the header lists the blocks \<open>bl\<close>.\<close>

definition log_list :: "logheader \<Rightarrow> u32 list \<Rightarrow> bool" where
  "log_list h bl \<longleftrightarrow> lh_n h = int (length bl) \<and> length (lh_block h) = LOGBLOCKS \<and>
     take (length bl) (lh_block h) = bl \<and> distinct bl"

definition absorb :: "u32 \<Rightarrow> u32 list \<Rightarrow> u32 list" where
  "absorb n bl = (if n \<in> set bl then bl else bl @ [n])"

lemma absorb_index_spec:
  assumes "log_list h bl"
  shows "n \<in> set bl \<Longrightarrow> absorb_index n h < length bl \<and> bl ! absorb_index n h = n"
    "n \<notin> set bl \<Longrightarrow> absorb_index n h = length bl"
proof -
  have nth: "i < length bl \<Longrightarrow> lh_block h ! i = bl ! i" for i
    using assms unfolding log_list_def by (metis nth_take)
  have l: "nat (lh_n h) = length bl" using assms by (simp add: log_list_def)
  show "absorb_index n h = length bl" if "n \<notin> set bl"
  proof -
    have "find (\<lambda>i. lh_block h ! i = n) [0..<length bl] = None"
      using that nth by (auto simp: find_None_iff)
    then show ?thesis by (simp add: absorb_index_def l)
  qed
  show "absorb_index n h < length bl \<and> bl ! absorb_index n h = n" if "n \<in> set bl"
  proof (cases "find (\<lambda>i. lh_block h ! i = n) [0..<length bl]")
    case None
    then show ?thesis using that nth by (auto simp: find_None_iff in_set_conv_nth)
  next
    case (Some i)
    then have "i < length bl" "lh_block h ! i = n" by (auto simp: find_Some_iff)
    then show ?thesis using Some nth by (simp add: absorb_index_def l)
  qed
qed

lemma log_record_list:
  assumes "log_list h bl" "length bl < LOGBLOCKS"
  shows "log_list (log_record n h) (absorb n bl)" "int (absorb_index n h) = lh_n h \<longleftrightarrow> n \<notin> set bl"
proof -
  have h: "lh_n h = int (length bl)" "length (lh_block h) = LOGBLOCKS" "take (length bl) (lh_block h) = bl" "distinct bl"
    using assms(1) by (simp_all add: log_list_def)
  note i = absorb_index_spec [OF assms(1), of n]
  show iff: "int (absorb_index n h) = lh_n h \<longleftrightarrow> n \<notin> set bl" using i h(1) by auto
  show "log_list (log_record n h) (absorb n bl)"
  proof (cases "n \<in> set bl")
    case True
    have "take (length bl) ((lh_block h)[absorb_index n h := n]) = bl[absorb_index n h := n]"
      using h(3) by (simp add: take_update_swap)
    also have "\<dots> = bl" using i(1) [OF True] by (metis list_update_id)
    finally show ?thesis using True h iff by (simp add: log_record_def Let_def log_list_def absorb_def)
  next
    case False
    have "take (Suc (length bl)) ((lh_block h)[length bl := n]) = bl @ [n]"
      using h(2,3) assms(2) by (simp add: take_Suc_conv_app_nth take_update_swap)
    then show ?thesis using False h i(2) iff by (simp add: log_record_def Let_def log_list_def absorb_def)
  qed
qed

lemma log_write_ok:
  assumes b: "bci me s H (set bl)" and i: "i \<in> H" "buf_of s i n" and l: "log_list (lg_lh (klog s)) bl"
    and sp: "length bl < LOGBLOCKS" "1 \<le> lg_outstanding (klog s)"
  shows "\<exists>s'. log_write i s = Ok s' \<and> bci me s' H (set (absorb n bl)) \<and> blk s' = blk s \<and> rest s' = rest s \<and>
    disk s' = disk s \<and> dtrace s' = dtrace s \<and> klog s' = (klog s)\<lparr>lg_lh := log_record n (lg_lh (klog s))\<rparr> \<and>
    (\<forall>j m. buf_of s' j m = buf_of s j m) \<and> (\<forall>j. b_data (bufs s' j) = b_data (bufs s j))"
proof -
  have n: "b_blockno (bufs s i) = n" using i(2) by (simp add: buf_of_def)
  have hn: "\<not> lh_n (lg_lh (klog s)) \<ge> int LOGBLOCKS" using l sp(1) by (simp add: log_list_def)
  let ?s = "upd_log (\<lambda>l. l\<lparr>lg_lh := log_record n (lg_lh l)\<rparr>) s"
  have b': "bci me ?s H (set bl)" using b by simp
  show ?thesis
  proof (cases "n \<in> set bl")
    case True
    then have "log_write i s = Ok ?s"
      using n hn sp(2) log_record_list(2) [OF l sp(1), of n] by (simp add: log_write_def Let_def)
    moreover have "bci me ?s H (set (absorb n bl))" using b' True by (simp add: absorb_def)
    ultimately show ?thesis by (intro exI [of _ ?s]) (simp add: buf_of_def)
  next
    case False
    then have "log_write i s = Ok (bpin i ?s)"
      using n hn sp(2) log_record_list(2) [OF l sp(1), of n] by (simp add: log_write_def Let_def)
    moreover have "bci me (bpin i ?s) H (set (absorb n bl))" "blk (bpin i ?s) = blk s"
      using bpin_ok(1,2) [OF b' i(1)] n False by (simp_all add: absorb_def)
    ultimately show ?thesis by (intro exI [of _ "bpin i ?s"]) (simp add: bpin_def buf_of_def)
  qed
qed

section \<open>Concurrent operations\<close>

text \<open>
  Any number of system calls between \<^verbatim>\<open>begin_op\<close> and \<^verbatim>\<open>end_op\<close>: \<open>ops i = Some k\<close> when call \<open>i\<close> is inside
  and has made \<open>k\<close> calls of \<^verbatim>\<open>log_write\<close>. Each makes at most MAXOPBLOCKS of them, which is what
  \<^verbatim>\<open>begin_op\<close> reserves. The steps are the critical sections under \<^verbatim>\<open>log.lock\<close>.
\<close>

inductive op_step :: "logstate \<times> (nat \<rightharpoonup> nat) \<Rightarrow> logstate \<times> (nat \<rightharpoonup> nat) \<Rightarrow> bool" where
  op_begin: "ops i = None \<Longrightarrow> \<not> op_must_wait l \<Longrightarrow>
    op_step (l, ops) (l\<lparr>lg_outstanding := lg_outstanding l + 1\<rparr>, ops(i \<mapsto> 0))"
| op_write: "ops i = Some k \<Longrightarrow> k < MAXOPBLOCKS \<Longrightarrow>
    op_step (l, ops) (l\<lparr>lg_lh := log_record n (lg_lh l)\<rparr>, ops(i \<mapsto> Suc k))"
| op_end: "ops i = Some k \<Longrightarrow> lg_outstanding l - 1 \<noteq> 0 \<Longrightarrow>
    op_step (l, ops) (l\<lparr>lg_outstanding := lg_outstanding l - 1\<rparr>, ops(i := None))"
| op_end_last: "ops i = Some k \<Longrightarrow> lg_outstanding l - 1 = 0 \<Longrightarrow>
    op_step (l, ops) (l\<lparr>lg_outstanding := 0, lg_committing := 1\<rparr>, ops(i := None))"
| op_committed: "lg_committing l = 1 \<Longrightarrow>
    op_step (l, ops) (l\<lparr>lg_committing := 0, lg_lh := (lg_lh l)\<lparr>lh_n := 0\<rparr>\<rparr>, ops)"

inductive op_reach :: "logstate \<times> (nat \<rightharpoonup> nat) \<Rightarrow> bool" where
  op_start: "lg_outstanding l = 0 \<Longrightarrow> lg_committing l = 0 \<Longrightarrow> lh_n (lg_lh l) = 0 \<Longrightarrow>
    length (lh_block (lg_lh l)) = LOGBLOCKS \<Longrightarrow> op_reach (l, \<lambda>_. None)"
| op_next: "op_reach s \<Longrightarrow> op_step s s' \<Longrightarrow> op_reach s'"

definition reserved :: "(nat \<rightharpoonup> nat) \<Rightarrow> nat" where
  "reserved ops = (\<Sum>i\<in>dom ops. MAXOPBLOCKS - the (ops i))"

definition op_inv :: "logstate \<times> (nat \<rightharpoonup> nat) \<Rightarrow> bool" where
  "op_inv s \<longleftrightarrow> (case s of (l, ops) \<Rightarrow>
     finite (dom ops) \<and> lg_outstanding l = int (card (dom ops)) \<and> lg_committing l \<in> {0, 1} \<and>
     (lg_committing l \<noteq> 0 \<longrightarrow> dom ops = {}) \<and> (\<exists>bl. log_list (lg_lh l) bl \<and> length bl + reserved ops \<le> LOGBLOCKS))"

lemma reserved_upd:
  assumes "finite (dom ops)" "ops i = Some k"
  shows "reserved ops = (MAXOPBLOCKS - k) + reserved (ops(i := None))"
    "reserved (ops(i \<mapsto> m)) = (MAXOPBLOCKS - m) + reserved (ops(i := None))"
proof -
  have i: "i \<in> dom ops" using assms(2) by auto
  have "(\<Sum>j\<in>dom ops - {i}. MAXOPBLOCKS - the (ops j)) = reserved (ops(i := None))"
      "(\<Sum>j\<in>dom ops - {i}. MAXOPBLOCKS - the ((ops(i \<mapsto> m)) j)) = reserved (ops(i := None))"
    unfolding reserved_def by (rule sum.cong; auto)+
  then show "reserved ops = (MAXOPBLOCKS - k) + reserved (ops(i := None))"
    "reserved (ops(i \<mapsto> m)) = (MAXOPBLOCKS - m) + reserved (ops(i := None))"
    using sum.remove [OF assms(1) i, of "\<lambda>j. MAXOPBLOCKS - the (ops j)"]
      sum.remove [OF assms(1) i, of "\<lambda>j. MAXOPBLOCKS - the ((ops(i \<mapsto> m)) j)"] assms(2) i
    by (simp_all add: reserved_def insert_absorb)
qed

lemma reserved_le: "finite (dom ops) \<Longrightarrow> reserved ops \<le> card (dom ops) * MAXOPBLOCKS"
  using sum_bounded_above [of "dom ops" "\<lambda>i. MAXOPBLOCKS - the (ops i)" MAXOPBLOCKS] by (simp add: reserved_def)

lemma op_inv_step: "op_step s s' \<Longrightarrow> op_inv s \<Longrightarrow> op_inv s'"
proof (induction rule: op_step.induct)
  case (op_begin ops i l)
  then obtain bl where bl: "finite (dom ops)" "lg_outstanding l = int (card (dom ops))" "log_list (lg_lh l) bl"
      "length bl + reserved ops \<le> LOGBLOCKS" by (auto simp: op_inv_def)
  have w: "lg_committing l = 0" "int (length bl) + (int (card (dom ops)) + 1) * int MAXOPBLOCKS \<le> int LOGBLOCKS"
    using op_begin(2) bl(2,3) by (auto simp: op_must_wait_def log_list_def)
  have "int (length bl + card (dom ops) * MAXOPBLOCKS + MAXOPBLOCKS) \<le> int LOGBLOCKS"
    using w(2) by (simp add: algebra_simps)
  then have "length bl + card (dom ops) * MAXOPBLOCKS + MAXOPBLOCKS \<le> LOGBLOCKS" by linarith
  then have "length bl + (reserved ops + MAXOPBLOCKS) \<le> LOGBLOCKS" using reserved_le [OF bl(1)] by linarith
  moreover have none: "ops(i := None) = ops" using op_begin(1) by auto
  have "reserved (ops(i \<mapsto> 0)) = MAXOPBLOCKS + reserved ops"
    using reserved_upd(1) [of "ops(i \<mapsto> 0)" i 0] bl(1) none by simp
  ultimately show ?case using bl w(1) op_begin(1) by (auto simp: op_inv_def add.commute domIff)
next
  case (op_write ops i k l n)
  then obtain bl where bl: "finite (dom ops)" "lg_outstanding l = int (card (dom ops))" "log_list (lg_lh l) bl"
      "length bl + reserved ops \<le> LOGBLOCKS" "lg_committing l \<in> {0, 1}" "lg_committing l \<noteq> 0 \<longrightarrow> dom ops = {}"
    by (auto simp: op_inv_def)
  have r: "reserved ops = (MAXOPBLOCKS - k) + reserved (ops(i := None))"
    "reserved (ops(i \<mapsto> Suc k)) = (MAXOPBLOCKS - Suc k) + reserved (ops(i := None))"
    using reserved_upd [OF bl(1) op_write(1)] by simp_all
  have "length bl < LOGBLOCKS" using bl(4) r(1) op_write(2) by linarith
  then have "log_list (log_record n (lg_lh l)) (absorb n bl)" using log_record_list(1) [OF bl(3)] by simp
  moreover have "length (absorb n bl) \<le> Suc (length bl)" by (simp add: absorb_def)
  then have "length (absorb n bl) + reserved (ops(i \<mapsto> Suc k)) \<le> LOGBLOCKS"
    using bl(4) r op_write(2) by linarith
  moreover have "dom (ops(i \<mapsto> Suc k)) = dom ops" using op_write(1) by auto
  ultimately show ?case using bl op_write(1) by (auto simp: op_inv_def)
next
  case (op_end ops i k l)
  then have f: "finite (dom ops)" by (auto simp: op_inv_def)
  have "reserved (ops(i := None)) \<le> reserved ops" using reserved_upd(1) [OF f op_end(1)] by simp
  moreover have "0 < card (dom ops)" using f op_end(1) by (auto simp: card_gt_0_iff)
  then have "int (card (dom ops - {i})) = int (card (dom ops)) - 1" using f op_end(1) by (subst card_Diff_singleton) auto
  ultimately show ?case using op_end by (fastforce simp: op_inv_def)
next
  case (op_end_last ops i k l)
  then have f: "finite (dom ops)" "int (card (dom ops)) = 1" by (auto simp: op_inv_def)
  then have "card (dom ops) = 1" by simp
  then obtain a where a: "dom ops = {a}" by (rule card_1_singletonE)
  then have "dom ops = {i}" using op_end_last(1) by (metis domI singletonD)
  moreover have "reserved (ops(i := None)) \<le> reserved ops" using reserved_upd(1) [OF f(1) op_end_last(1)] by simp
  ultimately show ?case using op_end_last(3) by (fastforce simp: op_inv_def)
next
  case (op_committed l ops)
  then have "dom ops = {}" by (auto simp: op_inv_def)
  then have "reserved ops = 0" by (simp add: reserved_def)
  moreover obtain bl where "log_list (lg_lh l) bl" using op_committed by (auto simp: op_inv_def)
  then have "log_list ((lg_lh l)\<lparr>lh_n := 0\<rparr>) []" by (simp add: log_list_def)
  ultimately show ?case using op_committed by (auto simp: op_inv_def)
qed

lemma op_reach_inv: "op_reach s \<Longrightarrow> op_inv s"
proof (induction rule: op_reach.induct)
  case (op_start l)
  then have "log_list (lg_lh l) []" by (simp add: log_list_def)
  then show ?case using op_start by (auto simp: op_inv_def reserved_def intro!: exI [of _ "[]"])
qed (rule op_inv_step)

text \<open>
  (C22) The reservation of \<^verbatim>\<open>begin_op\<close> is enough: with any number of concurrent system calls that log at
  most MAXOPBLOCKS blocks each, in every reachable state the log lists at most LOGBLOCKS distinct
  blocks; a call that may still log a block finds room for it and an open transaction, so
  \<^verbatim>\<open>log_write\<close> does not panic; and no call is inside a transaction during a commit, so \<^verbatim>\<open>end_op\<close> does not
  panic either.
\<close>

theorem log_reservation_suffices:
  assumes "op_reach (l, ops)"
  shows "(\<exists>bl. log_list (lg_lh l) bl \<and> length bl \<le> LOGBLOCKS) \<and>
    (ops i = Some k \<longrightarrow> lg_committing l = 0 \<and> 1 \<le> lg_outstanding l \<and>
      (k < MAXOPBLOCKS \<longrightarrow> lh_n (lg_lh l) < int LOGBLOCKS))"
proof -
  have inv: "op_inv (l, ops)" using op_reach_inv [OF assms] .
  then obtain bl where bl: "finite (dom ops)" "lg_outstanding l = int (card (dom ops))" "log_list (lg_lh l) bl"
      "length bl + reserved ops \<le> LOGBLOCKS" "lg_committing l \<noteq> 0 \<longrightarrow> dom ops = {}" by (auto simp: op_inv_def)
  have "lg_committing l = 0 \<and> 1 \<le> lg_outstanding l \<and> (k < MAXOPBLOCKS \<longrightarrow> lh_n (lg_lh l) < int LOGBLOCKS)"
    if i: "ops i = Some k"
  proof -
    have "0 < card (dom ops)" using bl(1) i by (auto simp: card_gt_0_iff)
    moreover have "k < MAXOPBLOCKS \<Longrightarrow> length bl < LOGBLOCKS"
      using bl(4) reserved_upd(1) [OF bl(1) i] by linarith
    ultimately show ?thesis using bl(2,3,5) i by (auto simp: log_list_def)
  qed
  moreover have "length bl \<le> LOGBLOCKS" using bl(4) by linarith
  ultimately show ?thesis using bl(3) by blast
qed

theorem log_reservation_suffices_witness:
  "\<exists>l ops. op_reach (l, ops) \<and> ops 7 = Some 1 \<and> lh_n (lg_lh l) = 1 \<and> lg_committing l = 0 \<and>
     1 \<le> lg_outstanding l \<and> lh_n (lg_lh l) < int LOGBLOCKS"
proof -
  let ?l = "klog boot_kernel"
  let ?l1 = "?l\<lparr>lg_outstanding := lg_outstanding ?l + 1\<rparr>"
  let ?l2 = "?l1\<lparr>lg_lh := log_record 50 (lg_lh ?l1)\<rparr>"
  let ?o1 = "(\<lambda>_ :: nat. None :: nat option)(7 \<mapsto> 0)"
  let ?o2 = "?o1(7 \<mapsto> Suc 0)"
  have "op_reach (?l, \<lambda>_. None)" by (rule op_start) (simp_all add: boot_kernel_def)
  then have "op_reach (?l1, ?o1)"
    by (rule op_next, intro op_begin) (simp_all add: op_must_wait_def boot_kernel_def LOGBLOCKS_def MAXOPBLOCKS_def)
  then have r: "op_reach (?l2, ?o2)" by (rule op_next, intro op_write) (simp_all add: MAXOPBLOCKS_def)
  moreover have "lh_n (lg_lh ?l2) = 1" by (simp add: log_record_def absorb_index_def boot_kernel_def Let_def)
  ultimately show ?thesis
    using log_reservation_suffices [OF r, of 7 1]
    by (intro exI [of _ ?l2] exI [of _ ?o2]) (simp add: MAXOPBLOCKS_def)
qed

text \<open>A transaction of one block, made from boot by \<^verbatim>\<open>bread\<close>, a change of the data, \<^verbatim>\<open>log_write\<close> and \<^verbatim>\<open>brelse\<close>.\<close>

lemma one_block_transaction:
  assumes s: "bci me s {} {}" "lg_lh (klog s) = \<lparr>lh_n = 0, lh_block = replicate LOGBLOCKS 0\<rparr>"
    "1 \<le> lg_outstanding (klog s)" and xs: "length xs = BSIZE"
  shows "\<exists>s'. bci me s' {} {n} \<and> disk s' = disk s \<and> blk s' n = xs \<and> panicked s' = panicked s \<and>
    klog s' = (klog s)\<lparr>lg_lh := \<lparr>lh_n = 1, lh_block = (replicate LOGBLOCKS 0)[0 := n]\<rparr>\<rparr>"
proof -
  obtain i s1 bs where s1: "bread me ROOTDEV n s = Ok (i, s1)" "bci me s1 {i} {}" "buf_of s1 i n" "s1 = s\<lparr>bufs := bs\<rparr>"
    using bread_ok [OF s(1), of n] by (auto simp: NBUF_val)
  let ?s2 = "set_data i xs s1"
  have n: "b_blockno (bufs s1 i) = n" using s1(3) by (simp add: buf_of_def)
  have b2: "bci me ?s2 {i} (set [])" "blk ?s2 = (blk s1)(n := xs)"
    using set_data_ok(1,2) [OF s1(2) _ xs, of i] n by simp_all
  have k2: "klog ?s2 = klog s" "disk ?s2 = disk s" "panicked ?s2 = panicked s" using s1(4) by (simp_all add: set_data_def upd_buf_def)
  have i2: "buf_of ?s2 i n" using s1(3) by (simp add: buf_of_def set_data_def)
  have l: "log_list (lg_lh (klog ?s2)) []" by (simp add: k2 s(2) log_list_def)
  obtain s3 where s3: "log_write i ?s2 = Ok s3" "bci me s3 {i} {n}" "blk s3 = blk ?s2" "disk s3 = disk ?s2"
      "rest s3 = rest ?s2" "klog s3 = (klog s)\<lparr>lg_lh := log_record n (lg_lh (klog s))\<rparr>" "buf_of s3 i n"
    using log_write_ok [OF b2(1) _ i2 l] i2 s(3) k2(1) by (auto simp: NBUF_val absorb_def)
  have n3: "b_blockno (bufs s3 i) = n" using s3(7) by (simp add: buf_of_def)
  obtain s4 where s4: "brelse me i s3 = Ok s4" "bci me s4 {} {n}" "blk s4 = blk s3" "cframe s3 s4"
    using brelse_ok [OF s3(2), of i] n3 by auto
  note c = cframeD [OF s4(4)]
  have "panicked s3 = panicked ?s2" using restD [OF s3(5)] by simp
  then show ?thesis using s4 s3 b2(2) k2 c s(2)
    by (intro exI [of _ s4]) (simp add: log_record_def absorb_index_def Let_def)
qed

lemma binit_bufs: "\<exists>bf. binit s = s\<lparr>bufs := bf\<rparr>"
  using binit_fold [of NBUF s] by (auto simp: binit_def binit_step_def [abs_def] Let_def)

lemma boot_cache_rest:
  "\<not> panicked (binit (boot_kernel\<lparr>disk := d\<rparr>))"
  "length (lh_block (lg_lh (klog (binit (boot_kernel\<lparr>disk := d\<rparr>))))) = LOGBLOCKS"
  using binit_bufs [of "boot_kernel\<lparr>disk := d\<rparr>"] by (elim exE; simp add: boot_kernel_def)+

theorem commit_crash_atomic_witness:
  "\<exists>s s' r r'. disk s 50 = replicate BSIZE 0 \<and> blk s 50 = replicate BSIZE 1 \<and> commit 0 s = Ok s' \<and>
     rebooted 0 (disk s') r \<and> initlog 0 ROOTDEV ((sb boot_kernel)\<lparr>sb_logstart := 2\<rparr>) r = Ok r' \<and>
     disk r' 50 = replicate BSIZE 1"
proof -
  let ?d = "\<lambda>_ :: u32. replicate BSIZE (0 :: u8)" and ?xs = "replicate BSIZE (1 :: u8)"
  let ?s0 = "binit (boot_kernel\<lparr>disk := ?d\<rparr>)" and ?sb = "(sb boot_kernel)\<lparr>sb_logstart := 2\<rparr>"
  let ?s1 = "upd_log (\<lambda>l. \<lparr>lg_start = 2, lg_outstanding = 1, lg_committing = 0, lg_dev = ROOTDEV,
    lg_lh = \<lparr>lh_n = 0, lh_block = replicate LOGBLOCKS 0\<rparr>\<rparr>) ?s0"
  have s0: "bci 0 ?s0 {} {}" "disk ?s0 = ?d" using boot_cache [of ?d] by simp_all
  obtain s where s: "bci 0 s {} {50}" "disk s = ?d" "blk s 50 = ?xs" "panicked s = panicked ?s1"
      "klog s = (klog ?s1)\<lparr>lg_lh := \<lparr>lh_n = 1, lh_block = (replicate LOGBLOCKS 0)[0 := 50]\<rparr>\<rparr>"
    using one_block_transaction [of 0 ?s1 ?xs 50] s0 by auto
  have p: "\<not> panicked s" using s(4) boot_cache_rest(1) [of ?d] by (simp add: upd_log_def)
  have area: "50 \<notin> log_area 2"
    by (auto simp: log_area_def log_slot_def NBUF_val unat_word_ariths unat_of_nat dest!: arg_cong [where f = unat])
  have e: "log_env s 2 [50]" using area by (simp add: log_env_def s(5) NBUF_val numeral_eq_Suc)
  have "get32 (replicate BSIZE 0) 0 = 0" by (simp add: get32_def numeral_eq_Suc)
  then have clear: "disk_blocks (disk s 2) = []" "0 \<le> sint (get32 (disk s 2) 0)"
    by (simp_all add: s(2) disk_blocks_def)
  obtain s' ws where c: "commit 0 s = Ok s'" "disk s' = apply_writes ws (disk s)"
      and r: "\<forall>k r. rebooted 0 (apply_writes (take k ws) (disk s)) r \<longrightarrow>
        (\<exists>r'. initlog 0 ROOTDEV ?sb r = Ok r' \<and> bci 0 r' {} {} \<and> disk_blocks (disk r' 2) = [] \<and>
        ((\<forall>n. n \<notin> log_area 2 \<longrightarrow> disk r' n = disk s n) \<and> k < length ws \<or> (\<forall>n. n \<notin> log_area 2 \<longrightarrow> disk r' n = blk s n)))"
    using commit_crash_atomic [OF e, of 0 ?sb] s(1) p clear by auto
  have "bci 0 s' {} {}" using commit_ok [OF e, of 0] s(1) p c(1) by (auto simp: Let_def)
  then have len: "\<And>n. length (disk s' n) = BSIZE" using bciD(10) by blast
  let ?r = "binit (boot_kernel\<lparr>disk := disk s'\<rparr>)"
  have rb: "rebooted 0 (disk s') ?r"
    using boot_cache [OF len] boot_cache_rest [of "disk s'"] by (simp add: rebooted_def)
  have "\<exists>r'. initlog 0 ROOTDEV ?sb ?r = Ok r' \<and> disk r' 50 = blk s 50"
    using r [THEN spec [of _ "length ws"], THEN spec [of _ ?r]] rb c(2) area by auto
  then obtain r' where "initlog 0 ROOTDEV ?sb ?r = Ok r'" "disk r' 50 = ?xs" using s(3) by auto
  moreover have "disk s 50 = ?d 50" using s(2) by simp
  ultimately show ?thesis using s(3) c(1) rb by blast
qed

end
