(* ===== verification/Balloc.thy ===== *)
theory Balloc
  imports Log
begin

text \<open>
  The block layer of the file system (\<^verbatim>\<open>kernel/fs.c\<close>): \<^verbatim>\<open>readsb\<close>, \<^verbatim>\<open>bzero\<close>, \<^verbatim>\<open>balloc\<close> and \<^verbatim>\<open>bfree\<close> over the
  buffer cache and the log. The first part states what any piece of file-system code sees inside a
  transaction (\<open>tx\<close>): an array of blocks \<open>blk\<close>, read by \<^verbatim>\<open>bread\<close> and changed by \<^verbatim>\<open>log_write\<close>.
  The free bitmap is then the set \<open>block_used\<close>.
\<close>

section \<open>Operations\<close>

definition superblock_of :: "u8 list \<Rightarrow> superblock" where
  "superblock_of d = \<lparr>sb_magic = get32 d 0, sb_size = get32 d 4, sb_nblocks = get32 d 8, sb_ninodes = get32 d 12,
     sb_nlog = get32 d 16, sb_logstart = get32 d 20, sb_inodestart = get32 d 24, sb_bmapstart = get32 d 28\<rparr>"

definition readsb :: "nat \<Rightarrow> u32 \<Rightarrow> kernel \<Rightarrow> kernel res" where
  "readsb me dev s =
     res_bind (bread me dev 1 s) (\<lambda>(bp, s). brelse me bp (s\<lparr>sb := superblock_of (b_data (bufs s bp))\<rparr>))"

definition BBLOCK :: "u32 \<Rightarrow> superblock \<Rightarrow> u32" where
  "BBLOCK b sbk = b div of_nat BPB + sb_bmapstart sbk"

definition bzero :: "nat \<Rightarrow> u32 \<Rightarrow> u32 \<Rightarrow> kernel \<Rightarrow> kernel res" where
  "bzero me dev bno s =
     res_bind (bread me dev bno s) (\<lambda>(bp, s).
     res_bind (log_write bp (set_data bp (replicate BSIZE 0) s)) (\<lambda>s. brelse me bp s))"

text \<open>\<open>1 << (bi % 8)\<close>, tested against and stored into a byte of the bitmap.\<close>

definition bit_mask :: "nat \<Rightarrow> u8" where
  "bit_mask bi = push_bit (bi mod 8) 1"

text \<open>The inner loop of \<^verbatim>\<open>balloc\<close>: the first clear bit of a bitmap block, from bit \<open>bi\<close> on.\<close>

function balloc_scan :: "u8 list \<Rightarrow> nat \<Rightarrow> nat \<Rightarrow> nat \<Rightarrow> nat option" where
  "balloc_scan d size1 b bi =
     (if bi < BPB \<and> b + bi < size1
      then (if d ! (bi div 8) AND bit_mask bi = 0 then Some bi else balloc_scan d size1 b (Suc bi))
      else None)"
  by pat_completeness auto
termination
  by (relation "measure (\<lambda>(_, _, _, bi). BPB - bi)") auto

declare balloc_scan.simps [simp del]

text \<open>The outer loop; \<^verbatim>\<open>sb\<close> is written by \<^verbatim>\<open>readsb\<close> only, so its fields are read once.\<close>

function balloc_loop :: "nat \<Rightarrow> u32 \<Rightarrow> superblock \<Rightarrow> nat \<Rightarrow> kernel \<Rightarrow> (u32 \<times> kernel) res" where
  "balloc_loop me dev sbk b s =
     (if b < unat (sb_size sbk)
      then res_bind (bread me dev (BBLOCK (of_nat b) sbk) s) (\<lambda>(bp, s).
        let d = b_data (bufs s bp) in
        case balloc_scan d (unat (sb_size sbk)) b 0 of
          Some bi \<Rightarrow>
            (let s = set_data bp (d[bi div 8 := d ! (bi div 8) OR bit_mask bi]) s in
             res_bind (log_write bp s) (\<lambda>s.
             res_bind (brelse me bp s) (\<lambda>s.
             res_bind (bzero me dev (of_nat (b + bi)) s) (\<lambda>s. Ok (of_nat (b + bi), s)))))
        | None \<Rightarrow> res_bind (brelse me bp s) (balloc_loop me dev sbk (b + BPB)))
      else res_bind (printf ''balloc: out of blocks\<newline>'' [] s) (\<lambda>s. Ok (0, s)))"
  by pat_completeness auto
termination
  by (relation "measure (\<lambda>(_, _, sbk, b, _). unat (sb_size sbk) - b)") auto

declare balloc_loop.simps [simp del]

definition balloc :: "nat \<Rightarrow> u32 \<Rightarrow> kernel \<Rightarrow> (u32 \<times> kernel) res" where
  "balloc me dev s = balloc_loop me dev (sb s) 0 s"

definition bfree :: "nat \<Rightarrow> u32 \<Rightarrow> u32 \<Rightarrow> kernel \<Rightarrow> kernel res" where
  "bfree me dev b s =
     res_bind (bread me dev (BBLOCK b (sb s)) s) (\<lambda>(bp, s).
       let bi = unat b mod BPB; d = b_data (bufs s bp) in
       if d ! (bi div 8) AND bit_mask bi = 0 then Panic ''freeing free block''
       else res_bind (log_write bp (set_data bp (d[bi div 8 := d ! (bi div 8) AND NOT (bit_mask bi)]) s)) (\<lambda>s.
            brelse me bp s))"

section \<open>Inside a transaction\<close>

text \<open>
  \<open>tx me s H bl\<close>: process \<open>me\<close> is inside a transaction that has logged the blocks \<open>bl\<close>, and holds the
  buffers \<open>H\<close>. A block that is not logged has the content of the disk.
\<close>

definition tx :: "nat \<Rightarrow> kernel \<Rightarrow> nat set \<Rightarrow> u32 list \<Rightarrow> bool" where
  "tx me s H bl \<longleftrightarrow> bci me s H (set bl) \<and> log_list (lg_lh (klog s)) bl \<and> 1 \<le> lg_outstanding (klog s) \<and>
     \<not> panicked s \<and> (\<forall>n. n \<notin> set bl \<longrightarrow> blk s n = disk s n)"

text \<open>
  \<open>fframe s s'\<close>: from \<open>s\<close> to \<open>s'\<close> only the cache, the list of logged blocks, the inode table, the
  console output and scheduling states changed.
\<close>

definition fframe :: "kernel \<Rightarrow> kernel \<Rightarrow> bool" where
  "fframe s s' \<longleftrightarrow> rest (s'\<lparr>itable := itable s\<rparr>) = rest s \<and> disk s' = disk s \<and> dtrace s' = dtrace s \<and>
     klog s' = (klog s)\<lparr>lg_lh := lg_lh (klog s')\<rparr>"

lemma rest_itable: "rest (s\<lparr>itable := t\<rparr>) = (rest s)\<lparr>itable := t\<rparr>"
  by (simp add: rest_def)

lemma fframe_refl [simp]: "fframe s s"
  by (simp add: fframe_def)

lemma fframe_rest:
  assumes "rest s' = rest s" "disk s' = disk s" "dtrace s' = dtrace s" "klog s' = (klog s)\<lparr>lg_lh := h\<rparr>"
  shows "fframe s s'"
proof -
  have "itable s' = itable s" using assms(1) by (rule restD)
  then show ?thesis using assms by (simp add: fframe_def rest_itable) (simp add: rest_def)
qed

lemma fframe_trans:
  assumes "fframe s t" "fframe t u" shows "fframe s u"
proof -
  have "rest (u\<lparr>itable := itable s\<rparr>) = (rest (u\<lparr>itable := itable t\<rparr>))\<lparr>itable := itable s\<rparr>"
    by (simp add: rest_itable)
  also have "\<dots> = rest (t\<lparr>itable := itable s\<rparr>)" using assms(2) by (simp add: fframe_def rest_itable)
  finally have "rest (u\<lparr>itable := itable s\<rparr>) = rest s" using assms(1) by (simp add: fframe_def)
  moreover obtain h h' where "klog t = (klog s)\<lparr>lg_lh := h\<rparr>" "klog u = (klog t)\<lparr>lg_lh := h'\<rparr>"
    using assms unfolding fframe_def by metis
  then have "klog u = (klog s)\<lparr>lg_lh := lg_lh (klog u)\<rparr>" by simp
  ultimately show ?thesis using assms by (simp add: fframe_def)
qed

lemma fframeD:
  assumes "fframe s s'"
  shows "syms s' = syms s" "sb s' = sb s" "ftable s' = ftable s" "pipes s' = pipes s"
    "mem s' = mem s" "freelist s' = freelist s" "kend s' = kend s" "panicked s' = panicked s" "disk s' = disk s"
    "dtrace s' = dtrace s" "p_pid (procs s' j) = p_pid (procs s j)"
    "p_pagetable (procs s' j) = p_pagetable (procs s j)"
    "p_sz (procs s' j) = p_sz (procs s j)" "p_cwd (procs s' j) = p_cwd (procs s j)"
    "p_ofile (procs s' j) = p_ofile (procs s j)" "lg_outstanding (klog s') = lg_outstanding (klog s)"
    "lg_committing (klog s') = lg_committing (klog s)" "lg_dev (klog s') = lg_dev (klog s)"
    "lg_start (klog s') = lg_start (klog s)"
proof -
  have r: "rest (s'\<lparr>itable := itable s\<rparr>) = rest s" using assms by (simp add: fframe_def)
  obtain h where k: "klog s' = (klog s)\<lparr>lg_lh := h\<rparr>" using assms unfolding fframe_def by metis
  note d = restD [OF r]
  show "syms s' = syms s" "sb s' = sb s" "ftable s' = ftable s" "pipes s' = pipes s"
    "mem s' = mem s" "freelist s' = freelist s" "kend s' = kend s" "panicked s' = panicked s"
    "p_pid (procs s' j) = p_pid (procs s j)" "p_pagetable (procs s' j) = p_pagetable (procs s j)"
    "p_sz (procs s' j) = p_sz (procs s j)" "p_cwd (procs s' j) = p_cwd (procs s j)"
    "p_ofile (procs s' j) = p_ofile (procs s j)" "disk s' = disk s" "dtrace s' = dtrace s"
    "lg_outstanding (klog s') = lg_outstanding (klog s)"
    "lg_committing (klog s') = lg_committing (klog s)" "lg_dev (klog s') = lg_dev (klog s)"
    "lg_start (klog s') = lg_start (klog s)"
    using d d(10-14) [of j] assms k by (simp_all add: fframe_def)
qed

text \<open>One step of a transaction that ends with the same buffers held as at its start.\<close>

definition tstep :: "nat \<Rightarrow> nat set \<Rightarrow> kernel \<Rightarrow> kernel \<Rightarrow> u32 list \<Rightarrow> bool" where
  "tstep me H s s' bl \<longleftrightarrow> tx me s' H bl \<and> fframe s s' \<and> (\<forall>j\<in>H. \<forall>m. buf_of s' j m \<longleftrightarrow> buf_of s j m)"

lemma tstep_refl: "tx me s H bl \<Longrightarrow> tstep me H s s bl"
  by (simp add: tstep_def)

lemma tstep_trans: "tstep me H s t bl \<Longrightarrow> tstep me H t u bl' \<Longrightarrow> tstep me H s u bl'"
  unfolding tstep_def by (meson fframe_trans)

lemma tstepD:
  "tstep me H s s' bl \<Longrightarrow> tx me s' H bl" "tstep me H s s' bl \<Longrightarrow> fframe s s'"
  "tstep me H s s' bl \<Longrightarrow> j \<in> H \<Longrightarrow> buf_of s' j m \<longleftrightarrow> buf_of s j m"
  by (simp_all add: tstep_def)

lemma txD:
  assumes "tx me s H bl"
  shows "bci me s H (set bl)" "log_list (lg_lh (klog s)) bl" "1 \<le> lg_outstanding (klog s)" "\<not> panicked s"
    "n \<notin> set bl \<Longrightarrow> blk s n = disk s n" "distinct bl" "length (blk s n) = BSIZE"
  using assms length_blk by (auto simp: tx_def log_list_def)

lemma tx_cong:
  assumes "bufs s' = bufs s" "disk s' = disk s" "procs s' = procs s" "buckets s' = buckets s" "klog s' = klog s"
    "panicked s' = panicked s"
  shows "tx me s' H bl \<longleftrightarrow> tx me s H bl" "blk s' = blk s"
proof -
  show b: "blk s' = blk s" by (rule blk_cong) (simp_all add: assms)
  show "tx me s' H bl \<longleftrightarrow> tx me s H bl" using bci_cong [OF assms(1-4)] b assms by (simp add: tx_def)
qed

lemma tx_simps [simp]:
  "tx me (upd_inode i f s) H bl \<longleftrightarrow> tx me s H bl" "blk (upd_inode i f s) = blk s"
  "tx me (s\<lparr>uart_out := v\<rparr>) H bl \<longleftrightarrow> tx me s H bl"
  by (rule tx_cong; simp add: upd_inode_def)+

lemma fframe_simps [simp]: "fframe s (upd_inode i f s)" "fframe s (s\<lparr>uart_out := v\<rparr>)"
  by (simp_all add: fframe_def upd_inode_def)

lemma length_absorb: "length (absorb n bl) \<le> Suc (length bl)"
  by (simp add: absorb_def)

lemma tx_bread:
  assumes t: "tx me s H bl" and c: "card H + length bl < NBUF" and n: "\<forall>i\<in>H. \<not> buf_of s i n"
  shows "\<exists>i s'. bread me ROOTDEV n s = Ok (i, s') \<and> i \<notin> H \<and> tx me s' (insert i H) bl \<and> buf_of s' i n \<and>
    b_data (bufs s' i) = blk s n \<and> blk s' = blk s \<and> fframe s s' \<and> itable s' = itable s \<and> uart_out s' = uart_out s \<and>
    (\<forall>j\<in>H. \<forall>m. buf_of s' j m \<longleftrightarrow> buf_of s j m)"
proof -
  note d = txD [OF t]
  have "card (set bl) = length bl" using d(6) by (rule distinct_card)
  then have "card H + card (set bl) < NBUF" using c by simp
  note ok = bread_ok [OF d(1) finite_set this n]
  obtain i s' bs where r: "bread me ROOTDEV n s = Ok (i, s')" "i \<notin> H" "bci me s' (insert i H) (set bl)" "buf_of s' i n"
      "b_data (bufs s' i) = blk s n" "blk s' = blk s" "\<forall>j. j \<noteq> i \<longrightarrow> bufs s' j = bufs s j" "s' = s\<lparr>bufs := bs\<rparr>"
    using ok by (elim exE conjE) (rule that; assumption)
  have "fframe s s'" by (rule fframe_rest [where h = "lg_lh (klog s)"]) (simp_all add: r(8))
  moreover have "tx me s' (insert i H) bl" using r(3,6) d by (simp add: tx_def r(8))
  moreover have "buf_of s' j m \<longleftrightarrow> buf_of s j m" if "j \<in> H" for j m
    using r(2,7) that by (metis buf_of_def)
  ultimately show ?thesis using r by (intro exI [of _ i] exI [of _ s']) simp
qed

lemma tx_data: "tx me s H bl \<Longrightarrow> i \<in> H \<Longrightarrow> buf_of s i n \<Longrightarrow> b_data (bufs s i) = blk s n"
  using blk_cached [of me s H "set bl" i n] bciD(4,6) [of me s H "set bl" i] by (auto dest: txD(1))

lemma tx_brelse:
  assumes t: "tx me s H bl" and i: "i \<in> H" "buf_of s i n"
  shows "\<exists>s'. brelse me i s = Ok s' \<and> tstep me (H - {i}) s s' bl \<and> blk s' = blk s \<and> itable s' = itable s \<and>
    uart_out s' = uart_out s"
proof -
  note d = txD [OF t]
  have n: "b_blockno (bufs s i) = n" using i(2) by (simp add: buf_of_def)
  have "b_data (bufs s i) = blk s n" by (rule tx_data [OF t i])
  then have c: "b_blockno (bufs s i) \<in> set bl \<or> b_data (bufs s i) = disk s (b_blockno (bufs s i))" using d(5) n by metis
  obtain s' where r: "brelse me i s = Ok s'" "bci me s' (H - {i}) (set bl)" "blk s' = blk s" "cframe s s'"
      "\<forall>j. same_content s s' j"
    using brelse_ok [OF d(1) i(1) c] by blast
  note cd = cframeD [OF r(4)]
  have "fframe s s'" by (rule fframe_rest [where h = "lg_lh (klog s)"]) (simp_all add: cd rest_cframe [OF r(4)])
  moreover have "tx me s' (H - {i}) bl" using r(2,3) d cd by (simp add: tx_def)
  moreover have "buf_of s' j m \<longleftrightarrow> buf_of s j m" for j m using r(5) by (simp add: same_content_def buf_of_def)
  ultimately show ?thesis using r cd by (intro exI [of _ s']) (simp add: tstep_def)
qed

lemma tx_write:
  assumes t: "tx me s H bl" and i: "i \<in> H" "buf_of s i n" and l: "length xs = BSIZE" "length bl < LOGBLOCKS"
  shows "\<exists>s'. log_write i (set_data i xs s) = Ok s' \<and> tstep me H s s' (absorb n bl) \<and> blk s' = (blk s)(n := xs) \<and>
    itable s' = itable s \<and> uart_out s' = uart_out s"
proof -
  note d = txD [OF t]
  let ?s = "set_data i xs s"
  have n: "b_blockno (bufs s i) = n" using i(2) by (simp add: buf_of_def)
  have b: "bci me ?s H (set bl)" "blk ?s = (blk s)(n := xs)" using set_data_ok(1,2) [OF d(1) i(1) l(1)] n by simp_all
  have k: "klog ?s = klog s" "disk ?s = disk s" "dtrace ?s = dtrace s" "uart_out ?s = uart_out s"
    "buf_of ?s j m = buf_of s j m" for j m by (simp_all add: set_data_def upd_buf_def buf_of_def)
  obtain s' where r: "log_write i ?s = Ok s'" "bci me s' H (set (absorb n bl))" "blk s' = blk ?s" "rest s' = rest ?s"
      "disk s' = disk ?s" "dtrace s' = dtrace ?s" "klog s' = (klog ?s)\<lparr>lg_lh := log_record n (lg_lh (klog ?s))\<rparr>"
      "\<forall>j m. buf_of s' j m = buf_of ?s j m"
    using log_write_ok [OF b(1) i(1), of n] i(2) d(2,3) l(2) k by auto
  have rs: "rest s' = rest s" using r(4) by simp
  note rd = restD [OF rs]
  have f: "fframe s s'" by (rule fframe_rest [where h = "log_record n (lg_lh (klog s))"]) (simp_all add: rs r k)
  have "log_list (lg_lh (klog s')) (absorb n bl)" using log_record_list(1) [OF d(2) l(2)] by (simp add: r(7) k)
  moreover have "m \<notin> set (absorb n bl) \<Longrightarrow> blk s' m = disk s' m" for m
    using d(5) [of m] by (auto simp: r b k absorb_def split: if_splits)
  ultimately have "tx me s' H (absorb n bl)" using r(2) d(3,4) rd by (simp add: tx_def r(7) k)
  moreover have "uart_out s' = uart_out ?s" using r(1) by (auto simp: log_write_def Let_def bpin_def upd_buf_def upd_log_def split: if_splits)
  ultimately show ?thesis using r f rd k b by (intro exI [of _ s']) (simp add: tstep_def)
qed

section \<open>The free bitmap\<close>

definition block_used :: "(u32 \<Rightarrow> u8 list) \<Rightarrow> superblock \<Rightarrow> u32 \<Rightarrow> bool" where
  "block_used f sbk b \<longleftrightarrow> bit (f (BBLOCK b sbk) ! (unat b mod BPB div 8)) (unat b mod 8)"

text \<open>
  The bitmap lies inside the file system, and marks its own blocks as used: this is how \<^verbatim>\<open>mkfs\<close> lays
  out a disk.
\<close>

definition bitmap_geom :: "superblock \<Rightarrow> bool" where
  "bitmap_geom sbk \<longleftrightarrow> unat (sb_bmapstart sbk) + unat (sb_size sbk) div BPB < unat (sb_size sbk)"

definition bitmap_self :: "(u32 \<Rightarrow> u8 list) \<Rightarrow> superblock \<Rightarrow> bool" where
  "bitmap_self f sbk \<longleftrightarrow> (\<forall>b < sb_size sbk. block_used f sbk (BBLOCK b sbk))"

lemma unat_BBLOCK:
  assumes "bitmap_geom sbk" "b < sb_size sbk"
  shows "unat (BBLOCK b sbk) = unat b div BPB + unat (sb_bmapstart sbk)" "BBLOCK b sbk < sb_size sbk"
proof -
  have b: "unat b < unat (sb_size sbk)" using assms(2) by (simp add: word_less_nat_alt)
  then have "unat b div BPB \<le> unat (sb_size sbk) div BPB" by (intro div_le_mono) simp
  then have l: "unat b div BPB + unat (sb_bmapstart sbk) < unat (sb_size sbk)" using assms(1) by (simp add: bitmap_geom_def)
  have "unat (of_nat BPB :: u32) = BPB" by simp
  then have d: "unat (b div of_nat BPB) = unat b div BPB" by (simp add: unat_div)
  have "unat (b div of_nat BPB) + unat (sb_bmapstart sbk) < 2 ^ LENGTH(32)"
    using l d unsigned_less [where w = "sb_size sbk" and 'a = nat] by simp
  then show "unat (BBLOCK b sbk) = unat b div BPB + unat (sb_bmapstart sbk)"
    unfolding BBLOCK_def using d by (subst unat_add_lem [THEN iffD1]) simp_all
  then show "BBLOCK b sbk < sb_size sbk" using l by (simp add: word_less_nat_alt)
qed

lemma bit_mask_zero: "x AND bit_mask bi = 0 \<longleftrightarrow> \<not> bit x (bi mod 8)"
proof -
  have "bit (x AND push_bit k 1) j \<longleftrightarrow> j = k \<and> bit x k" if "k < 8" for k j :: nat and x :: u8
    using that by (auto simp: bit_simps)
  then have "x AND push_bit k 1 = 0 \<longleftrightarrow> \<not> bit x k" if "k < 8" for k :: nat and x :: u8
    using that by (metis bit_0_eq bot_apply bot_bool_def bit_word_eqI)
  then show ?thesis by (simp add: bit_mask_def)
qed

lemma bit_mask_set:
  fixes x :: u8
  shows "k < 8 \<Longrightarrow> bit (x OR bit_mask bi) k \<longleftrightarrow> bit x k \<or> k = bi mod 8"
    "k < 8 \<Longrightarrow> bit (x AND NOT (bit_mask bi)) k \<longleftrightarrow> bit x k \<and> k \<noteq> bi mod 8"
  by (auto simp: bit_mask_def bit_simps)

lemma balloc_scan_spec:
  "case balloc_scan d sz b bi of
     Some k \<Rightarrow> bi \<le> k \<and> k < BPB \<and> b + k < sz \<and> \<not> bit (d ! (k div 8)) (k mod 8) \<and>
       (\<forall>j. bi \<le> j \<longrightarrow> j < k \<longrightarrow> bit (d ! (j div 8)) (j mod 8))
   | None \<Rightarrow> \<forall>j. bi \<le> j \<longrightarrow> j < BPB \<longrightarrow> b + j < sz \<longrightarrow> bit (d ! (j div 8)) (j mod 8)"
proof (induction d sz b bi rule: balloc_scan.induct)
  case (1 d sz b bi)
  let ?u = "\<lambda>j. bit (d ! (j div 8)) (j mod 8)"
  show ?case
  proof (cases "bi < BPB \<and> b + bi < sz")
    case False
    then have "balloc_scan d sz b bi = None" by (subst balloc_scan.simps) auto
    then show ?thesis using False by auto
  next
    case c: True
    show ?thesis
    proof (cases "?u bi")
      case False
      then have "balloc_scan d sz b bi = Some bi" using c by (subst balloc_scan.simps) (simp add: bit_mask_zero)
      then show ?thesis using c False by simp
    next
      case True
      then have e: "balloc_scan d sz b bi = balloc_scan d sz b (Suc bi)"
        using c by (subst balloc_scan.simps) (simp add: bit_mask_zero)
      have "bi \<le> j \<longleftrightarrow> j = bi \<or> Suc bi \<le> j" for j by auto
      then show ?thesis using 1 [OF c] True unfolding e bit_mask_zero
        by (auto split: option.splits)
    qed
  qed
qed

text \<open>Changing one bit of the bitmap.\<close>

lemma block_used_flip:
  assumes g: "bitmap_geom sbk" "a < sb_size sbk" "c < sb_size sbk" and l: "length (f (BBLOCK a sbk)) = BSIZE"
    and f': "f' (BBLOCK c sbk) = (f(BBLOCK a sbk := (f (BBLOCK a sbk))[unat a mod BPB div 8 := y])) (BBLOCK c sbk)"
    and y: "\<And>k. k < 8 \<Longrightarrow> k \<noteq> unat a mod 8 \<Longrightarrow> bit y k = bit (f (BBLOCK a sbk) ! (unat a mod BPB div 8)) k"
  shows "block_used f' sbk c \<longleftrightarrow> (if c = a then bit y (unat a mod 8) else block_used f sbk c)"
proof (cases "BBLOCK c sbk = BBLOCK a sbk")
  case False
  then show ?thesis using f' by (auto simp: block_used_def)
next
  case True
  then have q: "unat c div BPB = unat a div BPB" using unat_BBLOCK(1) [OF g(1)] g(2,3) by (metis add_right_cancel)
  have k: "unat a mod BPB div 8 < BSIZE" by simp
  have e: "unat c mod BPB div 8 = unat a mod BPB div 8 \<and> unat c mod 8 = unat a mod 8 \<longleftrightarrow> c = a"
  proof
    assume h: "unat c mod BPB div 8 = unat a mod BPB div 8 \<and> unat c mod 8 = unat a mod 8"
    have m: "n mod BPB mod 8 = n mod 8" for n :: nat by (simp add: mod_mod_cancel)
    have "unat c mod BPB = unat a mod BPB" using h m by (metis div_mult_mod_eq)
    then have "unat c = unat a" using q by (metis div_mult_mod_eq)
    then show "c = a" by (rule word_unat_eq_iff [THEN iffD2])
  qed simp
  show ?thesis
  proof (cases "unat c mod BPB div 8 = unat a mod BPB div 8")
    case i: True
    then show ?thesis using e k l True f' y [of "unat c mod 8"] by (auto simp: block_used_def)
  next
    case False
    then show ?thesis using e True f' by (auto simp: block_used_def)
  qed
qed

text \<open>Reading and rewriting one whole block.\<close>

lemma tx_update_block:
  assumes t: "tx me s H bl" and c: "card H + length bl < NBUF" and n: "\<forall>i\<in>H. \<not> buf_of s i n" and l: "length xs = BSIZE"
  shows "\<exists>i s1 s2 s3. bread me ROOTDEV n s = Ok (i, s1) \<and> b_data (bufs s1 i) = blk s n \<and>
    log_write i (set_data i xs s1) = Ok s2 \<and> brelse me i s2 = Ok s3 \<and> tstep me H s s3 (absorb n bl) \<and>
    blk s3 = (blk s)(n := xs) \<and> itable s3 = itable s \<and> uart_out s3 = uart_out s \<and> sb s1 = sb s \<and> itable s1 = itable s \<and>
    fframe s s1"
proof -
  obtain i s1 where 1: "bread me ROOTDEV n s = Ok (i, s1)" "i \<notin> H" "tx me s1 (insert i H) bl" "buf_of s1 i n"
      "b_data (bufs s1 i) = blk s n" "blk s1 = blk s" "fframe s s1" "itable s1 = itable s" "uart_out s1 = uart_out s"
      "\<forall>j\<in>H. \<forall>m. buf_of s1 j m \<longleftrightarrow> buf_of s j m"
    using tx_bread [OF t c n] by (elim exE conjE) (rule that; assumption)
  have "length bl < LOGBLOCKS" using c by (simp add: NBUF_val)
  from tx_write [OF 1(3) _ 1(4) l this]
  obtain s2 where 2: "log_write i (set_data i xs s1) = Ok s2" "tstep me (insert i H) s1 s2 (absorb n bl)"
      "blk s2 = (blk s1)(n := xs)" "itable s2 = itable s1" "uart_out s2 = uart_out s1" by auto
  have i2: "buf_of s2 i n" using tstepD(3) [OF 2(2), of i n] 1(4) by simp
  obtain s3 where 3: "brelse me i s2 = Ok s3" "tstep me (insert i H - {i}) s2 s3 (absorb n bl)" "blk s3 = blk s2"
      "itable s3 = itable s2" "uart_out s3 = uart_out s2"
    using tx_brelse [OF tstepD(1) [OF 2(2)] _ i2] by auto
  have h: "insert i H - {i} = H" using 1(2) by simp
  have "fframe s s3" using fframe_trans [OF fframe_trans [OF 1(7) tstepD(2) [OF 2(2)]] tstepD(2) [OF 3(2)]] .
  moreover have "buf_of s3 j m \<longleftrightarrow> buf_of s j m" if "j \<in> H" for j m
    using 1(10) tstepD(3) [OF 2(2), of j m] tstepD(3) [OF 3(2), of j m] that h by simp
  ultimately have "tstep me H s s3 (absorb n bl)" using 3(2) h by (simp add: tstep_def)
  then show ?thesis using 1 2 3 fframeD(2) [OF 1(7)]
    by (intro exI [of _ i] exI [of _ s1] exI [of _ s2] exI [of _ s3]) simp
qed

lemma tx_read_block:
  assumes t: "tx me s H bl" and c: "card H + length bl < NBUF" and n: "\<forall>i\<in>H. \<not> buf_of s i n"
  shows "\<exists>i s1 s2. bread me ROOTDEV n s = Ok (i, s1) \<and> b_data (bufs s1 i) = blk s n \<and>
    brelse me i s1 = Ok s2 \<and> tstep me H s s2 bl \<and> blk s2 = blk s \<and> itable s2 = itable s \<and> uart_out s2 = uart_out s \<and>
    sb s1 = sb s \<and> itable s1 = itable s \<and> fframe s s1"
proof -
  obtain i s1 where 1: "bread me ROOTDEV n s = Ok (i, s1)" "i \<notin> H" "tx me s1 (insert i H) bl" "buf_of s1 i n"
      "b_data (bufs s1 i) = blk s n" "blk s1 = blk s" "fframe s s1" "itable s1 = itable s" "uart_out s1 = uart_out s"
      "\<forall>j\<in>H. \<forall>m. buf_of s1 j m \<longleftrightarrow> buf_of s j m"
    using tx_bread [OF t c n] by (elim exE conjE) (rule that; assumption)
  obtain s2 where 2: "brelse me i s1 = Ok s2" "tstep me (insert i H - {i}) s1 s2 bl" "blk s2 = blk s1"
      "itable s2 = itable s1" "uart_out s2 = uart_out s1"
    using tx_brelse [OF 1(3) _ 1(4)] by auto
  have h: "insert i H - {i} = H" using 1(2) by simp
  have "tstep me H s s2 bl"
    using 2(2) h 1(10) fframe_trans [OF 1(7) tstepD(2) [OF 2(2)]] by (simp add: tstep_def)
  then show ?thesis using 1 2 fframeD(2) [OF 1(7)]
    by (intro exI [of _ i] exI [of _ s1] exI [of _ s2]) simp
qed

lemma bzero_ok:
  assumes "tx me s H bl" "card H + length bl < NBUF" "\<forall>i\<in>H. \<not> buf_of s i n"
  shows "\<exists>s'. bzero me ROOTDEV n s = Ok s' \<and> tstep me H s s' (absorb n bl) \<and>
    blk s' = (blk s)(n := replicate BSIZE 0) \<and> itable s' = itable s \<and> uart_out s' = uart_out s"
  using tx_update_block [OF assms, of "replicate BSIZE 0"] by (auto simp: bzero_def)

section \<open>Allocation and release of blocks\<close>

text \<open>\<open>alloc_held\<close>: no buffer in \<open>H\<close> belongs to a free block or to the bitmap.\<close>

definition alloc_held :: "kernel \<Rightarrow> nat set \<Rightarrow> bool" where
  "alloc_held s H \<longleftrightarrow> (\<forall>j\<in>H. \<forall>m. buf_of s j m \<longrightarrow> block_used (blk s) (sb s) m \<and> (\<forall>b < sb_size (sb s). m \<noteq> BBLOCK b (sb s)))"

definition alloc_env :: "kernel \<Rightarrow> nat set \<Rightarrow> bool" where
  "alloc_env s H \<longleftrightarrow> bitmap_geom (sb s) \<and> bitmap_self (blk s) (sb s) \<and> alloc_held s H"

lemma balloc_take:
  assumes t: "tx me s H bl" and c: "card H + length bl + 1 < NBUF" and e: "alloc_env s H"
    and a: "a < sb_size (sb s)" "\<not> block_used (blk s) (sb s) a"
  defines "B \<equiv> BBLOCK a (sb s)"
  defines "d \<equiv> blk s B"
  defines "d' \<equiv> d[unat a mod BPB div 8 := d ! (unat a mod BPB div 8) OR bit_mask (unat a mod BPB)]"
  shows "\<exists>i s1 s2 s3 s4. bread me ROOTDEV B s = Ok (i, s1) \<and> b_data (bufs s1 i) = d \<and>
    log_write i (set_data i d' s1) = Ok s2 \<and> brelse me i s2 = Ok s3 \<and> bzero me ROOTDEV a s3 = Ok s4 \<and>
    tstep me H s s4 (absorb a (absorb B bl)) \<and> blk s4 = (blk s)(B := d', a := replicate BSIZE 0) \<and> a \<noteq> B \<and>
    itable s4 = itable s \<and> uart_out s4 = uart_out s \<and>
    (\<forall>c < sb_size (sb s). block_used (blk s4) (sb s) c \<longleftrightarrow> c = a \<or> block_used (blk s) (sb s) c)"
proof -
  have g: "bitmap_geom (sb s)" "bitmap_self (blk s) (sb s)" and h: "alloc_held s H" using e by (simp_all add: alloc_env_def)
  have ld: "length d = BSIZE" using txD(7) [OF t] by (simp add: d_def)
  have nB: "\<forall>i\<in>H. \<not> buf_of s i B" "\<forall>i\<in>H. \<not> buf_of s i a" using h a by (auto simp: alloc_held_def B_def)
  have "length d' = BSIZE" using ld by (simp add: d'_def)
  from tx_update_block [OF t _ nB(1) this] c
  obtain i s1 s2 s3 where 1: "bread me ROOTDEV B s = Ok (i, s1)" "b_data (bufs s1 i) = d" "log_write i (set_data i d' s1) = Ok s2"
      "brelse me i s2 = Ok s3" "tstep me H s s3 (absorb B bl)" "blk s3 = (blk s)(B := d')" "itable s3 = itable s"
      "uart_out s3 = uart_out s" by (auto simp: d_def)
  have n3: "\<forall>i\<in>H. \<not> buf_of s3 i a" using nB(2) tstepD(3) [OF 1(5)] by simp
  have "card H + length (absorb B bl) < NBUF" using c length_absorb [of B bl] by linarith
  from bzero_ok [OF tstepD(1) [OF 1(5)] this n3]
  obtain s4 where 2: "bzero me ROOTDEV a s3 = Ok s4" "tstep me H s3 s4 (absorb a (absorb B bl))"
      "blk s4 = (blk s3)(a := replicate BSIZE 0)" "itable s4 = itable s3" "uart_out s4 = uart_out s3" by auto
  have anB: "a \<noteq> BBLOCK b (sb s)" if "b < sb_size (sb s)" for b using g(2) a(2) that by (auto simp: bitmap_self_def)
  have "block_used (blk s4) (sb s) b \<longleftrightarrow> b = a \<or> block_used (blk s) (sb s) b" if b: "b < sb_size (sb s)" for b
  proof -
    have m: "unat a mod BPB mod 8 = unat a mod 8" by (simp add: mod_mod_cancel)
    have "block_used (blk s4) (sb s) b \<longleftrightarrow>
      (if b = a then bit (d ! (unat a mod BPB div 8) OR bit_mask (unat a mod BPB)) (unat a mod 8) else block_used (blk s) (sb s) b)"
    proof (rule block_used_flip [OF g(1) a(1) b])
      show "length (blk s (BBLOCK a (sb s))) = BSIZE" using ld by (simp add: d_def B_def)
      show "blk s4 (BBLOCK b (sb s)) = ((blk s)(BBLOCK a (sb s) := (blk s (BBLOCK a (sb s)))
          [unat a mod BPB div 8 := d ! (unat a mod BPB div 8) OR bit_mask (unat a mod BPB)])) (BBLOCK b (sb s))"
        using anB [OF b] by (simp add: 2(3) 1(6) d'_def d_def B_def)
      show "bit (d ! (unat a mod BPB div 8) OR bit_mask (unat a mod BPB)) k = bit (blk s (BBLOCK a (sb s)) ! (unat a mod BPB div 8)) k"
        if "k < 8" "k \<noteq> unat a mod 8" for k using that bit_mask_set(1) [OF that(1)] m by (simp add: d_def B_def)
    qed
    then show ?thesis using bit_mask_set(1) [of "unat a mod 8"] m by simp
  qed
  then show ?thesis using 1 2 anB [OF a(1)] tstep_trans [OF 1(5) 2(2)]
    by (intro exI [of _ i] exI [of _ s1] exI [of _ s2] exI [of _ s3] exI [of _ s4]) (simp add: B_def)
qed

text \<open>What \<^verbatim>\<open>balloc\<close> promises: the first free block, marked and zeroed, or 0 and a message.\<close>

definition balloc_post :: "nat \<Rightarrow> nat set \<Rightarrow> kernel \<Rightarrow> u32 list \<Rightarrow> u32 \<Rightarrow> kernel \<Rightarrow> bool" where
  "balloc_post me H s bl a s' \<longleftrightarrow> itable s' = itable s \<and>
     (if \<exists>c < sb_size (sb s). \<not> block_used (blk s) (sb s) c
      then a < sb_size (sb s) \<and> \<not> block_used (blk s) (sb s) a \<and> (\<forall>c < a. block_used (blk s) (sb s) c) \<and>
        tstep me H s s' (absorb a (absorb (BBLOCK a (sb s)) bl)) \<and>
        (\<forall>c < sb_size (sb s). block_used (blk s') (sb s) c \<longleftrightarrow> c = a \<or> block_used (blk s) (sb s) c) \<and>
        blk s' a = replicate BSIZE 0 \<and> (\<forall>n. n \<noteq> a \<longrightarrow> n \<noteq> BBLOCK a (sb s) \<longrightarrow> blk s' n = blk s n) \<and>
        uart_out s' = uart_out s
      else a = 0 \<and> tstep me H s s' bl \<and> blk s' = blk s \<and>
        uart_out s' = uart_out s @ str ''balloc: out of blocks\<newline>'')"

lemma balloc_post_later:
  assumes "tstep me H s t bl" "blk t = blk s" "itable t = itable s" "uart_out t = uart_out s" "balloc_post me H t bl a s'"
  shows "balloc_post me H s bl a s'"
proof -
  have "sb t = sb s" using fframeD(2) [OF tstepD(2) [OF assms(1)]] .
  then show ?thesis using assms(2-5) tstep_trans [OF assms(1)] by (auto simp: balloc_post_def split: if_splits)
qed

lemma alloc_env_later:
  assumes "tstep me H s t bl" "blk t = blk s" "alloc_env s H" shows "alloc_env t H"
proof -
  have "sb t = sb s" using fframeD(2) [OF tstepD(2) [OF assms(1)]] .
  then show ?thesis using assms tstepD(3) [OF assms(1)] by (simp add: alloc_env_def alloc_held_def)
qed

lemma printf_msg:
  assumes "\<not> panicked s" "asc CHR ''%'' \<notin> set (str msg)"
  shows "printf msg [] s = Ok (s\<lparr>uart_out := uart_out s @ str msg\<rparr>)"
proof -
  have "printf_loop cs [] s = consputs cs s" if "asc CHR ''%'' \<notin> set cs" for cs s
    using that
  proof (induction cs arbitrary: s)
    case (Cons c cs)
    then have "printf_loop cs [] = consputs cs" "c \<noteq> asc CHR ''%''" by (auto simp: fun_eq_iff)
    then show ?case by simp
  qed simp
  then show ?thesis using assms consputs_out by (simp add: printf_def)
qed

lemma balloc_loop_ok:
  assumes "tx me s H bl" "card H + length bl + 1 < NBUF" "alloc_env s H" "b mod BPB = 0"
    "\<forall>c < sb_size (sb s). unat c < b \<longrightarrow> block_used (blk s) (sb s) c"
  shows "\<exists>a s'. balloc_loop me ROOTDEV (sb s) b s = Ok (a, s') \<and> balloc_post me H s bl a s'"
  using assms
proof (induction "unat (sb_size (sb s)) - b" arbitrary: b s rule: less_induct)
  case less
  let ?u = "block_used (blk s) (sb s)" and ?sz = "sb_size (sb s)"
  note t = less.prems(1) and e = less.prems(3)
  have g: "bitmap_geom (sb s)" and h: "alloc_held s H" using e by (simp_all add: alloc_env_def)
  show ?case
  proof (cases "b < unat ?sz")
    case False
    have "\<forall>c < ?sz. ?u c" using less.prems(5) False by (auto simp: word_less_nat_alt)
    moreover have "printf ''balloc: out of blocks\<newline>'' [] s = Ok (s\<lparr>uart_out := uart_out s @ str ''balloc: out of blocks\<newline>''\<rparr>)"
      using txD(4) [OF t] by (intro printf_msg) (simp_all add: str_def asc_def)
    ultimately show ?thesis using False t
      by (subst balloc_loop.simps) (auto simp: balloc_post_def tstep_def buf_of_def)
  next
    case b: True
    let ?b = "of_nat b :: u32"
    let ?B = "BBLOCK ?b (sb s)"
    let ?d = "blk s ?B"
    have ub: "unat ?b = b" using b unsigned_less [where w = ?sz and 'a = nat] by (simp add: unat_of_nat)
    have bj: "unat (of_nat (b + j) :: u32) = b + j" "BBLOCK (of_nat (b + j)) (sb s) = ?B" "unat (of_nat (b + j) :: u32) mod BPB = j"
      "?u (of_nat (b + j)) \<longleftrightarrow> bit (?d ! (j div 8)) (j mod 8)" "(of_nat (b + j) :: u32) < ?sz" if j: "j < BPB" "b + j < unat ?sz" for j
    proof -
      show u: "unat (of_nat (b + j) :: u32) = b + j"
        using j(2) unsigned_less [where w = ?sz and 'a = nat] by (subst unat_of_nat) simp
      have q: "(b + j) div BPB = b div BPB" "(b + j) mod BPB = j" using less.prems(4) j(1) by auto
      show lt: "(of_nat (b + j) :: u32) < ?sz" using j(2) u by (simp add: word_less_nat_alt)
      have "unat (BBLOCK (of_nat (b + j)) (sb s)) = unat ?B"
        using unat_BBLOCK(1) [OF g lt] unat_BBLOCK(1) [OF g, of ?b] b ub u q by (simp add: word_less_nat_alt)
      then show B: "BBLOCK (of_nat (b + j)) (sb s) = ?B" by (rule word_unat_eq_iff [THEN iffD2])
      show m: "unat (of_nat (b + j) :: u32) mod BPB = j" using u q by simp
      have "(b + j) mod 8 = j mod 8" using q(2) by (metis BPB_def BSIZE_def dvd_triv_right mod_mod_cancel)
      then show "?u (of_nat (b + j)) \<longleftrightarrow> bit (?d ! (j div 8)) (j mod 8)" using B m u by (simp add: block_used_def)
    qed
    note sc = balloc_scan_spec [where d = ?d and sz = "unat ?sz" and b = b and bi = 0]
    show ?thesis
    proof (cases "balloc_scan ?d (unat ?sz) b 0")
      case (Some bi)
      then have k: "bi < BPB" "b + bi < unat ?sz" "\<not> bit (?d ! (bi div 8)) (bi mod 8)"
          "\<And>j. j < bi \<Longrightarrow> bit (?d ! (j div 8)) (j mod 8)" using sc by simp_all
      let ?a = "of_nat (b + bi) :: u32"
      note bi = bj [OF k(1,2)]
      have a: "?a < ?sz" "\<not> ?u ?a" using bi k(3) by simp_all
      note tk = balloc_take [OF t less.prems(2) e a, unfolded bi(2,3)]
      have fst: "?u c" if "c < ?a" for c
      proof (cases "unat c < b")
        case True
        then show ?thesis using less.prems(5) that a(1) by (meson less_trans)
      next
        case False
        then have c: "unat c = b + (unat c - b)" "unat c - b < bi" using that bi(1) by (simp_all add: word_less_nat_alt)
        have "?u (of_nat (b + (unat c - b)))" using bj(4) [of "unat c - b"] k(4) [OF c(2)] c k(1,2) by linarith
        then show ?thesis using c(1) by simp
      qed
      obtain i s1 s2 s3 s4 where r: "bread me ROOTDEV ?B s = Ok (i, s1)" "b_data (bufs s1 i) = ?d"
        "log_write i (set_data i (?d[bi div 8 := ?d ! (bi div 8) OR bit_mask bi]) s1) = Ok s2" "brelse me i s2 = Ok s3"
        "bzero me ROOTDEV ?a s3 = Ok s4" "tstep me H s s4 (absorb ?a (absorb ?B bl))"
        "blk s4 = (blk s)(?B := ?d[bi div 8 := ?d ! (bi div 8) OR bit_mask bi], ?a := replicate BSIZE 0)" "?a \<noteq> ?B"
        "itable s4 = itable s" "uart_out s4 = uart_out s" "\<forall>c < ?sz. block_used (blk s4) (sb s) c \<longleftrightarrow> c = ?a \<or> ?u c"
        using tk by (elim exE conjE) (rule that; assumption)
      have "balloc_loop me ROOTDEV (sb s) b s = Ok (?a, s4)"
        using b Some r(1-5) by (subst balloc_loop.simps) (simp add: Let_def)
      moreover have "balloc_post me H s bl ?a s4"
        unfolding balloc_post_def using a fst r(6-11) bi(2) by auto
      ultimately show ?thesis by blast
    next
      case None
      have "?b < ?sz" using ub b by (simp add: word_less_nat_alt)
      then have nB: "\<forall>i\<in>H. \<not> buf_of s i ?B" using h by (auto simp: alloc_held_def)
      have c: "card H + length bl < NBUF" using less.prems(2) by simp
      obtain i s1 s2 where r: "bread me ROOTDEV ?B s = Ok (i, s1)" "b_data (bufs s1 i) = ?d" "brelse me i s1 = Ok s2"
        "tstep me H s s2 bl" "blk s2 = blk s" "itable s2 = itable s" "uart_out s2 = uart_out s"
        using tx_read_block [OF t c nB] by (elim exE conjE) (rule that; assumption)
      have s2: "sb s2 = sb s" using fframeD(2) [OF tstepD(2) [OF r(4)]] .
      have "?u c" if "c < ?sz" "unat c < b + BPB" for c
      proof (cases "unat c < b")
        case True
        then show ?thesis using less.prems(5) that by blast
      next
        case False
        then have c: "unat c = b + (unat c - b)" "unat c - b < BPB" "b + (unat c - b) < unat ?sz"
          using that by (simp_all add: word_less_nat_alt)
        have "?u (of_nat (b + (unat c - b)))" using bj(4) [OF c(2,3)] sc None c by simp
        then show ?thesis using c(1) by simp
      qed
      then have u: "\<forall>c < sb_size (sb s2). unat c < b + BPB \<longrightarrow> block_used (blk s2) (sb s2) c" using s2 r(5) by simp
      have "unat (sb_size (sb s2)) - (b + BPB) < unat ?sz - b" using b s2 by simp
      from less.hyps [OF this tstepD(1) [OF r(4)] less.prems(2) alloc_env_later [OF r(4,5) e] _ u]
      obtain a s' where "balloc_loop me ROOTDEV (sb s2) (b + BPB) s2 = Ok (a, s')" "balloc_post me H s2 bl a s'"
        using less.prems(4) by auto
      then show ?thesis using b None r(1-3) s2 balloc_post_later [OF r(4-7)]
        by (subst balloc_loop.simps) (simp add: Let_def)
    qed
  qed
qed

lemma balloc_ok:
  assumes "tx me s H bl" "card H + length bl + 1 < NBUF" "alloc_env s H"
  shows "\<exists>a s'. balloc me ROOTDEV s = Ok (a, s') \<and> balloc_post me H s bl a s'"
  using balloc_loop_ok [OF assms, of 0] by (simp add: balloc_def)

lemma bfree_ok:
  assumes t: "tx me s H bl" and c: "card H + length bl < NBUF" and g: "bitmap_geom (sb s)" "alloc_held s H"
    and a: "a < sb_size (sb s)" "block_used (blk s) (sb s) a"
  shows "\<exists>s'. bfree me ROOTDEV a s = Ok s' \<and> tstep me H s s' (absorb (BBLOCK a (sb s)) bl) \<and> itable s' = itable s \<and>
    uart_out s' = uart_out s \<and> (\<forall>n. n \<noteq> BBLOCK a (sb s) \<longrightarrow> blk s' n = blk s n) \<and>
    (\<forall>b < sb_size (sb s). block_used (blk s') (sb s) b \<longleftrightarrow> b \<noteq> a \<and> block_used (blk s) (sb s) b)"
proof -
  let ?B = "BBLOCK a (sb s)" and ?k = "unat a mod BPB div 8"
  let ?d = "blk s ?B"
  let ?y = "?d ! ?k AND NOT (bit_mask (unat a mod BPB))"
  have m: "unat a mod BPB mod 8 = unat a mod 8" by (simp add: mod_mod_cancel)
  have ld: "length ?d = BSIZE" using txD(7) [OF t] by simp
  have nB: "\<forall>i\<in>H. \<not> buf_of s i ?B" using g(2) a(1) by (auto simp: alloc_held_def)
  have "length (?d[?k := ?y]) = BSIZE" using ld by simp
  from tx_update_block [OF t c nB this]
  obtain i s1 s2 s3 where r: "bread me ROOTDEV ?B s = Ok (i, s1)" "b_data (bufs s1 i) = ?d"
      "log_write i (set_data i (?d[?k := ?y]) s1) = Ok s2" "brelse me i s2 = Ok s3" "tstep me H s s3 (absorb ?B bl)"
      "blk s3 = (blk s)(?B := ?d[?k := ?y])" "itable s3 = itable s" "uart_out s3 = uart_out s"
    by (elim exE conjE) (rule that; assumption)
  have "?d ! ?k AND bit_mask (unat a mod BPB) \<noteq> 0" using a(2) m by (simp add: bit_mask_zero block_used_def)
  then have "bfree me ROOTDEV a s = Ok s3" using r(1-4) by (simp add: bfree_def Let_def)
  moreover have "block_used (blk s3) (sb s) b \<longleftrightarrow> b \<noteq> a \<and> block_used (blk s) (sb s) b" if b: "b < sb_size (sb s)" for b
    using block_used_flip [OF g(1) a(1) b, of "blk s" "blk s3" ?y] ld r(6) bit_mask_set(2) [of _ "?d ! ?k" "unat a mod BPB"] m by simp
  ultimately show ?thesis using r by (intro exI [of _ s3]) simp
qed

lemma bfree_free_panics:
  assumes t: "tx me s H bl" and c: "card H + length bl < NBUF" and g: "alloc_held s H"
    and a: "a < sb_size (sb s)" "\<not> block_used (blk s) (sb s) a"
  shows "bfree me ROOTDEV a s = Panic ''freeing free block''"
proof -
  let ?B = "BBLOCK a (sb s)"
  have nB: "\<forall>i\<in>H. \<not> buf_of s i ?B" using g a(1) by (auto simp: alloc_held_def)
  obtain i s1 s2 where r: "bread me ROOTDEV ?B s = Ok (i, s1)" "b_data (bufs s1 i) = blk s ?B"
    using tx_read_block [OF t c nB] by (elim exE conjE) (rule that; assumption)
  have "blk s ?B ! (unat a mod BPB div 8) AND bit_mask (unat a mod BPB) = 0"
    using a(2) by (simp add: bit_mask_zero block_used_def mod_mod_cancel)
  then show ?thesis using r by (simp add: bfree_def Let_def)
qed

section \<open>The contract of the allocator\<close>

text \<open>
  (C25) Inside a transaction on a disk whose bitmap marks itself, if some block is free then \<^verbatim>\<open>balloc\<close>
  returns the first free one, marks it and nothing else as used, fills it with zeros and leaves
  every block except it and its bitmap block alone. \<^verbatim>\<open>bfree\<close> of the block restores the set of used
  blocks, and freeing it a second time panics.
\<close>

theorem balloc_bfree_roundtrip:
  assumes "tx me s {} bl" "length bl + 3 < NBUF" "bitmap_geom (sb s)" "bitmap_self (blk s) (sb s)"
    and "c < sb_size (sb s)" "\<not> block_used (blk s) (sb s) c"
  shows "\<exists>a s' s''. balloc me ROOTDEV s = Ok (a, s') \<and> a \<le> c \<and> \<not> block_used (blk s) (sb s) a \<and>
    (\<forall>b < a. block_used (blk s) (sb s) b) \<and>
    (\<forall>b < sb_size (sb s). block_used (blk s') (sb s) b \<longleftrightarrow> b = a \<or> block_used (blk s) (sb s) b) \<and>
    blk s' a = replicate BSIZE 0 \<and> (\<forall>n. n \<noteq> a \<longrightarrow> n \<noteq> BBLOCK a (sb s) \<longrightarrow> blk s' n = blk s n) \<and>
    bfree me ROOTDEV a s' = Ok s'' \<and>
    (\<forall>b < sb_size (sb s). block_used (blk s'') (sb s) b \<longleftrightarrow> block_used (blk s) (sb s) b) \<and>
    bfree me ROOTDEV a s'' = Panic ''freeing free block''"
proof -
  have e: "alloc_env s {}" "alloc_held t {}" for t using assms by (simp_all add: alloc_env_def alloc_held_def)
  obtain a s' where 1: "balloc me ROOTDEV s = Ok (a, s')" "balloc_post me {} s bl a s'"
    using balloc_ok [OF assms(1) _ e(1)] assms(2) by auto
  then have a: "a < sb_size (sb s)" "\<not> block_used (blk s) (sb s) a" "\<forall>b < a. block_used (blk s) (sb s) b"
      and t: "tstep me {} s s' (absorb a (absorb (BBLOCK a (sb s)) bl))"
      and u: "\<forall>b < sb_size (sb s). block_used (blk s') (sb s) b \<longleftrightarrow> b = a \<or> block_used (blk s) (sb s) b"
      and f: "blk s' a = replicate BSIZE 0" "\<forall>n. n \<noteq> a \<longrightarrow> n \<noteq> BBLOCK a (sb s) \<longrightarrow> blk s' n = blk s n"
    using assms(5,6) by (auto simp: balloc_post_def split: if_splits)
  have sb: "sb s' = sb s" using fframeD(2) [OF tstepD(2) [OF t]] .
  have l: "length (absorb a (absorb (BBLOCK a (sb s)) bl)) \<le> length bl + 2"
    using length_absorb [of a "absorb (BBLOCK a (sb s)) bl"] length_absorb [of "BBLOCK a (sb s)" bl] by linarith
  obtain s'' where 2: "bfree me ROOTDEV a s' = Ok s''" "tstep me {} s' s'' (absorb (BBLOCK a (sb s')) (absorb a (absorb (BBLOCK a (sb s)) bl)))"
      "\<forall>b < sb_size (sb s). block_used (blk s'') (sb s) b \<longleftrightarrow> b \<noteq> a \<and> block_used (blk s') (sb s) b"
    using bfree_ok [OF tstepD(1) [OF t] _ _ e(2), of a] l assms(2,3) sb a u by auto
  have sb2: "sb s'' = sb s" using fframeD(2) [OF tstepD(2) [OF 2(2)]] sb by simp
  have "bfree me ROOTDEV a s'' = Panic ''freeing free block''"
  proof (rule bfree_free_panics [OF tstepD(1) [OF 2(2)] _ e(2)])
    show "card {} + length (absorb (BBLOCK a (sb s')) (absorb a (absorb (BBLOCK a (sb s)) bl))) < NBUF"
      using length_absorb [of "BBLOCK a (sb s')" "absorb a (absorb (BBLOCK a (sb s)) bl)"] l assms(2) by simp
    show "a < sb_size (sb s'')" "\<not> block_used (blk s'') (sb s'') a" using 2(3) a(1) sb2 by simp_all
  qed
  moreover have "a \<le> c" using a(3) assms(6) by (meson not_less)
  moreover have "\<forall>b < sb_size (sb s). block_used (blk s'') (sb s) b \<longleftrightarrow> block_used (blk s) (sb s) b"
    using 2(3) u a(2) by auto
  ultimately show ?thesis using 1(1) a u f 2(1) by (intro exI [of _ a] exI [of _ s'] exI [of _ s'']) simp
qed

text \<open>A freshly booted kernel over a given disk, inside its first transaction.\<close>

definition fs_boot :: "(u32 \<Rightarrow> u8 list) \<Rightarrow> superblock \<Rightarrow> kernel" where
  "fs_boot d k = upd_log (\<lambda>l. l\<lparr>lg_outstanding := 1, lg_dev := ROOTDEV\<rparr>) ((binit (boot_kernel\<lparr>disk := d\<rparr>))\<lparr>sb := k\<rparr>)"

lemma fs_boot_tx:
  assumes "\<And>n. length (d n) = BSIZE"
  shows "tx me (fs_boot d k) {} []" "blk (fs_boot d k) = d" "sb (fs_boot d k) = k" "itable (fs_boot d k) = (\<lambda>_. boot_inode)"
proof -
  let ?s = "binit (boot_kernel\<lparr>disk := d\<rparr>)"
  obtain bf where bf: "?s = boot_kernel\<lparr>disk := d, bufs := bf\<rparr>" using binit_bufs [of "boot_kernel\<lparr>disk := d\<rparr>"] by auto
  have b: "bci me ?s {} {}" using boot_cache(1) [OF assms] .
  have f: "fs_boot d k = ?s\<lparr>sb := k, klog := (klog ?s)\<lparr>lg_outstanding := 1, lg_dev := ROOTDEV\<rparr>\<rparr>"
    by (simp add: fs_boot_def upd_log_def)
  have b': "bci me (fs_boot d k) {} {}" using b bci_cong [of "fs_boot d k" ?s me "{}" "{}"] by (simp add: f)
  then show bd: "blk (fs_boot d k) = d" using blk_idle [OF b'] by (simp add: f bf)
  show "sb (fs_boot d k) = k" by (simp add: f)
  show "itable (fs_boot d k) = (\<lambda>_. boot_inode)" unfolding f bf by (simp add: boot_kernel_def)
  have "log_list (lg_lh (klog (fs_boot d k))) []" unfolding f bf by (simp add: boot_kernel_def log_list_def)
  moreover have "\<not> panicked (fs_boot d k)" "disk (fs_boot d k) = d" "lg_outstanding (klog (fs_boot d k)) = 1"
    unfolding f bf by (simp_all add: boot_kernel_def)
  ultimately show "tx me (fs_boot d k) {} []" using b' bd by (simp add: tx_def)
qed

lemma ff_bits: "j < 8 \<Longrightarrow> bit (0xff :: u8) j"
proof -
  have "(0xff :: u8) = mask 8" by (simp add: mask_eq_exp_minus_1)
  then show "j < 8 \<Longrightarrow> bit (0xff :: u8) j" by (simp only: bit_mask_iff) simp
qed

theorem balloc_bfree_roundtrip_witness:
  "let k = (sb boot_kernel)\<lparr>sb_size := 200, sb_bmapstart := 45\<rparr>;
       s = fs_boot ((\<lambda>_. replicate BSIZE 0)(45 := replicate 8 0xff @ replicate 1016 0)) k in
   \<exists>s' s''. balloc 0 ROOTDEV s = Ok (64, s') \<and> block_used (blk s') k 64 \<and> bfree 0 ROOTDEV 64 s' = Ok s'' \<and>
     \<not> block_used (blk s'') k 64"
proof -
  define k where "k = (sb boot_kernel)\<lparr>sb_size := 200, sb_bmapstart := 45\<rparr>"
  define d where "d = (\<lambda>_ :: u32. replicate BSIZE 0)(45 := replicate 8 0xff @ replicate 1016 (0 :: u8))"
  define s where "s = fs_boot d k"
  have k: "sb_size k = 200" "sb_bmapstart k = 45" by (simp_all add: k_def)
  have l: "length (d n) = BSIZE" for n by (simp add: d_def)
  have f: "tx 0 s {} []" "blk s = d" "sb s = k" using fs_boot_tx(1-3) [OF l] by (simp_all add: s_def)
  have B: "BBLOCK b k = 45" if "b < 200" for b
  proof -
    have "unat b div 8192 = 0" using that by (simp add: word_less_nat_alt)
    then have "b div 8192 = 0" by (simp add: word_unat_eq_iff unat_div)
    then show ?thesis by (simp add: BBLOCK_def k)
  qed
  have u: "block_used d k b" if "b < 64" for b
  proof -
    have b: "unat b < 64" "b < 200" using that by (simp_all add: word_less_nat_alt)
    have "unat b mod BPB div 8 < 8" using b(1) by simp
    moreover have "bit (0xff :: u8) j" if "j < 8" for j using that ff_bits by blast
    ultimately show ?thesis using B [OF b(2)] by (simp add: block_used_def nth_append d_def)
  qed
  have n: "\<not> block_used d k 64" using B [of 64] by (simp add: block_used_def nth_append d_def)
  have g: "bitmap_geom (sb s)" by (simp add: f(3) bitmap_geom_def k)
  have m: "bitmap_self (blk s) (sb s)" using B u [of 45] by (simp add: f(2,3) bitmap_self_def k)
  have c: "64 < sb_size (sb s)" "\<not> block_used (blk s) (sb s) 64" using n by (simp_all add: f(2,3) k)
  obtain a s' s'' where r: "balloc 0 ROOTDEV s = Ok (a, s')" "a \<le> 64" "\<not> block_used d k a"
      "\<forall>b < 200. block_used (blk s') k b \<longleftrightarrow> b = a \<or> block_used d k b" "bfree 0 ROOTDEV a s' = Ok s''"
      "\<forall>b < 200. block_used (blk s'') k b \<longleftrightarrow> block_used d k b"
    using balloc_bfree_roundtrip [OF f(1) _ g m c] unfolding f(2,3) k by (auto simp: NBUF_val)
  have "a = 64" using r(2,3) u by (meson order_le_imp_less_or_eq)
  then have "balloc 0 ROOTDEV s = Ok (64, s')" "block_used (blk s') k 64" "bfree 0 ROOTDEV 64 s' = Ok s''"
      "\<not> block_used (blk s'') k 64" using r n by auto
  then show ?thesis unfolding Let_def k_def [symmetric] d_def [symmetric] s_def [symmetric] by blast
qed

end
