(* ===== verification/Inode.thy ===== *)
theory Inode
  imports Balloc
begin

text \<open>
  Inodes (\<^verbatim>\<open>kernel/fs.c\<close>): the on-disk structure, the in-memory table with its reference counts, and
  the operations from \<^verbatim>\<open>iinit\<close> to \<^verbatim>\<open>ireclaim\<close>, with \<^verbatim>\<open>itrunc\<close>, which \<^verbatim>\<open>iput\<close> calls. An inode pointer is the
  index of its entry in \<^verbatim>\<open>itable\<close>; the callers never pass a null pointer. A section under \<^verbatim>\<open>itable.lock\<close> is
  one step.
\<close>

section \<open>The on-disk inode\<close>

text \<open>A \<^verbatim>\<open>struct dinode\<close> is 64 bytes; the addresses start at byte 12.\<close>

definition get_dinode :: "u8 list \<Rightarrow> nat \<Rightarrow> dinode" where
  "get_dinode d k =
     \<lparr>di_type = get16 d (64 * k), di_major = get16 d (64 * k + 2), di_minor = get16 d (64 * k + 4),
      di_nlink = get16 d (64 * k + 6), di_size = get32 d (64 * k + 8),
      di_addrs = map (\<lambda>i. get32 d (64 * k + 12 + 4 * i)) [0..<13]\<rparr>"

definition dinode_bytes :: "dinode \<Rightarrow> u8 list" where
  "dinode_bytes di =
     bytes16 (di_type di) @ bytes16 (di_major di) @ bytes16 (di_minor di) @ bytes16 (di_nlink di) @
     bytes32 (di_size di) @ concat (map bytes32 (di_addrs di))"

definition IBLOCK :: "u32 \<Rightarrow> superblock \<Rightarrow> u32" where
  "IBLOCK i sbk = i div of_nat IPB + sb_inodestart sbk"

abbreviation islot :: "u32 \<Rightarrow> nat" where
  "islot i \<equiv> unat i mod IPB"

section \<open>Operations\<close>

definition iinit :: "kernel \<Rightarrow> kernel" where
  "iinit s = fold (\<lambda>i. upd_inode i (\<lambda>p. p\<lparr>i_lock := initsleeplock ''inode''\<rparr>)) [0..<NINODE] s"

definition iget :: "u32 \<Rightarrow> u32 \<Rightarrow> kernel \<Rightarrow> (nat \<times> kernel) res" where
  "iget dev inum s =
     (case find (\<lambda>i. i_ref (itable s i) > 0 \<and> i_dev (itable s i) = dev \<and> i_inum (itable s i) = inum) [0..<NINODE] of
        Some ip \<Rightarrow> Ok (ip, upd_inode ip (\<lambda>p. p\<lparr>i_ref := i_ref p + 1\<rparr>) s)
      | None \<Rightarrow>
          (case find (\<lambda>i. i_ref (itable s i) = 0) [0..<NINODE] of
             None \<Rightarrow> Panic ''iget: no inodes''
           | Some ip \<Rightarrow> Ok (ip, upd_inode ip (\<lambda>p. p\<lparr>i_dev := dev, i_inum := inum, i_ref := 1, i_valid := 0\<rparr>) s)))"

function ialloc_loop :: "nat \<Rightarrow> u32 \<Rightarrow> u16 \<Rightarrow> superblock \<Rightarrow> nat \<Rightarrow> kernel \<Rightarrow> (nat option \<times> kernel) res" where
  "ialloc_loop me dev type1 sbk inum s =
     (if inum < unat (sb_ninodes sbk)
      then res_bind (bread me dev (IBLOCK (of_nat inum) sbk) s) (\<lambda>(bp, s).
        let d = b_data (bufs s bp); k = inum mod IPB in
        if di_type (get_dinode d k) = 0
        then (let s = set_data bp (patch (patch d (64 * k) (replicate 64 0)) (64 * k) (bytes16 type1)) s in
              res_bind (log_write bp s) (\<lambda>s.
              res_bind (brelse me bp s) (\<lambda>s.
              res_bind (iget dev (of_nat inum) s) (\<lambda>(ip, s). Ok (Some ip, s)))))
        else res_bind (brelse me bp s) (ialloc_loop me dev type1 sbk (Suc inum)))
      else res_bind (printf ''ialloc: no inodes\<newline>'' [] s) (\<lambda>s. Ok (None, s)))"
  by pat_completeness auto
termination
  by (relation "measure (\<lambda>(_, _, _, sbk, inum, _). unat (sb_ninodes sbk) - inum)") auto

declare ialloc_loop.simps [simp del]

definition ialloc :: "nat \<Rightarrow> u32 \<Rightarrow> u16 \<Rightarrow> kernel \<Rightarrow> (nat option \<times> kernel) res" where
  "ialloc me dev type1 s = ialloc_loop me dev type1 (sb s) 1 s"

definition dinode_of :: "inode \<Rightarrow> dinode" where
  "dinode_of p = \<lparr>di_type = i_type p, di_major = i_major p, di_minor = i_minor p, di_nlink = i_nlink p,
     di_size = i_size p, di_addrs = i_addrs p\<rparr>"

definition iupdate :: "nat \<Rightarrow> nat \<Rightarrow> kernel \<Rightarrow> kernel res" where
  "iupdate me ip s =
     (let p = itable s ip in
      res_bind (bread me (i_dev p) (IBLOCK (i_inum p) (sb s)) s) (\<lambda>(bp, s).
      res_bind (log_write bp (set_data bp
          (patch (b_data (bufs s bp)) (64 * islot (i_inum p)) (dinode_bytes (dinode_of p))) s)) (\<lambda>s.
      brelse me bp s)))"

definition idup :: "nat \<Rightarrow> kernel \<Rightarrow> nat \<times> kernel" where
  "idup ip s = (ip, upd_inode ip (\<lambda>p. p\<lparr>i_ref := i_ref p + 1\<rparr>) s)"

definition load_inode :: "dinode \<Rightarrow> inode \<Rightarrow> inode" where
  "load_inode di p = p\<lparr>i_type := di_type di, i_major := di_major di, i_minor := di_minor di,
     i_nlink := di_nlink di, i_size := di_size di, i_addrs := di_addrs di\<rparr>"

definition ilock :: "nat \<Rightarrow> nat \<Rightarrow> kernel \<Rightarrow> kernel res" where
  "ilock me ip s =
     (if i_ref (itable s ip) < 1 then Panic ''ilock''
      else res_bind (lock_inode me ip s) (\<lambda>s.
        let p = itable s ip in
        if i_valid p = 0
        then res_bind (bread me (i_dev p) (IBLOCK (i_inum p) (sb s)) s) (\<lambda>(bp, s).
          let s = upd_inode ip (load_inode (get_dinode (b_data (bufs s bp)) (islot (i_inum p)))) s in
          res_bind (brelse me bp s) (\<lambda>s.
          let s = upd_inode ip (\<lambda>p. p\<lparr>i_valid := 1\<rparr>) s in
          if i_type (itable s ip) = 0 then Panic ''ilock: no type'' else Ok s))
        else Ok s))"

definition iunlock :: "nat \<Rightarrow> nat \<Rightarrow> kernel \<Rightarrow> kernel res" where
  "iunlock me ip s =
     (if \<not> holdingsleep me (i_lock (itable s ip)) s \<or> i_ref (itable s ip) < 1 then Panic ''iunlock''
      else unlock_inode ip s)"

text \<open>The two loops of \<^verbatim>\<open>itrunc\<close>, over the direct addresses and over the words of the indirect block.\<close>

fun itrunc_direct :: "nat \<Rightarrow> nat \<Rightarrow> nat list \<Rightarrow> kernel \<Rightarrow> kernel res" where
  "itrunc_direct me ip [] s = Ok s"
| "itrunc_direct me ip (i # is1) s =
     (let a = i_addrs (itable s ip) ! i in
      if a \<noteq> 0
      then res_bind (bfree me (i_dev (itable s ip)) a s) (\<lambda>s.
        itrunc_direct me ip is1 (upd_inode ip (\<lambda>p. p\<lparr>i_addrs := (i_addrs p)[i := 0]\<rparr>) s))
      else itrunc_direct me ip is1 s)"

fun itrunc_indirect :: "nat \<Rightarrow> nat \<Rightarrow> nat \<Rightarrow> nat list \<Rightarrow> kernel \<Rightarrow> kernel res" where
  "itrunc_indirect me ip bp [] s = Ok s"
| "itrunc_indirect me ip bp (j # js) s =
     (let a = get32 (b_data (bufs s bp)) (4 * j) in
      if a \<noteq> 0 then res_bind (bfree me (i_dev (itable s ip)) a s) (itrunc_indirect me ip bp js)
      else itrunc_indirect me ip bp js s)"

definition itrunc :: "nat \<Rightarrow> nat \<Rightarrow> kernel \<Rightarrow> kernel res" where
  "itrunc me ip s =
     res_bind (itrunc_direct me ip [0..<NDIRECT] s) (\<lambda>s.
     let p = itable s ip; a = i_addrs p ! NDIRECT in
     res_bind
       (if a \<noteq> 0
        then res_bind (bread me (i_dev p) a s) (\<lambda>(bp, s).
          res_bind (itrunc_indirect me ip bp [0..<NINDIRECT] s) (\<lambda>s.
          res_bind (brelse me bp s) (\<lambda>s.
          res_bind (bfree me (i_dev (itable s ip)) (i_addrs (itable s ip) ! NDIRECT) s) (\<lambda>s.
          Ok (upd_inode ip (\<lambda>p. p\<lparr>i_addrs := (i_addrs p)[NDIRECT := 0]\<rparr>) s)))))
        else Ok s) (\<lambda>s.
     iupdate me ip (upd_inode ip (\<lambda>p. p\<lparr>i_size := 0\<rparr>) s)))"

definition iput :: "nat \<Rightarrow> nat \<Rightarrow> kernel \<Rightarrow> kernel res" where
  "iput me ip s =
     (let p = itable s ip; drop1 = upd_inode ip (\<lambda>p. p\<lparr>i_ref := i_ref p - 1\<rparr>) in
      if i_ref p = 1 \<and> i_valid p \<noteq> 0 \<and> i_nlink p = 0
      then res_bind (lock_inode me ip s) (\<lambda>s.
        res_bind (itrunc me ip s) (\<lambda>s.
        res_bind (iupdate me ip (upd_inode ip (\<lambda>p. p\<lparr>i_type := 0\<rparr>) s)) (\<lambda>s.
        res_bind (unlock_inode ip (upd_inode ip (\<lambda>p. p\<lparr>i_valid := 0\<rparr>) s)) (\<lambda>s. Ok (drop1 s)))))
      else Ok (drop1 s))"

definition iunlockput :: "nat \<Rightarrow> nat \<Rightarrow> kernel \<Rightarrow> kernel res" where
  "iunlockput me ip s = res_bind (iunlock me ip s) (iput me ip)"

function ireclaim_loop :: "nat \<Rightarrow> u32 \<Rightarrow> superblock \<Rightarrow> nat \<Rightarrow> kernel \<Rightarrow> kernel res" where
  "ireclaim_loop me dev sbk inum s =
     (if inum < unat (sb_ninodes sbk)
      then res_bind (bread me dev (IBLOCK (of_nat inum) sbk) s) (\<lambda>(bp, s).
        let di = get_dinode (b_data (bufs s bp)) (inum mod IPB) in
        res_bind
          (if di_type di \<noteq> 0 \<and> di_nlink di = 0
           then res_bind (printf ''ireclaim: orphaned inode %d\<newline>'' [VNum (of_nat inum)] s) (\<lambda>s.
             res_bind (iget dev (of_nat inum) s) (\<lambda>(ip, s). Ok (Some ip, s)))
           else Ok (None, s)) (\<lambda>(ip, s).
        res_bind (brelse me bp s) (\<lambda>s.
        res_bind
          (case ip of
             Some ip \<Rightarrow>
               res_bind (begin_op s) (\<lambda>s.
               res_bind (ilock me ip s) (\<lambda>s.
               res_bind (iunlock me ip s) (\<lambda>s.
               res_bind (iput me ip s) (end_op me))))
           | None \<Rightarrow> Ok s)
          (ireclaim_loop me dev sbk (Suc inum)))))
      else Ok s)"
  by pat_completeness auto
termination
  by (relation "measure (\<lambda>(_, _, sbk, inum, _). unat (sb_ninodes sbk) - inum)") auto

declare ireclaim_loop.simps [simp del]

definition ireclaim :: "nat \<Rightarrow> u32 \<Rightarrow> kernel \<Rightarrow> kernel res" where
  "ireclaim me dev s = ireclaim_loop me dev (sb s) 1 s"

definition fsinit :: "nat \<Rightarrow> u32 \<Rightarrow> kernel \<Rightarrow> kernel res" where
  "fsinit me dev s =
     res_bind (readsb me dev s) (\<lambda>s.
     if sb_magic (sb s) \<noteq> FSMAGIC then Panic ''invalid file system''
     else res_bind (initlog me dev (sb s) s) (ireclaim me dev))"

section \<open>Encoding and decoding\<close>

lemma get_bytes_append:
  "p = length xs \<Longrightarrow> get16 (xs @ bytes16 a @ zs) p = a" "p = length xs \<Longrightarrow> get32 (xs @ bytes32 b @ zs) p = b"
proof -
  have e: "patch (xs @ ys @ zs) (length xs) ys = xs @ ys @ zs" for ys by (simp add: patch_def)
  show "p = length xs \<Longrightarrow> get16 (xs @ bytes16 a @ zs) p = a"
    using get_bytes_patch(1) [of "length xs" "xs @ bytes16 a @ zs" a] by (simp add: e)
  show "p = length xs \<Longrightarrow> get32 (xs @ bytes32 b @ zs) p = b"
    using get_bytes_patch(2) [of "length xs" "xs @ bytes32 b @ zs" b] by (simp add: e)
qed

lemma length_words [simp]: "length (concat (map bytes32 as1)) = 4 * length as1"
  by (induction as1) simp_all

lemma get32_words: "i < length as1 \<Longrightarrow> get32 (xs @ concat (map bytes32 as1)) (length xs + 4 * i) = as1 ! i"
proof (induction as1 arbitrary: xs i)
  case (Cons a as1)
  show ?case
  proof (cases i)
    case 0
    then show ?thesis by (simp add: get_bytes_append)
  next
    case (Suc j)
    then show ?thesis using Cons.IH [of j "xs @ bytes32 a"] Cons.prems by (simp add: algebra_simps)
  qed
qed simp

lemma length_dinode_bytes: "length (di_addrs di) = 13 \<Longrightarrow> length (dinode_bytes di) = 64"
  by (simp add: dinode_bytes_def)

lemma get_dinode_bytes:
  assumes "length (di_addrs di) = 13" shows "get_dinode (dinode_bytes di) 0 = di"
proof -
  let ?b = "dinode_bytes di"
  have h: "get16 ?b 0 = di_type di" "get16 ?b 2 = di_major di" "get16 ?b 4 = di_minor di" "get16 ?b 6 = di_nlink di"
      "get32 ?b 8 = di_size di"
    unfolding dinode_bytes_def using get_bytes_append(1) [of 0 "[]"] get_bytes_append(1) [of 2 "bytes16 _"]
      get_bytes_append(1) [of 4 "bytes16 _ @ bytes16 _"] get_bytes_append(1) [of 6 "bytes16 _ @ bytes16 _ @ bytes16 _"]
      get_bytes_append(2) [of 8 "bytes16 _ @ bytes16 _ @ bytes16 _ @ bytes16 _"]
    by simp_all
  have "get32 ?b (12 + 4 * i) = di_addrs di ! i" if "i < 13" for i
    using get32_words [of i "di_addrs di" "bytes16 (di_type di) @ bytes16 (di_major di) @ bytes16 (di_minor di) @
      bytes16 (di_nlink di) @ bytes32 (di_size di)"] that assms by (simp add: dinode_bytes_def)
  then have "map (\<lambda>i. get32 ?b (12 + 4 * i)) [0..<13] = di_addrs di"
    using assms by (intro nth_equalityI) simp_all
  then show ?thesis using h by (intro dinode.equality) (simp_all add: get_dinode_def numeral_2_eq_2)
qed

lemma get_slice:
  "p + 2 \<le> n \<Longrightarrow> o1 + n \<le> length xs \<Longrightarrow> get16 (slice o1 n xs) p = get16 xs (o1 + p)"
  "p + 4 \<le> n \<Longrightarrow> o1 + n \<le> length xs \<Longrightarrow> get32 (slice o1 n xs) p = get32 xs (o1 + p)"
  by (simp_all add: get16_def get32_def get_le_slice)

lemma get_dinode_slice:
  "64 * k + 64 \<le> length d \<Longrightarrow> get_dinode d k = get_dinode (slice (64 * k) 64 d) 0"
  by (simp add: get_dinode_def get_slice add.assoc)

lemma get_dinode_patch:
  assumes "length d = BSIZE" "k < IPB" "j < IPB" "length (di_addrs di) = 13"
  shows "get_dinode (patch d (64 * k) (dinode_bytes di)) j = (if j = k then di else get_dinode d j)"
proof -
  have l: "64 * k + 64 \<le> length d" "64 * j + 64 \<le> length d" "length (dinode_bytes di) = 64"
    using assms length_dinode_bytes by auto
  then have lp: "length (patch d (64 * k) (dinode_bytes di)) = length d" by simp
  show ?thesis
  proof (cases "j = k")
    case True
    then show ?thesis using l lp get_dinode_slice [of k "patch d (64 * k) (dinode_bytes di)"] get_dinode_bytes [OF assms(4)] by simp
  next
    case False
    then have "slice (64 * j) 64 (patch d (64 * k) (dinode_bytes di)) = slice (64 * j) 64 d"
      using l by (intro slice_patch_disjoint) auto
    then show ?thesis using False l lp get_dinode_slice [of j] by simp
  qed
qed

text \<open>The inode numbered \<open>inum\<close> on a disk \<open>f\<close>.\<close>

definition disk_inode :: "(u32 \<Rightarrow> u8 list) \<Rightarrow> superblock \<Rightarrow> u32 \<Rightarrow> dinode" where
  "disk_inode f sbk inum = get_dinode (f (IBLOCK inum sbk)) (islot inum)"

lemma IBLOCK_slot_inj:
  assumes "IBLOCK i sbk = IBLOCK j sbk" "islot i = islot j" shows "i = j"
proof -
  have "i div of_nat IPB = j div of_nat IPB" using assms(1) by (simp add: IBLOCK_def)
  then have "unat (i div 16) = unat (j div 16)" by simp
  then have "unat i div 16 = unat j div 16" by (simp add: unat_div)
  moreover have "unat i mod 16 = unat j mod 16" using assms(2) by simp
  ultimately have "unat i = unat j" by (metis div_mult_mod_eq)
  then show ?thesis by (rule word_unat_eq_iff [THEN iffD2])
qed

lemma disk_inode_patch:
  assumes "\<And>n. length (f n) = BSIZE" "length (di_addrs di) = 13"
  shows "disk_inode (f(IBLOCK i sbk := patch (f (IBLOCK i sbk)) (64 * islot i) (dinode_bytes di))) sbk j =
    (if j = i then di else disk_inode f sbk j)"
  using get_dinode_patch [OF assms(1), of "islot i" "islot j" di] assms(2) IBLOCK_slot_inj [of j sbk i]
  by (auto simp: disk_inode_def)

lemma iupdate_ok:
  assumes t: "tx me s H bl" and c: "card H + length bl < NBUF" and n: "\<forall>i\<in>H. \<not> buf_of s i (IBLOCK (i_inum p) (sb s))"
    and p: "p = itable s ip" "i_dev p = ROOTDEV" "length (i_addrs p) = 13"
  defines "B \<equiv> IBLOCK (i_inum p) (sb s)"
  shows "\<exists>s'. iupdate me ip s = Ok s' \<and> tstep me H s s' (absorb B bl) \<and> itable s' = itable s \<and> uart_out s' = uart_out s \<and>
    blk s' = (blk s)(B := patch (blk s B) (64 * islot (i_inum p)) (dinode_bytes (dinode_of p))) \<and>
    disk_inode (blk s') (sb s) = (disk_inode (blk s) (sb s))(i_inum p := dinode_of p)"
proof -
  let ?xs = "patch (blk s B) (64 * islot (i_inum p)) (dinode_bytes (dinode_of p))"
  have la: "length (di_addrs (dinode_of p)) = 13" using p(3) by (simp add: dinode_of_def)
  have l: "length ?xs = BSIZE" using txD(7) [OF t] length_dinode_bytes [OF la] by simp
  obtain i s1 s2 s3 where r: "bread me ROOTDEV B s = Ok (i, s1)" "b_data (bufs s1 i) = blk s B"
      "log_write i (set_data i ?xs s1) = Ok s2" "brelse me i s2 = Ok s3" "tstep me H s s3 (absorb B bl)"
      "blk s3 = (blk s)(B := ?xs)" "itable s3 = itable s" "uart_out s3 = uart_out s"
    using tx_update_block [OF t c n [folded B_def] l] by (elim exE conjE) (rule that; assumption)
  have "iupdate me ip s = Ok s3" using r(1-4) p by (simp add: iupdate_def Let_def B_def)
  moreover have "disk_inode (blk s3) (sb s) = (disk_inode (blk s) (sb s))(i_inum p := dinode_of p)"
    using disk_inode_patch [where f = "blk s", OF txD(7) [OF t] la] by (simp add: r(6) B_def fun_eq_iff)
  ultimately show ?thesis using r by (intro exI [of _ s3]) simp
qed

lemma lock_inode_free:
  "sl_locked (i_lock (itable s ip)) = 0 \<Longrightarrow>
   lock_inode me ip s = Ok (upd_inode ip (\<lambda>p. p\<lparr>i_lock := (i_lock (itable s ip))\<lparr>sl_locked := 1, sl_pid := p_pid (procs s me)\<rparr>\<rparr>) s)"
  by (simp add: lock_inode_def acquiresleep_def Let_def)

lemma buf_of_upd_inode [simp]: "buf_of (upd_inode ip f s) i n = buf_of s i n"
  by (simp add: buf_of_def upd_inode_def)

lemma ilock_load:
  assumes t: "tx me s H bl" and c: "card H + length bl < NBUF" and n: "\<forall>i\<in>H. \<not> buf_of s i (IBLOCK (i_inum p) (sb s))"
    and p: "p = itable s ip" "i_dev p = ROOTDEV" "0 < i_ref p" "sl_locked (i_lock p) = 0" "i_valid p = 0"
    and ty: "di_type (disk_inode (blk s) (sb s) (i_inum p)) \<noteq> 0"
  shows "\<exists>s'. ilock me ip s = Ok s' \<and> tstep me H s s' bl \<and> blk s' = blk s \<and>
    itable s' = (itable s)(ip := (load_inode (disk_inode (blk s) (sb s) (i_inum p))
      (p\<lparr>i_lock := (i_lock p)\<lparr>sl_locked := 1, sl_pid := p_pid (procs s me)\<rparr>\<rparr>))\<lparr>i_valid := 1\<rparr>)"
proof -
  let ?lk = "(i_lock p)\<lparr>sl_locked := 1, sl_pid := p_pid (procs s me)\<rparr>" and ?di = "disk_inode (blk s) (sb s) (i_inum p)"
  let ?s = "upd_inode ip (\<lambda>q. q\<lparr>i_lock := ?lk\<rparr>) s"
  have l: "lock_inode me ip s = Ok ?s" using lock_inode_free [of s ip me] p by simp
  have n': "\<forall>i\<in>H. \<not> buf_of ?s i (IBLOCK (i_inum p) (sb s))" using n by simp
  have t': "tx me ?s H bl" using t by simp
  obtain i s1 where 1: "bread me ROOTDEV (IBLOCK (i_inum p) (sb s)) ?s = Ok (i, s1)" "i \<notin> H" "tx me s1 (insert i H) bl"
      "buf_of s1 i (IBLOCK (i_inum p) (sb s))" "b_data (bufs s1 i) = blk ?s (IBLOCK (i_inum p) (sb s))" "blk s1 = blk ?s"
      "fframe ?s s1" "itable s1 = itable ?s" "\<forall>j\<in>H. \<forall>m. buf_of s1 j m \<longleftrightarrow> buf_of ?s j m"
    using tx_bread [OF t' c n'] by (elim exE conjE) (rule that; assumption)
  let ?s1 = "upd_inode ip (load_inode ?di) s1"
  have "tx me ?s1 (insert i H) bl" "buf_of ?s1 i (IBLOCK (i_inum p) (sb s))"
    using 1(3,4) by simp_all
  from tx_brelse [OF this(1) _ this(2)] obtain s2 where
    2: "brelse me i ?s1 = Ok s2" "tstep me (insert i H - {i}) ?s1 s2 bl" "blk s2 = blk ?s1" "itable s2 = itable ?s1" by auto
  let ?s2 = "upd_inode ip (\<lambda>p. p\<lparr>i_valid := 1\<rparr>) s2"
  have it: "itable ?s2 = (itable s)(ip := (load_inode ?di (p\<lparr>i_lock := ?lk\<rparr>))\<lparr>i_valid := 1\<rparr>)"
    using 2(4) 1(8) p(1) by (simp add: upd_inode_def load_inode_def)
  have "i_type (itable ?s2 ip) \<noteq> 0" using ty unfolding it by (simp add: load_inode_def)
  moreover have "get_dinode (b_data (bufs s1 i)) (islot (i_inum p)) = ?di" using 1(5) by (simp add: disk_inode_def)
  ultimately have r: "ilock me ip s = Ok ?s2"
    using p l 1(1,8) 2(1) by (simp add: ilock_def Let_def upd_inode_def)
  have h: "insert i H - {i} = H" using 1(2) by simp
  have "fframe s ?s1" using fframe_trans [OF fframe_trans [OF fframe_simps(1) 1(7)] fframe_simps(1)] .
  then have f: "fframe s ?s2" using fframe_trans [OF fframe_trans [OF _ tstepD(2) [OF 2(2)]] fframe_simps(1)] by blast
  have "buf_of ?s2 j m \<longleftrightarrow> buf_of s j m" if "j \<in> H" for j m
    using 1(9) tstepD(3) [OF 2(2), of j m] that h by simp
  then have "tstep me H s ?s2 bl" using f tstepD(1) [OF 2(2)] h by (simp add: tstep_def)
  then show ?thesis using r it 2(3) 1(6) by (intro exI [of _ ?s2]) simp
qed

text \<open>Giving a lock back wakes its waiters and changes nothing else of the file system.\<close>

lemma tx_woke:
  assumes w: "woke s s'" and t: "tx me s H bl"
  shows "tstep me H s s' bl" "blk s' = blk s"
proof -
  note d = txD [OF t] and e = woke_simps [OF w]
  show b: "blk s' = blk s" by (rule blk_cong) (simp_all add: e)
  have f: "fframe s s'" by (rule fframe_rest [where h = "lg_lh (klog s)"]) (simp_all add: e rest_cframe [OF cframe_woke [OF w]])
  have "tx me s' H bl" using bci_woke [OF d(1) w] d(2-5) b by (simp add: tx_def e)
  then show "tstep me H s s' bl" using f by (simp add: tstep_def buf_of_def e)
qed

lemma unlock_inode_ok:
  assumes t: "tx me s H bl"
  shows "\<exists>s'. unlock_inode ip s = Ok s' \<and> tstep me H s s' bl \<and> blk s' = blk s \<and>
    itable s' = (itable s)(ip := (itable s ip)\<lparr>i_lock := (i_lock (itable s ip))\<lparr>sl_locked := 0, sl_pid := 0\<rparr>\<rparr>)"
proof -
  obtain u where u: "wakeup (a_inodelock (syms s) ip) s = Some u" "woke s u"
    using wakeup_woke [OF bciD(2) [OF txD(1) [OF t]]] by blast
  note w = tx_woke [OF u(2) t]
  let ?s = "upd_inode ip (\<lambda>p. p\<lparr>i_lock := (i_lock (itable s ip))\<lparr>sl_locked := 0, sl_pid := 0\<rparr>\<rparr>) u"
  have "tstep me H s ?s bl"
    using tstepD [OF w(1)] fframe_trans [OF tstepD(2) [OF w(1)] fframe_simps(1)] by (simp add: tstep_def)
  moreover have "unlock_inode ip s = Ok ?s" using u(1) by (simp add: unlock_inode_def releasesleep_def Let_def)
  ultimately show ?thesis using w(2) woke_simps(7) [OF u(2)] by (intro exI [of _ ?s]) (simp add: fun_eq_iff)
qed

section \<open>The inode table\<close>

text \<open>
  The table names every inode at most once: two entries in use never hold the same device and number.
  Reference counts are not negative and the address arrays have their size.
\<close>

definition itable_ok :: "kernel \<Rightarrow> bool" where
  "itable_ok s \<longleftrightarrow>
     (\<forall>i<NINODE. 0 \<le> i_ref (itable s i) \<and> length (i_addrs (itable s i)) = 13) \<and>
     (\<forall>i<NINODE. \<forall>j<NINODE. 0 < i_ref (itable s i) \<longrightarrow> 0 < i_ref (itable s j) \<longrightarrow>
        i_dev (itable s i) = i_dev (itable s j) \<longrightarrow> i_inum (itable s i) = i_inum (itable s j) \<longrightarrow> i = j)"

definition inode_at :: "kernel \<Rightarrow> u32 \<Rightarrow> u32 \<Rightarrow> nat \<Rightarrow> bool" where
  "inode_at s dev inum i \<longleftrightarrow> i_ref (itable s i) > 0 \<and> i_dev (itable s i) = dev \<and> i_inum (itable s i) = inum"

lemma itable_okD:
  assumes "itable_ok s" "i < NINODE"
  shows "0 \<le> i_ref (itable s i)" "length (i_addrs (itable s i)) = 13"
    "j < NINODE \<Longrightarrow> inode_at s dev inum i \<Longrightarrow> inode_at s dev inum j \<Longrightarrow> i = j"
  using assms unfolding itable_ok_def inode_at_def by auto

lemma iget_hit:
  assumes "itable_ok s" "i < NINODE" "inode_at s dev inum i"
  shows "iget dev inum s = Ok (i, upd_inode i (\<lambda>p. p\<lparr>i_ref := i_ref p + 1\<rparr>) s)"
    "itable_ok (upd_inode i (\<lambda>p. p\<lparr>i_ref := i_ref p + 1\<rparr>) s)"
proof -
  have "\<not> inode_at s dev inum j" if "j < i" for j using itable_okD(3) [OF assms(1,2), of j] assms that by auto
  then have "find (inode_at s dev inum) [0..<NINODE] = Some i"
    using assms(2,3) by (auto simp: find_Some_iff intro!: exI [of _ i])
  then show "iget dev inum s = Ok (i, upd_inode i (\<lambda>p. p\<lparr>i_ref := i_ref p + 1\<rparr>) s)"
    by (simp add: iget_def inode_at_def [abs_def])
  show "itable_ok (upd_inode i (\<lambda>p. p\<lparr>i_ref := i_ref p + 1\<rparr>) s)"
    using assms unfolding itable_ok_def inode_at_def by auto
qed

lemma iget_miss:
  assumes "itable_ok s" "\<forall>i<NINODE. \<not> inode_at s dev inum i"
  shows "if \<forall>i<NINODE. 0 < i_ref (itable s i) then iget dev inum s = Panic ''iget: no inodes''
    else \<exists>i s'. iget dev inum s = Ok (i, s') \<and> i < NINODE \<and> i_ref (itable s i) = 0 \<and>
      s' = upd_inode i (\<lambda>p. p\<lparr>i_dev := dev, i_inum := inum, i_ref := 1, i_valid := 0\<rparr>) s \<and> itable_ok s'"
proof -
  let ?g = "\<lambda>i. i_ref (itable s i) = 0"
  have n: "find (inode_at s dev inum) [0..<NINODE] = None" using assms(2) by (auto simp: find_None_iff)
  have e: "iget dev inum s = (case find ?g [0..<NINODE] of None \<Rightarrow> Panic ''iget: no inodes''
      | Some i \<Rightarrow> Ok (i, upd_inode i (\<lambda>p. p\<lparr>i_dev := dev, i_inum := inum, i_ref := 1, i_valid := 0\<rparr>) s))"
    using n by (simp add: iget_def inode_at_def [abs_def])
  show ?thesis
  proof (cases "find ?g [0..<NINODE]")
    case None
    then have "\<forall>i<NINODE. 0 < i_ref (itable s i)"
      using itable_okD(1) [OF assms(1)] by (force simp: find_None_iff)
    then show ?thesis using e None by simp
  next
    case (Some i)
    then have i: "i < NINODE" "i_ref (itable s i) = 0" by (auto simp: find_Some_iff)
    then have "itable_ok (upd_inode i (\<lambda>p. p\<lparr>i_dev := dev, i_inum := inum, i_ref := 1, i_valid := 0\<rparr>) s)"
      using assms unfolding itable_ok_def inode_at_def by auto
    moreover have "\<not> (\<forall>i<NINODE. 0 < i_ref (itable s i))" using i by auto
    ultimately show ?thesis using e Some i by simp
  qed
qed

lemma iput_plain:
  assumes "itable_ok s" "ip < NINODE" "0 < i_ref (itable s ip)" "i_nlink (itable s ip) \<noteq> 0"
  shows "iput me ip s = Ok (upd_inode ip (\<lambda>p. p\<lparr>i_ref := i_ref p - 1\<rparr>) s)"
    "itable_ok (upd_inode ip (\<lambda>p. p\<lparr>i_ref := i_ref p - 1\<rparr>) s)"
  using assms by (simp add: iput_def Let_def, unfold itable_ok_def, auto)

text \<open>
  (C24) The inode table names an inode by one entry. On a well-formed table \<^verbatim>\<open>iget\<close> panics exactly when the
  inode is not in use and no entry is free; otherwise it returns an entry for the device and number
  asked for, the one already in use if there is one, with its reference count raised by one, changes no
  other entry and keeps the table well-formed, and another \<^verbatim>\<open>iget\<close> of the same inode returns the same entry.
  Dropping a reference again with \<^verbatim>\<open>iput\<close>, while the inode has links, only lowers the count.
\<close>

theorem iget_unique:
  assumes "itable_ok s"
  shows "if (\<forall>i<NINODE. 0 < i_ref (itable s i)) \<and> (\<forall>i<NINODE. \<not> inode_at s dev inum i)
    then iget dev inum s = Panic ''iget: no inodes''
    else \<exists>ip s1 s2. iget dev inum s = Ok (ip, s1) \<and> ip < NINODE \<and> (\<forall>i<NINODE. inode_at s dev inum i \<longrightarrow> i = ip) \<and>
      inode_at s1 dev inum ip \<and> i_ref (itable s1 ip) = i_ref (itable s ip) + 1 \<and>
      (\<forall>j. j \<noteq> ip \<longrightarrow> itable s1 j = itable s j) \<and> itable_ok s1 \<and>
      iget dev inum s1 = Ok (ip, s2) \<and> i_ref (itable s2 ip) = i_ref (itable s ip) + 2 \<and> itable_ok s2 \<and>
      (i_nlink (itable s2 ip) \<noteq> 0 \<longrightarrow> (\<exists>s3. iput me ip s2 = Ok s3 \<and> itable s3 = itable s1))"
proof (cases "(\<forall>i<NINODE. 0 < i_ref (itable s i)) \<and> (\<forall>i<NINODE. \<not> inode_at s dev inum i)")
  case True
  then show ?thesis using iget_miss [OF assms, of dev inum] by simp
next
  case full: False
  have "\<exists>ip s1. iget dev inum s = Ok (ip, s1) \<and> ip < NINODE \<and> (\<forall>i<NINODE. inode_at s dev inum i \<longrightarrow> i = ip) \<and>
      inode_at s1 dev inum ip \<and> i_ref (itable s1 ip) = i_ref (itable s ip) + 1 \<and>
      (\<forall>j. j \<noteq> ip \<longrightarrow> itable s1 j = itable s j) \<and> itable_ok s1"
  proof (cases "\<exists>i<NINODE. inode_at s dev inum i")
    case True
    then obtain ip where ip: "ip < NINODE" "inode_at s dev inum ip" by blast
    have "\<forall>i<NINODE. inode_at s dev inum i \<longrightarrow> i = ip"
      using itable_okD(3) [OF assms _ ip(1) _ ip(2)] by simp
    note u = this
    show ?thesis
      by (intro exI conjI, rule iget_hit(1) [OF assms ip], rule ip(1), rule u)
        (use ip(2) iget_hit(2) [OF assms ip] in \<open>simp_all add: inode_at_def\<close>)
  next
    case False
    then have no: "\<forall>i<NINODE. \<not> inode_at s dev inum i" by blast
    then obtain ip s1 where 1: "iget dev inum s = Ok (ip, s1)" "ip < NINODE" "i_ref (itable s ip) = 0"
        "s1 = upd_inode ip (\<lambda>p. p\<lparr>i_dev := dev, i_inum := inum, i_ref := 1, i_valid := 0\<rparr>) s" "itable_ok s1"
      using iget_miss [OF assms no] full by (auto split: if_splits)
    have u: "\<forall>i<NINODE. inode_at s dev inum i \<longrightarrow> i = ip" using no by simp
    show ?thesis
      by (intro exI conjI, rule 1(1), rule 1(2), rule u) (use 1(3-5) in \<open>simp_all add: inode_at_def\<close>)
  qed
  then obtain ip s1 where 1: "iget dev inum s = Ok (ip, s1)" "ip < NINODE" "\<forall>i<NINODE. inode_at s dev inum i \<longrightarrow> i = ip"
      "inode_at s1 dev inum ip" "i_ref (itable s1 ip) = i_ref (itable s ip) + 1"
      "\<forall>j. j \<noteq> ip \<longrightarrow> itable s1 j = itable s j" "itable_ok s1" by blast
  let ?s2 = "upd_inode ip (\<lambda>p. p\<lparr>i_ref := i_ref p + 1\<rparr>) s1"
  note 2 = iget_hit [OF 1(7,2,4)]
  have "\<exists>s3. iput me ip ?s2 = Ok s3 \<and> itable s3 = itable s1" if "i_nlink (itable ?s2 ip) \<noteq> 0"
    using iput_plain(1) [OF 2(2) 1(2), of me] that 1(4) by (simp add: inode_at_def fun_eq_iff)
  note p = this
  show ?thesis unfolding if_not_P [OF full]
    by (intro exI [of _ ip] exI [of _ s1] exI [of _ ?s2] conjI impI 1 2 p) (use 1(5) in simp_all)
qed

theorem iget_unique_witness:
  "let s = fs_boot (\<lambda>_. replicate BSIZE 0) (sb boot_kernel) in
   \<exists>s1 s2. iget 1 7 s = Ok (0, s1) \<and> iget 1 7 s1 = Ok (0, s2) \<and> i_ref (itable s2 0) = 2"
proof -
  define s where "s = fs_boot (\<lambda>_. replicate BSIZE 0) (sb boot_kernel)"
  have i: "itable s = (\<lambda>_. boot_inode)" using fs_boot_tx(4) by (simp add: s_def)
  then have z: "i_ref (itable s i) = 0" for i by (simp add: boot_inode_def)
  have ok: "itable_ok s" by (simp add: itable_ok_def i boot_inode_def)
  have "\<exists>i<NINODE. i_ref (itable s i) \<le> 0" using z by (intro exI [of _ 0]) (simp add: NINODE_def)
  then have n: "\<not> ((\<forall>i<NINODE. 0 < i_ref (itable s i)) \<and> (\<forall>i<NINODE. \<not> inode_at s 1 7 i))" by (meson not_less)
  obtain ip s1 s2 where r: "iget 1 7 s = Ok (ip, s1)" "iget 1 7 s1 = Ok (ip, s2)" "i_ref (itable s2 ip) = i_ref (itable s ip) + 2"
    using iget_unique [OF ok, of 1 7] unfolding if_not_P [OF n] by blast
  have "find (\<lambda>i. i_ref (itable s i) = 0) [0..<NINODE] = Some 0" by (simp add: z upt_conv_Cons NINODE_def)
  moreover have "find (inode_at s 1 7) [0..<NINODE] = None" by (auto simp: find_None_iff inode_at_def z)
  ultimately have "ip = 0" using r(1) by (simp add: iget_def inode_at_def [abs_def])
  then show ?thesis using r z unfolding Let_def s_def [symmetric] by auto
qed

text \<open>An entry that is not in use is not locked.\<close>

definition unused_unlocked :: "kernel \<Rightarrow> bool" where
  "unused_unlocked s \<longleftrightarrow> (\<forall>i<NINODE. i_ref (itable s i) = 0 \<longrightarrow> sl_locked (i_lock (itable s i)) = 0)"

text \<open>The end of the use of a locked inode that keeps its links: \<^verbatim>\<open>iunlockput\<close> frees the table entry.\<close>

lemma iunlockput_last:
  assumes t: "tx me s {} bl" and ok: "itable_ok s" and ip: "ip < NINODE" "i_ref (itable s ip) = 1" "i_nlink (itable s ip) \<noteq> 0"
    and h: "holdingsleep me (i_lock (itable s ip)) s"
  shows "\<exists>s'. iunlockput me ip s = Ok s' \<and> tstep me {} s s' bl \<and> blk s' = blk s \<and> itable_ok s' \<and>
    itable s' = (itable s)(ip := (itable s ip)\<lparr>i_ref := 0, i_lock := (i_lock (itable s ip))\<lparr>sl_locked := 0, sl_pid := 0\<rparr>\<rparr>)"
proof -
  obtain u where u: "unlock_inode ip s = Ok u" "tstep me {} s u bl" "blk u = blk s"
      "itable u = (itable s)(ip := (itable s ip)\<lparr>i_lock := (i_lock (itable s ip))\<lparr>sl_locked := 0, sl_pid := 0\<rparr>\<rparr>)"
    using unlock_inode_ok [OF t] by blast
  have "itable_ok u" using ok unfolding itable_ok_def u(4) by auto
  from iput_plain [OF this ip(1)] ip u(4)
  have p: "iput me ip u = Ok (upd_inode ip (\<lambda>p. p\<lparr>i_ref := i_ref p - 1\<rparr>) u)" "itable_ok (upd_inode ip (\<lambda>p. p\<lparr>i_ref := i_ref p - 1\<rparr>) u)"
    by simp_all
  let ?s = "upd_inode ip (\<lambda>p. p\<lparr>i_ref := i_ref p - 1\<rparr>) u"
  have "iunlockput me ip s = Ok ?s" using u(1) p(1) ip(2) h by (simp add: iunlockput_def iunlock_def)
  moreover have "tstep me {} s ?s bl"
    using tstepD [OF u(2)] fframe_trans [OF tstepD(2) [OF u(2)] fframe_simps(1)] by (simp add: tstep_def)
  ultimately show ?thesis using p(2) u(3,4) ip(2) by (intro exI [of _ ?s]) (simp add: fun_eq_iff)
qed

text \<open>
  (C23) What \<^verbatim>\<open>iupdate\<close> writes is what a later user of the inode reads. A process that holds the lock of an
  inode and the only reference to it, inside a transaction, calls \<^verbatim>\<open>iupdate\<close>: on the disk as the transaction sees it, the
  on-disk inode with its number becomes the in-memory one, and no other inode and no other block changes. When the
  process is done with the inode (\<^verbatim>\<open>iunlockput\<close>) its table entry is free, and the next \<^verbatim>\<open>iget\<close> of this number takes
  a free entry, without content; \<^verbatim>\<open>ilock\<close> of it then loads from the disk exactly the type, device numbers, link count,
  size and addresses that were written, and returns with the lock held.
\<close>

theorem iupdate_ilock_roundtrip:
  fixes s :: kernel
  assumes "tx me s {} bl" "length bl + 1 < NBUF" "itable_ok s" "unused_unlocked s"
    and "ip < NINODE" "i_ref (itable s ip) = 1" "i_dev (itable s ip) = ROOTDEV"
    and "holdingsleep me (i_lock (itable s ip)) s" "i_type (itable s ip) \<noteq> 0" "i_nlink (itable s ip) \<noteq> 0"
  shows "\<exists>s1 s2 jp s3 s4. iupdate me ip s = Ok s1 \<and> itable s1 = itable s \<and>
    disk_inode (blk s1) (sb s) = (disk_inode (blk s) (sb s))(i_inum (itable s ip) := dinode_of (itable s ip)) \<and>
    (\<forall>n. n \<noteq> IBLOCK (i_inum (itable s ip)) (sb s) \<longrightarrow> blk s1 n = blk s n) \<and>
    iunlockput me ip s1 = Ok s2 \<and> i_ref (itable s2 ip) = 0 \<and>
    iget ROOTDEV (i_inum (itable s ip)) s2 = Ok (jp, s3) \<and> i_valid (itable s3 jp) = 0 \<and> itable_ok s3 \<and>
    ilock me jp s3 = Ok s4 \<and> dinode_of (itable s4 jp) = dinode_of (itable s ip) \<and> i_valid (itable s4 jp) = 1 \<and>
    holdingsleep me (i_lock (itable s4 jp)) s4 \<and> (\<forall>k. k \<noteq> ip \<longrightarrow> k \<noteq> jp \<longrightarrow> itable s4 k = itable s k) \<and> blk s4 = blk s1"
proof -
  let ?p = "itable s ip" and ?bl = "absorb (IBLOCK (i_inum (itable s ip)) (sb s)) bl"
  let ?B = "IBLOCK (i_inum ?p) (sb s)"
  have len: "length (i_addrs ?p) = 13" using itable_okD(2) [OF assms(3,5)] .
  obtain s1 where 1: "iupdate me ip s = Ok s1" "tstep me {} s s1 ?bl" "itable s1 = itable s"
      "blk s1 = (blk s)(?B := patch (blk s ?B) (64 * islot (i_inum ?p)) (dinode_bytes (dinode_of ?p)))"
      "disk_inode (blk s1) (sb s) = (disk_inode (blk s) (sb s))(i_inum ?p := dinode_of ?p)"
    using iupdate_ok [OF assms(1) _ _ refl assms(7) len] assms(2) by auto
  have ok1: "itable_ok s1" "holdingsleep me (i_lock (itable s1 ip)) s1"
    using assms(3,8) fframeD(11) [OF tstepD(2) [OF 1(2)]] by (simp_all add: itable_ok_def holdingsleep_def 1(3))
  obtain s2 where 2: "iunlockput me ip s1 = Ok s2" "tstep me {} s1 s2 ?bl" "blk s2 = blk s1" "itable_ok s2"
      "itable s2 = (itable s)(ip := ?p\<lparr>i_ref := 0, i_lock := (i_lock ?p)\<lparr>sl_locked := 0, sl_pid := 0\<rparr>\<rparr>)"
    using iunlockput_last [OF tstepD(1) [OF 1(2)] ok1(1) assms(5) _ _ ok1(2)] assms(6,10) 1(3) by auto
  have none: "\<forall>i<NINODE. \<not> inode_at s2 ROOTDEV (i_inum ?p) i"
    using itable_okD(3) [OF assms(3,5), where dev = ROOTDEV and inum = "i_inum ?p"] assms(6,7) by (auto simp: inode_at_def 2(5))
  have full: "\<not> (\<forall>i<NINODE. 0 < i_ref (itable s2 i))" using assms(5) 2(5) by auto
  obtain jp s3 where 3: "iget ROOTDEV (i_inum ?p) s2 = Ok (jp, s3)" "jp < NINODE" "i_ref (itable s2 jp) = 0" "itable_ok s3"
      "s3 = upd_inode jp (\<lambda>p. p\<lparr>i_dev := ROOTDEV, i_inum := i_inum ?p, i_ref := 1, i_valid := 0\<rparr>) s2"
    using iget_miss [OF 2(4) none] unfolding if_not_P [OF full] by blast
  let ?q = "itable s3 jp"
  have q: "i_dev ?q = ROOTDEV" "i_inum ?q = i_inum ?p" "i_ref ?q = 1" "i_valid ?q = 0" "i_lock ?q = i_lock (itable s2 jp)"
    by (simp_all add: 3(5) upd_inode_def)
  have free: "sl_locked (i_lock (itable s2 jp)) = 0" using assms(4) 3(2,3) by (auto simp: unused_unlocked_def 2(5))
  have t3: "tx me s3 {} ?bl" "blk s3 = blk s1" "sb s3 = sb s"
    using tstepD(1) [OF 2(2)] 2(3) fframeD(2) [OF tstepD(2) [OF 1(2)]] fframeD(2) [OF tstepD(2) [OF 2(2)]]
    by (simp_all add: 3(5))
  have di: "disk_inode (blk s3) (sb s3) (i_inum ?q) = dinode_of ?p" using 1(5) by (simp add: t3 q)
  have c: "card {} + length ?bl < NBUF" using length_absorb [of ?B bl] assms(2) by simp
  have ty: "di_type (disk_inode (blk s3) (sb s3) (i_inum ?q)) \<noteq> 0" using di assms(9) by (simp add: dinode_of_def)
  obtain s4 where 4: "ilock me jp s3 = Ok s4" "tstep me {} s3 s4 ?bl" "blk s4 = blk s3"
      "itable s4 = (itable s3)(jp := (load_inode (dinode_of ?p)
        (?q\<lparr>i_lock := (i_lock ?q)\<lparr>sl_locked := 1, sl_pid := p_pid (procs s3 me)\<rparr>\<rparr>))\<lparr>i_valid := 1\<rparr>)"
    using ilock_load [OF t3(1) c _ refl q(1) _ _ q(4) ty] q(3,5) free di by auto
  have "holdingsleep me (i_lock (itable s4 jp)) s4"
    using fframeD(11) [OF tstepD(2) [OF 4(2)]] by (simp add: 4(4) holdingsleep_def load_inode_def)
  moreover have "dinode_of (itable s4 jp) = dinode_of ?p" "i_valid (itable s4 jp) = 1" by (simp_all add: 4(4) dinode_of_def load_inode_def)
  moreover have "itable s4 k = itable s k" if "k \<noteq> ip" "k \<noteq> jp" for k
    using that by (simp add: 4(4) 3(5) 2(5) upd_inode_def)
  moreover have "blk s1 n = blk s n" if "n \<noteq> ?B" for n using that by (simp add: 1(4))
  moreover have "i_ref (itable s2 ip) = 0" by (simp add: 2(5))
  ultimately show ?thesis using 1(1,3,5) 2(1) 3(1,4) 4(1,3) q(4) t3(2)
    by (intro exI [of _ s1] exI [of _ s2] exI [of _ jp] exI [of _ s3] exI [of _ s4]) simp
qed

text \<open>A disk with one block of inodes at 32; process 0 has inode 5 locked, in entry 1.\<close>

definition locked_entry :: kernel where
  "locked_entry = upd_inode 1 (\<lambda>_. boot_inode\<lparr>i_dev := ROOTDEV, i_inum := 5, i_ref := 1, i_lock := boot_lock\<lparr>sl_locked := 1, sl_pid := p_pid boot_proc\<rparr>,
       i_valid := 1, i_type := 2, i_nlink := 1, i_size := 700, i_addrs := 90 # replicate 12 0\<rparr>)
     (fs_boot (\<lambda>_. replicate BSIZE 0) ((sb boot_kernel)\<lparr>sb_inodestart := 32\<rparr>))"

theorem iupdate_ilock_roundtrip_witness:
  "\<exists>s1 s2 jp s3 s4. iupdate 0 1 locked_entry = Ok s1 \<and> iunlockput 0 1 s1 = Ok s2 \<and> iget ROOTDEV 5 s2 = Ok (jp, s3) \<and>
     ilock 0 jp s3 = Ok s4 \<and> i_size (itable s4 jp) = 700 \<and> i_addrs (itable s4 jp) = 90 # replicate 12 0"
proof -
  have "tx 0 locked_entry {} []" using fs_boot_tx(1) by (simp add: locked_entry_def)
  moreover have it: "itable locked_entry = (\<lambda>_. boot_inode)(1 := boot_inode\<lparr>i_dev := ROOTDEV, i_inum := 5, i_ref := 1,
      i_lock := boot_lock\<lparr>sl_locked := 1, sl_pid := p_pid boot_proc\<rparr>, i_valid := 1, i_type := 2, i_nlink := 1, i_size := 700,
      i_addrs := 90 # replicate 12 0\<rparr>)"
    using fs_boot_tx(4) by (simp add: locked_entry_def upd_inode_def)
  have "itable_ok locked_entry" "unused_unlocked locked_entry"
    by (auto simp: itable_ok_def unused_unlocked_def it boot_inode_def boot_lock_def)
  moreover have "holdingsleep 0 (i_lock (itable locked_entry 1)) locked_entry"
  proof -
    obtain bf where bf: "binit (boot_kernel\<lparr>disk := \<lambda>_. replicate BSIZE 0\<rparr>) = boot_kernel\<lparr>disk := \<lambda>_. replicate BSIZE 0, bufs := bf\<rparr>"
      using binit_bufs [of "boot_kernel\<lparr>disk := \<lambda>_. replicate BSIZE 0\<rparr>"] by auto
    have "procs boot_kernel = (\<lambda>_. boot_proc)" by (simp add: boot_kernel_def)
    then have "procs locked_entry = (\<lambda>_. boot_proc)" by (simp add: locked_entry_def fs_boot_def bf upd_inode_def upd_log_def del: fs_consts)
    then show ?thesis by (simp add: holdingsleep_def it)
  qed
  ultimately obtain s1 s2 jp s3 s4 where r: "iupdate 0 1 locked_entry = Ok s1" "iunlockput 0 1 s1 = Ok s2" "iget ROOTDEV 5 s2 = Ok (jp, s3)"
      "ilock 0 jp s3 = Ok s4" "dinode_of (itable s4 jp) = dinode_of (itable locked_entry 1)" "itable s1 = itable locked_entry"
    using iupdate_ilock_roundtrip [of 0 locked_entry "[]" 1] by (auto simp: it NBUF_val NINODE_def)
  then have "i_size (itable s4 jp) = 700" "i_addrs (itable s4 jp) = 90 # replicate 12 0" by (simp_all add: dinode_of_def it)
  with r(1-4) show ?thesis by blast
qed

end
