(* ===== verification/Content.thy ===== *)
theory Content
  imports Inode
begin

text \<open>
  The content of an inode (\<^verbatim>\<open>kernel/fs.c\<close>): the block map \<^verbatim>\<open>bmap\<close>, and \<^verbatim>\<open>readi\<close>, \<^verbatim>\<open>writei\<close> and \<^verbatim>\<open>stati\<close>
  over it. \<^verbatim>\<open>readi\<close> returns the C result and the bytes it delivered to its destination.
\<close>

section \<open>Operations\<close>

text \<open>The statements of \<^verbatim>\<open>bmap\<close> that fetch \<open>ip->addrs[k]\<close>, allocating a block when it is 0.\<close>

definition addr_or_alloc :: "nat \<Rightarrow> nat \<Rightarrow> nat \<Rightarrow> kernel \<Rightarrow> (u32 \<times> kernel) res" where
  "addr_or_alloc me ip k s =
     (let a = i_addrs (itable s ip) ! k in
      if a = 0
      then res_bind (balloc me (i_dev (itable s ip)) s) (\<lambda>(a, s).
        if a = 0 then Ok (0, s) else Ok (a, upd_inode ip (\<lambda>p. p\<lparr>i_addrs := (i_addrs p)[k := a]\<rparr>) s))
      else Ok (a, s))"

text \<open>The entry \<open>bn\<close> of the indirect block at \<open>addr\<close>, allocating a block when it is 0.\<close>

definition bmap_indirect :: "nat \<Rightarrow> nat \<Rightarrow> u32 \<Rightarrow> nat \<Rightarrow> kernel \<Rightarrow> (u32 \<times> kernel) res" where
  "bmap_indirect me ip addr bn s =
     res_bind (bread me (i_dev (itable s ip)) addr s) (\<lambda>(bp, s).
       let addr = get32 (b_data (bufs s bp)) (4 * bn) in
       res_bind
         (if addr = 0
          then res_bind (balloc me (i_dev (itable s ip)) s) (\<lambda>(addr, s).
            if addr \<noteq> 0
            then res_bind (log_write bp (set_data bp (patch (b_data (bufs s bp)) (4 * bn) (bytes32 addr)) s)) (\<lambda>s.
              Ok (addr, s))
            else Ok (addr, s))
          else Ok (addr, s)) (\<lambda>(addr, s).
       res_bind (brelse me bp s) (\<lambda>s. Ok (addr, s))))"

definition bmap :: "nat \<Rightarrow> nat \<Rightarrow> u32 \<Rightarrow> kernel \<Rightarrow> (u32 \<times> kernel) res" where
  "bmap me ip bn s =
     (if unat bn < NDIRECT then addr_or_alloc me ip (unat bn) s
      else (let bn = bn - of_nat NDIRECT in
        if unat bn < NINDIRECT
        then res_bind (addr_or_alloc me ip NDIRECT s) (\<lambda>(addr, s).
          if addr = 0 then Ok (0, s) else bmap_indirect me ip addr (unat bn) s)
        else Panic ''bmap: out of range''))"

record stat =
  st_dev :: u32
  st_ino :: u32
  st_type :: u16
  st_nlink :: u16
  st_size :: u64

definition stati :: "nat \<Rightarrow> kernel \<Rightarrow> stat" where
  "stati ip s = (let p = itable s ip in
     \<lparr>st_dev = i_dev p, st_ino = i_inum p, st_type = i_type p, st_nlink = i_nlink p, st_size = ucast (i_size p)\<rparr>)"

text \<open>The number of bytes of one iteration: up to the end of the block or of the request.\<close>

definition chunk :: "u32 \<Rightarrow> u32 \<Rightarrow> u32 \<Rightarrow> u32" where
  "chunk off n tot = (if n - tot < of_nat BSIZE - off mod of_nat BSIZE then n - tot else of_nat BSIZE - off mod of_nat BSIZE)"

lemma unat_block_rest: "unat (of_nat BSIZE - off mod of_nat BSIZE :: u32) = BSIZE - unat off mod BSIZE"
proof -
  have m: "unat (off mod 1024) = unat off mod 1024" by (simp add: unat_mod)
  then have "off mod 1024 \<le> 1024" by (simp add: word_le_nat_alt less_imp_le)
  then show ?thesis using m by (simp add: unat_sub)
qed

lemma unat_chunk:
  "tot \<le> n \<Longrightarrow> unat (chunk off n tot) = min (unat n - unat tot) (BSIZE - unat off mod BSIZE)"
  unfolding chunk_def using unat_block_rest [of off]
  by (auto simp: unat_sub word_less_nat_alt min_def simp del: fs_consts)

lemma chunk_bounds:
  assumes "tot < n"
  shows "0 < unat (chunk off n tot)" "unat (tot + chunk off n tot) = unat tot + unat (chunk off n tot)"
    "unat tot + unat (chunk off n tot) \<le> unat n" "unat (chunk off n tot) \<le> BSIZE - unat off mod BSIZE"
proof -
  have u: "unat (chunk off n tot) = min (unat n - unat tot) (BSIZE - unat off mod BSIZE)"
    using assms by (intro unat_chunk) simp
  have l: "unat tot < unat n" using assms by (simp add: word_less_nat_alt)
  show "0 < unat (chunk off n tot)" using u l by simp
  show le: "unat tot + unat (chunk off n tot) \<le> unat n" using u l by simp
  show "unat (chunk off n tot) \<le> BSIZE - unat off mod BSIZE" using u by simp
  have "unat tot + unat (chunk off n tot) < 2 ^ LENGTH(32)"
    using le unsigned_less [where w = n and 'a = nat] by linarith
  then show "unat (tot + chunk off n tot) = unat tot + unat (chunk off n tot)" by (rule unat_add_lem [THEN iffD1])
qed

lemma chunk_decreases: "tot < n \<Longrightarrow> unat n - unat (tot + chunk off n tot) < unat n - unat tot"
  using chunk_bounds [of tot n off] by (simp add: word_less_nat_alt)

function (sequential) readi_loop ::
    "nat \<Rightarrow> nat \<Rightarrow> kdst \<Rightarrow> u32 \<Rightarrow> u32 \<Rightarrow> u32 \<Rightarrow> u8 list \<Rightarrow> kernel \<Rightarrow> (u32 \<times> u8 list \<times> kernel) res" where
  "readi_loop me ip dst off n tot acc s =
     (if tot < n
      then res_bind (bmap me ip (off div of_nat BSIZE) s) (\<lambda>(addr, s).
        if addr = 0 then Ok (tot, acc, s)
        else res_bind (bread me (i_dev (itable s ip)) addr s) (\<lambda>(bp, s).
          let m = chunk off n tot; xs = slice (unat off mod BSIZE) (unat m) (b_data (bufs s bp)) in
          res_bind (either_copyout me dst xs s) (\<lambda>(r, s).
          if r = -1 then res_bind (brelse me bp s) (\<lambda>s. Ok (-1, acc, s))
          else res_bind (brelse me bp s) (\<lambda>s.
            readi_loop me ip (kdst_add dst (ucast m)) (off + m) n (tot + m) (acc @ xs) s))))
      else Ok (tot, acc, s))"
  by pat_completeness auto
termination
  by (relation "measure (\<lambda>(_, _, _, _, n, tot, _, _). unat n - unat tot)") (simp_all add: chunk_decreases)

declare readi_loop.simps [simp del]

definition readi :: "nat \<Rightarrow> nat \<Rightarrow> kdst \<Rightarrow> u32 \<Rightarrow> u32 \<Rightarrow> kernel \<Rightarrow> (int \<times> u8 list \<times> kernel) res" where
  "readi me ip dst off n s =
     (let sz = i_size (itable s ip) in
      if off > sz \<or> off + n < off then Ok (0, [], s)
      else (let n = (if off + n > sz then sz - off else n) in
        res_bind (readi_loop me ip dst off n 0 [] s) (\<lambda>(tot, xs, s). Ok (sint tot, xs, s))))"

text \<open>The loop of \<^verbatim>\<open>writei\<close> returns the final values of \<^verbatim>\<open>tot\<close> and \<^verbatim>\<open>off\<close>.\<close>

function (sequential) writei_loop ::
    "nat \<Rightarrow> nat \<Rightarrow> ksrc \<Rightarrow> u32 \<Rightarrow> u32 \<Rightarrow> u32 \<Rightarrow> kernel \<Rightarrow> (u32 \<times> u32 \<times> kernel) res" where
  "writei_loop me ip src off n tot s =
     (if tot < n
      then res_bind (bmap me ip (off div of_nat BSIZE) s) (\<lambda>(addr, s).
        if addr = 0 then Ok (tot, off, s)
        else res_bind (bread me (i_dev (itable s ip)) addr s) (\<lambda>(bp, s).
          let m = chunk off n tot in
          res_bind (either_copyin me src (unat m) s) (\<lambda>(r, xs, s).
          let s = set_data bp (patch (b_data (bufs s bp)) (unat off mod BSIZE) xs) s in
          if r = -1 then res_bind (brelse me bp s) (\<lambda>s. Ok (tot, off, s))
          else res_bind (log_write bp s) (\<lambda>s.
            res_bind (brelse me bp s) (\<lambda>s.
            writei_loop me ip (ksrc_add src (ucast m)) (off + m) n (tot + m) s)))))
      else Ok (tot, off, s))"
  by pat_completeness auto
termination
  by (relation "measure (\<lambda>(_, _, _, _, n, tot, _). unat n - unat tot)") (simp_all add: chunk_decreases)

declare writei_loop.simps [simp del]

definition writei :: "nat \<Rightarrow> nat \<Rightarrow> ksrc \<Rightarrow> u32 \<Rightarrow> u32 \<Rightarrow> kernel \<Rightarrow> (int \<times> kernel) res" where
  "writei me ip src off n s =
     (if off > i_size (itable s ip) \<or> off + n < off then Ok (-1, s)
      else if off + n > of_nat (MAXFILE * BSIZE) then Ok (-1, s)
      else res_bind (writei_loop me ip src off n 0 s) (\<lambda>(tot, off, s).
        let s = (if off > i_size (itable s ip) then upd_inode ip (\<lambda>p. p\<lparr>i_size := off\<rparr>) s else s) in
        res_bind (iupdate me ip s) (\<lambda>s. Ok (sint tot, s))))"

section \<open>The blocks of a file\<close>

text \<open>
  \<open>kept\<close>: a block that is allocated and not part of the bitmap. \<open>fs_ok\<close>: the bitmap lies inside the file
  system and marks itself and the boot block.
\<close>

definition kept :: "superblock \<Rightarrow> (u32 \<Rightarrow> u8 list) \<Rightarrow> u32 \<Rightarrow> bool" where
  "kept sbk f n \<longleftrightarrow> n < sb_size sbk \<and> block_used f sbk n \<and> (\<forall>b < sb_size sbk. n \<noteq> BBLOCK b sbk)"

definition fs_ok :: "kernel \<Rightarrow> bool" where
  "fs_ok s \<longleftrightarrow> bitmap_geom (sb s) \<and> bitmap_self (blk s) (sb s) \<and> 0 < sb_size (sb s) \<and> block_used (blk s) (sb s) 0"

text \<open>
  \<open>fblock f as1 m\<close>: the address of block \<open>m\<close> of a file with the address array \<open>as1\<close> on the disk \<open>f\<close>, 0 if it has
  none. \<open>fslot\<close> also counts the indirect block, as number \<^verbatim>\<open>MAXFILE\<close>.
\<close>

definition fblock :: "(u32 \<Rightarrow> u8 list) \<Rightarrow> u32 list \<Rightarrow> nat \<Rightarrow> u32" where
  "fblock f as1 m = (if m < NDIRECT then as1 ! m else if as1 ! NDIRECT = 0 then 0
     else get32 (f (as1 ! NDIRECT)) (4 * (m - NDIRECT)))"

definition fslot :: "(u32 \<Rightarrow> u8 list) \<Rightarrow> u32 list \<Rightarrow> nat \<Rightarrow> u32" where
  "fslot f as1 m = (if m = MAXFILE then as1 ! NDIRECT else fblock f as1 m)"

definition file_wf :: "superblock \<Rightarrow> (u32 \<Rightarrow> u8 list) \<Rightarrow> u32 list \<Rightarrow> bool" where
  "file_wf sbk f as1 \<longleftrightarrow> length as1 = 13 \<and>
     (\<forall>m\<le>MAXFILE. fslot f as1 m \<noteq> 0 \<longrightarrow> kept sbk f (fslot f as1 m)) \<and>
     (\<forall>m\<le>MAXFILE. \<forall>k\<le>MAXFILE. fslot f as1 m = fslot f as1 k \<longrightarrow> fslot f as1 m \<noteq> 0 \<longrightarrow> m = k)"

text \<open>The bytes of a file; a block that is not there reads as zeros.\<close>

definition fbyte :: "(u32 \<Rightarrow> u8 list) \<Rightarrow> u32 list \<Rightarrow> nat \<Rightarrow> u8" where
  "fbyte f as1 i = (let a = fblock f as1 (i div BSIZE) in if a = 0 then 0 else f a ! (i mod BSIZE))"

text \<open>
  \<open>file_ext\<close>: from \<open>f\<close>, \<open>as1\<close> to \<open>f'\<close>, \<open>as2\<close> a file was changed and nothing else: every allocated block that
  is not a block of the file keeps its content and does not become one.
\<close>

definition file_ext :: "superblock \<Rightarrow> (u32 \<Rightarrow> u8 list) \<Rightarrow> u32 list \<Rightarrow> (u32 \<Rightarrow> u8 list) \<Rightarrow> u32 list \<Rightarrow> bool" where
  "file_ext sbk f as1 f' as2 \<longleftrightarrow> (\<forall>b. kept sbk f b \<longrightarrow> kept sbk f' b \<and>
     ((\<forall>m\<le>MAXFILE. fslot f as1 m \<noteq> b) \<longrightarrow> f' b = f b \<and> (\<forall>m\<le>MAXFILE. fslot f' as2 m \<noteq> b)))"

lemma file_ext_refl [simp]: "file_ext sbk f as1 f as1"
  by (simp add: file_ext_def)

lemma file_ext_trans: "file_ext sbk f as1 g bs \<Longrightarrow> file_ext sbk g bs h cs \<Longrightarrow> file_ext sbk f as1 h cs"
  unfolding file_ext_def by metis

lemma fslot_fblock: "m < MAXFILE \<Longrightarrow> fslot f as1 m = fblock f as1 m"
  by (simp add: fslot_def)

lemma file_wfD:
  assumes "file_wf sbk f as1"
  shows "length as1 = 13" "m \<le> MAXFILE \<Longrightarrow> fslot f as1 m \<noteq> 0 \<Longrightarrow> kept sbk f (fslot f as1 m)"
    "m \<le> MAXFILE \<Longrightarrow> k \<le> MAXFILE \<Longrightarrow> fslot f as1 m = fslot f as1 k \<Longrightarrow> fslot f as1 m \<noteq> 0 \<Longrightarrow> m = k"
  using assms unfolding file_wf_def by blast+

lemma file_wf_slot:
  assumes wf: "file_wf sbk f as1" and l: "length as2 = 13" and j: "j \<le> MAXFILE"
    and keep: "\<And>n. kept sbk f n \<Longrightarrow> kept sbk f' n"
    and slots: "\<And>m. m \<le> MAXFILE \<Longrightarrow> fslot f' as2 m = (if m = j then a else fslot f as1 m)"
    and a: "a \<noteq> 0 \<Longrightarrow> \<not> kept sbk f a \<and> kept sbk f' a"
  shows "file_wf sbk f' as2"
  unfolding file_wf_def
proof (intro conjI allI impI l)
  fix m assume "m \<le> MAXFILE" "fslot f' as2 m \<noteq> 0"
  then show "kept sbk f' (fslot f' as2 m)" using slots a keep file_wfD(2) [OF wf] by (cases "m = j") auto
next
  fix m k assume mk: "m \<le> MAXFILE" "k \<le> MAXFILE" "fslot f' as2 m = fslot f' as2 k" "fslot f' as2 m \<noteq> 0"
  have old: "fslot f as1 i \<noteq> a" if "i \<le> MAXFILE" "a \<noteq> 0" for i using a file_wfD(2) [OF wf that(1)] that by auto
  show "m = k"
    using mk slots [OF mk(1)] slots [OF mk(2)] old [OF mk(1)] old [OF mk(2)] file_wfD(3) [OF wf mk(1,2)]
    by (cases "m = j"; cases "k = j") auto
qed

lemma block_used_other:
  assumes "\<forall>b < sb_size sbk. n \<noteq> BBLOCK b sbk" "c < sb_size sbk"
  shows "block_used (f(n := x)) sbk c = block_used f sbk c"
  using assms by (auto simp: block_used_def)

lemma kept_upd: "kept sbk f n \<Longrightarrow> kept sbk (f(n := x)) m = kept sbk f m"
  using block_used_other [of sbk n m f x] by (auto simp: kept_def)

lemma fs_ok_later:
  assumes "fs_ok s" "sb s' = sb s" "\<And>c. c < sb_size (sb s) \<Longrightarrow> block_used (blk s) (sb s) c \<Longrightarrow> block_used (blk s') (sb s) c"
  shows "fs_ok s'"
proof -
  have "BBLOCK b (sb s) < sb_size (sb s)" if "b < sb_size (sb s)" for b
    using unat_BBLOCK(2) [of "sb s" b] assms(1) that by (simp add: fs_ok_def)
  then show ?thesis using assms by (simp add: fs_ok_def bitmap_self_def)
qed

section \<open>Allocation for a file\<close>

lemma balloc_new:
  assumes t: "tx me s H bl" and c: "card H + length bl + 1 < NBUF" and f: "fs_ok s" and h: "alloc_held s H"
  shows "\<exists>a s' bl'. balloc me ROOTDEV s = Ok (a, s') \<and> tstep me H s s' bl' \<and> itable s' = itable s \<and> fs_ok s' \<and> sb s' = sb s \<and>
    (\<forall>n. kept (sb s) (blk s) n \<longrightarrow> kept (sb s) (blk s') n \<and> blk s' n = blk s n) \<and>
    length bl' \<le> length bl + 2 \<and> set bl \<subseteq> set bl' \<and>
    (if a = 0 then blk s' = blk s \<and> bl' = bl \<and> (\<forall>c < sb_size (sb s). block_used (blk s) (sb s) c)
     else \<not> kept (sb s) (blk s) a \<and> kept (sb s) (blk s') a \<and> blk s' a = replicate BSIZE 0 \<and> a \<in> set bl')"
proof -
  have e: "alloc_env s H" using f h by (simp add: alloc_env_def fs_ok_def)
  obtain a s' where r: "balloc me ROOTDEV s = Ok (a, s')" "balloc_post me H s bl a s'" using balloc_ok [OF t c e] by blast
  let ?u = "block_used (blk s) (sb s)" and ?B = "BBLOCK a (sb s)"
  show ?thesis
  proof (cases "\<exists>c < sb_size (sb s). \<not> ?u c")
    case False
    then have p: "a = 0" "tstep me H s s' bl" "blk s' = blk s" "itable s' = itable s" using r(2) by (simp_all add: balloc_post_def)
    have sb: "sb s' = sb s" using fframeD(2) [OF tstepD(2) [OF p(2)]] .
    have "fs_ok s'" using fs_ok_later [OF f sb] p(3) by simp
    then show ?thesis using r(1) p sb False by (intro exI [of _ a] exI [of _ s'] exI [of _ bl]) auto
  next
    case True
    let ?bl = "absorb a (absorb ?B bl)"
    have p: "a < sb_size (sb s)" "\<not> ?u a" "tstep me H s s' ?bl"
        "\<forall>c < sb_size (sb s). block_used (blk s') (sb s) c \<longleftrightarrow> c = a \<or> ?u c" "blk s' a = replicate BSIZE 0"
        "\<forall>n. n \<noteq> a \<longrightarrow> n \<noteq> ?B \<longrightarrow> blk s' n = blk s n" "itable s' = itable s"
      using r(2) True by (simp_all add: balloc_post_def)
    have sb: "sb s' = sb s" using fframeD(2) [OF tstepD(2) [OF p(3)]] .
    have "fs_ok s'" using fs_ok_later [OF f sb] p(4) by simp
    moreover have a0: "a \<noteq> 0" using p(2) f by (auto simp: fs_ok_def)
    moreover have "\<forall>n. kept (sb s) (blk s) n \<longrightarrow> kept (sb s) (blk s') n \<and> blk s' n = blk s n"
      using p by (auto simp: kept_def)
    moreover have "kept (sb s) (blk s') a" "\<not> kept (sb s) (blk s) a"
      using p f by (auto simp: kept_def fs_ok_def bitmap_self_def)
    moreover have "length ?bl \<le> length bl + 2"
      using length_absorb [of a "absorb ?B bl"] length_absorb [of ?B bl] by linarith
    moreover have "set bl \<subseteq> set ?bl" "a \<in> set ?bl" by (auto simp: absorb_def)
    ultimately show ?thesis using r(1) p sb by (intro exI [of _ a] exI [of _ s'] exI [of _ ?bl]) simp
  qed
qed

lemma get32_zeros: "p + 4 \<le> BSIZE \<Longrightarrow> get32 (replicate BSIZE 0) p = 0"
proof -
  have z: "get_le xs p k = 0" if "\<forall>i<k. xs ! (p + i) = 0" for xs :: "u8 list" and p k
    using that
  proof (induction k arbitrary: p)
    case (Suc k)
    have "get_le xs (Suc p) k = 0" by (rule Suc.IH) (use Suc.prems in auto)
    then show ?case using Suc.prems by (auto dest: spec [of _ 0])
  qed simp
  show "p + 4 \<le> BSIZE \<Longrightarrow> get32 (replicate BSIZE 0) p = 0" by (simp add: get32_def z)
qed

text \<open>Where the entry \<open>k\<close> of the address array stands among the slots of the file.\<close>

definition slot_of :: "nat \<Rightarrow> nat" where
  "slot_of k = (if k = NDIRECT then MAXFILE else k)"

lemma slot_of_le: "k \<le> NDIRECT \<Longrightarrow> slot_of k \<le> MAXFILE"
  by (simp add: slot_of_def)

lemma fslot_slot_of: "k \<le> NDIRECT \<Longrightarrow> fslot f as1 (slot_of k) = as1 ! k"
  by (auto simp: slot_of_def fslot_def fblock_def)

text \<open>Setting an address that was 0 changes one slot: a new indirect block has no entries.\<close>

lemma fslot_set_addr:
  assumes "length as1 = 13" "k \<le> NDIRECT" "as1 ! k = 0" "m \<le> MAXFILE"
    and "a \<noteq> 0 \<Longrightarrow> f' a = replicate BSIZE 0" "as1 ! NDIRECT \<noteq> 0 \<Longrightarrow> f' (as1 ! NDIRECT) = f (as1 ! NDIRECT)"
  shows "fslot f' (as1[k := a]) m = (if m = slot_of k then a else fslot f as1 m)"
proof (cases "k = NDIRECT")
  case True
  have "get32 (replicate BSIZE 0) (4 * (m - NDIRECT)) = 0" if "m < MAXFILE"
    using that by (intro get32_zeros) simp
  then show ?thesis using assms True by (auto simp: fslot_def fblock_def slot_of_def)
next
  case False
  then show ?thesis using assms by (auto simp: fslot_def fblock_def slot_of_def nth_list_update)
qed

lemma addr_or_alloc_ok:
  fixes s :: kernel
  assumes t: "tx me s {} bl" and c: "length bl + 1 < NBUF" and f: "fs_ok s"
    and p: "p = itable s ip" "i_dev p = ROOTDEV" "as1 = i_addrs p" and wf: "file_wf (sb s) (blk s) as1" and k: "k \<le> NDIRECT"
  shows "\<exists>a s' bl'. addr_or_alloc me ip k s = Ok (a, s') \<and> tstep me {} s s' bl' \<and> fs_ok s' \<and> sb s' = sb s \<and>
    itable s' = (itable s)(ip := p\<lparr>i_addrs := as1[k := a]\<rparr>) \<and>
    (\<forall>n. kept (sb s) (blk s) n \<longrightarrow> kept (sb s) (blk s') n \<and> blk s' n = blk s n) \<and>
    length bl' \<le> length bl + 2 \<and> set bl \<subseteq> set bl' \<and>
    (\<forall>m\<le>MAXFILE. fslot (blk s') (as1[k := a]) m = (if m = slot_of k then a else fslot (blk s) as1 m)) \<and>
    file_wf (sb s) (blk s') (as1[k := a]) \<and>
    (if as1 ! k \<noteq> 0 then a = as1 ! k \<and> s' = s \<and> bl' = bl
     else if a = 0 then blk s' = blk s \<and> bl' = bl \<and> (\<forall>c < sb_size (sb s). block_used (blk s) (sb s) c)
     else \<not> kept (sb s) (blk s) a \<and> blk s' a = replicate BSIZE 0 \<and> a \<in> set bl')"
proof (cases "as1 ! k = 0")
  case False
  then have "addr_or_alloc me ip k s = Ok (as1 ! k, s)" using p by (simp add: addr_or_alloc_def Let_def)
  moreover have "fslot (blk s) as1 (slot_of k) = as1 ! k" using k by (rule fslot_slot_of)
  ultimately show ?thesis using False p f wf tstep_refl [OF t]
    by (intro exI [of _ "as1 ! k"] exI [of _ s] exI [of _ bl]) (simp add: fun_upd_idem)
next
  case True
  have l: "length as1 = 13" using file_wfD(1) [OF wf] .
  have h: "alloc_held s {}" by (simp add: alloc_held_def)
  have "card {} + length bl + 1 < NBUF" using c by simp
  then obtain a s' bl' where r: "balloc me ROOTDEV s = Ok (a, s')" "tstep me {} s s' bl'" "itable s' = itable s" "fs_ok s'" "sb s' = sb s"
      "\<forall>n. kept (sb s) (blk s) n \<longrightarrow> kept (sb s) (blk s') n \<and> blk s' n = blk s n" "length bl' \<le> length bl + 2" "set bl \<subseteq> set bl'"
      "if a = 0 then blk s' = blk s \<and> bl' = bl \<and> (\<forall>c < sb_size (sb s). block_used (blk s) (sb s) c)
       else \<not> kept (sb s) (blk s) a \<and> kept (sb s) (blk s') a \<and> blk s' a = replicate BSIZE 0 \<and> a \<in> set bl'"
    using balloc_new [OF t _ f h] by blast
  have ind: "as1 ! NDIRECT \<noteq> 0 \<Longrightarrow> blk s' (as1 ! NDIRECT) = blk s (as1 ! NDIRECT)"
    using file_wfD(2) [OF wf, of MAXFILE] r(6) by (simp add: fslot_def)
  have sl: "fslot (blk s') (as1[k := a]) m = (if m = slot_of k then a else fslot (blk s) as1 m)" if "m \<le> MAXFILE" for m
    using fslot_set_addr [where f = "blk s" and f' = "blk s'" and a = a, OF l k True that _ ind] r(9) by (auto split: if_splits)
  have wf': "file_wf (sb s) (blk s') (as1[k := a])"
    by (rule file_wf_slot [OF wf _ slot_of_le [OF k]]) (use l r(6,9) sl in \<open>auto split: if_splits\<close>)
  define u where "u = (if a = 0 then s' else upd_inode ip (\<lambda>p. p\<lparr>i_addrs := (i_addrs p)[k := a]\<rparr>) s')"
  have e: "addr_or_alloc me ip k s = Ok (a, u)" using True p r(1,3) by (simp add: addr_or_alloc_def Let_def u_def)
  have "as1[k := a] = as1" if "a = 0" using that True by (metis list_update_id)
  then have it: "itable u = (itable s)(ip := p\<lparr>i_addrs := as1[k := a]\<rparr>)" using p r(3) by (auto simp: upd_inode_def u_def)
  have ts: "tstep me {} s u bl'" using r(2) by (auto simp: tstep_def u_def intro: fframe_trans)
  have b: "blk u = blk s'" "sb u = sb s" using r(5) by (simp_all add: u_def)
  then have "fs_ok u" using r(4,5) by (simp add: fs_ok_def)
  then show ?thesis using e it ts r(5-9) True sl wf' unfolding b [symmetric]
    by (intro exI [of _ a] exI [of _ u] exI [of _ bl']) auto
qed

text \<open>Changing one entry of the indirect block.\<close>

lemma fslot_set_entry:
  assumes "length (f x) = BSIZE" "as1 ! NDIRECT = x" "x \<noteq> 0" "k < NINDIRECT" "m \<le> MAXFILE"
    and "f' x = patch (f x) (4 * k) (bytes32 a)"
  shows "fslot f' as1 m = (if m = NDIRECT + k then a else fslot f as1 m)"
proof (cases "m < NDIRECT \<or> m = MAXFILE")
  case True
  then show ?thesis using assms by (auto simp: fslot_def fblock_def)
next
  case False
  then have "fslot f' as1 m = get32 (patch (f x) (4 * k) (bytes32 a)) (4 * (m - NDIRECT))"
    using assms by (simp add: fslot_def fblock_def)
  moreover have "get32 (patch (f x) (4 * k) (bytes32 a)) (4 * (m - NDIRECT)) = get32 (f x) (4 * (m - NDIRECT))"
    if "m \<noteq> NDIRECT + k" using assms that False by (intro get32_patch_disjoint) auto
  ultimately show ?thesis using assms False by (auto simp: fslot_def fblock_def)
qed

lemma bmap_indirect_ok:
  fixes s :: kernel
  assumes t: "tx me s {} bl" and c: "length bl + 3 < NBUF" and f: "fs_ok s"
    and p: "i_dev (itable s ip) = ROOTDEV" and wf: "file_wf (sb s) (blk s) as1"
    and x: "as1 ! NDIRECT = x" "x \<noteq> 0" and k: "k < NINDIRECT"
  shows "\<exists>a s' bl'. bmap_indirect me ip x k s = Ok (a, s') \<and> tstep me {} s s' bl' \<and> fs_ok s' \<and> sb s' = sb s \<and> itable s' = itable s \<and>
    (\<forall>n. kept (sb s) (blk s) n \<longrightarrow> kept (sb s) (blk s') n \<and> (n \<noteq> x \<longrightarrow> blk s' n = blk s n)) \<and> set bl \<subseteq> set bl' \<and>
    (\<forall>m\<le>MAXFILE. fslot (blk s') as1 m = (if m = NDIRECT + k then a else fslot (blk s) as1 m)) \<and>
    (if fblock (blk s) as1 (NDIRECT + k) \<noteq> 0 then a = fblock (blk s) as1 (NDIRECT + k) \<and> blk s' = blk s \<and> bl' = bl
     else if a = 0 then blk s' = blk s \<and> bl' = bl \<and> (\<forall>c < sb_size (sb s). block_used (blk s) (sb s) c)
     else \<not> kept (sb s) (blk s) a \<and> kept (sb s) (blk s') a \<and> blk s' a = replicate BSIZE 0 \<and> a \<in> set bl' \<and> x \<in> set bl' \<and>
       length bl' \<le> length bl + 2 + (if x \<in> set bl then 0 else 1))"
proof -
  have kx: "kept (sb s) (blk s) x" using file_wfD(2) [OF wf, of MAXFILE] x by (simp add: fslot_def)
  have l: "length (blk s x) = BSIZE" using txD(7) [OF t] .
  let ?w = "get32 (blk s x) (4 * k)"
  have w: "fblock (blk s) as1 (NDIRECT + k) = ?w" using x by (simp add: fblock_def)
  then have sl: "fslot (blk s) as1 (NDIRECT + k) = ?w" using k by (simp add: fslot_def)
  have "card {} + length bl < NBUF" "\<forall>i\<in>{}. \<not> buf_of s i x" using c by simp_all
  from tx_bread [OF t this]
  obtain i s1 where 1: "bread me ROOTDEV x s = Ok (i, s1)" "tx me s1 {i} bl" "buf_of s1 i x" "b_data (bufs s1 i) = blk s x"
      "blk s1 = blk s" "fframe s s1" "itable s1 = itable s" by (elim exE conjE) (rule that; assumption)
  have sb1: "sb s1 = sb s" using fframeD(2) [OF 1(6)] .
  have f1: "fs_ok s1" using f sb1 1(5) by (simp add: fs_ok_def)
  have rel: "\<exists>s'. brelse me i u = Ok s' \<and> tstep me {} s s' blu \<and> blk s' = blk u \<and> itable s' = itable u \<and> sb s' = sb s \<and> (fs_ok u \<longrightarrow> fs_ok s')"
    if u: "tx me u {i} blu" "fframe s u" "buf_of u i x" for u blu
  proof -
    obtain s' where r: "brelse me i u = Ok s'" "tstep me {} u s' blu" "blk s' = blk u" "itable s' = itable u"
      using tx_brelse [OF u(1) _ u(3)] by auto
    have sb: "sb u = sb s" "sb s' = sb u" using fframeD(2) [OF u(2)] fframeD(2) [OF tstepD(2) [OF r(2)]] by simp_all
    then show ?thesis using r fframe_trans [OF u(2) tstepD(2) [OF r(2)]] tstepD(1) [OF r(2)]
      by (intro exI [of _ s']) (simp add: tstep_def fs_ok_def)
  qed
  show ?thesis
  proof (cases "?w = 0")
    case False
    obtain s' where r: "brelse me i s1 = Ok s'" "tstep me {} s s' bl" "blk s' = blk s1" "itable s' = itable s1" "sb s' = sb s" "fs_ok s'"
      using rel [OF 1(2,6,3)] f1 by blast
    have "bmap_indirect me ip x k s = Ok (?w, s')" using False 1(1,4) r(1) p by (simp add: bmap_indirect_def Let_def)
    then show ?thesis using r 1 sl w False by (intro exI [of _ ?w] exI [of _ s'] exI [of _ bl]) simp
  next
    case True
    have "alloc_held s1 {i}" using 1(3) kx 1(5) sb1 by (auto simp: alloc_held_def kept_def buf_of_def)
    from balloc_new [OF 1(2) _ f1 this] c obtain a s2 bl2 where
      2: "balloc me ROOTDEV s1 = Ok (a, s2)" "tstep me {i} s1 s2 bl2" "itable s2 = itable s1" "fs_ok s2" "sb s2 = sb s1"
        "\<forall>n. kept (sb s) (blk s) n \<longrightarrow> kept (sb s) (blk s2) n \<and> blk s2 n = blk s n" "length bl2 \<le> length bl + 2" "set bl \<subseteq> set bl2"
        "if a = 0 then blk s2 = blk s \<and> bl2 = bl \<and> (\<forall>c < sb_size (sb s). block_used (blk s) (sb s) c)
         else \<not> kept (sb s) (blk s) a \<and> kept (sb s) (blk s2) a \<and> blk s2 a = replicate BSIZE 0 \<and> a \<in> set bl2"
      unfolding 1(5) sb1 by auto
    have i2: "buf_of s2 i x" using tstepD(3) [OF 2(2), of i x] 1(3) by simp
    have f2: "fframe s s2" using fframe_trans [OF 1(6) tstepD(2) [OF 2(2)]] .
    note t2 = tstepD(1) [OF 2(2)]
    show ?thesis
    proof (cases "a = 0")
      case a: True
      obtain s' where r: "brelse me i s2 = Ok s'" "tstep me {} s s' bl2" "blk s' = blk s2" "itable s' = itable s2" "sb s' = sb s" "fs_ok s'"
        using rel [OF t2 f2 i2] 2(4) by blast
      have "bmap_indirect me ip x k s = Ok (0, s')" using True a 1(1,4,7) 2(1) r(1) p by (simp add: bmap_indirect_def Let_def)
      then show ?thesis using r 1 2 a sl w True by (intro exI [of _ 0] exI [of _ s'] exI [of _ bl2]) simp
    next
      case a: False
      let ?xs = "patch (blk s x) (4 * k) (bytes32 a)"
      have d: "b_data (bufs s2 i) = blk s x" using tx_data [OF t2 _ i2] 2(6) kx by simp
      have lx: "length ?xs = BSIZE" using l k by simp
      have "length bl2 < LOGBLOCKS" using c 2(7) by (simp add: NBUF_val)
      from tx_write [OF t2 _ i2 lx this] obtain s3 where
        3: "log_write i (set_data i ?xs s2) = Ok s3" "tstep me {i} s2 s3 (absorb x bl2)" "blk s3 = (blk s2)(x := ?xs)" "itable s3 = itable s2"
        by auto
      have i3: "buf_of s3 i x" using tstepD(3) [OF 3(2), of i x] i2 by simp
      obtain s' where r: "brelse me i s3 = Ok s'" "tstep me {} s s' (absorb x bl2)" "blk s' = blk s3" "itable s' = itable s3" "sb s' = sb s"
          "fs_ok s3 \<longrightarrow> fs_ok s'"
        using rel [OF tstepD(1) [OF 3(2)] fframe_trans [OF f2 tstepD(2) [OF 3(2)]] i3] by blast
      have e: "bmap_indirect me ip x k s = Ok (a, s')"
        using True a 1(1,4,7) 2(1) d 3(1) r(1) p by (simp add: bmap_indirect_def Let_def)
      have kx2: "kept (sb s) (blk s2) x" using 2(6) kx by blast
      have kp: "kept (sb s) (blk s') m = kept (sb s) (blk s2) m" for m using kept_upd [OF kx2] by (simp add: r(3) 3(3))
      have "fs_ok s3"
        using fs_ok_later [OF 2(4), of s3] block_used_other [of "sb s2" x _ "blk s2" ?xs] kx2 fframeD(2) [OF tstepD(2) [OF 3(2)]]
        by (simp add: 3(3) kept_def 2(5) sb1)
      then have fs: "fs_ok s'" using r(6) by blast
      have ax: "a \<noteq> x" "\<not> kept (sb s) (blk s) a" "kept (sb s) (blk s2) a" "blk s2 a = replicate BSIZE 0" "a \<in> set bl2"
        using 2(9) a kx by (auto split: if_splits)
      have sl': "fslot (blk s') as1 m = (if m = NDIRECT + k then a else fslot (blk s) as1 m)" if "m \<le> MAXFILE" for m
        using fslot_set_entry [where f = "blk s" and f' = "blk s'" and a = a, OF l x k that] by (simp add: r(3) 3(3))
      have ln: "length (absorb x bl2) \<le> length bl + 2 + (if x \<in> set bl then 0 else 1)"
        using 2(7,8) by (auto simp: absorb_def)
      have fr: "kept (sb s) (blk s) n \<longrightarrow> kept (sb s) (blk s') n \<and> (n \<noteq> x \<longrightarrow> blk s' n = blk s n)" for n
        using 2(6) kp by (simp add: r(3) 3(3))
      have "set bl \<subseteq> set (absorb x bl2)" "a \<in> set (absorb x bl2)" "x \<in> set (absorb x bl2)"
        using 2(8) ax(5) by (auto simp: absorb_def)
      then show ?thesis using e r(2,4,5) fs fr sl' ln ax kp True w a 3(4) 2(3) 1(7)
        by (intro exI [of _ a] exI [of _ s'] exI [of _ "absorb x bl2"]) (simp add: r(3) 3(3))
    qed
  qed
qed

section \<open>The block map\<close>

text \<open>The log blocks still to be paid for the indirect block: itself and its bitmap block.\<close>

definition ipot :: "u32 list \<Rightarrow> u32 list \<Rightarrow> nat" where
  "ipot as1 bl = (if as1 ! NDIRECT \<noteq> 0 \<and> as1 ! NDIRECT \<in> set bl then 0 else 2)"

lemma file_ext_slot:
  assumes "\<And>n. kept sbk f n \<Longrightarrow> kept sbk f' n \<and> (n \<noteq> x \<or> x = 0 \<longrightarrow> f' n = f n)" "x \<noteq> 0 \<Longrightarrow> x = fslot f as1 MAXFILE"
    and "\<And>m. m \<le> MAXFILE \<Longrightarrow> fslot f' as2 m = fslot f as1 m \<or> \<not> kept sbk f (fslot f' as2 m)"
  shows "file_ext sbk f as1 f' as2"
  unfolding file_ext_def using assms by (metis le_refl)

text \<open>
  What \<^verbatim>\<open>bmap\<close> promises: the address of the block, allocated and zeroed if there was none; 0 only when the
  disk is full. The content of the file is the same, and nothing else on the disk changes.
\<close>

definition bmap_post :: "nat \<Rightarrow> nat \<Rightarrow> kernel \<Rightarrow> u32 list \<Rightarrow> nat \<Rightarrow> u32 \<Rightarrow> kernel \<Rightarrow> u32 list \<Rightarrow> bool" where
  "bmap_post me ip s bl m a s' bl' \<longleftrightarrow>
     (let as1 = i_addrs (itable s ip); as2 = i_addrs (itable s' ip) in
      tstep me {} s s' bl' \<and> fs_ok s' \<and> sb s' = sb s \<and> itable s' = (itable s)(ip := (itable s ip)\<lparr>i_addrs := as2\<rparr>) \<and>
      file_wf (sb s) (blk s') as2 \<and> file_ext (sb s) (blk s) as1 (blk s') as2 \<and> set bl \<subseteq> set bl' \<and>
      fblock (blk s') as2 m = a \<and> (\<forall>k<MAXFILE. k \<noteq> m \<longrightarrow> fblock (blk s') as2 k = fblock (blk s) as1 k) \<and>
      (\<forall>k<MAXFILE. fblock (blk s) as1 k \<noteq> 0 \<longrightarrow> blk s' (fblock (blk s) as1 k) = blk s (fblock (blk s) as1 k)) \<and>
      (if fblock (blk s) as1 m \<noteq> 0 then a = fblock (blk s) as1 m \<and> blk s' = blk s \<and> bl' = bl \<and> as2 = as1
       else length bl' + ipot as2 bl' \<le> length bl + ipot as1 bl + 2 \<and>
         (if a = 0 then \<forall>c < sb_size (sb s). block_used (blk s') (sb s) c
          else blk s' a = replicate BSIZE 0 \<and> a \<in> set bl')))"

lemma bmap_direct_ok:
  fixes s :: kernel
  assumes t: "tx me s {} bl" and c: "length bl + 1 < NBUF" and f: "fs_ok s" and p: "i_dev (itable s ip) = ROOTDEV"
    and wf: "file_wf (sb s) (blk s) (i_addrs (itable s ip))" and bn: "unat bn < NDIRECT"
  shows "\<exists>a s' bl'. bmap me ip bn s = Ok (a, s') \<and> bmap_post me ip s bl (unat bn) a s' bl'"
proof -
  let ?as = "i_addrs (itable s ip)" and ?k = "unat bn"
  have k: "?k \<le> NDIRECT" "slot_of ?k = ?k" "?k < MAXFILE" "?k \<noteq> NDIRECT" using bn by (simp_all add: slot_of_def)
  have fk: "fblock (blk s) ?as ?k = ?as ! ?k" using bn by (simp add: fblock_def)
  obtain a s' bl' where r: "addr_or_alloc me ip ?k s = Ok (a, s')" "tstep me {} s s' bl'" "fs_ok s'" "sb s' = sb s"
      "itable s' = (itable s)(ip := (itable s ip)\<lparr>i_addrs := ?as[?k := a]\<rparr>)"
      "\<forall>n. kept (sb s) (blk s) n \<longrightarrow> kept (sb s) (blk s') n \<and> blk s' n = blk s n" "length bl' \<le> length bl + 2" "set bl \<subseteq> set bl'"
      "\<forall>m\<le>MAXFILE. fslot (blk s') (?as[?k := a]) m = (if m = ?k then a else fslot (blk s) ?as m)"
      "file_wf (sb s) (blk s') (?as[?k := a])"
      "if ?as ! ?k \<noteq> 0 then a = ?as ! ?k \<and> s' = s \<and> bl' = bl
       else if a = 0 then blk s' = blk s \<and> bl' = bl \<and> (\<forall>c < sb_size (sb s). block_used (blk s) (sb s) c)
       else \<not> kept (sb s) (blk s) a \<and> blk s' a = replicate BSIZE 0 \<and> a \<in> set bl'"
    using addr_or_alloc_ok [OF t c f refl p refl wf k(1)] unfolding k(2) by (elim exE conjE) (rule that; assumption)
  have as2: "i_addrs (itable s' ip) = ?as[?k := a]" by (simp add: r(5))
  have fb: "fblock (blk s') (?as[?k := a]) m = (if m = ?k then a else fblock (blk s) ?as m)" if "m < MAXFILE" for m
    using r(9) that fslot_fblock [of m] k(3) by (metis less_imp_le)
  have "fslot (blk s) ?as ?k = ?as ! ?k" using fk k(3) by (simp add: fslot_fblock)
  then have "file_ext (sb s) (blk s) ?as (blk s') (?as[?k := a])"
    using r(6,9,11) by (intro file_ext_slot [where x = 0]) (auto split: if_splits)
  moreover have "ipot (?as[?k := a]) bl' \<le> ipot ?as bl" using r(8) k(4) by (auto simp: ipot_def)
  moreover have "blk s' (fblock (blk s) ?as m) = blk s (fblock (blk s) ?as m)" if "m < MAXFILE" "fblock (blk s) ?as m \<noteq> 0" for m
    using file_wfD(2) [OF wf, of m] that r(6) by (simp add: fslot_fblock)
  ultimately show ?thesis
    using r fb k(3) bn fk unfolding bmap_post_def Let_def as2
    by (intro exI [of _ a] exI [of _ s'] exI [of _ bl']) (auto simp: bmap_def split: if_splits)
qed

lemma bmap_far_ok:
  fixes s :: kernel
  assumes t: "tx me s {} bl" and c: "length bl + 5 < NBUF" and f: "fs_ok s" and p: "i_dev (itable s ip) = ROOTDEV"
    and wf: "file_wf (sb s) (blk s) (i_addrs (itable s ip))" and bn: "NDIRECT \<le> unat bn" "unat bn < MAXFILE"
  shows "\<exists>a s' bl'. bmap me ip bn s = Ok (a, s') \<and> bmap_post me ip s bl (unat bn) a s' bl'"
proof -
  let ?as = "i_addrs (itable s ip)" and ?m = "unat bn"
  define k where "k = ?m - NDIRECT"
  have k: "unat (bn - of_nat NDIRECT) = k" "k < NINDIRECT" "?m = NDIRECT + k" "slot_of NDIRECT = MAXFILE"
    using bn by (simp_all add: unat_sub word_le_nat_alt k_def slot_of_def)
  have "length bl + 1 < NBUF" using c by simp
  from addr_or_alloc_ok [OF t this f refl p refl wf le_refl]
  obtain x s1 bl1 where r: "addr_or_alloc me ip NDIRECT s = Ok (x, s1)" "tstep me {} s s1 bl1" "fs_ok s1" "sb s1 = sb s"
      "itable s1 = (itable s)(ip := (itable s ip)\<lparr>i_addrs := ?as[NDIRECT := x]\<rparr>)"
      "\<forall>n. kept (sb s) (blk s) n \<longrightarrow> kept (sb s) (blk s1) n \<and> blk s1 n = blk s n" "length bl1 \<le> length bl + 2" "set bl \<subseteq> set bl1"
      "\<forall>m\<le>MAXFILE. fslot (blk s1) (?as[NDIRECT := x]) m = (if m = MAXFILE then x else fslot (blk s) ?as m)"
      "file_wf (sb s) (blk s1) (?as[NDIRECT := x])"
      "if ?as ! NDIRECT \<noteq> 0 then x = ?as ! NDIRECT \<and> s1 = s \<and> bl1 = bl
       else if x = 0 then blk s1 = blk s \<and> bl1 = bl \<and> (\<forall>c < sb_size (sb s). block_used (blk s) (sb s) c)
       else \<not> kept (sb s) (blk s) x \<and> blk s1 x = replicate BSIZE 0 \<and> x \<in> set bl1"
    unfolding k(4) by (elim exE conjE) (rule that; assumption)
  let ?as2 = "?as[NDIRECT := x]"
  have as2: "i_addrs (itable s1 ip) = ?as2" "?as2 ! NDIRECT = x" using file_wfD(1) [OF wf] by (simp_all add: r(5))
  have fb: "fblock (blk s1) ?as2 m = fblock (blk s) ?as m" if "m < MAXFILE" for m
    using r(9) that fslot_fblock [of m] by (metis less_imp_le nat_neq_iff)
  have "fslot (blk s) ?as MAXFILE = ?as ! NDIRECT" by (simp add: fslot_def)
  then have ext: "file_ext (sb s) (blk s) ?as (blk s1) ?as2"
    using r(6,9,11) by (intro file_ext_slot [where x = 0]) (auto split: if_splits)
  show ?thesis
  proof (cases "x = 0")
    case True
    then have z: "?as ! NDIRECT = 0" "blk s1 = blk s" "bl1 = bl" using r(11) by (auto split: if_splits)
    have "bmap me ip bn s = Ok (0, s1)" using r(1) True bn k(1,2) by (simp add: bmap_def Let_def)
    moreover have "fblock (blk s) ?as ?m = 0" using z(1) bn(1) by (simp add: fblock_def)
    moreover have "ipot ?as2 bl \<le> ipot ?as bl" using as2(2) True z(1) by (simp add: ipot_def)
    ultimately show ?thesis using r as2(1) fb ext True z bn unfolding bmap_post_def Let_def
      by (intro exI [of _ 0] exI [of _ s1] exI [of _ bl1]) auto
  next
    case False
    have "length bl1 + 3 < NBUF" "i_dev (itable s1 ip) = ROOTDEV" "file_wf (sb s1) (blk s1) ?as2"
      using c r(4,5,7,10) p by simp_all
    from bmap_indirect_ok [OF tstepD(1) [OF r(2)] this(1) r(3) this(2,3) as2(2) False k(2)]
    obtain a s' bl' where q: "bmap_indirect me ip x k s1 = Ok (a, s')" "tstep me {} s1 s' bl'" "fs_ok s'" "sb s' = sb s" "itable s' = itable s1"
        "\<forall>n. kept (sb s) (blk s1) n \<longrightarrow> kept (sb s) (blk s') n \<and> (n \<noteq> x \<longrightarrow> blk s' n = blk s1 n)" "set bl1 \<subseteq> set bl'"
        "\<forall>m\<le>MAXFILE. fslot (blk s') ?as2 m = (if m = ?m then a else fslot (blk s1) ?as2 m)"
        "if fblock (blk s) ?as ?m \<noteq> 0 then a = fblock (blk s) ?as ?m \<and> blk s' = blk s1 \<and> bl' = bl1
         else if a = 0 then blk s' = blk s1 \<and> bl' = bl1 \<and> (\<forall>c < sb_size (sb s). block_used (blk s1) (sb s) c)
         else \<not> kept (sb s) (blk s1) a \<and> kept (sb s) (blk s') a \<and> blk s' a = replicate BSIZE 0 \<and> a \<in> set bl' \<and> x \<in> set bl' \<and>
           length bl' \<le> length bl1 + 2 + (if x \<in> set bl1 then 0 else 1)"
      unfolding r(4) k(3) [symmetric] fb [OF bn(2)] by (elim exE conjE) (rule that; assumption)
    have e: "bmap me ip bn s = Ok (a, s')" using r(1) q(1) False bn k(1,2) by (simp add: bmap_def Let_def)
    have fb': "fblock (blk s') ?as2 m = (if m = ?m then a else fblock (blk s) ?as m)" if "m < MAXFILE" for m
      using q(8) fb [OF that] that fslot_fblock [of m] bn(2) by (metis less_imp_le)
    have sl: "fslot (blk s1) ?as2 ?m = fblock (blk s) ?as ?m" using fb [OF bn(2)] bn(2) by (simp add: fslot_fblock)
    have x: "fslot (blk s1) ?as2 MAXFILE = x" using as2(2) by (simp add: fslot_def)
    have "file_ext (sb s) (blk s1) ?as2 (blk s') ?as2"
      using q(6,8,9) x sl False by (intro file_ext_slot [where x = x]) (auto split: if_splits)
    note ext' = file_ext_trans [OF ext this]
    have wf': "file_wf (sb s) (blk s') ?as2"
    proof (cases "fblock (blk s) ?as ?m = 0")
      case True
      then show ?thesis using file_wf_slot [OF r(10), of ?as2 ?m "blk s'" a] q(6,8,9) file_wfD(1) [OF r(10)] bn(2)
        by (auto split: if_splits)
    qed (use q(9) r(10) in simp)
    have dat: "blk s' (fblock (blk s) ?as m) = blk s (fblock (blk s) ?as m)" if m: "m < MAXFILE" "fblock (blk s) ?as m \<noteq> 0" for m
    proof -
      have "kept (sb s) (blk s) (fblock (blk s) ?as m)" using file_wfD(2) [OF wf, of m] m by (simp add: fslot_fblock)
      moreover have "fblock (blk s) ?as m \<noteq> x"
        using file_wfD(3) [OF r(10), of m MAXFILE] m x fb [OF m(1)] by (auto simp: fslot_fblock)
      ultimately show ?thesis using r(6) q(6) by metis
    qed
    have ln: "length bl' + ipot ?as2 bl' \<le> length bl + ipot ?as bl + 2" if "fblock (blk s) ?as ?m = 0"
      using r(7,8,11) q(7,9) that False as2(2) by (auto simp: ipot_def split: if_splits)
    have "itable s' = (itable s)(ip := (itable s ip)\<lparr>i_addrs := ?as2\<rparr>)" "i_addrs (itable s' ip) = ?as2"
      using q(5) r(5) by simp_all
    moreover have "fblock (blk s) ?as ?m \<noteq> 0 \<Longrightarrow> ?as ! NDIRECT \<noteq> 0" using bn(1) by (auto simp: fblock_def)
    moreover have "tstep me {} s s' bl'" using tstep_trans [OF r(2) q(2)] .
    ultimately show ?thesis using e q(3,4,7,9) r(8,11) wf' ext' fb' dat ln bn(2) unfolding bmap_post_def Let_def
      by (intro exI [of _ a] exI [of _ s'] exI [of _ bl']) (auto split: if_splits)
  qed
qed

lemma bmap_ok:
  fixes s :: kernel
  assumes "tx me s {} bl" "length bl + 5 < NBUF" "fs_ok s" "i_dev (itable s ip) = ROOTDEV"
    "file_wf (sb s) (blk s) (i_addrs (itable s ip))" "unat bn < MAXFILE"
  shows "\<exists>a s' bl'. bmap me ip bn s = Ok (a, s') \<and> bmap_post me ip s bl (unat bn) a s' bl'"
  using bmap_direct_ok [of me s bl ip bn] bmap_far_ok [of me s bl ip bn] assms by (cases "unat bn < NDIRECT") simp_all

lemma bmap_postD:
  assumes "bmap_post me ip s bl m a s' bl'"
  shows "tstep me {} s s' bl'" "fs_ok s'" "sb s' = sb s" "itable s' = (itable s)(ip := (itable s ip)\<lparr>i_addrs := i_addrs (itable s' ip)\<rparr>)"
    "file_wf (sb s) (blk s') (i_addrs (itable s' ip))" "file_ext (sb s) (blk s) (i_addrs (itable s ip)) (blk s') (i_addrs (itable s' ip))"
    "set bl \<subseteq> set bl'" "fblock (blk s') (i_addrs (itable s' ip)) m = a"
    "fblock (blk s) (i_addrs (itable s ip)) m \<noteq> 0 \<Longrightarrow>
       a = fblock (blk s) (i_addrs (itable s ip)) m \<and> blk s' = blk s \<and> bl' = bl \<and> itable s' = itable s"
    "fblock (blk s) (i_addrs (itable s ip)) m = 0 \<Longrightarrow>
       length bl' + ipot (i_addrs (itable s' ip)) bl' \<le> length bl + ipot (i_addrs (itable s ip)) bl + 2"
    "a = 0 \<Longrightarrow> c < sb_size (sb s) \<Longrightarrow> block_used (blk s') (sb s) c"
    "fblock (blk s) (i_addrs (itable s ip)) m = 0 \<Longrightarrow> a \<noteq> 0 \<Longrightarrow> a \<in> set bl'"
  using assms unfolding bmap_post_def by (auto simp: Let_def split: if_splits)

lemma fbyte_bmap:
  assumes "bmap_post me ip s bl m a s' bl'" "i < MAXFILE * BSIZE" "m < MAXFILE"
  shows "fbyte (blk s') (i_addrs (itable s' ip)) i = fbyte (blk s) (i_addrs (itable s ip)) i"
proof (cases "i div BSIZE = m")
  case True
  then show ?thesis using assms unfolding bmap_post_def fbyte_def by (auto simp: Let_def split: if_splits)
next
  case False
  have "i div BSIZE < MAXFILE" using assms(2) by (simp add: less_mult_imp_div_less)
  then show ?thesis using assms(1) False unfolding bmap_post_def fbyte_def by (auto simp: Let_def)
qed

text \<open>Rewriting a data block of a file.\<close>

lemma file_data_block:
  assumes wf: "file_wf sbk f as1" and m: "m < MAXFILE" "fblock f as1 m = a" "a \<noteq> 0" and f': "f' = f(a := xs)"
  shows "file_wf sbk f' as1" "file_ext sbk f as1 f' as1" "k \<le> MAXFILE \<Longrightarrow> fslot f' as1 k = fslot f as1 k"
    "i < MAXFILE * BSIZE \<Longrightarrow> fbyte f' as1 i = (if i div BSIZE = m then xs ! (i mod BSIZE) else fbyte f as1 i)"
    "kept sbk f a" "a \<noteq> as1 ! NDIRECT"
proof -
  have sa: "fslot f as1 m = a" using m by (simp add: fslot_fblock)
  show ka: "kept sbk f a" using file_wfD(2) [OF wf, of m] m sa by simp
  show na: "a \<noteq> as1 ! NDIRECT" using file_wfD(3) [OF wf, of m MAXFILE] m sa by (auto simp: fslot_def split: if_splits)
  have sl: "fslot f' as1 k = fslot f as1 k" if "k \<le> MAXFILE" for k using na f' by (auto simp: fslot_def fblock_def)
  then show "k \<le> MAXFILE \<Longrightarrow> fslot f' as1 k = fslot f as1 k" .
  have kp: "kept sbk f' n = kept sbk f n" for n using kept_upd [OF ka] f' by simp
  show "file_wf sbk f' as1" using wf sl kp unfolding file_wf_def by simp
  have "f' n = f n" if "\<forall>k\<le>MAXFILE. fslot f as1 k \<noteq> n" for n using that f' sa m(1) by (auto dest: spec [of _ m])
  then show "file_ext sbk f as1 f' as1" using sl kp unfolding file_ext_def by simp
  have fb: "fblock f' as1 k = fblock f as1 k" if "k < MAXFILE" for k using sl [of k] that by (simp add: fslot_fblock)
  show "fbyte f' as1 i = (if i div BSIZE = m then xs ! (i mod BSIZE) else fbyte f as1 i)" if i: "i < MAXFILE * BSIZE"
  proof -
    have d: "i div BSIZE < MAXFILE" using i by (simp add: less_mult_imp_div_less)
    have "fblock f as1 (i div BSIZE) \<noteq> a" if "i div BSIZE \<noteq> m"
      using file_wfD(3) [OF wf, of "i div BSIZE" m] d m sa that by (auto simp: fslot_fblock)
    then show ?thesis using fb [OF d] m f' by (auto simp: fbyte_def Let_def)
  qed
qed

end
