(* ===== verification/ReadWrite.thy ===== *)
theory ReadWrite
  imports Content Paging
begin

text \<open>
  What \<^verbatim>\<open>readi\<close> and \<^verbatim>\<open>writei\<close> (\<^verbatim>\<open>kernel/fs.c\<close>) do to the content of a file inside a transaction: the bytes
  written, the blocks the log must hold for them, and what a later read returns.
\<close>

section \<open>The source of a write\<close>

text \<open>\<open>src_ok me src s xs\<close>: \<^verbatim>\<open>either_copyin\<close> finds the bytes \<open>xs\<close> at \<open>src\<close>.\<close>

definition src_ok :: "nat \<Rightarrow> ksrc \<Rightarrow> kernel \<Rightarrow> u8 list \<Rightarrow> bool" where
  "src_ok me src s xs \<longleftrightarrow>
     (case src of LocalSrc ys \<Rightarrow> take (length xs) ys = xs
      | UserSrc va \<Rightarrow> readable (mem s) (p_pagetable (procs s me)) va (length xs) \<and>
          user_bytes (mem s) (p_pagetable (procs s me)) va (length xs) = xs)"

lemma src_frame: "src_ok me src s xs \<Longrightarrow> fframe s s' \<Longrightarrow> src_ok me src s' xs"
  using fframeD(5) [of s s'] fframeD(12) [of s s' me] by (simp add: src_ok_def split: ksrc.splits)

lemma readable_prefix:
  assumes "readable m pt va n" "k \<le> n" shows "readable m pt va k"
proof -
  have "unat va + k \<le> unat MAXVA" using assms unfolding readable_def by linarith
  moreover have "\<forall>i<k. user_pa (leaf m pt (PGROUNDDOWN (va + of_nat i))) \<noteq> 0"
    using assms unfolding readable_def by (meson less_le_trans)
  ultimately show ?thesis using assms(1) unfolding readable_def by blast
qed

lemma src_copyin:
  assumes "src_ok me src s xs" "n \<le> length xs"
  shows "either_copyin me src n s = Ok (0, take n xs, s)"
proof (cases src)
  case (LocalSrc ys)
  then have "take (length xs) ys = xs" using assms(1) by (simp add: src_ok_def)
  then have "take n xs = take n (take (length xs) ys)" by simp
  also have "\<dots> = take n ys" using assms(2) by (simp only: take_take min_absorb1)
  finally show ?thesis using LocalSrc by (simp add: either_copyin_def)
next
  case (UserSrc va)
  let ?pt = "p_pagetable (procs s me)"
  have r: "readable (mem s) ?pt va (length xs)" "user_bytes (mem s) ?pt va (length xs) = xs"
    using assms(1) UserSrc by (simp_all add: src_ok_def)
  have "take n xs = user_bytes (mem s) ?pt va n"
    using arg_cong [OF user_bytes_split [OF assms(2), of "mem s" ?pt va], of "take n"] r(2) by (simp add: user_bytes_def)
  then show ?thesis using UserSrc copyin_spec [OF readable_prefix [OF r(1) assms(2)], of me] by (simp add: either_copyin_def)
qed

lemma src_add:
  assumes "src_ok me src s xs" "unat n \<le> length xs"
  shows "src_ok me (ksrc_add src (ucast (n :: u32))) s (drop (unat n) xs)"
proof (cases src)
  case (LocalSrc ys)
  have u: "unat (ucast n :: u64) = unat n"
    using unsigned_less [where w = n and 'a = nat] by (simp add: unsigned_ucast_eq take_bit_nat_eq_self)
  have "take (length xs) ys = xs" using assms(1) LocalSrc by (simp add: src_ok_def)
  then have "drop (unat n) xs = drop (unat n) (take (length xs) ys)" by simp
  then have "take (length xs - unat n) (drop (unat n) ys) = drop (unat n) xs" by (simp only: drop_take)
  then show ?thesis using LocalSrc u by (simp only: src_ok_def ksrc_add_def ksrc.case length_drop)
next
  case (UserSrc va)
  let ?pt = "p_pagetable (procs s me)"
  have r: "readable (mem s) ?pt va (length xs)" "user_bytes (mem s) ?pt va (length xs) = xs"
    using assms(1) UserSrc by (simp_all add: src_ok_def)
  have n: "(ucast n :: u64) = of_nat (unat n)" by simp
  have "user_bytes (mem s) ?pt (va + of_nat (unat n)) (length xs - unat n) = drop (unat n) xs"
    using arg_cong [OF user_bytes_split [OF assms(2), of "mem s" ?pt va], of "drop (unat n)"] r(2) by (simp add: user_bytes_def)
  then show ?thesis using UserSrc readable_shift [OF r(1) assms(2)] by (simp add: src_ok_def ksrc_add_def)
qed

section \<open>What a write costs\<close>

text \<open>
  The number of blocks a write of \<open>len\<close> bytes at \<open>off\<close> adds to the log, besides the indirect block and its
  bitmap block: two for a block that may be new, one for a partly filled first block.
\<close>

definition wcost :: "nat \<Rightarrow> nat \<Rightarrow> nat" where
  "wcost off len =
     (if len = 0 then 0
      else if off mod BSIZE = 0 then 2 * ((len + BSIZE - 1) div BSIZE)
      else 1 + 2 * ((len - (BSIZE - off mod BSIZE) + BSIZE - 1) div BSIZE))"

lemma block_end: "off + (BSIZE - off mod BSIZE) = BSIZE * Suc (off div BSIZE)"
proof -
  have "BSIZE * (off div BSIZE) + off mod BSIZE = off" "off mod BSIZE < BSIZE" by (rule mult_div_mod_eq) simp
  then show ?thesis unfolding mult_Suc_right by linarith
qed

lemma wcost_step:
  assumes "0 < len" "m = min len (BSIZE - off mod BSIZE)"
  shows "wcost off len = (if off mod BSIZE = 0 then 2 else 1) + wcost (off + m) (len - m)"
    "len - m = 0 \<or> (off + m) mod BSIZE = 0"
proof -
  have "off mod BSIZE < BSIZE" by simp
  show z: "len - m = 0 \<or> (off + m) mod BSIZE = 0"
  proof (cases "len \<le> BSIZE - off mod BSIZE")
    case False
    then have "off + m = BSIZE * Suc (off div BSIZE)" using block_end [of off] assms(2) by simp
    then show ?thesis by (simp only: mod_mult_self1_is_0) simp
  qed (use assms(2) in simp)
  show "wcost off len = (if off mod BSIZE = 0 then 2 else 1) + wcost (off + m) (len - m)"
  proof (cases "len \<le> BSIZE - off mod BSIZE")
    case True
    then have "m = len" using assms(2) by simp
    moreover have "(len + BSIZE - 1) div BSIZE = 1" if "off mod BSIZE = 0"
      using True that assms(1) by (intro div_nat_eqI) simp_all
    ultimately show ?thesis using True assms(1) by (simp add: wcost_def)
  next
    case False
    then have m: "m = BSIZE - off mod BSIZE" "m < len" using assms(2) by simp_all
    then have "len - m \<noteq> 0" by linarith
    with z have "(off + m) mod BSIZE = 0" by argo
    moreover have "(len + BSIZE - 1) div BSIZE = 1 + (len - BSIZE + BSIZE - 1) div BSIZE" if "off mod BSIZE = 0"
    proof -
      have "len + BSIZE - 1 = len - BSIZE + BSIZE - 1 + BSIZE * 1" using m that by simp
      then show ?thesis using div_mult_self2 [of BSIZE "len - BSIZE + BSIZE - 1" 1] by simp
    qed
    ultimately show ?thesis using m by (simp add: wcost_def)
  qed
qed

lemma wcost_one: "0 < m \<Longrightarrow> m \<le> BSIZE - off mod BSIZE \<Longrightarrow> wcost off m = (if off mod BSIZE = 0 then 2 else 1)"
  using wcost_step(1) [of m m off] by (simp add: min_absorb1 wcost_def [of _ 0] del: fs_consts)

lemma wcost_max: "len \<le> 3 * BSIZE \<Longrightarrow> wcost off len \<le> 7"
proof -
  assume len: "len \<le> 3 * BSIZE"
  have "(len + BSIZE - 1) div BSIZE \<le> 3" using len by (simp add: less_Suc_eq_le [symmetric] less_mult_imp_div_less)
  moreover have "(len - (BSIZE - off mod BSIZE) + BSIZE - 1) div BSIZE \<le> (len + BSIZE - 1) div BSIZE"
    by (rule div_le_mono) simp
  ultimately have "(len - (BSIZE - off mod BSIZE) + BSIZE - 1) div BSIZE \<le> 3" by (rule order_trans [rotated])
  with \<open>(len + BSIZE - 1) div BSIZE \<le> 3\<close> show ?thesis by (simp add: wcost_def del: fs_consts)
qed

section \<open>Writing\<close>

text \<open>Only the address array of one inode differs.\<close>

definition only_addrs :: "nat \<Rightarrow> kernel \<Rightarrow> kernel \<Rightarrow> bool" where
  "only_addrs ip s s' \<longleftrightarrow> (\<exists>as1. itable s' = (itable s)(ip := (itable s ip)\<lparr>i_addrs := as1\<rparr>))"

lemma only_addrs_refl: "itable s' = itable s \<Longrightarrow> only_addrs ip s s'"
  unfolding only_addrs_def by (rule exI [of _ "i_addrs (itable s ip)"]) simp

lemma only_addrs_trans: "only_addrs ip s t \<Longrightarrow> only_addrs ip t u \<Longrightarrow> only_addrs ip s u"
  unfolding only_addrs_def by (elim exE) (rule exI, simp)

lemma only_addrsD:
  assumes "only_addrs ip s s'"
  shows "i_dev (itable s' ip) = i_dev (itable s ip)" "i_size (itable s' ip) = i_size (itable s ip)"
    "i_inum (itable s' ip) = i_inum (itable s ip)" "j \<noteq> ip \<Longrightarrow> itable s' j = itable s j"
    "i_type (itable s' ip) = i_type (itable s ip)"
  using assms by (auto simp: only_addrs_def)

text \<open>
  What a write of \<open>ys\<close> at \<open>off\<close> that stored \<open>r\<close> bytes promises, up to the update of the inode.
\<close>

definition write_post :: "nat \<Rightarrow> nat \<Rightarrow> kernel \<Rightarrow> u32 list \<Rightarrow> nat \<Rightarrow> u8 list \<Rightarrow> nat \<Rightarrow> kernel \<Rightarrow> u32 list \<Rightarrow> bool" where
  "write_post me ip s bl off ys r s' bl' \<longleftrightarrow>
     tstep me {} s s' bl' \<and> fs_ok s' \<and> sb s' = sb s \<and> only_addrs ip s s' \<and>
     file_wf (sb s) (blk s') (i_addrs (itable s' ip)) \<and>
     file_ext (sb s) (blk s) (i_addrs (itable s ip)) (blk s') (i_addrs (itable s' ip)) \<and> r \<le> length ys \<and>
     (r < length ys \<longrightarrow> (\<forall>c < sb_size (sb s). block_used (blk s') (sb s) c)) \<and>
     (\<forall>i < MAXFILE * BSIZE. fbyte (blk s') (i_addrs (itable s' ip)) i =
        (if off \<le> i \<and> i < off + r then ys ! (i - off) else fbyte (blk s) (i_addrs (itable s ip)) i)) \<and>
     (\<forall>m < MAXFILE. fblock (blk s) (i_addrs (itable s ip)) m \<noteq> 0 \<or> (\<exists>i. off \<le> i \<and> i < off + r \<and> i div BSIZE = m) \<longrightarrow>
        fblock (blk s') (i_addrs (itable s' ip)) m \<noteq> 0) \<and>
     length bl' + ipot (i_addrs (itable s' ip)) bl' \<le> length bl + ipot (i_addrs (itable s ip)) bl + wcost off (length ys)"

lemma write_postD:
  assumes "write_post me ip s bl off ys r s' bl'"
  shows "tstep me {} s s' bl'" "fs_ok s'" "sb s' = sb s" "only_addrs ip s s'" "file_wf (sb s) (blk s') (i_addrs (itable s' ip))"
    "file_ext (sb s) (blk s) (i_addrs (itable s ip)) (blk s') (i_addrs (itable s' ip))" "r \<le> length ys"
    "r < length ys \<Longrightarrow> c < sb_size (sb s) \<Longrightarrow> block_used (blk s') (sb s) c"
    "i < MAXFILE * BSIZE \<Longrightarrow> fbyte (blk s') (i_addrs (itable s' ip)) i =
        (if off \<le> i \<and> i < off + r then ys ! (i - off) else fbyte (blk s) (i_addrs (itable s ip)) i)"
    "length bl' + ipot (i_addrs (itable s' ip)) bl' \<le> length bl + ipot (i_addrs (itable s ip)) bl + wcost off (length ys)"
    "m < MAXFILE \<Longrightarrow> fblock (blk s) (i_addrs (itable s ip)) m \<noteq> 0 \<Longrightarrow> fblock (blk s') (i_addrs (itable s' ip)) m \<noteq> 0"
    "m < MAXFILE \<Longrightarrow> off \<le> i \<Longrightarrow> i < off + r \<Longrightarrow> i div BSIZE = m \<Longrightarrow> fblock (blk s') (i_addrs (itable s' ip)) m \<noteq> 0"
  using assms unfolding write_post_def by blast+

lemma write_post_trans:
  assumes 1: "write_post me ip s bl off (take m ys) m t blt" and 2: "write_post me ip t blt (off + m) (drop m ys) r s' bl'"
    and m: "m = min (length ys) (BSIZE - off mod BSIZE)" "ys \<noteq> []"
  shows "write_post me ip s bl off ys (m + r) s' bl'"
proof -
  note d = write_postD [OF 1] and e = write_postD [OF 2]
  have ml: "m \<le> length ys" "0 < m" "off mod BSIZE < BSIZE" using m by simp_all
  have "wcost off m = (if off mod BSIZE = 0 then 2 else 1)" by (rule wcost_one) (use m in simp_all)
  moreover have "wcost off (length ys) = (if off mod BSIZE = 0 then 2 else 1) + wcost (off + m) (length ys - m)"
    by (rule wcost_step(1) [OF _ m(1)]) (use m(2) in simp)
  ultimately have c: "wcost off (length ys) = wcost off m + wcost (off + m) (length ys - m)" by presburger
  have by': "fbyte (blk s') (i_addrs (itable s' ip)) i =
      (if off \<le> i \<and> i < off + (m + r) then ys ! (i - off) else fbyte (blk s) (i_addrs (itable s ip)) i)"
    if i: "i < MAXFILE * BSIZE" for i
  proof (cases "off + m \<le> i \<and> i < off + m + r")
    case True
    then have "drop m ys ! (i - (off + m)) = ys ! (i - off)" using ml(1) e(7) by (subst nth_drop) simp_all
    then show ?thesis using e(9) [OF i] True by simp
  next
    case False
    then have "off \<le> i \<and> i < off + (m + r) \<longleftrightarrow> off \<le> i \<and> i < off + m" by linarith
    moreover have "take m ys ! (i - off) = ys ! (i - off)" if "off \<le> i \<and> i < off + m" using that by (intro nth_take) linarith
    ultimately show ?thesis using e(9) [OF i] d(9) [OF i] False by simp
  qed
  show ?thesis
    unfolding write_post_def
  proof (intro conjI impI allI)
    show "tstep me {} s s' bl'" using tstep_trans [OF d(1) e(1)] .
    show "only_addrs ip s s'" using only_addrs_trans [OF d(4) e(4)] .
    show "file_ext (sb s) (blk s) (i_addrs (itable s ip)) (blk s') (i_addrs (itable s' ip))"
      using file_ext_trans [OF d(6)] e(6) d(3) by simp
    show "length bl' + ipot (i_addrs (itable s' ip)) bl' \<le> length bl + ipot (i_addrs (itable s ip)) bl + wcost off (length ys)"
      using d(10) e(10) c ml(1) by simp
    show "block_used (blk s') (sb s) c" if "m + r < length ys" "c < sb_size (sb s)" for c
      using e(8) that d(3) by simp
    show "fblock (blk s') (i_addrs (itable s' ip)) k \<noteq> 0"
      if "k < MAXFILE" "fblock (blk s) (i_addrs (itable s ip)) k \<noteq> 0 \<or> (\<exists>i. off \<le> i \<and> i < off + (m + r) \<and> i div BSIZE = k)" for k
      using that(2)
    proof
      assume "\<exists>i. off \<le> i \<and> i < off + (m + r) \<and> i div BSIZE = k"
      then obtain i where i: "off \<le> i" "i < off + (m + r)" "i div BSIZE = k" by blast
      show ?thesis
      proof (cases "i < off + m")
        case True
        then show ?thesis using e(11) [OF that(1) d(12) [OF that(1) i(1) _ i(3)]] by simp
      next
        case False
        then show ?thesis using e(12) [OF that(1) _ _ i(3)] i(2) by simp
      qed
    qed (use e(11) [OF that(1) d(11) [OF that(1)]] in blast)
  qed (use d(3) e(2,3,5,7) ml(1) by' in simp_all)
qed

lemma block_range:
  assumes "m \<le> BSIZE - off mod BSIZE"
  shows "off \<le> i \<and> i < off + m \<longleftrightarrow> i div BSIZE = off div BSIZE \<and> off mod BSIZE \<le> i mod BSIZE \<and> i mod BSIZE < off mod BSIZE + m"
    "i div BSIZE = off div BSIZE \<Longrightarrow> i mod BSIZE - off mod BSIZE = i - off"
proof -
  have i: "i = BSIZE * (i div BSIZE) + i mod BSIZE" "i mod BSIZE < BSIZE" by (rule mult_div_mod_eq [symmetric]) simp
  have o: "off = BSIZE * (off div BSIZE) + off mod BSIZE" "off mod BSIZE < BSIZE" by (rule mult_div_mod_eq [symmetric]) simp
  show "i div BSIZE = off div BSIZE \<Longrightarrow> i mod BSIZE - off mod BSIZE = i - off" using i(1) o(1) by (metis diff_cancel2 add.commute)
  have "i div BSIZE = off div BSIZE" if h: "off \<le> i" "i < off + m"
  proof (rule div_nat_eqI)
    show "BSIZE * (off div BSIZE) \<le> i" using h(1) o(1) by linarith
    show "i < BSIZE * Suc (off div BSIZE)" using h(2) assms block_end [of off] by linarith
  qed
  then show "off \<le> i \<and> i < off + m \<longleftrightarrow> i div BSIZE = off div BSIZE \<and> off mod BSIZE \<le> i mod BSIZE \<and> i mod BSIZE < off mod BSIZE + m"
    using i(1) o(1) by (metis add.assoc nat_add_left_cancel_le nat_add_left_cancel_less)
qed

lemma ipot_absorb: "ipot as1 (absorb a bl) \<le> ipot as1 bl"
  by (simp add: ipot_def absorb_def)

lemma write_block_ok:
  fixes s :: kernel
  assumes t: "tx me s {} bl" and f: "fs_ok s" and p: "i_dev (itable s ip) = ROOTDEV"
    and wf: "file_wf (sb s) (blk s) (i_addrs (itable s ip))"
    and c: "length bl + ipot (i_addrs (itable s ip)) bl + wcost off (length ys) + 5 < NBUF"
    and ys: "ys \<noteq> []" "m = min (length ys) (BSIZE - off mod BSIZE)" "off + length ys \<le> MAXFILE * BSIZE"
    and hole: "off mod BSIZE \<noteq> 0 \<longrightarrow> fblock (blk s) (i_addrs (itable s ip)) (off div BSIZE) \<noteq> 0"
    and src: "src_ok me src s ys" and bn: "unat bn = off div BSIZE"
  shows "\<exists>a s1 bl1. bmap me ip bn s = Ok (a, s1) \<and>
    (if a = 0 then write_post me ip s bl off ys 0 s1 bl1
     else \<exists>i s2 s3 s4. bread me (i_dev (itable s1 ip)) a s1 = Ok (i, s2) \<and> either_copyin me src m s2 = Ok (0, take m ys, s2) \<and>
       log_write i (set_data i (patch (b_data (bufs s2 i)) (off mod BSIZE) (take m ys)) s2) = Ok s3 \<and> brelse me i s3 = Ok s4 \<and>
       write_post me ip s bl off (take m ys) m s4 (absorb a bl1))"
proof -
  let ?as = "i_addrs (itable s ip)" and ?o = "off mod BSIZE"
  have m: "0 < m" "m \<le> length ys" "m \<le> BSIZE - ?o" "?o + m \<le> BSIZE" using ys by auto
  have w: "wcost off (length ys) = (if ?o = 0 then 2 else 1) + wcost (off + m) (length ys - m)"
      "wcost off m = (if ?o = 0 then 2 else 1)"
    using wcost_step(1) [OF _ ys(2)] wcost_one [OF m(1,3)] ys(1) by simp_all
  have db: "off div BSIZE < MAXFILE" using ys(1,3) by (intro less_mult_imp_div_less) (cases ys; simp)
  have "length bl + 5 < NBUF" using c by linarith
  from bmap_ok [OF t this f p wf] db bn
  obtain a s1 bl1 where b: "bmap me ip bn s = Ok (a, s1)" "bmap_post me ip s bl (off div BSIZE) a s1 bl1" by metis
  note d = bmap_postD [OF b(2)]
  have ex: "fblock (blk s1) (i_addrs (itable s1 ip)) k \<noteq> 0" if "k < MAXFILE" "fblock (blk s) ?as k \<noteq> 0" for k
    using b(2) that unfolding bmap_post_def Let_def by (cases "k = off div BSIZE") auto
  have oa: "only_addrs ip s s1" using d(4) by (auto simp: only_addrs_def)
  show ?thesis
  proof (cases "a = 0")
    case True
    then have z: "fblock (blk s) ?as (off div BSIZE) = 0" using d(9) by metis
    then have "?o = 0" using hole by blast
    then have "length bl1 + ipot (i_addrs (itable s1 ip)) bl1 \<le> length bl + ipot ?as bl + wcost off (length ys)"
      using d(10) [OF z] w(1) by simp
    then have "write_post me ip s bl off ys 0 s1 bl1"
      unfolding write_post_def using d(1-3,5,6) d(11) [OF True] oa fbyte_bmap [OF b(2) _ db] ex by auto
    then show ?thesis using b(1) True by (intro exI [of _ a] exI [of _ s1] exI [of _ bl1]) simp
  next
    case False
    let ?xs = "patch (blk s1 a) ?o (take m ys)" and ?as1 = "i_addrs (itable s1 ip)"
    have lx: "length ?xs = BSIZE" using txD(7) [OF tstepD(1) [OF d(1)], of a] m by simp
    have cost: "length (absorb a bl1) + ipot ?as1 (absorb a bl1) \<le> length bl + ipot ?as bl + wcost off m"
    proof (cases "fblock (blk s) ?as (off div BSIZE) = 0")
      case True
      then have "?o = 0" "absorb a bl1 = bl1" using hole d(12) [OF True False] by (auto simp: absorb_def)
      then show ?thesis using d(10) [OF True] w(2) by simp
    next
      case False
      then show ?thesis using d(9) w(2) ipot_absorb [of ?as a bl] length_absorb [of a bl] by simp
    qed
    have "wcost off m \<le> wcost off (length ys)" using w by simp
    then have "card {} + length bl1 < NBUF" using cost c by (simp add: absorb_def split: if_splits)
    from tx_update_block [OF tstepD(1) [OF d(1)] this _ lx, of a]
    obtain i s2 s3 s4 where u: "bread me ROOTDEV a s1 = Ok (i, s2)" "b_data (bufs s2 i) = blk s1 a" "log_write i (set_data i ?xs s2) = Ok s3"
        "brelse me i s3 = Ok s4" "tstep me {} s1 s4 (absorb a bl1)" "blk s4 = (blk s1)(a := ?xs)" "itable s4 = itable s1" "fframe s1 s2"
      by auto
    have ci: "either_copyin me src m s2 = Ok (0, take m ys, s2)"
      using src_copyin [OF src_frame [OF src fframe_trans [OF tstepD(2) [OF d(1)] u(8)]] m(2)] .
    note fd = file_data_block [OF d(5) db d(8) False u(6)]
    have sb4: "sb s4 = sb s" using fframeD(2) [OF tstepD(2) [OF u(5)]] d(3) by simp
    have fs4: "fs_ok s4"
      using fs_ok_later [OF d(2), of s4] block_used_other [of "sb s" a _ "blk s1" ?xs] fd(5) by (simp add: d(3) sb4 u(6) kept_def)
    have by4: "fbyte (blk s4) ?as1 i = (if off \<le> i \<and> i < off + m then take m ys ! (i - off) else fbyte (blk s) ?as i)"
      if i: "i < MAXFILE * BSIZE" for i
    proof (cases "i div BSIZE = off div BSIZE")
      case True
      have "fbyte (blk s1) ?as1 i = blk s1 a ! (i mod BSIZE)" using True d(8) False by (simp add: fbyte_def)
      moreover have "?xs ! (i mod BSIZE) = (if ?o \<le> i mod BSIZE \<and> i mod BSIZE < ?o + m then take m ys ! (i mod BSIZE - ?o) else blk s1 a ! (i mod BSIZE))"
        using txD(7) [OF tstepD(1) [OF d(1)], of a] m by (subst nth_patch) simp_all
      ultimately show ?thesis
        using fd(4) [OF i] True block_range [OF m(3), of i] fbyte_bmap [OF b(2) i db] by (simp del: fs_consts)
    next
      case f: False
      then show ?thesis using fd(4) [OF i] block_range(1) [OF m(3), of i] fbyte_bmap [OF b(2) i db] by (auto simp del: fs_consts)
    qed
    have ex4: "fblock (blk s4) ?as1 k \<noteq> 0"
      if "k < MAXFILE" "fblock (blk s) ?as k \<noteq> 0 \<or> (\<exists>i. off \<le> i \<and> i < off + m \<and> i div BSIZE = k)" for k
    proof -
      have "fblock (blk s4) ?as1 k = fblock (blk s1) ?as1 k" using fd(3) [of k] that(1) by (simp add: fslot_fblock)
      moreover have "fblock (blk s) ?as k \<noteq> 0 \<or> k = off div BSIZE" using that(2) block_range(1) [OF m(3)] by blast
      ultimately show ?thesis using ex [OF that(1)] d(8) False by metis
    qed
    have oa4: "only_addrs ip s s4" using only_addrs_trans [OF oa only_addrs_refl [OF u(7)]] .
    have "write_post me ip s bl off (take m ys) m s4 (absorb a bl1)"
      unfolding write_post_def u(7)
      using tstep_trans [OF d(1) u(5)] fs4 sb4 oa4 fd(1) file_ext_trans [OF d(6) fd(2)] by4 ex4 cost m(2) by simp
    moreover have "i_dev (itable s1 ip) = ROOTDEV" using only_addrsD(1) [OF oa] p by simp
    ultimately show ?thesis using b(1) False u ci
      by (intro exI [of _ a] exI [of _ s1] exI [of _ bl1]) auto
  qed
qed

lemma unat_div_block: "unat (off div of_nat BSIZE :: u32) = unat off div BSIZE"
  by (simp add: unat_div)

lemma write_post_refl:
  assumes "tx me s {} bl" "fs_ok s" "file_wf (sb s) (blk s) (i_addrs (itable s ip))"
  shows "write_post me ip s bl off [] 0 s bl"
  unfolding write_post_def using assms tstep_refl only_addrs_refl [of s s] by auto

lemma writei_loop_ok:
  fixes s :: kernel
  assumes "tx me s {} bl" "fs_ok s" "i_dev (itable s ip) = ROOTDEV" "file_wf (sb s) (blk s) (i_addrs (itable s ip))"
    "length bl + ipot (i_addrs (itable s ip)) bl + wcost (unat off) (length ys) + 5 < NBUF"
    "length ys = unat n - unat tot" "tot \<le> n" "unat off + length ys \<le> MAXFILE * BSIZE"
    "ys \<noteq> [] \<Longrightarrow> unat off mod BSIZE \<noteq> 0 \<Longrightarrow> fblock (blk s) (i_addrs (itable s ip)) (unat off div BSIZE) \<noteq> 0"
    "src_ok me src s ys"
  shows "\<exists>r s' bl'. writei_loop me ip src off n tot s = Ok (tot + of_nat r, off + of_nat r, s') \<and>
    write_post me ip s bl (unat off) ys r s' bl'"
  using assms
proof (induction "length ys" arbitrary: ys src off tot s bl rule: less_induct)
  case less
  note p = less.prems
  show ?case
  proof (cases "ys = []")
    case True
    then have "\<not> tot < n" using p(6) by (simp add: word_less_nat_alt)
    then show ?thesis using True write_post_refl [OF p(1,2,4), of "unat off"]
      by (subst writei_loop.simps) (intro exI [of _ 0] exI [of _ s] exI [of _ bl], simp)
  next
    case False
    have tn: "tot < n" using False p(6) length_greater_0_conv [of ys] by (simp add: word_less_nat_alt)
    define m where "m = chunk off n tot"
    have um: "unat m = min (length ys) (BSIZE - unat off mod BSIZE)" using unat_chunk [OF p(7), of off] p(6) by (simp add: m_def del: fs_consts)
    have off: "unat (off + m) = unat off + unat m"
      using p(8) um by (intro unat_add_lem [THEN iffD1]) simp
    have tot: "unat (tot + m) = unat tot + unat m" using chunk_bounds(2) [OF tn, of off] by (simp add: m_def)
    obtain a s1 bl1 where b: "bmap me ip (off div of_nat BSIZE) s = Ok (a, s1)"
        "if a = 0 then write_post me ip s bl (unat off) ys 0 s1 bl1
         else \<exists>i s2 s3 s4. bread me (i_dev (itable s1 ip)) a s1 = Ok (i, s2) \<and> either_copyin me src (unat m) s2 = Ok (0, take (unat m) ys, s2) \<and>
           log_write i (set_data i (patch (b_data (bufs s2 i)) (unat off mod BSIZE) (take (unat m) ys)) s2) = Ok s3 \<and> brelse me i s3 = Ok s4 \<and>
           write_post me ip s bl (unat off) (take (unat m) ys) (unat m) s4 (absorb a bl1)"
      using write_block_ok [OF p(1-5) False um p(8) _ p(10) unat_div_block] p(9) [OF False] by blast
    show ?thesis
    proof (cases "a = 0")
      case True
      then have "writei_loop me ip src off n tot s = Ok (tot, off, s1)" using b(1) tn by (subst writei_loop.simps) simp
      then show ?thesis using b(2) True by (intro exI [of _ 0] exI [of _ s1] exI [of _ bl1]) simp
    next
      case a: False
      then obtain i s2 s3 s4 where u: "bread me (i_dev (itable s1 ip)) a s1 = Ok (i, s2)"
          "either_copyin me src (unat m) s2 = Ok (0, take (unat m) ys, s2)"
          "log_write i (set_data i (patch (b_data (bufs s2 i)) (unat off mod BSIZE) (take (unat m) ys)) s2) = Ok s3" "brelse me i s3 = Ok s4"
          "write_post me ip s bl (unat off) (take (unat m) ys) (unat m) s4 (absorb a bl1)" using b(2) by auto
      note d = write_postD [OF u(5)]
      let ?src = "ksrc_add src (ucast m)" and ?ys = "drop (unat m) ys"
      have step: "writei_loop me ip src off n tot s = writei_loop me ip ?src (off + m) n (tot + m) s4"
        using tn b(1) a u(1-4) by (subst writei_loop.simps) (simp add: Let_def m_def [symmetric])
      have ml: "unat m \<le> length ys" "0 < length ys" using um False by simp_all
      note ws = wcost_step [OF ml(2) um]
      have wm: "wcost (unat off) (unat m) = (if unat off mod BSIZE = 0 then 2 else 1)"
        by (rule wcost_one) (use um ml(2) in simp_all)
      have "\<exists>r s' bl'. writei_loop me ip ?src (off + m) n (tot + m) s4 = Ok (tot + m + of_nat r, off + m + of_nat r, s') \<and>
          write_post me ip s4 (absorb a bl1) (unat (off + m)) ?ys r s' bl'"
      proof (rule less.hyps)
        show "length ?ys < length ys" using um False by simp
        show "tx me s4 {} (absorb a bl1)" using tstepD(1) [OF d(1)] .
        show "fs_ok s4" using d(2) .
        show "i_dev (itable s4 ip) = ROOTDEV" using only_addrsD(1) [OF d(4)] p(3) by simp
        show "file_wf (sb s4) (blk s4) (i_addrs (itable s4 ip))" using d(3,5) by simp
        show "length (absorb a bl1) + ipot (i_addrs (itable s4 ip)) (absorb a bl1) + wcost (unat (off + m)) (length ?ys) + 5 < NBUF"
          using d(10) p(5) ws(1) wm ml(1) off by simp
        show "length ?ys = unat n - unat (tot + m)" using p(6) tot by simp
        show "tot + m \<le> n" using tot p(6,7) ml(1) by (simp add: word_le_nat_alt)
        show "unat (off + m) + length ?ys \<le> MAXFILE * BSIZE" using p(8) off ml(1) by simp
        show "src_ok me ?src s4 ?ys" using src_frame [OF src_add [OF p(10) ml(1)] tstepD(2) [OF d(1)]] .
        show "fblock (blk s4) (i_addrs (itable s4 ip)) (unat (off + m) div BSIZE) \<noteq> 0"
          if "?ys \<noteq> []" "unat (off + m) mod BSIZE \<noteq> 0" using ws(2) that off by simp
      qed
      then obtain r s' bl' where r: "writei_loop me ip ?src (off + m) n (tot + m) s4 = Ok (tot + m + of_nat r, off + m + of_nat r, s')"
          "write_post me ip s4 (absorb a bl1) (unat off + unat m) ?ys r s' bl'" using off by auto
      show ?thesis
        using step r(1) write_post_trans [OF u(5) r(2) um False]
        by (intro exI [of _ "unat m + r"] exI [of _ s'] exI [of _ bl']) (simp add: add.assoc)
    qed
  qed
qed

section \<open>A file is a list of bytes\<close>

text \<open>
  The invariant of an open file: its blocks are allocated, all different and not part of the bitmap,
  there is one for every byte below its size, and its inode block is none of them.
\<close>

definition file_inv :: "kernel \<Rightarrow> nat \<Rightarrow> bool" where
  "file_inv s ip \<longleftrightarrow>
     (let p = itable s ip; as1 = i_addrs p; ib = IBLOCK (i_inum p) (sb s) in
      i_dev p = ROOTDEV \<and> file_wf (sb s) (blk s) as1 \<and> unat (i_size p) \<le> MAXFILE * BSIZE \<and>
      (\<forall>m<MAXFILE. m * BSIZE < unat (i_size p) \<longrightarrow> fblock (blk s) as1 m \<noteq> 0) \<and>
      kept (sb s) (blk s) ib \<and> (\<forall>m\<le>MAXFILE. fslot (blk s) as1 m \<noteq> ib))"

definition file_data :: "kernel \<Rightarrow> nat \<Rightarrow> u8 list" where
  "file_data s ip = map (fbyte (blk s) (i_addrs (itable s ip))) [0..<unat (i_size (itable s ip))]"

lemma file_invD:
  assumes "file_inv s ip"
  shows "i_dev (itable s ip) = ROOTDEV" "file_wf (sb s) (blk s) (i_addrs (itable s ip))" "unat (i_size (itable s ip)) \<le> MAXFILE * BSIZE"
    "m < MAXFILE \<Longrightarrow> m * BSIZE < unat (i_size (itable s ip)) \<Longrightarrow> fblock (blk s) (i_addrs (itable s ip)) m \<noteq> 0"
    "kept (sb s) (blk s) (IBLOCK (i_inum (itable s ip)) (sb s))"
    "m \<le> MAXFILE \<Longrightarrow> fslot (blk s) (i_addrs (itable s ip)) m \<noteq> IBLOCK (i_inum (itable s ip)) (sb s)"
  using assms unfolding file_inv_def Let_def by blast+

lemma length_file_data [simp]: "length (file_data s ip) = unat (i_size (itable s ip))"
  by (simp add: file_data_def)

lemma file_other_block:
  assumes wf: "file_wf sbk f as1" and k: "kept sbk f n" "\<And>m. m \<le> MAXFILE \<Longrightarrow> fslot f as1 m \<noteq> n" and f': "f' = f(n := xs)"
  shows "file_wf sbk f' as1" "m \<le> MAXFILE \<Longrightarrow> fslot f' as1 m = fslot f as1 m" "kept sbk f' b = kept sbk f b"
    "i < MAXFILE * BSIZE \<Longrightarrow> fbyte f' as1 i = fbyte f as1 i"
proof -
  have na: "as1 ! NDIRECT \<noteq> n" using k(2) [of MAXFILE] by (simp add: fslot_def)
  have sl: "fslot f' as1 m = fslot f as1 m" for m using na f' by (auto simp: fslot_def fblock_def)
  then show "m \<le> MAXFILE \<Longrightarrow> fslot f' as1 m = fslot f as1 m" by blast
  have kp: "kept sbk f' b = kept sbk f b" for b using kept_upd [OF k(1)] f' by simp
  then show "kept sbk f' b = kept sbk f b" .
  show "file_wf sbk f' as1" using wf sl kp unfolding file_wf_def by simp
  show "fbyte f' as1 i = fbyte f as1 i" if "i < MAXFILE * BSIZE"
  proof -
    have d: "i div BSIZE < MAXFILE" using that by (simp add: less_mult_imp_div_less)
    have "fblock f' as1 (i div BSIZE) = fblock f as1 (i div BSIZE)" using na f' by (auto simp: fblock_def)
    moreover have "fblock f as1 (i div BSIZE) \<noteq> n" using k(2) [of "i div BSIZE"] d by (simp add: fslot_fblock)
    ultimately show ?thesis using f' by (auto simp: fbyte_def Let_def)
  qed
qed

lemma patch_bytes:
  assumes "o1 \<le> n" "\<And>i. i < max n (o1 + length ys) \<Longrightarrow> g i = (if o1 \<le> i \<and> i < o1 + length ys then ys ! (i - o1) else f i)"
  shows "map g [0..<max n (o1 + length ys)] = patch (map f [0..<n]) o1 ys"
proof (rule nth_equalityI)
  fix i assume i: "i < length (map g [0..<max n (o1 + length ys)])"
  then show "map g [0..<max n (o1 + length ys)] ! i = patch (map f [0..<n]) o1 ys ! i"
    using assms by (auto simp: patch_def nth_append min_def not_less)
qed (use assms(1) in \<open>auto simp: patch_def\<close>)

text \<open>What \<^verbatim>\<open>writei\<close> promises.\<close>

definition writei_post :: "nat \<Rightarrow> nat \<Rightarrow> kernel \<Rightarrow> u32 list \<Rightarrow> nat \<Rightarrow> u8 list \<Rightarrow> nat \<Rightarrow> kernel \<Rightarrow> u32 list \<Rightarrow> bool" where
  "writei_post me ip s bl off xs r s' bl' \<longleftrightarrow>
     tstep me {} s s' bl' \<and> fs_ok s' \<and> file_inv s' ip \<and> r \<le> length xs \<and>
     (r < length xs \<longrightarrow> (\<forall>c < sb_size (sb s). block_used (blk s') (sb s) c)) \<and>
     file_data s' ip = patch (file_data s ip) off (take r xs) \<and>
     disk_inode (blk s') (sb s) (i_inum (itable s ip)) = dinode_of (itable s' ip) \<and> (\<forall>j. j \<noteq> ip \<longrightarrow> itable s' j = itable s j) \<and>
     i_inum (itable s' ip) = i_inum (itable s ip) \<and> i_type (itable s' ip) = i_type (itable s ip) \<and>
     (\<forall>b. kept (sb s) (blk s) b \<and> (\<forall>m\<le>MAXFILE. fslot (blk s) (i_addrs (itable s ip)) m \<noteq> b) \<longrightarrow>
        kept (sb s) (blk s') b \<and> (b \<noteq> IBLOCK (i_inum (itable s ip)) (sb s) \<longrightarrow> blk s' b = blk s b)) \<and>
     length bl' \<le> length bl + MAXOPBLOCKS"

lemma writei_ok:
  fixes s :: kernel
  assumes t: "tx me s {} bl" and c: "length bl + MAXOPBLOCKS + 4 < NBUF" and f: "fs_ok s" and inv: "file_inv s ip"
    and off: "off \<le> i_size (itable s ip)" and xs: "length xs \<le> 3 * BSIZE" "unat off + length xs \<le> MAXFILE * BSIZE"
    and src: "src_ok me src s xs"
  shows "\<exists>r s' bl'. writei me ip src off (of_nat (length xs)) s = Ok (int r, s') \<and> writei_post me ip s bl (unat off) xs r s' bl'"
proof -
  let ?as = "i_addrs (itable s ip)" and ?ib = "IBLOCK (i_inum (itable s ip)) (sb s)" and ?n = "of_nat (length xs) :: u32"
  note iv = file_invD [OF inv]
  have n: "unat ?n = length xs" using xs(1) by (simp add: unat_of_nat)
  have on: "unat (off + ?n) = unat off + length xs" using xs n by (subst unat_add_lem [THEN iffD1]) simp_all
  have hole: "fblock (blk s) ?as (unat off div BSIZE) \<noteq> 0" if "unat off mod BSIZE \<noteq> 0"
  proof (rule iv(4))
    have o: "unat off \<le> unat (i_size (itable s ip))" using off by (simp add: word_le_nat_alt)
    have "unat off div BSIZE * BSIZE + unat off mod BSIZE = unat off" by (rule div_mult_mod_eq)
    then show l: "unat off div BSIZE * BSIZE < unat (i_size (itable s ip))" using that o by linarith
    then have "unat off div BSIZE * BSIZE < MAXFILE * BSIZE" using iv(3) by linarith
    then show "unat off div BSIZE < MAXFILE" by (rule mult_less_cancel2 [THEN iffD1, THEN conjunct2])
  qed
  have ip: "ipot ?as bl \<le> 2" by (simp add: ipot_def)
  have wc: "wcost (unat off) (length xs) \<le> 7" using wcost_max [OF xs(1)] .
  have c': "length bl + ipot ?as bl + wcost (unat off) (length xs) + 5 < NBUF"
    using c ip wc by (simp add: MAXOPBLOCKS_def)
  obtain r s1 bl1 where w: "writei_loop me ip src off ?n 0 s = Ok (0 + of_nat r, off + of_nat r, s1)"
      "write_post me ip s bl (unat off) xs r s1 bl1"
    using writei_loop_ok [OF t f iv(1,2) c', of ?n 0 src] n xs(2) hole src by auto
  note d = write_postD [OF w(2)]
  have r: "r \<le> length xs" "unat (of_nat r :: u32) = r" "sint (of_nat r :: u32) = int r"
    using d(7) xs(1) by (simp_all add: unat_of_nat signed_of_nat signed_take_bit_int_eq_self)
  have ro: "unat (off + of_nat r) = unat off + r" using xs r by (subst unat_add_lem [THEN iffD1]) simp_all
  let ?sz = "if i_size (itable s ip) < off + of_nat r then off + of_nat r else i_size (itable s ip)"
  define s2 where "s2 = (if off + of_nat r > i_size (itable s1 ip) then upd_inode ip (\<lambda>p. p\<lparr>i_size := off + of_nat r\<rparr>) s1 else s1)"
  have sz: "i_size (itable s1 ip) = i_size (itable s ip)" using only_addrsD(2) [OF d(4)] .
  have s2: "tx me s2 {} bl1" "blk s2 = blk s1" "sb s2 = sb s" "fframe s1 s2" "i_addrs (itable s2 ip) = i_addrs (itable s1 ip)"
      "itable s2 ip = (itable s1 ip)\<lparr>i_size := ?sz\<rparr>" "j \<noteq> ip \<Longrightarrow> itable s2 j = itable s j" for j
    using tstepD(1) [OF d(1)] d(3) sz only_addrsD(4) [OF d(4)] by (auto simp: s2_def)
  have un: "unat ?sz = max (unat (i_size (itable s ip))) (unat off + r)" using ro by (simp add: word_less_nat_alt max_def)
  have ln: "length bl1 \<le> length bl + 9" using d(10) ip wc by simp
  have p2: "i_inum (itable s2 ip) = i_inum (itable s ip)" "i_dev (itable s2 ip) = ROOTDEV" "length (i_addrs (itable s2 ip)) = 13"
      "i_type (itable s2 ip) = i_type (itable s ip)"
    using only_addrsD(1,3,5) [OF d(4)] iv(1) file_wfD(1) [OF d(5)] by (simp_all add: s2(6))
  have "card {} + length bl1 < NBUF" "\<forall>i\<in>{}. \<not> buf_of s2 i (IBLOCK (i_inum (itable s2 ip)) (sb s2))"
    using ln c by (simp_all add: MAXOPBLOCKS_def)
  from iupdate_ok [OF s2(1) this refl p2(2,3)]
  obtain s3 ys where 3: "iupdate me ip s2 = Ok s3" "tstep me {} s2 s3 (absorb ?ib bl1)" "itable s3 = itable s2"
      "blk s3 = (blk s1)(?ib := ys)" "disk_inode (blk s3) (sb s) (i_inum (itable s ip)) = dinode_of (itable s2 ip)"
    unfolding s2(2,3) p2(1) by auto
  have sb3: "sb s3 = sb s" using fframeD(2) [OF tstepD(2) [OF 3(2)]] s2(3) by simp
  have ib: "kept (sb s) (blk s1) ?ib" "\<And>m. m \<le> MAXFILE \<Longrightarrow> fslot (blk s1) (i_addrs (itable s1 ip)) m \<noteq> ?ib"
    using d(6) iv(5,6) unfolding file_ext_def by blast+
  note fo = file_other_block [OF d(5) ib 3(4)]
  have ad: "i_addrs (itable s3 ip) = i_addrs (itable s1 ip)" "i_size (itable s3 ip) = ?sz" "i_inum (itable s3 ip) = i_inum (itable s ip)"
    using 3(3) s2(5,6) p2(1) by simp_all
  have fb: "fblock (blk s3) (i_addrs (itable s1 ip)) m = fblock (blk s1) (i_addrs (itable s1 ip)) m" if "m < MAXFILE" for m
    using fo(2) [of m] that by (simp add: fslot_fblock)
  have us: "block_used (blk s3) (sb s) b = block_used (blk s1) (sb s) b" if "b < sb_size (sb s)" for b
    unfolding 3(4) by (rule block_used_other [OF _ that]) (use ib(1) in \<open>simp add: kept_def\<close>)
  have fs3: "fs_ok s3" by (rule fs_ok_later [OF d(2)]) (use d(3) sb3 us in auto)
  have ex: "fblock (blk s3) (i_addrs (itable s1 ip)) m \<noteq> 0" if m: "m < MAXFILE" "m * BSIZE < unat ?sz" for m
  proof (cases "m * BSIZE < unat (i_size (itable s ip))")
    case True
    then show ?thesis using d(11) [OF m(1) iv(4) [OF m(1) True]] fb [OF m(1)] by simp
  next
    case False
    then have "unat off \<le> m * BSIZE" "m * BSIZE < unat off + r" using m(2) un off by (auto simp: word_le_nat_alt)
    then show ?thesis using d(12) [OF m(1)] fb [OF m(1)] by simp
  qed
  have szm: "unat ?sz \<le> MAXFILE * BSIZE" using un iv(3) xs(2) r(1) by simp
  have inv3: "file_inv s3 ip"
    unfolding file_inv_def Let_def ad sb3
    using p2(2) 3(3) fo(1-3) ib szm ex by simp
  have "map (fbyte (blk s3) (i_addrs (itable s1 ip))) [0..<max (unat (i_size (itable s ip))) (unat off + length (take r xs))] =
      patch (map (fbyte (blk s) ?as) [0..<unat (i_size (itable s ip))]) (unat off) (take r xs)"
  proof (rule patch_bytes)
    show "unat off \<le> unat (i_size (itable s ip))" using off by (simp add: word_le_nat_alt)
    fix i assume i: "i < max (unat (i_size (itable s ip))) (unat off + length (take r xs))"
    then have "i < MAXFILE * BSIZE" using iv(3) xs(2) r(1) by auto
    then show "fbyte (blk s3) (i_addrs (itable s1 ip)) i =
        (if unat off \<le> i \<and> i < unat off + length (take r xs) then take r xs ! (i - unat off) else fbyte (blk s) ?as i)"
      using fo(4) d(9) r(1) by auto
  qed
  then have dat: "file_data s3 ip = patch (file_data s ip) (unat off) (take r xs)"
    unfolding file_data_def ad un using r(1) by (simp add: min_absorb2)
  have g: "\<not> (i_size (itable s ip) < off \<or> off + ?n < off)" "\<not> of_nat (MAXFILE * BSIZE) < off + ?n"
    using off on xs(2) by (simp_all add: word_less_nat_alt word_le_nat_alt not_less)
  have e: "writei me ip src off ?n s = Ok (int r, s3)"
    unfolding writei_def if_not_P [OF g(1)] if_not_P [OF g(2)] w(1) using 3(1) r(3) by (simp add: s2_def [symmetric] Let_def)
  have fr: "kept (sb s) (blk s3) b \<and> (b \<noteq> ?ib \<longrightarrow> blk s3 b = blk s b)"
    if "kept (sb s) (blk s) b" "\<forall>m\<le>MAXFILE. fslot (blk s) ?as m \<noteq> b" for b
    using that d(6) fo(3) unfolding file_ext_def by (simp add: 3(4))
  have "tstep me {} s s3 (absorb ?ib bl1)"
    using fframe_trans [OF fframe_trans [OF tstepD(2) [OF d(1)] s2(4)] tstepD(2) [OF 3(2)]] tstepD(1) [OF 3(2)] by (simp add: tstep_def)
  then show ?thesis
    using e fs3 inv3 r(1) d(8) us dat 3(3,5) s2(7) ad(3) p2(4) fr ln length_absorb [of ?ib bl1]
    by (intro exI [of _ r] exI [of _ s3] exI [of _ "absorb ?ib bl1"]) (simp add: writei_post_def MAXOPBLOCKS_def)
qed

section \<open>Reading\<close>

lemma read_block_ok:
  fixes s :: kernel
  assumes t: "tx me s {} bl" and c: "length bl + 5 < NBUF" and f: "fs_ok s" and p: "i_dev (itable s ip) = ROOTDEV"
    and wf: "file_wf (sb s) (blk s) (i_addrs (itable s ip))" and m: "unat bn < MAXFILE"
    and a: "a = fblock (blk s) (i_addrs (itable s ip)) (unat bn)" "a \<noteq> 0"
  shows "\<exists>s1 i s2 s3. bmap me ip bn s = Ok (a, s1) \<and> bread me (i_dev (itable s1 ip)) a s1 = Ok (i, s2) \<and>
    b_data (bufs s2 i) = blk s a \<and> brelse me i s2 = Ok s3 \<and> tstep me {} s s3 bl \<and> blk s3 = blk s \<and> itable s3 = itable s \<and> sb s3 = sb s"
proof -
  obtain a' s1 bl1 where b: "bmap me ip bn s = Ok (a', s1)" "bmap_post me ip s bl (unat bn) a' s1 bl1"
    using bmap_ok [OF t c f p wf m] by blast
  have d: "a' = a" "blk s1 = blk s" "bl1 = bl" "itable s1 = itable s" using bmap_postD(9) [OF b(2)] a by auto
  note bt = bmap_postD(1) [OF b(2), unfolded d(3)]
  have "card {} + length bl < NBUF" "\<forall>i\<in>{}. \<not> buf_of s1 i a" using c by simp_all
  from tx_read_block [OF tstepD(1) [OF bt] this]
  obtain i s2 s3 where r: "bread me ROOTDEV a s1 = Ok (i, s2)" "b_data (bufs s2 i) = blk s1 a" "brelse me i s2 = Ok s3"
      "tstep me {} s1 s3 bl" "blk s3 = blk s1" "itable s3 = itable s1" by (elim exE conjE) (rule that; assumption)
  have "sb s3 = sb s" using fframeD(2) [OF tstepD(2) [OF r(4)]] fframeD(2) [OF tstepD(2) [OF bt]] by simp
  then show ?thesis using b(1) d r p tstep_trans [OF bt r(4)] by (intro exI [of _ s1] exI [of _ i] exI [of _ s2] exI [of _ s3]) simp
qed

lemma slice_fbyte:
  assumes "k \<le> BSIZE - o1 mod BSIZE" "length (f a) = BSIZE" "fblock f as1 (o1 div BSIZE) = a" "a \<noteq> 0"
  shows "slice (o1 mod BSIZE) k (f a) = map (fbyte f as1) [o1..<o1 + k]"
proof (rule nth_equalityI)
  have l: "o1 mod BSIZE + k \<le> BSIZE" using assms(1) mod_less_divisor [of BSIZE o1] by simp
  then show "length (slice (o1 mod BSIZE) k (f a)) = length (map (fbyte f as1) [o1..<o1 + k])" using assms(2) by simp
  fix i assume "i < length (slice (o1 mod BSIZE) k (f a))"
  then have i: "i < k" using l assms(2) by simp
  then have "o1 \<le> o1 + i \<and> o1 + i < o1 + k" by simp
  then have b: "(o1 + i) div BSIZE = o1 div BSIZE" using block_range(1) [OF assms(1)] by blast
  then have "(o1 + i) mod BSIZE = o1 mod BSIZE + i"
    using block_range(2) [OF assms(1) b] block_range(1) [OF assms(1), of "o1 + i"] i by linarith
  then show "slice (o1 mod BSIZE) k (f a) ! i = map (fbyte f as1) [o1..<o1 + k] ! i"
    using i l assms b by (simp add: fbyte_def del: fs_consts)
qed

lemma readi_loop_ok:
  fixes s :: kernel
  assumes "tx me s {} bl" "length bl + 5 < NBUF" "fs_ok s" "i_dev (itable s ip) = ROOTDEV"
    "file_wf (sb s) (blk s) (i_addrs (itable s ip))" "len = unat n - unat tot" "tot \<le> n" "unat off + len \<le> MAXFILE * BSIZE"
    "\<forall>m<MAXFILE. m * BSIZE < unat off + len \<longrightarrow> fblock (blk s) (i_addrs (itable s ip)) m \<noteq> 0"
  shows "\<exists>s'. readi_loop me ip LocalDst off n tot acc s =
      Ok (n, acc @ map (fbyte (blk s) (i_addrs (itable s ip))) [unat off..<unat off + len], s') \<and>
    tstep me {} s s' bl \<and> blk s' = blk s \<and> itable s' = itable s \<and> sb s' = sb s"
  using assms
proof (induction len arbitrary: off tot s acc rule: less_induct)
  case (less len)
  note p = less.prems
  show ?case
  proof (cases "len = 0")
    case True
    then have e: "n = tot" using p(6,7) by (simp add: word_le_nat_alt word_unat_eq_iff)
    then show ?thesis using True tstep_refl [OF p(1)] by (subst readi_loop.simps) simp
  next
    case False
    let ?as = "i_addrs (itable s ip)" and ?bn = "off div of_nat BSIZE :: u32"
    let ?a = "fblock (blk s) ?as (unat off div BSIZE)"
    have tn: "tot < n" using False p(6) by (simp add: word_less_nat_alt)
    define k where "k = chunk off n tot"
    have uk: "unat k = min len (BSIZE - unat off mod BSIZE)" using unat_chunk [OF p(7), of off] p(6) by (simp add: k_def del: fs_consts)
    have off: "unat (off + k) = unat off + unat k" using p(8) uk by (intro unat_add_lem [THEN iffD1]) simp
    have tot: "unat (tot + k) = unat tot + unat k" using chunk_bounds(2) [OF tn, of off] by (simp add: k_def)
    have db: "unat off div BSIZE < MAXFILE" using p(8) False by (intro less_mult_imp_div_less) simp
    have "unat off div BSIZE * BSIZE + unat off mod BSIZE = unat off" by (rule div_mult_mod_eq)
    then have "unat off div BSIZE * BSIZE < unat off + len" using False by linarith
    then have a: "?a \<noteq> 0" using p(9) db by blast
    obtain s1 i s2 s3 where r: "bmap me ip ?bn s = Ok (?a, s1)" "bread me (i_dev (itable s1 ip)) ?a s1 = Ok (i, s2)"
        "b_data (bufs s2 i) = blk s ?a" "brelse me i s2 = Ok s3" "tstep me {} s s3 bl" "blk s3 = blk s" "itable s3 = itable s" "sb s3 = sb s"
      using read_block_ok [OF p(1-5), of ?bn ?a] db a unfolding unat_div_block by blast
    let ?xs = "slice (unat off mod BSIZE) (unat k) (blk s ?a)"
    have xs: "?xs = map (fbyte (blk s) ?as) [unat off..<unat off + unat k]"
      by (rule slice_fbyte [OF _ _ refl a]) (use uk txD(7) [OF p(1)] in simp_all)
    have step: "readi_loop me ip LocalDst off n tot acc s = readi_loop me ip LocalDst (off + k) n (tot + k) (acc @ ?xs) s3"
      using tn r(1-4) a by (subst readi_loop.simps) (simp add: Let_def k_def [symmetric] either_copyout_def kdst_add_def)
    have ul: "unat k \<le> len" "0 < unat k" using uk False by simp_all
    have "\<exists>s'. readi_loop me ip LocalDst (off + k) n (tot + k) (acc @ ?xs) s3 =
        Ok (n, (acc @ ?xs) @ map (fbyte (blk s3) (i_addrs (itable s3 ip))) [unat (off + k)..<unat (off + k) + (len - unat k)], s') \<and>
        tstep me {} s3 s' bl \<and> blk s' = blk s3 \<and> itable s' = itable s3 \<and> sb s' = sb s3"
    proof (rule less.IH)
      show "fs_ok s3" using p(3) r(6,8) by (simp add: fs_ok_def)
      show "tx me s3 {} bl" using tstepD(1) [OF r(5)] .
      show "tot + k \<le> n" using tot p(6,7) ul(1) by (simp add: word_le_nat_alt)
    qed (use p ul r(6-8) off tot in simp_all)
    then obtain s' where s': "readi_loop me ip LocalDst (off + k) n (tot + k) (acc @ ?xs) s3 =
        Ok (n, (acc @ ?xs) @ map (fbyte (blk s3) (i_addrs (itable s3 ip))) [unat (off + k)..<unat (off + k) + (len - unat k)], s')"
        "tstep me {} s3 s' bl" "blk s' = blk s3" "itable s' = itable s3" "sb s' = sb s3" by blast
    have "map (fbyte (blk s) ?as) [unat off..<unat off + len] = ?xs @ map (fbyte (blk s) ?as) [unat off + unat k..<unat off + len]"
      unfolding xs using upt_add_eq_append [of "unat off" "unat off + unat k" "len - unat k"] ul(1) by simp
    then show ?thesis using step s' off ul(1) tstep_trans [OF r(5) s'(2)] r(6-8) by (intro exI [of _ s']) simp
  qed
qed

lemma readi_ok:
  fixes s :: kernel
  assumes t: "tx me s {} bl" and c: "length bl + 5 < NBUF" and f: "fs_ok s" and inv: "file_inv s ip"
    and off: "unat off + unat n < 2 ^ 32" "off \<le> i_size (itable s ip)"
  defines "ys \<equiv> slice (unat off) (unat n) (file_data s ip)"
  shows "\<exists>s'. readi me ip LocalDst off n s = Ok (int (length ys), ys, s') \<and>
    tstep me {} s s' bl \<and> blk s' = blk s \<and> itable s' = itable s \<and> sb s' = sb s"
proof -
  let ?sz = "i_size (itable s ip)" and ?as = "i_addrs (itable s ip)"
  note iv = file_invD [OF inv]
  have on: "unat (off + n) = unat off + unat n" using off(1) by (intro unat_add_lem [THEN iffD1]) simp
  define k where "k = (if off + n > ?sz then ?sz - off else n)"
  have o: "unat off \<le> unat ?sz" using off(2) by (simp add: word_le_nat_alt)
  have uk: "unat k = min (unat n) (unat ?sz - unat off)"
    using on o unat_sub [OF off(2)] by (auto simp: k_def word_less_nat_alt)
  have le: "unat off + unat k \<le> unat ?sz" using uk o by simp
  obtain s' where r: "readi_loop me ip LocalDst off k 0 [] s = Ok (k, [] @ map (fbyte (blk s) ?as) [unat off..<unat off + unat k], s')"
      "tstep me {} s s' bl" "blk s' = blk s" "itable s' = itable s" "sb s' = sb s"
    using readi_loop_ok [OF t c f iv(1,2), of "unat k" k 0 off "[]"] iv(3,4) le by auto
  have ys: "ys = map (fbyte (blk s) ?as) [unat off..<unat off + unat k]"
  proof -
    have "take (unat n) [unat off..<unat ?sz] = [unat off..<unat off + unat k]"
      using uk o by (cases "unat n \<le> unat ?sz - unat off") (simp_all add: take_upt)
    then show ?thesis unfolding ys_def slice_def file_data_def by (simp only: drop_map take_map drop_upt add_0)
  qed
  have l: "unat k < 2 ^ 31" using le iv(3) by simp
  have u: "uint k = int (unat k)" by simp
  have "uint k < 2 ^ 31" unfolding u using l by (simp only: of_nat_less_numeral_power_cancel_iff)
  moreover have "- (2 ^ 31) \<le> uint k" by (rule order_trans [OF _ uint_ge_0]) simp
  ultimately have "sint k = uint k" by (simp add: sint_uint signed_take_bit_int_eq_self_iff)
  then have "sint k = int (length ys)" unfolding u by (simp add: ys)
  moreover have "\<not> (?sz < off \<or> off + n < off)" using off(2) on by (simp add: word_less_nat_alt word_le_nat_alt not_less)
  ultimately have "readi me ip LocalDst off n s = Ok (int (length ys), ys, s')"
    using r(1) unfolding readi_def k_def [symmetric] Let_def by (simp add: ys)
  then show ?thesis using r by blast
qed

text \<open>
  (C6) A file is a list of bytes and \<^verbatim>\<open>writei\<close> overwrites or extends it. Inside a transaction, on a
  file in order and for a request that \<^verbatim>\<open>filewrite\<close> issues (at most three blocks long), \<^verbatim>\<open>writei\<close> returns the
  number \<open>r\<close> of bytes it stored, fewer than asked for only when no block is free, and then the content of
  the file is its old content with the first \<open>r\<close> bytes of the request at the offset; the inode on the disk
  is the one in memory, the file is in order again, and every allocated block outside the file and its
  inode block is as before. At most \<^verbatim>\<open>MAXOPBLOCKS\<close> blocks, the reservation of one operation, are
  added to the log.
\<close>

theorem writei_overwrites:
  fixes s :: kernel
  assumes "tx me s {} bl" "length bl + MAXOPBLOCKS + 4 < NBUF" "fs_ok s" "file_inv s ip"
    and "off \<le> i_size (itable s ip)" "length xs \<le> 3 * BSIZE" "unat off + length xs \<le> MAXFILE * BSIZE" "src_ok me src s xs"
  shows "\<exists>r s' bl'. writei me ip src off (of_nat (length xs)) s = Ok (int r, s') \<and> r \<le> length xs \<and>
    (r < length xs \<longrightarrow> (\<forall>c < sb_size (sb s). block_used (blk s') (sb s) c)) \<and>
    file_data s' ip = patch (file_data s ip) (unat off) (take r xs) \<and> file_inv s' ip \<and> fs_ok s' \<and>
    disk_inode (blk s') (sb s) (i_inum (itable s ip)) = dinode_of (itable s' ip) \<and> (\<forall>j. j \<noteq> ip \<longrightarrow> itable s' j = itable s j) \<and>
    (\<forall>b. kept (sb s) (blk s) b \<and> (\<forall>m\<le>MAXFILE. fslot (blk s) (i_addrs (itable s ip)) m \<noteq> b) \<and>
       b \<noteq> IBLOCK (i_inum (itable s ip)) (sb s) \<longrightarrow> blk s' b = blk s b) \<and>
    tx me s' {} bl' \<and> length bl' \<le> length bl + MAXOPBLOCKS"
  using writei_ok [OF assms] unfolding writei_post_def by (blast dest: tstepD(1))

text \<open>
  (C7) What was written is read back: a \<^verbatim>\<open>readi\<close> at the same offset after a \<^verbatim>\<open>writei\<close> that stored \<open>r\<close> bytes returns
  these \<open>r\<close> bytes, and a \<^verbatim>\<open>readi\<close> anywhere else in the file returns the bytes of the new content from that
  offset on, up to the end of the file. Reading allocates nothing and changes no block.
\<close>

theorem writei_readi_roundtrip:
  fixes s :: kernel
  assumes "tx me s {} bl" "length bl + MAXOPBLOCKS + 5 < NBUF" "fs_ok s" "file_inv s ip"
    and "off \<le> i_size (itable s ip)" "length xs \<le> 3 * BSIZE" "unat off + length xs \<le> MAXFILE * BSIZE" "src_ok me src s xs"
  shows "\<exists>r s1. writei me ip src off (of_nat (length xs)) s = Ok (int r, s1) \<and> r \<le> length xs \<and>
    (\<exists>s2. readi me ip LocalDst off (of_nat r) s1 = Ok (int r, take r xs, s2) \<and> blk s2 = blk s1 \<and> itable s2 = itable s1) \<and>
    (\<forall>p n. p \<le> i_size (itable s1 ip) \<longrightarrow> unat p + unat n < 2 ^ 32 \<longrightarrow>
       (\<exists>s2. let ys = slice (unat p) (unat n) (patch (file_data s ip) (unat off) (take r xs)) in
         readi me ip LocalDst p n s1 = Ok (int (length ys), ys, s2) \<and> blk s2 = blk s1 \<and> itable s2 = itable s1))"
proof -
  have "length bl + MAXOPBLOCKS + 4 < NBUF" using assms(2) by linarith
  from writei_ok [OF assms(1) this assms(3-8)]
  obtain r s1 bl1 where w: "writei me ip src off (of_nat (length xs)) s = Ok (int r, s1)" "writei_post me ip s bl (unat off) xs r s1 bl1"
    by blast
  have d: "tx me s1 {} bl1" "fs_ok s1" "file_inv s1 ip" "r \<le> length xs" "file_data s1 ip = patch (file_data s ip) (unat off) (take r xs)"
      "length bl1 + 5 < NBUF"
    using w(2) tstepD(1) assms(2) unfolding writei_post_def by auto
  have rd: "\<exists>s2. let ys = slice (unat p) (unat n) (patch (file_data s ip) (unat off) (take r xs)) in
      readi me ip LocalDst p n s1 = Ok (int (length ys), ys, s2) \<and> blk s2 = blk s1 \<and> itable s2 = itable s1"
    if "p \<le> i_size (itable s1 ip)" "unat p + unat n < 2 ^ 32" for p n
    using readi_ok [OF d(1,6,2,3) that(2,1)] unfolding d(5) by (auto simp: Let_def)
  have n: "unat (of_nat r :: u32) = r" using d(4) assms(6) by (simp add: unat_of_nat)
  have o: "unat off \<le> length (file_data s ip)" using assms(5) by (simp add: word_le_nat_alt)
  then have "unat off \<le> length (file_data s1 ip)" unfolding d(5) by (simp add: patch_def)
  then have "off \<le> i_size (itable s1 ip)" by (simp add: word_le_nat_alt)
  moreover have "unat off + unat (of_nat r :: u32) < 2 ^ 32" using n d(4) assms(7) by simp
  moreover have "slice (unat off) r (patch (file_data s ip) (unat off) (take r xs)) = take r xs"
    using o d(4) by (simp add: slice_def patch_def)
  ultimately have "\<exists>s2. readi me ip LocalDst off (of_nat r) s1 = Ok (int r, take r xs, s2) \<and> blk s2 = blk s1 \<and> itable s2 = itable s1"
    using rd [of off "of_nat r"] n d(4) by (simp add: Let_def min_absorb2)
  then show ?thesis using w(1) d(4) rd by blast
qed

section \<open>A file on a small disk\<close>

text \<open>
  A disk of 200 blocks with inodes from block 32 and the bitmap in block 45, the first 64 blocks in use;
  inode 5 is a file of three bytes in block 60, held in entry 0 of the inode table.
\<close>

definition demo_sb :: superblock where
  "demo_sb = (sb boot_kernel)\<lparr>sb_size := 200, sb_bmapstart := 45, sb_inodestart := 32\<rparr>"

definition demo_disk :: "u32 \<Rightarrow> u8 list" where
  "demo_disk = (\<lambda>_. replicate BSIZE 0)(45 := replicate 8 0xff @ replicate 1016 0, 60 := [97, 98, 99] @ replicate 1021 0)"

definition demo_inode :: inode where
  "demo_inode = boot_inode\<lparr>i_dev := ROOTDEV, i_inum := 5, i_ref := 1, i_valid := 1, i_type := T_FILE, i_nlink := 1,
     i_size := 3, i_addrs := 60 # replicate 12 0\<rparr>"

definition demo_fs :: kernel where
  "demo_fs = upd_inode 0 (\<lambda>_. demo_inode) (fs_boot demo_disk demo_sb)"

lemma demo_used: "b < 200 \<Longrightarrow> BBLOCK b demo_sb = 45" "b < 64 \<Longrightarrow> block_used demo_disk demo_sb b"
proof -
  have B: "BBLOCK b demo_sb = 45" if "b < 200" for b
  proof -
    have "unat b div 8192 = 0" using that by (simp add: word_less_nat_alt)
    then have "b div 8192 = 0" by (simp add: word_unat_eq_iff unat_div)
    then show ?thesis by (simp add: BBLOCK_def demo_sb_def)
  qed
  then show "b < 200 \<Longrightarrow> BBLOCK b demo_sb = 45" .
  show "block_used demo_disk demo_sb b" if "b < 64"
  proof -
    have b: "unat b < 64" "b < 200" using that by (simp_all add: word_less_nat_alt)
    then have "unat b mod BPB div 8 < 8" by simp
    moreover have "bit (0xff :: u8) j" if "j < 8" for j using that ff_bits by blast
    ultimately show ?thesis using B [OF b(2)] by (simp add: block_used_def nth_append demo_disk_def)
  qed
qed

lemma demo_fs:
  "tx 0 demo_fs {} []" "blk demo_fs = demo_disk" "sb demo_fs = demo_sb" "itable demo_fs 0 = demo_inode"
  "fs_ok demo_fs" "kept demo_sb demo_disk 32" "kept demo_sb demo_disk 60"
proof -
  have l: "length (demo_disk n) = BSIZE" for n by (simp add: demo_disk_def)
  show f: "tx 0 demo_fs {} []" "blk demo_fs = demo_disk" "sb demo_fs = demo_sb" "itable demo_fs 0 = demo_inode"
    using fs_boot_tx [OF l] by (simp_all add: demo_fs_def)
  have sz: "sb_size demo_sb = 200" "sb_bmapstart demo_sb = 45" by (simp_all add: demo_sb_def)
  show "fs_ok demo_fs"
    unfolding fs_ok_def f bitmap_self_def using demo_used(1) demo_used(2) [of 0] demo_used(2) [of 45] by (simp add: sz bitmap_geom_def)
  show "kept demo_sb demo_disk 32" "kept demo_sb demo_disk 60"
    unfolding kept_def using demo_used(1) demo_used(2) [of 32] demo_used(2) [of 60] by (simp_all add: sz)
qed

lemma demo_slot: "m \<le> MAXFILE \<Longrightarrow> fslot f (60 # replicate 12 0) m = (if m = 0 then 60 else 0)"
  by (cases m) (auto simp: fslot_def fblock_def)

lemma demo_file: "file_inv demo_fs 0" "file_data demo_fs 0 = [97, 98, 99]"
proof -
  have i: "i_dev demo_inode = ROOTDEV" "i_addrs demo_inode = 60 # replicate 12 0" "i_size demo_inode = 3" "i_inum demo_inode = 5"
    by (simp_all add: demo_inode_def)
  have "file_wf demo_sb demo_disk (60 # replicate 12 0)"
    unfolding file_wf_def using demo_slot demo_fs(7) by simp
  moreover have "IBLOCK 5 demo_sb = 32" by (simp add: IBLOCK_def demo_sb_def)
  moreover have "fblock demo_disk (60 # replicate 12 0) m \<noteq> 0" if "m < MAXFILE" "m * BSIZE < 3" for m
    using that by (cases m) (simp_all add: fblock_def)
  ultimately show "file_inv demo_fs 0"
    unfolding file_inv_def Let_def demo_fs i using demo_fs(6) demo_slot by simp
  show "file_data demo_fs 0 = [97, 98, 99]"
  proof -
    have "[0..<unat (3 :: u32)] = [0, 1, 2]" by (simp add: upt_rec)
    moreover have "fbyte demo_disk (60 # replicate 12 0) j = [97, 98, 99] ! j" if "j < 3" for j
      using that by (simp add: fbyte_def fblock_def demo_disk_def nth_Cons split: nat.splits)
    ultimately show ?thesis unfolding file_data_def demo_fs i by simp
  qed
qed

theorem writei_overwrites_witness:
  "\<exists>r s'. writei 0 0 (LocalSrc [104, 105]) 1 2 demo_fs = Ok (int r, s') \<and> r \<le> 2 \<and>
     file_data s' 0 = patch [97, 98, 99] 1 (take r [104, 105])"
proof -
  have "src_ok 0 (LocalSrc [104, 105]) demo_fs [104, 105]" by (simp add: src_ok_def)
  then show ?thesis
    using writei_overwrites [OF demo_fs(1) _ demo_fs(5) demo_file(1), of 1 "[104, 105]" "LocalSrc [104, 105]"]
    by (auto simp: demo_fs(4) demo_inode_def MAXOPBLOCKS_def NBUF_val demo_file(2))
qed

theorem writei_readi_roundtrip_witness:
  "\<exists>r s1 s2 s3. writei 0 0 (LocalSrc [104, 105]) 1 2 demo_fs = Ok (int r, s1) \<and>
     readi 0 0 LocalDst 1 (of_nat r) s1 = Ok (int r, take r [104, 105], s2) \<and>
     readi 0 0 LocalDst 0 1 s1 = Ok (1, [97], s3)"
proof -
  have "src_ok 0 (LocalSrc [104, 105]) demo_fs [104, 105]" by (simp add: src_ok_def)
  then obtain r s1 where r: "writei 0 0 (LocalSrc [104, 105]) 1 2 demo_fs = Ok (int r, s1)" "r \<le> 2"
      "\<exists>s2. readi 0 0 LocalDst 1 (of_nat r) s1 = Ok (int r, take r [104, 105], s2)"
      "\<forall>p n. p \<le> i_size (itable s1 0) \<longrightarrow> unat p + unat n < 2 ^ 32 \<longrightarrow>
       (\<exists>s2. let ys = slice (unat p) (unat n) (patch [97, 98, 99] 1 (take r [104, 105])) in
         readi 0 0 LocalDst p n s1 = Ok (int (length ys), ys, s2) \<and> blk s2 = blk s1 \<and> itable s2 = itable s1)"
    using writei_readi_roundtrip [OF demo_fs(1) _ demo_fs(5) demo_file(1), of 1 "[104, 105]" "LocalSrc [104, 105]"]
    by (auto simp: demo_fs(4) demo_inode_def MAXOPBLOCKS_def NBUF_val demo_file(2))
  have "\<exists>s3. readi 0 0 LocalDst 0 1 s1 = Ok (1, [97], s3)"
    using r(4) [rule_format, of 0 1] by (auto simp: slice_def patch_def)
  with r show ?thesis by blast
qed

end
