(* ===== verification/Dir.thy ===== *)
theory Dir
  imports ReadWrite
begin

text \<open>
  Directories and path names (\<^verbatim>\<open>kernel/fs.c\<close>): \<^verbatim>\<open>namecmp\<close>, \<^verbatim>\<open>dirlookup\<close>, \<^verbatim>\<open>dirlink\<close>, \<^verbatim>\<open>skipelem\<close>, \<^verbatim>\<open>namex\<close>,
  \<^verbatim>\<open>namei\<close> and \<^verbatim>\<open>nameiparent\<close>. A path is the list of its bytes without the terminating zero; a name is
  the content of a \<^verbatim>\<open>char name[DIRSIZ]\<close> buffer or a string literal with its zero.
\<close>

section \<open>Operations\<close>

text \<open>The string routines on two local arrays: they are placed in an otherwise zero memory.\<close>

definition local_mem :: "u8 list \<Rightarrow> u8 list \<Rightarrow> memory" where
  "local_mem xs ys = store_bytes (store_bytes (\<lambda>_. 0) 0 (take 64 xs)) 64 ys"

definition namecmp :: "u8 list \<Rightarrow> u8 list \<Rightarrow> int" where
  "namecmp s t = strncmp (local_mem s t) 0 64 DIRSIZ"

text \<open>\<^verbatim>\<open>struct dirent\<close> is 16 bytes: the inode number and the name.\<close>

definition de_inum :: "u8 list \<Rightarrow> u16" where "de_inum de = get16 de 0"

definition de_name :: "u8 list \<Rightarrow> u8 list" where "de_name de = slice 2 DIRSIZ de"

text \<open>
  The loop of \<^verbatim>\<open>dirlookup\<close> from offset \<open>off\<close> on. It would not end in a directory whose size is so close
  to the largest offset that adding 16 wraps around, hence a partial function.
\<close>

definition res_opt :: "'a res \<Rightarrow> ('a \<Rightarrow> 'b res option) \<Rightarrow> 'b res option" where
  "res_opt r f = (case r of Ok x \<Rightarrow> f x | Panic m \<Rightarrow> Some (Panic m) | Sleeps c \<Rightarrow> Some (Sleeps c) | Loops \<Rightarrow> None)"

lemma res_opt_mono [partial_function_mono]:
  assumes "\<And>x. mono_option (\<lambda>f. g f x)"
  shows "mono_option (\<lambda>f. res_opt r (g f))"
proof (cases r)
  case (Ok x)
  then show ?thesis using assms [of x] by (simp add: res_opt_def)
qed (simp_all add: res_opt_def option.const_mono)

lemma res_opt_simps [simp]:
  "res_opt (Ok x) f = f x" "res_opt (Panic m) f = Some (Panic m)" "res_opt (Sleeps c) f = Some (Sleeps c)"
  "res_opt Loops f = None"
  by (simp_all add: res_opt_def)

partial_function (option) dirlookup_loop ::
    "nat \<Rightarrow> nat \<Rightarrow> u8 list \<Rightarrow> u32 \<Rightarrow> kernel \<Rightarrow> ((nat \<times> u32) option \<times> kernel) res option" where
  "dirlookup_loop me dp name off s =
     (if off < i_size (itable s dp)
      then res_opt (readi me dp LocalDst off 16 s) (\<lambda>(r, de, s).
        if r \<noteq> 16 then Some (Panic ''dirlookup read'')
        else if de_inum de = 0 then dirlookup_loop me dp name (off + 16) s
        else if namecmp name (de_name de) = 0
        then Some (res_bind (iget (i_dev (itable s dp)) (ucast (de_inum de)) s) (\<lambda>(ip, s). Ok (Some (ip, off), s)))
        else dirlookup_loop me dp name (off + 16) s)
      else Some (Ok (None, s)))"

definition dirlookup :: "nat \<Rightarrow> nat \<Rightarrow> u8 list \<Rightarrow> kernel \<Rightarrow> ((nat \<times> u32) option \<times> kernel) res" where
  "dirlookup me dp name s =
     (if i_type (itable s dp) \<noteq> T_DIR then Panic ''dirlookup not DIR''
      else res_join (dirlookup_loop me dp name 0 s))"

text \<open>The search of \<^verbatim>\<open>dirlink\<close> for an unused entry; it returns the last entry read, too.\<close>

partial_function (option) dirlink_scan ::
    "nat \<Rightarrow> nat \<Rightarrow> u32 \<Rightarrow> kernel \<Rightarrow> (u32 \<times> kernel) res option" where
  "dirlink_scan me dp off s =
     (if off < i_size (itable s dp)
      then res_opt (readi me dp LocalDst off 16 s) (\<lambda>(r, de, s).
        if r \<noteq> 16 then Some (Panic ''dirlink read'')
        else if de_inum de = 0 then Some (Ok (off, s))
        else dirlink_scan me dp (off + 16) s)
      else Some (Ok (off, s)))"

definition dirent_bytes :: "u8 list \<Rightarrow> u16 \<Rightarrow> u8 list" where
  "dirent_bytes name inum =
     bytes16 inum @ bytes_at (strncpy (local_mem name []) 128 0 (int DIRSIZ)) 128 DIRSIZ"

definition dirlink :: "nat \<Rightarrow> nat \<Rightarrow> u8 list \<Rightarrow> u32 \<Rightarrow> kernel \<Rightarrow> (int \<times> kernel) res" where
  "dirlink me dp name inum s =
     res_bind (dirlookup me dp name s) (\<lambda>(r, s).
     case r of
       Some (ip, _) \<Rightarrow> res_bind (iput me ip s) (\<lambda>s. Ok (-1, s))
     | None \<Rightarrow>
         res_bind (res_join (dirlink_scan me dp 0 s)) (\<lambda>(off, s).
         res_bind (writei me dp (LocalSrc (dirent_bytes name (ucast inum))) off 16 s) (\<lambda>(r, s).
         if r \<noteq> 16 then Ok (-1, s) else Ok (0, s))))"

abbreviation slash :: u8 where "slash \<equiv> 0x2F"

text \<open>\<^verbatim>\<open>skipelem\<close>: the rest of the path and the name buffer, unless no name is left.\<close>

definition skipelem :: "u8 list \<Rightarrow> u8 list \<Rightarrow> (u8 list \<times> u8 list) option" where
  "skipelem path name =
     (let path = dropWhile (\<lambda>c. c = slash) path in
      if path = [] then None
      else (let s = takeWhile (\<lambda>c. c \<noteq> slash) path; path = dropWhile (\<lambda>c. c \<noteq> slash) path;
                name = (if length s \<ge> DIRSIZ then patch name 0 (take DIRSIZ s) else patch name 0 (s @ [0])) in
            Some (dropWhile (\<lambda>c. c = slash) path, name)))"

lemma skipelem_shorter: "skipelem path name = Some (path', name') \<Longrightarrow> length path' < length path"
proof -
  assume a: "skipelem path name = Some (path', name')"
  let ?p = "dropWhile (\<lambda>c. c = slash) path"
  have ne: "?p \<noteq> []" and p': "path' = dropWhile (\<lambda>c. c = slash) (dropWhile (\<lambda>c. c \<noteq> slash) ?p)"
    using a by (auto simp: skipelem_def Let_def split: if_splits)
  then have "hd ?p \<noteq> slash" by (metis (mono_tags) hd_dropWhile)
  then have "length (dropWhile (\<lambda>c. c \<noteq> slash) ?p) < length ?p"
    using ne length_dropWhile_le [of "\<lambda>c. c \<noteq> slash" "tl ?p"] by (cases ?p) auto
  moreover have "length path' \<le> length (dropWhile (\<lambda>c. c \<noteq> slash) ?p)" using p' length_dropWhile_le by metis
  moreover have "length ?p \<le> length path" by (rule length_dropWhile_le)
  ultimately show ?thesis by linarith
qed

function (sequential) namex_loop ::
    "nat \<Rightarrow> u8 list \<Rightarrow> bool \<Rightarrow> u8 list \<Rightarrow> nat \<Rightarrow> kernel \<Rightarrow> (nat option \<times> u8 list \<times> kernel) res" where
  "namex_loop me path parent name ip s =
     (case skipelem path name of
        None \<Rightarrow> if parent then res_bind (iput me ip s) (\<lambda>s. Ok (None, name, s)) else Ok (Some ip, name, s)
      | Some (path, name) \<Rightarrow>
          res_bind (ilock me ip s) (\<lambda>s.
          if i_type (itable s ip) \<noteq> T_DIR then res_bind (iunlockput me ip s) (\<lambda>s. Ok (None, name, s))
          else if parent \<and> path = [] then res_bind (iunlock me ip s) (\<lambda>s. Ok (Some ip, name, s))
          else res_bind (dirlookup me ip name s) (\<lambda>(r, s).
            case r of
              None \<Rightarrow> res_bind (iunlockput me ip s) (\<lambda>s. Ok (None, name, s))
            | Some (next, _) \<Rightarrow> res_bind (iunlockput me ip s) (namex_loop me path parent name next))))"
  by pat_completeness auto
termination
  by (relation "measure (\<lambda>(_, path, _). length path)") (auto dest: skipelem_shorter)

declare namex_loop.simps [simp del]

text \<open>A process without a current directory would dereference the null pointer, which traps.\<close>

definition namex :: "nat \<Rightarrow> u8 list \<Rightarrow> bool \<Rightarrow> u8 list \<Rightarrow> kernel \<Rightarrow> (nat option \<times> u8 list \<times> kernel) res" where
  "namex me path parent name s =
     (if take 1 path = [slash] then res_bind (iget ROOTDEV ROOTINO s) (\<lambda>(ip, s). namex_loop me path parent name ip s)
      else (case p_cwd (procs s me) of
        None \<Rightarrow> Panic ''kerneltrap''
      | Some cwd \<Rightarrow> (let (ip, s) = idup cwd s in namex_loop me path parent name ip s)))"

definition namei :: "nat \<Rightarrow> u8 list \<Rightarrow> kernel \<Rightarrow> (nat option \<times> kernel) res" where
  "namei me path s = res_bind (namex me path False (replicate DIRSIZ 0) s) (\<lambda>(ip, _, s). Ok (ip, s))"

definition nameiparent :: "nat \<Rightarrow> u8 list \<Rightarrow> kernel \<Rightarrow> (nat option \<times> u8 list \<times> kernel) res" where
  "nameiparent me path s = namex me path True (replicate DIRSIZ 0) s"

end
