(* ===== verification/DirSpec.thy ===== *)
theory DirSpec
  imports Dir
begin

text \<open>
  What the directory operations of \<^verbatim>\<open>kernel/fs.c\<close> do: a directory is a list of entries, \<^verbatim>\<open>dirlookup\<close> finds the
  first one with a name and always returns, \<^verbatim>\<open>dirlink\<close> adds one, and \<^verbatim>\<open>skipelem\<close> splits a path into its
  components.
\<close>

section \<open>Names\<close>

text \<open>The name in a buffer: up to the first zero byte, at most \<^verbatim>\<open>DIRSIZ\<close> bytes.\<close>

definition cname :: "u8 list \<Rightarrow> u8 list" where
  "cname xs = takeWhile (\<lambda>c. c \<noteq> 0) (take DIRSIZ xs)"

lemma strncmp_name:
  "strncmp m p q n = 0 \<longleftrightarrow> takeWhile (\<lambda>c. c \<noteq> 0) (bytes_at m p n) = takeWhile (\<lambda>c. c \<noteq> 0) (bytes_at m q n)"
proof (induction m p q n rule: strncmp.induct)
  case (2 m p q n)
  then show ?case by (auto simp: bytes_at_Suc word_uint_eq_iff)
qed simp

lemma takeWhile_zeros: "takeWhile (\<lambda>c. c \<noteq> 0) (xs @ replicate k 0) = takeWhile (\<lambda>c. c \<noteq> 0) xs"
  by (induction xs) (cases k; simp)+

lemma region_iff: "n \<le> 2 ^ 64 \<Longrightarrow> x \<in> region a n \<longleftrightarrow> unat (x - a) < n"
proof
  assume "x \<in> region a n"
  then obtain i where "i < n" "x = a + of_nat i" by (auto simp: region_def)
  then show "unat (x - a) < n" by (simp add: unat_of_nat)
next
  assume "unat (x - a) < n"
  moreover have "x = a + of_nat (unat (x - a))" by simp
  ultimately show "x \<in> region a n" unfolding region_def by blast
qed

lemma bytes_at_zero_store:
  assumes "length xs < 2 ^ 64" "n < 2 ^ 64" "\<And>i. i < n \<Longrightarrow> length xs \<le> i \<Longrightarrow> m (a + of_nat i) = 0"
  shows "bytes_at (store_bytes m a xs) a n = take n xs @ replicate (n - length xs) 0"
proof (rule nth_equalityI)
  fix i assume "i < length (bytes_at (store_bytes m a xs) a n)"
  then have i: "i < n" by simp
  then have u: "unat (of_nat i :: u64) = i" using assms(2) by (simp add: unat_of_nat)
  then show "bytes_at (store_bytes m a xs) a n ! i = (take n xs @ replicate (n - length xs) 0) ! i"
    using i assms(1,3) region_iff [of "length xs" "a + of_nat i" a] by (simp add: store_bytes_apply nth_append)
qed simp

lemma local_regions: "x \<in> region (64 * of_nat k) 64 \<Longrightarrow> k < j \<Longrightarrow> j < 4 \<Longrightarrow> x \<notin> region (64 * of_nat j :: u64) 64"
proof -
  assume k: "k < j" "j < 4" and x: "x \<in> region (64 * of_nat k) 64"
  have u: "unat (64 * of_nat i :: u64) = 64 * i" if "i < 4" for i using that by (simp add: unat_word_ariths unat_of_nat)
  have "region (64 * of_nat k :: u64) 64 \<inter> region (64 * of_nat j) 64 = {}"
  proof (rule region_aligned_disjoint)
    show "aligned 64 (64 * of_nat k :: u64)" "aligned 64 (64 * of_nat j :: u64)" using u [of k] u [of j] k by (simp_all add: aligned_def)
    show "(64 * of_nat k :: u64) \<noteq> 64 * of_nat j" using u [of k] u [of j] k by (metis less_irrefl mult_left_cancel order.strict_trans zero_neq_numeral)
  qed simp
  then show "x \<notin> region (64 * of_nat j :: u64) 64" using x by blast
qed

lemma local_mem_apply:
  assumes "length xs \<le> 64" "length ys \<le> 64"
  shows "x \<in> region 0 64 \<Longrightarrow> local_mem xs ys x = store_bytes (\<lambda>_. 0) 0 xs x"
    "x \<in> region 64 64 \<Longrightarrow> local_mem xs ys x = store_bytes (\<lambda>_. 0) 64 ys x"
proof -
  have d: "x \<in> region 0 64 \<Longrightarrow> x \<notin> region 64 64" using local_regions [of x 0 1] by simp
  have m: "y \<in> region a (length zs) \<Longrightarrow> y \<in> region a 64" if "length zs \<le> 64" for zs :: "u8 list" and a y :: u64
    using region_mono [OF that, of a] by blast
  show "x \<in> region 0 64 \<Longrightarrow> local_mem xs ys x = store_bytes (\<lambda>_. 0) 0 xs x"
    "x \<in> region 64 64 \<Longrightarrow> local_mem xs ys x = store_bytes (\<lambda>_. 0) 64 ys x"
    using assms d m [of xs x 0] m [of ys x 64] by (auto simp: local_mem_def store_bytes_apply)
qed

lemma bytes_at_local:
  assumes "length xs \<le> 64" "length ys \<le> 64" "n \<le> 64"
  shows "bytes_at (local_mem xs ys) 0 n = take n xs @ replicate (n - length xs) 0"
    "bytes_at (local_mem xs ys) 64 n = take n ys @ replicate (n - length ys) 0"
proof -
  have sub: "x \<in> region a n \<Longrightarrow> x \<in> region a 64" for x a :: u64 using region_mono [OF assms(3), of a] by blast
  have "bytes_at (local_mem xs ys) 0 n = bytes_at (store_bytes (\<lambda>_. 0) 0 xs) 0 n"
      "bytes_at (local_mem xs ys) 64 n = bytes_at (store_bytes (\<lambda>_. 0) 64 ys) 64 n"
    using local_mem_apply [OF assms(1,2)] sub by (intro bytes_at_cong; blast)+
  then show "bytes_at (local_mem xs ys) 0 n = take n xs @ replicate (n - length xs) 0"
      "bytes_at (local_mem xs ys) 64 n = take n ys @ replicate (n - length ys) 0"
    using bytes_at_zero_store [of xs n "\<lambda>_. 0" 0] bytes_at_zero_store [of ys n "\<lambda>_. 0" 64] assms by simp_all
qed

lemma namecmp_iff:
  assumes "length xs \<le> 64" "length ys \<le> 64" shows "namecmp xs ys = 0 \<longleftrightarrow> cname xs = cname ys"
  unfolding namecmp_def strncmp_name using bytes_at_local [OF assms, of DIRSIZ] by (simp add: cname_def takeWhile_zeros)

text \<open>\<^verbatim>\<open>strncpy\<close> copies up to a zero byte and fills the rest with zeros.\<close>

lemma strncpy_loop_spec:
  assumes "region s n \<inter> region t n = {}" "n < 2 ^ 64"
  shows "bytes_at (strncpy_loop m s t n) s n =
      takeWhile (\<lambda>c. c \<noteq> 0) (bytes_at m t n) @ replicate (n - length (takeWhile (\<lambda>c. c \<noteq> 0) (bytes_at m t n))) 0 \<and>
    (\<forall>x. x \<notin> region s n \<longrightarrow> strncpy_loop m s t n x = m x)"
  using assms
proof (induction n arbitrary: m s t)
  case (Suc n)
  define m' where "m' = m(s := m t)"
  have r: "region (s + 1) n \<inter> region (t + 1) n = {}" "s \<notin> region (t + 1) n" using Suc.prems(1) by (auto simp: region_Suc)
  have ns: "s \<notin> region (s + 1) n" by (rule region_not_self) (use Suc.prems(2) in simp)
  have t: "bytes_at m' (t + 1) n = bytes_at m (t + 1) n" by (rule bytes_at_cong) (use r(2) in \<open>auto simp: m'_def\<close>)
  have m': "m' s = m t" "x \<noteq> s \<Longrightarrow> m' x = m x" for x by (simp_all add: m'_def)
  show ?case
  proof (cases "m t = 0")
    case True
    have "bytes_at (zero_fill m' (s + 1) n) (s + 1) n = replicate n 0"
      by (rule nth_equalityI) (auto simp: zero_fill_apply region_def)
    moreover have "zero_fill m' (s + 1) n s = 0" using True ns m'(1) by (simp add: zero_fill_apply)
    moreover have "zero_fill m' (s + 1) n x = m x" if "x \<notin> region s (Suc n)" for x using that m'(2) by (auto simp: zero_fill_apply region_Suc)
    moreover have "strncpy_loop m s t (Suc n) = zero_fill m' (s + 1) n" using True by (simp add: m'_def)
    ultimately show ?thesis using True by (simp add: bytes_at_Suc del: strncpy_loop.simps)
  next
    case False
    have "n < 2 ^ 64" using Suc.prems(2) by simp
    from Suc.IH [OF r(1) this, of m', unfolded t]
    have "bytes_at (strncpy_loop m' (s + 1) (t + 1) n) (s + 1) n =
        takeWhile (\<lambda>c. c \<noteq> 0) (bytes_at m (t + 1) n) @ replicate (n - length (takeWhile (\<lambda>c. c \<noteq> 0) (bytes_at m (t + 1) n))) 0"
        "\<And>x. x \<notin> region (s + 1) n \<Longrightarrow> strncpy_loop m' (s + 1) (t + 1) n x = m' x"
      by blast+
    then show ?thesis using False ns m' by (simp add: bytes_at_Suc region_Suc Let_def m'_def [symmetric])
  qed
qed simp

lemma dirent_bytes:
  assumes "length name \<le> 64"
  shows "length (dirent_bytes name inum) = 16" "de_inum (dirent_bytes name inum) = inum"
    "cname (de_name (dirent_bytes name inum)) = cname name" "length (de_name (dirent_bytes name inum)) = DIRSIZ"
proof -
  let ?m = "local_mem name []" and ?w = "takeWhile (\<lambda>c. c \<noteq> 0) (take DIRSIZ name)"
  have "region 128 64 \<inter> region 0 64 = ({} :: u64 set)" using local_regions [of _ 0 2] by auto
  then have d: "region 128 DIRSIZ \<inter> region 0 DIRSIZ = ({} :: u64 set)"
    using region_mono [of DIRSIZ 64 "128 :: u64"] region_mono [of DIRSIZ 64 "0 :: u64"] by auto
  have t: "takeWhile (\<lambda>c. c \<noteq> 0) (bytes_at ?m 0 DIRSIZ) = ?w"
    using bytes_at_local(1) [of name "[]" DIRSIZ] assms by (simp add: takeWhile_zeros)
  have n: "bytes_at (strncpy ?m 128 0 (int DIRSIZ)) 128 DIRSIZ = ?w @ replicate (DIRSIZ - length ?w) 0"
    using strncpy_loop_spec [OF d, of ?m] t by (simp add: strncpy_def)
  then have e: "dirent_bytes name inum = bytes16 inum @ ?w @ replicate (DIRSIZ - length ?w) 0" by (simp add: dirent_bytes_def)
  have l: "length ?w \<le> DIRSIZ" by (rule order_trans [OF length_takeWhile_le]) simp
  show "length (dirent_bytes name inum) = 16" using l by (simp add: e)
  show "de_inum (dirent_bytes name inum) = inum" using get_bytes_append(1) [of 0 "[]" inum] by (simp add: e de_inum_def)
  have nm: "de_name (dirent_bytes name inum) = ?w @ replicate (DIRSIZ - length ?w) 0" using l by (simp add: e de_name_def slice_def)
  show "length (de_name (dirent_bytes name inum)) = DIRSIZ" using l by (simp add: nm)
  have "take DIRSIZ (?w @ replicate (DIRSIZ - length ?w) 0) = ?w @ replicate (DIRSIZ - length ?w) 0"
    by (rule take_all) (use l in simp)
  then show "cname (de_name (dirent_bytes name inum)) = cname name"
    unfolding nm cname_def by (simp only: takeWhile_zeros takeWhile_idem)
qed

section \<open>Looking up\<close>

text \<open>The entries of a directory with the content \<open>d\<close>, and the first one that holds a name.\<close>

definition dent :: "u8 list \<Rightarrow> nat \<Rightarrow> u8 list" where
  "dent d k = slice (16 * k) 16 d"

definition dmatch :: "u8 list \<Rightarrow> u8 list \<Rightarrow> nat \<Rightarrow> bool" where
  "dmatch name d k \<longleftrightarrow> de_inum (dent d k) \<noteq> 0 \<and> cname name = cname (de_name (dent d k))"

definition dfind :: "u8 list \<Rightarrow> u8 list \<Rightarrow> nat option" where
  "dfind name d = find (dmatch name d) [0..<length d div 16]"

text \<open>The environment of the directory operations: a transaction with room in the log and a directory in order.\<close>

definition dir_env :: "nat \<Rightarrow> kernel \<Rightarrow> u32 list \<Rightarrow> nat \<Rightarrow> bool" where
  "dir_env me s bl dp \<longleftrightarrow> tx me s {} bl \<and> length bl + 5 < NBUF \<and> fs_ok s \<and> file_inv s dp \<and>
     i_type (itable s dp) = T_DIR \<and> 16 dvd unat (i_size (itable s dp))"

text \<open>Reading leaves the disk and the inode table as they are.\<close>

definition dir_same :: "nat \<Rightarrow> kernel \<Rightarrow> kernel \<Rightarrow> u32 list \<Rightarrow> bool" where
  "dir_same me s s' bl \<longleftrightarrow> tstep me {} s s' bl \<and> blk s' = blk s \<and> itable s' = itable s \<and> sb s' = sb s"

lemma dir_same_refl: "dir_env me s bl dp \<Longrightarrow> dir_same me s s bl"
  by (simp add: dir_same_def dir_env_def tstep_refl)

lemma dir_same_trans: "dir_same me s t bl \<Longrightarrow> dir_same me t u bl \<Longrightarrow> dir_same me s u bl"
  unfolding dir_same_def using tstep_trans by metis

lemma dir_sameD:
  assumes "dir_same me s s' bl" "dir_env me s bl dp"
  shows "dir_env me s' bl dp" "file_data s' dp = file_data s dp" "itable s' = itable s"
  using assms tstepD(1) unfolding dir_same_def dir_env_def file_inv_def file_data_def fs_ok_def by auto

lemma read_dent:
  assumes e: "dir_env me s bl dp" and k: "unat off = 16 * k" "k < unat (i_size (itable s dp)) div 16"
  shows "\<exists>s'. readi me dp LocalDst off 16 s = Ok (16, dent (file_data s dp) k, s') \<and> dir_same me s s' bl \<and>
    length (dent (file_data s dp) k) = 16 \<and> off < i_size (itable s dp) \<and> unat (off + 16) = 16 * Suc k"
proof -
  let ?sz = "unat (i_size (itable s dp))"
  have d: "tx me s {} bl" "length bl + 5 < NBUF" "fs_ok s" "file_inv s dp" "16 dvd ?sz" using e by (simp_all add: dir_env_def)
  have sz: "?sz \<le> MAXFILE * BSIZE" using file_invD(3) [OF d(4)] .
  have b: "16 * Suc k \<le> ?sz" using k(2) d(5) by (auto elim!: dvdE)
  have lt: "off < i_size (itable s dp)" using b k(1) by (simp add: word_less_nat_alt)
  have o: "unat off + unat (16 :: u32) < 2 ^ 32" "off \<le> i_size (itable s dp)" using b k(1) sz lt by simp_all
  have l: "length (dent (file_data s dp) k) = 16" unfolding dent_def using b by (intro length_slice) simp
  obtain s' where r: "readi me dp LocalDst off 16 s = Ok (16, dent (file_data s dp) k, s')"
      "tstep me {} s s' bl" "blk s' = blk s" "itable s' = itable s" "sb s' = sb s"
    using readi_ok [OF d(1-4) o] l k(1) by (auto simp: dent_def)
  have "unat (off + 16) = unat off + unat (16 :: u32)" by (rule unat_add_lem [THEN iffD1]) (use o(1) in simp)
  then show ?thesis using r l lt k(1) by (auto simp: dir_same_def)
qed

lemma dirlookup_loop_ok:
  assumes "dir_env me s bl dp" "d = file_data s dp" "length d = 16 * n" "unat off = 16 * k" "k \<le> n" "length name \<le> 64"
  shows "\<exists>s'. dir_same me s s' bl \<and> dirlookup_loop me dp name off s = Some (
    case find (dmatch name d) [k..<n] of None \<Rightarrow> Ok (None, s')
    | Some j \<Rightarrow> res_bind (iget ROOTDEV (ucast (de_inum (dent d j))) s') (\<lambda>(ip, s). Ok (Some (ip, of_nat (16 * j)), s)))"
  using assms
proof (induction "n - k" arbitrary: k off s)
  case 0
  then have "\<not> off < i_size (itable s dp)" by (simp add: word_less_nat_alt)
  then show ?case using 0 dir_same_refl by (subst dirlookup_loop.simps) auto
next
  case (Suc m)
  note p = Suc.prems
  have k: "k < n" "[k..<n] = k # [Suc k..<n]" using Suc.hyps(2) by (simp_all add: upt_conv_Cons)
  have "k < unat (i_size (itable s dp)) div 16" using k(1) p(2,3) by simp
  from read_dent [OF p(1,4) this] obtain s1 where
    r: "readi me dp LocalDst off 16 s = Ok (16, dent d k, s1)" "dir_same me s s1 bl" "length (dent d k) = 16"
      "off < i_size (itable s dp)" "unat (off + 16) = 16 * Suc k" using p(2) by auto
  note e1 = dir_sameD [OF r(2) p(1)]
  have nc: "namecmp name (de_name (dent d k)) = 0 \<longleftrightarrow> cname name = cname (de_name (dent d k))"
    using namecmp_iff p(6) r(3) by (simp add: de_name_def)
  show ?case
  proof (cases "dmatch name d k")
    case True
    have "off = of_nat (16 * k)" using arg_cong [OF p(4), of "of_nat :: nat \<Rightarrow> u32"] by simp
    moreover have "i_dev (itable s1 dp) = ROOTDEV" using file_invD(1) [of s dp] p(1) e1(3) by (simp add: dir_env_def)
    ultimately have "dirlookup_loop me dp name off s =
        Some (res_bind (iget ROOTDEV (ucast (de_inum (dent d k))) s1) (\<lambda>(ip, s). Ok (Some (ip, of_nat (16 * k)), s)))"
      using True nc r(1,4) by (subst dirlookup_loop.simps) (simp add: dmatch_def)
    then show ?thesis using r(2) True by (intro exI [of _ s1]) (simp add: k(2))
  next
    case False
    have m: "m = n - Suc k" using Suc.hyps(2) by linarith
    have step: "dirlookup_loop me dp name off s = dirlookup_loop me dp name (off + 16) s1"
      using False nc r(1,4) by (subst dirlookup_loop.simps) (auto simp: dmatch_def)
    obtain s' where s': "dir_same me s1 s' bl" "dirlookup_loop me dp name (off + 16) s1 = Some (
        case find (dmatch name d) [Suc k..<n] of None \<Rightarrow> Ok (None, s')
        | Some j \<Rightarrow> res_bind (iget ROOTDEV (ucast (de_inum (dent d j))) s') (\<lambda>(ip, s). Ok (Some (ip, of_nat (16 * j)), s)))"
      using Suc.hyps(1) [OF m, of s1 "off + 16"] e1(1,2) p(2,3,6) r(5) k(1) by auto
    then show ?thesis using step False dir_same_trans [OF r(2) s'(1)] by (intro exI [of _ s']) (simp add: k(2))
  qed
qed

lemma dirlookup_ok:
  assumes "dir_env me s bl dp" "length name \<le> 64"
  shows "\<exists>s'. dir_same me s s' bl \<and> dirlookup me dp name s = (
    case dfind name (file_data s dp) of None \<Rightarrow> Ok (None, s')
    | Some j \<Rightarrow> res_bind (iget ROOTDEV (ucast (de_inum (dent (file_data s dp) j))) s') (\<lambda>(ip, s). Ok (Some (ip, of_nat (16 * j)), s)))"
proof -
  have l: "length (file_data s dp) = 16 * (length (file_data s dp) div 16)" using assms(1) by (simp add: dir_env_def)
  obtain s' where "dir_same me s s' bl" "dirlookup_loop me dp name 0 s = Some (
      case find (dmatch name (file_data s dp)) [0..<length (file_data s dp) div 16] of None \<Rightarrow> Ok (None, s')
      | Some j \<Rightarrow> res_bind (iget ROOTDEV (ucast (de_inum (dent (file_data s dp) j))) s') (\<lambda>(ip, s). Ok (Some (ip, of_nat (16 * j)), s)))"
    using dirlookup_loop_ok [OF assms(1) refl l, of 0 0] assms(2) by auto
  then show ?thesis using assms(1) by (intro exI [of _ s']) (simp add: dirlookup_def dir_env_def dfind_def split: option.split)
qed

section \<open>Adding an entry\<close>

text \<open>The first free entry, the end of the directory if there is none.\<close>

definition dfree :: "u8 list \<Rightarrow> nat" where
  "dfree d = (case find (\<lambda>k. de_inum (dent d k) = 0) [0..<length d div 16] of Some k \<Rightarrow> k | None \<Rightarrow> length d div 16)"

lemma dirlink_scan_ok:
  assumes "dir_env me s bl dp" "d = file_data s dp" "length d = 16 * n" "unat off = 16 * k" "k \<le> n"
  shows "\<exists>s'. dir_same me s s' bl \<and> dirlink_scan me dp off s = Some (Ok (of_nat (16 *
    (case find (\<lambda>k. de_inum (dent d k) = 0) [k..<n] of Some j \<Rightarrow> j | None \<Rightarrow> n)), s'))"
  using assms
proof (induction "n - k" arbitrary: k off s)
  case 0
  have "off = of_nat (16 * k)" using arg_cong [OF 0(5), of "of_nat :: nat \<Rightarrow> u32"] by simp
  moreover have "n = k" "\<not> off < i_size (itable s dp)" using 0 by (simp_all add: word_less_nat_alt)
  ultimately show ?case using 0 dir_same_refl by (subst dirlink_scan.simps) auto
next
  case (Suc m)
  note p = Suc.prems
  have k: "k < n" "[k..<n] = k # [Suc k..<n]" "m = n - Suc k" using Suc.hyps(2) by (simp_all add: upt_conv_Cons)
  have "k < unat (i_size (itable s dp)) div 16" using k(1) p(2,3) by simp
  from read_dent [OF p(1,4) this] obtain s1 where
    r: "readi me dp LocalDst off 16 s = Ok (16, dent d k, s1)" "dir_same me s s1 bl" "off < i_size (itable s dp)" "unat (off + 16) = 16 * Suc k"
    using p(2) by auto
  note e1 = dir_sameD [OF r(2) p(1)]
  show ?case
  proof (cases "de_inum (dent d k) = 0")
    case True
    have "off = of_nat (16 * k)" using arg_cong [OF p(4), of "of_nat :: nat \<Rightarrow> u32"] by simp
    then show ?thesis using True r(1-3) by (intro exI [of _ s1], subst dirlink_scan.simps) (simp add: k(2))
  next
    case False
    then have "dirlink_scan me dp off s = dirlink_scan me dp (off + 16) s1" using r(1,3) by (subst dirlink_scan.simps) simp
    moreover obtain s' where s': "dir_same me s1 s' bl" "dirlink_scan me dp (off + 16) s1 = Some (Ok (of_nat (16 *
        (case find (\<lambda>k. de_inum (dent d k) = 0) [Suc k..<n] of Some j \<Rightarrow> j | None \<Rightarrow> n)), s'))"
      using Suc.hyps(1) [OF k(3), of s1 "off + 16"] e1(1,2) p(2,3) r(4) k(1) by auto
    ultimately show ?thesis using False dir_same_trans [OF r(2) s'(1)] by (intro exI [of _ s']) (simp add: k(2))
  qed
qed

lemma dfree_le: "dfree d \<le> length d div 16" "dfree d < length d div 16 \<Longrightarrow> de_inum (dent d (dfree d)) = 0"
proof -
  let ?f = "find (\<lambda>k. de_inum (dent d k) = 0) [0..<length d div 16]"
  have f: "k < length d div 16 \<and> de_inum (dent d k) = 0" if "?f = Some k" for k
    using that by (auto simp: find_Some_iff)
  show "dfree d \<le> length d div 16" using f by (cases ?f) (simp_all add: dfree_def less_imp_le)
  show "dfree d < length d div 16 \<Longrightarrow> de_inum (dent d (dfree d)) = 0" using f by (cases ?f) (simp_all add: dfree_def)
qed

lemma dent_patch:
  assumes "length d = 16 * n" "k \<le> n" "length de = 16"
  shows "length (patch d (16 * k) de) = 16 * max n (Suc k)" "dent (patch d (16 * k) de) k = de"
    "j < n \<Longrightarrow> j \<noteq> k \<Longrightarrow> dent (patch d (16 * k) de) j = dent d j"
proof -
  show "length (patch d (16 * k) de) = 16 * max n (Suc k)" using assms by (simp add: patch_def max_def)
  show "dent (patch d (16 * k) de) k = de" using assms by (simp add: patch_def dent_def slice_def)
  show "dent (patch d (16 * k) de) j = dent d j" if j: "j < n" "j \<noteq> k"
  proof (cases "k = n")
    case True
    then show ?thesis using assms j by (simp add: dent_def slice_def patch_def)
  next
    case False
    then have "16 * k + 16 \<le> length d" "16 * j + 16 \<le> length d" using assms(1,2) j by auto
    moreover have "16 * j + 16 \<le> 16 * k \<or> 16 * k + 16 \<le> 16 * j" using j(2) by linarith
    ultimately show ?thesis unfolding dent_def using assms(3) by (intro slice_patch_disjoint) simp_all
  qed
qed

lemma find_append_none: "find P ys = None \<Longrightarrow> find P (xs @ ys) = find P xs"
  by (induction xs) auto

lemma dfind_link:
  assumes l: "length d = 16 * n" and k: "k = dfree d" and de: "length de = 16" "de_inum de \<noteq> 0" "cname (de_name de) = cname name"
    and no: "dfind name d = None"
  defines "d' \<equiv> patch d (16 * k) de"
  shows "dfind name d' = Some k" "dent d' k = de"
    "cname other \<noteq> cname name \<Longrightarrow> dfind other d' = dfind other d \<and> (\<forall>j. dfind other d = Some j \<longrightarrow> dent d' j = dent d j)"
proof -
  have kn: "k \<le> n" "k < n \<Longrightarrow> de_inum (dent d k) = 0" using dfree_le [of d] l k by auto
  note dp = dent_patch [OF l kn(1) de(1), folded d'_def]
  show "dent d' k = de" by (rule dp(2))
  have m: "dmatch nm d' j \<longleftrightarrow> (if j = k then cname nm = cname name else dmatch nm d j)" if "j < max n (Suc k)" for j nm
  proof (cases "j = k")
    case True
    then show ?thesis using dp(2) de(2,3) by (auto simp: dmatch_def)
  next
    case False
    then have "j < n" using that kn(1) by auto
    then show ?thesis using dp(3) [of j] False by (simp add: dmatch_def)
  qed
  have nk: "\<not> dmatch nm d k" if "k < n" for nm using kn(2) [OF that] by (simp add: dmatch_def)
  have len: "length d' div 16 = max n (Suc k)" "length d div 16 = n" using dp(1) l by simp_all
  have none: "\<not> dmatch name d j" if "j < n" for j using no that by (auto simp: dfind_def find_None_iff len(2))
  show "dfind name d' = Some k"
    unfolding dfind_def len find_Some_iff using m none kn(1) by (intro exI [of _ k]) (auto dest!: less_le_trans)
  assume o: "cname other \<noteq> cname name"
  have m': "dmatch other d' j \<longleftrightarrow> j < n \<and> dmatch other d j" if "j < max n (Suc k)" for j
    using m [OF that, of other] o nk [of other] that kn(1) by (cases "j = k") auto
  have "find (dmatch other d') [0..<max n (Suc k)] = find (dmatch other d) [0..<n]"
  proof -
    have "[0..<max n (Suc k)] = [0..<n] @ [n..<max n (Suc k)]" by (metis le_add_diff_inverse max.cobounded1 upt_add_eq_append zero_le)
    moreover have "find (dmatch other d') [n..<max n (Suc k)] = None" using m' by (auto simp: find_None_iff)
    moreover have "find (dmatch other d') [0..<n] = find (dmatch other d) [0..<n]" by (rule find_cong) (use m' in auto)
    ultimately show ?thesis by (simp add: find_append_none)
  qed
  moreover have "j < n \<and> j \<noteq> k" if "find (dmatch other d) [0..<n] = Some j" for j
    using that nk [of other] by (auto simp: find_Some_iff)
  ultimately show "dfind other d' = dfind other d \<and> (\<forall>j. dfind other d = Some j \<longrightarrow> dent d' j = dent d j)"
    using dp(3) unfolding dfind_def len by blast
qed

text \<open>What \<^verbatim>\<open>dirlink\<close> leaves when the name is new: the entry of the name holds the number and no other
  name is affected, unless every block of the disk is in use.\<close>

definition dirlink_post :: "nat \<Rightarrow> nat \<Rightarrow> u8 list \<Rightarrow> u32 \<Rightarrow> kernel \<Rightarrow> u32 list \<Rightarrow> int \<Rightarrow> kernel \<Rightarrow> u32 list \<Rightarrow> bool" where
  "dirlink_post me dp name inum s bl r s' bl' \<longleftrightarrow>
     (let d = file_data s dp; d' = file_data s' dp in
      if r = 0 then dir_env me s' bl' dp \<and> length bl' \<le> length bl + MAXOPBLOCKS \<and>
        (\<exists>k. dfind name d' = Some k \<and> de_inum (dent d' k) = ucast inum) \<and>
        (\<forall>other. cname other \<noteq> cname name \<longrightarrow>
           dfind other d' = dfind other d \<and> (\<forall>j. dfind other d = Some j \<longrightarrow> dent d' j = dent d j))
      else r = -1 \<and> (\<forall>c < sb_size (sb s). block_used (blk s') (sb s) c))"

lemma dirlink_ok:
  assumes env: "dir_env me s bl dp" and c: "length bl + MAXOPBLOCKS + 5 < NBUF" and no: "dfind name (file_data s dp) = None"
    and sz: "unat (i_size (itable s dp)) + 16 \<le> MAXFILE * BSIZE" and l: "length name \<le> 64" and i: "ucast inum \<noteq> (0 :: u16)"
  shows "\<exists>r s' bl'. dirlink me dp name inum s = Ok (r, s') \<and> dirlink_post me dp name inum s bl r s' bl'"
proof -
  let ?d = "file_data s dp" and ?de = "dirent_bytes name (ucast inum)"
  obtain s1 where s1: "dir_same me s s1 bl" "dirlookup me dp name s = Ok (None, s1)" using dirlookup_ok [OF env l] no by auto
  note e1 = dir_sameD [OF s1(1) env]
  obtain n where n: "length ?d = 16 * n" "unat (i_size (itable s dp)) = 16 * n" using env by (auto simp: dir_env_def file_data_def)
  have df: "dfree ?d = (case find (\<lambda>k. de_inum (dent ?d k) = 0) [0..<n] of Some k \<Rightarrow> k | None \<Rightarrow> n)"
    unfolding dfree_def n(1) by (simp split: option.split)
  obtain s2 where s2: "dir_same me s1 s2 bl" "dirlink_scan me dp 0 s1 = Some (Ok (of_nat (16 * dfree ?d), s2))"
    using dirlink_scan_ok [OF e1(1), of ?d n 0 0] e1(2) n(1) unfolding df by auto
  note e2 = dir_sameD [OF s2(1) e1(1)]
  have same: "itable s2 = itable s" "sb s2 = sb s" "file_data s2 dp = ?d" using s1(1) s2(1) e1(2) e2(2) by (simp_all add: dir_same_def)
  have k: "dfree ?d \<le> n" using dfree_le(1) [of ?d] n(1) by simp
  have b: "16 * dfree ?d + 16 \<le> MAXFILE * BSIZE" using sz n(2) k by linarith
  have o: "unat (of_nat (16 * dfree ?d) :: u32) = 16 * dfree ?d" using b by (subst unat_of_nat) simp
  have "(of_nat (16 * dfree ?d) :: u32) \<le> i_size (itable s2 dp)" using o n(2) k same(1) unfolding word_le_nat_alt by simp
  moreover have "src_ok me (LocalSrc ?de) s2 ?de" "16 \<le> 3 * BSIZE" by (simp_all add: src_ok_def)
  ultimately obtain r s3 bl3 where
    w: "writei me dp (LocalSrc ?de) (of_nat (16 * dfree ?d)) (of_nat (length ?de)) s2 = Ok (int r, s3)"
      "writei_post me dp s2 bl (16 * dfree ?d) ?de r s3 bl3"
    using writei_ok [of me s2 bl dp "of_nat (16 * dfree ?d)" ?de "LocalSrc ?de"] e2(1) c b dirent_bytes(1) [OF l] o
    unfolding dir_env_def by (auto simp del: fs_consts)
  have run: "dirlink me dp name inum s = Ok (if r = 16 then 0 else -1, s3)"
    using w(1) s1(2) s2(2) dirent_bytes(1) [OF l] by (simp add: dirlink_def del: fs_consts)
  show ?thesis
  proof (cases "r = 16")
    case True
    have d': "file_data s3 dp = patch ?d (16 * dfree ?d) ?de" using w(2) True dirent_bytes(1) [OF l] same(3) by (simp add: writei_post_def)
    have e: "dir_env me s3 bl3 dp"
      using w(2) c e2(1) dent_patch(1) [OF n(1) k dirent_bytes(1) [OF l]] d' tstepD(1)
      unfolding dir_env_def writei_post_def by (auto simp: file_data_def dest: arg_cong [of _ _ length])
    have "de_inum ?de \<noteq> 0" using i dirent_bytes(2) [OF l] by simp
    note dl = dfind_link [OF n(1) refl dirent_bytes(1) [OF l] this dirent_bytes(3) [OF l] no, folded d']
    have "dirlink_post me dp name inum s bl 0 s3 bl3"
      using e w(2) dl dirent_bytes(2) [OF l] by (auto simp: dirlink_post_def writei_post_def simp del: fs_consts)
    then show ?thesis using run True by auto
  next
    case False
    then have "\<forall>c < sb_size (sb s). block_used (blk s3) (sb s) c"
      using w(2) dirent_bytes(1) [OF l] same(2) by (auto simp: writei_post_def)
    then have "dirlink_post me dp name inum s bl (-1) s3 bl3" by (simp add: dirlink_post_def)
    then show ?thesis using run False by auto
  qed
qed

section \<open>Path names\<close>

text \<open>The elements of a path: its maximal pieces without a slash.\<close>

primrec split_slash :: "u8 list \<Rightarrow> u8 list list" where
  "split_slash [] = [[]]"
| "split_slash (c # cs) = (if c = slash then [] # split_slash cs
     else (case split_slash cs of [] \<Rightarrow> [[c]] | x # xs \<Rightarrow> (c # x) # xs))"

definition path_elems :: "u8 list \<Rightarrow> u8 list list" where
  "path_elems path = filter (\<lambda>x. x \<noteq> []) (split_slash path)"

lemma split_slash_span:
  "split_slash xs = takeWhile (\<lambda>c. c \<noteq> slash) xs #
     (case dropWhile (\<lambda>c. c \<noteq> slash) xs of [] \<Rightarrow> [] | _ # ys \<Rightarrow> split_slash ys)"
  by (induction xs) simp_all

lemma path_elems_skip: "path_elems (dropWhile (\<lambda>c. c = slash) xs) = path_elems xs"
  by (induction xs) (simp_all add: path_elems_def)

lemma path_elems_span:
  assumes "xs \<noteq> []" "hd xs \<noteq> slash"
  shows "path_elems xs = takeWhile (\<lambda>c. c \<noteq> slash) xs # path_elems (dropWhile (\<lambda>c. c \<noteq> slash) xs)"
proof -
  have "takeWhile (\<lambda>c. c \<noteq> slash) xs \<noteq> []" using assms by (cases xs) simp_all
  moreover obtain r where r: "dropWhile (\<lambda>c. c \<noteq> slash) xs = r" by simp
  moreover have "hd r = slash" if "r \<noteq> []" using hd_dropWhile [of "\<lambda>c. c \<noteq> slash" xs] r that by simp
  ultimately show ?thesis
    unfolding path_elems_def by (subst split_slash_span) (cases r; simp del: dropWhile_eq_Nil_conv)
qed

lemma cname_patch:
  assumes "length name = DIRSIZ" "0 \<notin> set x"
  shows "cname (if length x \<ge> DIRSIZ then patch name 0 (take DIRSIZ x) else patch name 0 (x @ [0])) = take DIRSIZ x"
proof -
  have z: "\<And>c. c \<in> set (take DIRSIZ x) \<Longrightarrow> c \<noteq> 0" using assms(2) by (auto dest: in_set_takeD)
  then show ?thesis
    using assms by (auto simp: cname_def patch_def min_def takeWhile_append1)
qed

text \<open>
  (C39) \<^verbatim>\<open>skipelem\<close> takes a path apart at its slashes: it fails exactly when the path has no element left
  (it is empty or all slashes), and otherwise leaves in \<^verbatim>\<open>name\<close> the first element, cut to \<^verbatim>\<open>DIRSIZ\<close>
  bytes, and returns a shorter path that has exactly the remaining elements and does not start with a slash.
\<close>

theorem skipelem_splits:
  assumes "length name = DIRSIZ" "0 \<notin> set path"
  shows "case path_elems path of
      [] \<Rightarrow> skipelem path name = None
    | x # xs \<Rightarrow> \<exists>path' name'. skipelem path name = Some (path', name') \<and> cname name' = take DIRSIZ x \<and>
        length name' = DIRSIZ \<and> path_elems path' = xs \<and> take 1 path' \<noteq> [slash] \<and> length path' < length path"
proof -
  let ?p = "dropWhile (\<lambda>c. c = slash) path"
  show ?thesis
  proof (cases "?p = []")
    case True
    then have "path_elems path = []" unfolding path_elems_skip [of path, symmetric] True by (simp add: path_elems_def)
    then show ?thesis using True by (simp add: skipelem_def)
  next
    case False
    let ?x = "takeWhile (\<lambda>c. c \<noteq> slash) ?p" and ?r = "dropWhile (\<lambda>c. c \<noteq> slash) ?p"
    let ?n = "if length ?x \<ge> DIRSIZ then patch name 0 (take DIRSIZ ?x) else patch name 0 (?x @ [0])"
    have "hd ?p \<noteq> slash" using False hd_dropWhile [OF False] by simp
    then have e: "path_elems path = ?x # path_elems (dropWhile (\<lambda>c. c = slash) ?r)"
      using path_elems_span [OF False] path_elems_skip by metis
    have run: "skipelem path name = Some (dropWhile (\<lambda>c. c = slash) ?r, ?n)" using False by (simp add: skipelem_def Let_def)
    have z: "0 \<notin> set ?x" using assms(2) by (auto dest!: set_takeWhileD set_dropWhileD)
    obtain q where q: "dropWhile (\<lambda>c. c = slash) ?r = q" by simp
    have "take 1 q \<noteq> [slash]" using hd_dropWhile [of "\<lambda>c. c = slash" ?r] unfolding q by (cases q) simp_all
    moreover have "length ?n = DIRSIZ" using assms(1) by (auto simp: patch_def min_def)
    moreover have "length q < length path" using skipelem_shorter [OF run] unfolding q .
    ultimately show ?thesis using run cname_patch [OF assms(1) z] unfolding e q list.case by blast
  qed
qed

theorem skipelem_splits_witness:
  "\<exists>path' name'. skipelem [slash, slash, 97, 98, slash, 99, slash] (replicate DIRSIZ 0) = Some (path', name') \<and>
     cname name' = [97, 98] \<and> path_elems path' = [[99]]"
  using skipelem_splits [of "replicate DIRSIZ 0" "[slash, slash, 97, 98, slash, 99, slash]"]
  by (auto simp: path_elems_def)

section \<open>Properties\<close>

text \<open>
  (C19) \<^verbatim>\<open>dirlookup\<close> returns on every directory in order, whatever it holds: it goes through the entries from the
  first, skips the free ones, and answers with the inode (from \<^verbatim>\<open>iget\<close>) and the offset of the first entry
  in use whose name is the one asked for, compared on at most \<^verbatim>\<open>DIRSIZ\<close> bytes and up to the first nul byte, or
  with no inode if there is none. It writes nothing.
\<close>

theorem dirlookup_returns_first:
  assumes "dir_env me s bl dp" "length name \<le> 64"
  shows "\<exists>s'. tx me s' {} bl \<and> blk s' = blk s \<and> itable s' = itable s \<and>
    dirlookup me dp name s = (case dfind name (file_data s dp) of
        None \<Rightarrow> Ok (None, s')
      | Some j \<Rightarrow> res_bind (iget ROOTDEV (ucast (de_inum (dent (file_data s dp) j))) s')
          (\<lambda>(ip, s). Ok (Some (ip, of_nat (16 * j)), s)))"
  using dirlookup_ok [OF assms] unfolding dir_same_def by (blast dest: tstepD(1))

text \<open>
  (C18) What \<^verbatim>\<open>dirlink\<close> adds, \<^verbatim>\<open>dirlookup\<close> finds. For a name the directory does not have, \<^verbatim>\<open>dirlink\<close>
  returns, with 0 or, only when every block of the disk is in use, with -1; when it returns 0, a
  \<^verbatim>\<open>dirlookup\<close> of the name gives the inode number that was linked, every other name is found or not
  found as before, with the same entry, and the directory is in order again.
\<close>

theorem dirlink_dirlookup:
  assumes "dir_env me s bl dp" "length bl + MAXOPBLOCKS + 5 < NBUF" "dfind name (file_data s dp) = None"
    and "unat (i_size (itable s dp)) + 16 \<le> MAXFILE * BSIZE" "length name \<le> 64" "ucast inum \<noteq> (0 :: u16)"
  shows "\<exists>r s1. dirlink me dp name inum s = Ok (r, s1) \<and>
    (r \<noteq> 0 \<longrightarrow> r = -1 \<and> (\<forall>c < sb_size (sb s). block_used (blk s1) (sb s) c)) \<and>
    (r = 0 \<longrightarrow> (\<exists>s2 j. dirlookup me dp name s1 =
          res_bind (iget ROOTDEV (ucast (ucast inum :: u16)) s2) (\<lambda>(ip, s). Ok (Some (ip, of_nat (16 * j)), s)) \<and> itable s2 = itable s1) \<and>
       (\<forall>other. cname other \<noteq> cname name \<longrightarrow> dfind other (file_data s1 dp) = dfind other (file_data s dp) \<and>
          (\<forall>j. dfind other (file_data s dp) = Some j \<longrightarrow> dent (file_data s1 dp) j = dent (file_data s dp) j)) \<and>
       (\<exists>bl1. dir_env me s1 bl1 dp \<and> length bl1 \<le> length bl + MAXOPBLOCKS))"
proof -
  obtain r s1 bl1 where r: "dirlink me dp name inum s = Ok (r, s1)" "dirlink_post me dp name inum s bl r s1 bl1"
    using dirlink_ok [OF assms] by blast
  have "\<exists>s2 j. dirlookup me dp name s1 =
      res_bind (iget ROOTDEV (ucast (ucast inum :: u16)) s2) (\<lambda>(ip, s). Ok (Some (ip, of_nat (16 * j)), s)) \<and> itable s2 = itable s1"
    if z: "r = 0"
  proof -
    have e: "dir_env me s1 bl1 dp" using r(2) z by (simp add: dirlink_post_def Let_def)
    obtain k where k: "dfind name (file_data s1 dp) = Some k" "de_inum (dent (file_data s1 dp) k) = ucast inum"
      using r(2) z by (auto simp: dirlink_post_def Let_def)
    obtain s2 where s2: "dir_same me s1 s2 bl1" "dirlookup me dp name s1 =
        res_bind (iget ROOTDEV (ucast (ucast inum :: u16)) s2) (\<lambda>(ip, s). Ok (Some (ip, of_nat (16 * k)), s))"
      using dirlookup_ok [OF e assms(5)] unfolding k(1) option.case k(2) by blast
    then show ?thesis by (auto simp: dir_same_def)
  qed
  then show ?thesis using r by (intro exI [of _ r] exI [of _ s1]) (auto simp: dirlink_post_def Let_def)
qed

text \<open>A directory with one entry, the name \<^verbatim>\<open>c\<close> with inode number \<open>0x6261\<close>.\<close>

definition demo_dir :: kernel where
  "demo_dir = upd_inode 0 (\<lambda>_. demo_inode\<lparr>i_type := T_DIR, i_size := 16\<rparr>) (fs_boot demo_disk demo_sb)"

lemma demo_dir: "dir_env 0 demo_dir [] 0" "file_data demo_dir 0 = [97, 98, 99] @ replicate 13 0" "i_size (itable demo_dir 0) = 16"
proof -
  have l: "length (demo_disk n) = BSIZE" for n by (simp add: demo_disk_def)
  have f: "tx 0 demo_dir {} []" "blk demo_dir = demo_disk" "sb demo_dir = demo_sb"
      "itable demo_dir 0 = demo_inode\<lparr>i_type := T_DIR, i_size := 16\<rparr>"
    using fs_boot_tx [OF l] by (simp_all add: demo_dir_def)
  have i: "i_dev demo_inode = ROOTDEV" "i_addrs demo_inode = 60 # replicate 12 0" "i_inum demo_inode = 5" by (simp_all add: demo_inode_def)
  show "i_size (itable demo_dir 0) = 16" by (simp add: f)
  have "file_wf demo_sb demo_disk (60 # replicate 12 0)" "IBLOCK 5 demo_sb = 32"
    unfolding file_wf_def using demo_slot demo_fs(7) by (simp_all add: IBLOCK_def demo_sb_def)
  moreover have "fblock demo_disk (60 # replicate 12 0) m \<noteq> 0" if "m < MAXFILE" "m * BSIZE < 16" for m
    using that by (cases m) (simp_all add: fblock_def)
  ultimately have "file_inv demo_dir 0"
    unfolding file_inv_def Let_def f using demo_fs(6) demo_slot by (simp add: i)
  then show "dir_env 0 demo_dir [] 0" using demo_fs(5) f by (simp add: dir_env_def fs_ok_def demo_fs NBUF_val)
  show "file_data demo_dir 0 = [97, 98, 99] @ replicate 13 0"
  proof -
    have "fbyte demo_disk (60 # replicate 12 0) j = ([97, 98, 99] @ replicate 13 0) ! j" if "j < 16" for j
      using that by (simp add: fbyte_def fblock_def demo_disk_def nth_Cons split: nat.split)
    then show ?thesis unfolding file_data_def f by (intro nth_equalityI) (simp_all add: i)
  qed
qed

lemma demo_dfind: "dfind [99] (file_data demo_dir 0) = Some 0" "dfind [120] (file_data demo_dir 0) = None"
    "de_inum (dent (file_data demo_dir 0) 0) = 0x6261"
  unfolding demo_dir(2) dfind_def dmatch_def dent_def by code_simp+

theorem dirlookup_returns_first_witness:
  "(\<exists>s'. dirlookup 0 0 [120] demo_dir = Ok (None, s')) \<and>
   (\<exists>s'. itable s' = itable demo_dir \<and>
      dirlookup 0 0 [99] demo_dir = res_bind (iget ROOTDEV 0x6261 s') (\<lambda>(ip, s). Ok (Some (ip, 0), s)))"
  using dirlookup_returns_first [OF demo_dir(1), of "[120]"] dirlookup_returns_first [OF demo_dir(1), of "[99]"]
  unfolding demo_dfind by (auto simp: demo_dfind(3))

theorem dirlink_dirlookup_witness:
  "\<exists>r s1. dirlink 0 0 [120] 7 demo_dir = Ok (r, s1) \<and> r \<in> {0, -1} \<and>
     (r = 0 \<longrightarrow> dfind [99] (file_data s1 0) = Some 0 \<and>
       (\<exists>s2 j. dirlookup 0 0 [120] s1 = res_bind (iget ROOTDEV 7 s2) (\<lambda>(ip, s). Ok (Some (ip, of_nat (16 * j)), s))))"
proof -
  have "cname [99] \<noteq> cname [120]" by code_simp
  then show ?thesis
    using dirlink_dirlookup [OF demo_dir(1) _ demo_dfind(2), of 7] demo_dfind(1) demo_dir(3)
    by (fastforce simp: NBUF_val MAXOPBLOCKS_def)
qed

end
