(* ===== verification/Ring.thy ===== *)
theory Ring
  imports Prelude
begin

text \<open>
  Circular buffers indexed by free-running counters, as pipes and the console (32-bit counters) and the
  rings of the disk driver (16-bit counters) use them. The counters wrap around at a power of two, which
  the buffer size divides, so the content is the sequence of elements between the read and the write
  counter, whatever their values.
\<close>

definition ring :: "nat \<Rightarrow> 'b list \<Rightarrow> 'a::len word \<Rightarrow> 'a word \<Rightarrow> 'b list" where
  "ring N d r w = map (\<lambda>k. d ! (unat (r + of_nat k) mod N)) [0..<unat (w - r)]"

lemma length_ring [simp]: "length (ring N d r w) = unat (w - r)"
  by (simp add: ring_def)

lemma ring_empty [simp]: "ring N d r r = []"
  by (simp add: ring_def)

lemma ring_eq_Nil [simp]: "ring N d r w = [] \<longleftrightarrow> r = w"
proof -
  have "ring N d r w = [] \<longleftrightarrow> unat (w - r) = 0" using length_ring [of N d r w] by (simp flip: length_0_conv)
  then show ?thesis by (auto simp: unat_eq_zero)
qed

lemma unat_index:
  fixes r :: "'a::len word"
  assumes "N dvd 2 ^ LENGTH('a)"
  shows "unat (r + of_nat k) mod N = (unat r + k) mod N"
proof -
  have "unat (r + of_nat k) = (unat r + k) mod 2 ^ LENGTH('a)" by (simp add: unat_word_ariths unat_of_nat mod_simps)
  then show ?thesis using assms by (simp add: mod_mod_cancel)
qed

lemma unat_diff_Suc:
  fixes r w :: "'a::len word"
  assumes "unat (w - r) < 2 ^ LENGTH('a) - 1"
  shows "unat (w + 1 - r) = Suc (unat (w - r))"
proof -
  have "w + 1 - r = (w - r) + 1" by simp
  moreover have "unat ((w - r) + 1) = unat (w - r) + 1" using assms by (subst unat_add_lem [THEN iffD1]) simp_all
  ultimately show ?thesis by (simp only: Suc_eq_plus1)
qed

lemma unat_diff_pred:
  fixes r w :: "'a::len word"
  assumes "r \<noteq> w"
  shows "unat (w - (r + 1)) = unat (w - r) - 1" "unat (w - 1 - r) = unat (w - r) - 1" "0 < unat (w - r)"
proof -
  have nz: "w - r \<noteq> 0" using assms by simp
  then have "1 \<le> w - r" by (simp add: word_le_nat_alt unat_gt_0 Suc_le_eq)
  then have "unat ((w - r) - 1) = unat (w - r) - 1" by (simp add: unat_sub)
  moreover have "w - (r + 1) = (w - r) - 1" "w - 1 - r = (w - r) - 1" by simp_all
  ultimately show "unat (w - (r + 1)) = unat (w - r) - 1" "unat (w - 1 - r) = unat (w - r) - 1" by (simp_all only:)
  show "0 < unat (w - r)" using nz by (simp add: unat_gt_0)
qed

text \<open>The three operations: appending at \<open>w\<close>, taking at \<open>r\<close>, and taking back what was appended last.\<close>

lemma ring_put:
  fixes r w :: "'a::len word"
  assumes N: "N dvd 2 ^ LENGTH('a)" "N < 2 ^ LENGTH('a)" "length d = N" and l: "unat (w - r) < N"
  shows "ring N (d[unat w mod N := c]) r (w + 1) = ring N d r w @ [c]"
proof -
  have N0: "0 < N" using l by simp
  have lt: "unat (w - r) < 2 ^ LENGTH('a) - 1" using l N(2) by linarith
  have w: "w = r + of_nat (unat (w - r))" by simp
  have eq: "unat w mod N = (unat r + unat (w - r)) mod N" using unat_index [OF N(1), of r "unat (w - r)"] w by metis
  have other: "(unat r + k) mod N \<noteq> unat w mod N" if "k < unat (w - r)" for k
  proof
    assume "(unat r + k) mod N = unat w mod N"
    then have "(unat r + k) mod N = (unat r + unat (w - r)) mod N" using eq by simp
    then have "N dvd (unat r + unat (w - r)) - (unat r + k)" using that by (metis mod_eq_dvd_iff_nat nat_add_left_cancel_le less_imp_le)
    then have "N dvd unat (w - r) - k" by simp
    then show False using that l by (meson dvd_imp_le le_less_trans less_imp_diff_less not_le zero_less_diff)
  qed
  have "ring N (d[unat w mod N := c]) r (w + 1) =
      map (\<lambda>k. d[unat w mod N := c] ! (unat (r + of_nat k) mod N)) [0..<unat (w - r)] @ [d[unat w mod N := c] ! (unat w mod N)]"
    by (simp add: ring_def unat_diff_Suc [OF lt])
  also have "\<dots> = ring N d r w @ [c]"
    using not_sym [OF other] N(3) N0 by (simp add: ring_def unat_index [OF N(1)])
  finally show ?thesis .
qed

lemma ring_get:
  assumes "r \<noteq> w"
  shows "ring N d r w = d ! (unat r mod N) # ring N d (r + 1) w"
proof -
  have "[0..<unat (w - r)] = 0 # map Suc [0..<unat (w - r) - 1]"
    using unat_diff_pred(3) [OF assms] by (simp add: upt_conv_Cons map_Suc_upt)
  then show ?thesis by (simp add: ring_def unat_diff_pred(1) [OF assms] o_def add.assoc)
qed

lemma ring_unput:
  assumes "r \<noteq> w" shows "ring N d r (w - 1) = butlast (ring N d r w)"
proof -
  have "butlast [0..<k] = [0..<k - 1]" for k :: nat by (cases k) simp_all
  then show ?thesis by (simp add: ring_def unat_diff_pred(2) [OF assms] map_butlast [symmetric] del: unat_eq_zero)
qed

lemma ring_last:
  fixes r w :: "'a::len word"
  assumes "N dvd 2 ^ LENGTH('a)" "r \<noteq> w" shows "last (ring N d r w) = d ! (unat (w - 1) mod N)"
proof -
  have p: "0 < unat (w - r)" by (rule unat_diff_pred(3) [OF assms(2)])
  have "r + of_nat (unat (w - r) - 1) = w - 1" using p by (simp add: of_nat_diff)
  then show ?thesis using p by (simp add: ring_def last_map)
qed

lemma ring_full:
  fixes r w :: "'a::len word"
  assumes "N < 2 ^ LENGTH('a)" shows "w = r + of_nat N \<longleftrightarrow> unat (w - r) = N"
proof -
  have "w = r + of_nat N \<longleftrightarrow> w - r = of_nat N" by (simp add: algebra_simps)
  also have "\<dots> \<longleftrightarrow> unat (w - r) = unat (of_nat N :: 'a word)" by (rule word_unat_eq_iff)
  finally show ?thesis using assms by (simp add: unat_of_nat)
qed

end
