(* ===== verification/Pipe.thy ===== *)
theory Pipe
  imports KernelState Paging Ring
begin

text \<open>
  Pipes (\<^verbatim>\<open>kernel/pipe.c\<close>). The state of the pipe in the page at address \<open>pi\<close> is \<open>pipes s pi\<close>; the wait
  channels are the addresses of its fields \<^verbatim>\<open>nread\<close> and \<^verbatim>\<open>nwrite\<close>. A call runs under \<^verbatim>\<open>pi->lock\<close> until it
  returns or sleeps: \<open>pipewrite_loop\<close> and \<open>piperead_run\<close> return which, with the state at that point, so
  that a later call of the same function continues after the sleep.
\<close>

datatype outcome = Done int | Blocked chan

definition nread_chan :: "u64 \<Rightarrow> chan" where "nread_chan pi = pi + 536"
definition nwrite_chan :: "u64 \<Rightarrow> chan" where "nwrite_chan pi = pi + 540"

section \<open>Operations\<close>

text \<open>The fast path before every \<^verbatim>\<open>wakeup_one\<close> of the pipe code.\<close>

definition wake_one_fast :: "chan \<Rightarrow> kernel \<Rightarrow> kernel res" where
  "wake_one_fast c s = (if wq_has_sleeper c s then res_of (wakeup_one c s) else Ok s)"

definition pipeclose :: "u64 \<Rightarrow> bool \<Rightarrow> kernel \<Rightarrow> kernel res" where
  "pipeclose pi wr s =
     res_bind
       (if wr then do_wakeup (nread_chan pi) (upd_pipe pi (\<lambda>p. p\<lparr>pi_writeopen := False\<rparr>) s)
        else do_wakeup (nwrite_chan pi) (upd_pipe pi (\<lambda>p. p\<lparr>pi_readopen := False\<rparr>) s)) (\<lambda>s.
     if \<not> pi_readopen (pipes s pi) \<and> \<not> pi_writeopen (pipes s pi) then kfree pi s else Ok s)"

definition put_byte :: "u8 \<Rightarrow> pipe \<Rightarrow> pipe" where
  "put_byte ch p = p\<lparr>pi_data := (pi_data p)[unat (pi_nwrite p) mod PIPESIZE := ch], pi_nwrite := pi_nwrite p + 1\<rparr>"

definition pipe_full :: "pipe \<Rightarrow> bool" where
  "pipe_full p \<longleftrightarrow> pi_nwrite p = pi_nread p + of_nat PIPESIZE"

definition pipe_empty :: "pipe \<Rightarrow> bool" where
  "pipe_empty p \<longleftrightarrow> pi_nread p = pi_nwrite p"

text \<open>\<open>pipewrite_loop me pi addr n i s\<close>: \<^verbatim>\<open>pipewrite\<close> from the test of its loop on, with \<open>i\<close> bytes written.\<close>

function pipewrite_loop ::
    "nat \<Rightarrow> u64 \<Rightarrow> u64 \<Rightarrow> int \<Rightarrow> int \<Rightarrow> kernel \<Rightarrow> (outcome \<times> int \<times> kernel) res" where
  "pipewrite_loop me pi addr n i s =
     (if i < n
      then (if \<not> pi_readopen (pipes s pi) \<or> killed me s \<noteq> 0 then Ok (Done (-1), i, s)
        else if pipe_full (pipes s pi)
        then res_bind (wake_one_fast (nread_chan pi) s) (\<lambda>s. Ok (Blocked (nwrite_chan pi), i, s))
        else res_bind (copyin me (p_pagetable (procs s me)) (addr + word_of_int i) 1 s) (\<lambda>(r, xs, s).
          if r = -1 then res_bind (wake_one_fast (nread_chan pi) s) (\<lambda>s. Ok (Done i, i, s))
          else pipewrite_loop me pi addr n (i + 1) (upd_pipe pi (put_byte (hd xs)) s)))
      else res_bind (wake_one_fast (nread_chan pi) s) (\<lambda>s. Ok (Done i, i, s)))"
  by pat_completeness auto
termination
  by (relation "measure (\<lambda>(_, _, _, n, i, _). nat (n - i))") auto

declare pipewrite_loop.simps [simp del]

definition pipewrite :: "nat \<Rightarrow> u64 \<Rightarrow> u64 \<Rightarrow> int \<Rightarrow> kernel \<Rightarrow> (int \<times> kernel) res" where
  "pipewrite me pi addr n s =
     res_bind (pipewrite_loop me pi addr n 0 s) (\<lambda>(r, _, s).
       case r of Done r \<Rightarrow> Ok (r, s) | Blocked c \<Rightarrow> Sleeps c)"

function piperead_copy :: "nat \<Rightarrow> u64 \<Rightarrow> u64 \<Rightarrow> int \<Rightarrow> int \<Rightarrow> kernel \<Rightarrow> (int \<times> kernel) res" where
  "piperead_copy me pi addr n i s =
     (if i < n
      then (if pipe_empty (pipes s pi) then Ok (i, s)
        else (let ch = pi_data (pipes s pi) ! (unat (pi_nread (pipes s pi)) mod PIPESIZE) in
          res_bind (copyout me (p_pagetable (procs s me)) (addr + word_of_int i) [ch] s) (\<lambda>(r, s).
          if r = -1 then Ok (if i = 0 then -1 else i, s)
          else piperead_copy me pi addr n (i + 1) (upd_pipe pi (\<lambda>p. p\<lparr>pi_nread := pi_nread p + 1\<rparr>) s))))
      else Ok (i, s))"
  by pat_completeness auto
termination
  by (relation "measure (\<lambda>(_, _, _, n, i, _). nat (n - i))") auto

declare piperead_copy.simps [simp del]

definition piperead_run :: "nat \<Rightarrow> u64 \<Rightarrow> u64 \<Rightarrow> int \<Rightarrow> kernel \<Rightarrow> (outcome \<times> kernel) res" where
  "piperead_run me pi addr n s =
     (if pipe_empty (pipes s pi) \<and> pi_writeopen (pipes s pi)
      then (if killed me s \<noteq> 0 then Ok (Done (-1), s) else Ok (Blocked (nread_chan pi), s))
      else res_bind (piperead_copy me pi addr n 0 s) (\<lambda>(i, s).
        res_bind (wake_one_fast (nwrite_chan pi) s) (\<lambda>s. Ok (Done i, s))))"

definition piperead :: "nat \<Rightarrow> u64 \<Rightarrow> u64 \<Rightarrow> int \<Rightarrow> kernel \<Rightarrow> (int \<times> kernel) res" where
  "piperead me pi addr n s =
     res_bind (piperead_run me pi addr n s) (\<lambda>(r, s). case r of Done r \<Rightarrow> Ok (r, s) | Blocked c \<Rightarrow> Sleeps c)"

section \<open>A pipe is a bounded queue\<close>

locale bounded_queue =
  fixes inv :: "'q \<Rightarrow> bool" and contents :: "'q \<Rightarrow> 'b list" and cap :: nat
    and full :: "'q \<Rightarrow> bool" and empty :: "'q \<Rightarrow> bool" and put :: "'b \<Rightarrow> 'q \<Rightarrow> 'q"
    and front :: "'q \<Rightarrow> 'b" and advance :: "'q \<Rightarrow> 'q"
  assumes full_iff: "inv q \<Longrightarrow> full q \<longleftrightarrow> length (contents q) = cap"
    and within_cap: "inv q \<Longrightarrow> length (contents q) \<le> cap"
    and empty_iff: "inv q \<Longrightarrow> empty q \<longleftrightarrow> contents q = []"
    and put_law: "inv q \<Longrightarrow> \<not> full q \<Longrightarrow> inv (put b q) \<and> contents (put b q) = contents q @ [b]"
    and advance_law: "inv q \<Longrightarrow> \<not> empty q \<Longrightarrow> inv (advance q) \<and> contents q = front q # contents (advance q)"
begin

lemma fold_put:
  "inv q \<Longrightarrow> length (contents q) + length xs \<le> cap \<Longrightarrow>
   inv (fold put xs q) \<and> contents (fold put xs q) = contents q @ xs"
proof (induction xs arbitrary: q)
  case (Cons x xs)
  then have "\<not> full q" using full_iff by simp
  then have "inv (put x q)" "contents (put x q) = contents q @ [x]" using put_law Cons.prems(1) by blast+
  then show ?case using Cons by simp
qed simp

lemma advance_pow:
  "inv q \<Longrightarrow> k \<le> length (contents q) \<Longrightarrow> inv ((advance ^^ k) q) \<and> contents ((advance ^^ k) q) = drop k (contents q)"
proof (induction k arbitrary: q)
  case (Suc k)
  then have "\<not> empty q" using empty_iff by auto
  then have "inv (advance q)" "contents q = front q # contents (advance q)" using advance_law Suc.prems(1) by blast+
  then show ?case using Suc by (simp add: funpow_swap1)
qed simp

lemma front_nth:
  assumes "inv q" "k < length (contents q)" shows "front ((advance ^^ k) q) = contents q ! k"
proof -
  let ?q = "(advance ^^ k) q"
  have q: "inv ?q" "contents ?q = drop k (contents q)" using advance_pow assms by auto
  then have "\<not> empty ?q" using empty_iff assms(2) by simp
  then have "hd (contents ?q) = front ?q" using advance_law [OF q(1)] by (metis list.sel(1))
  then show ?thesis using q(2) assms(2) by (simp add: hd_drop_conv_nth)
qed

end

definition pipe_ok :: "pipe \<Rightarrow> bool" where
  "pipe_ok p \<longleftrightarrow> length (pi_data p) = PIPESIZE \<and> unat (pi_nwrite p - pi_nread p) \<le> PIPESIZE"

definition pipe_bytes :: "pipe \<Rightarrow> u8 list" where
  "pipe_bytes p = ring PIPESIZE (pi_data p) (pi_nread p) (pi_nwrite p)"

definition pipe_front :: "pipe \<Rightarrow> u8" where
  "pipe_front p = pi_data p ! (unat (pi_nread p) mod PIPESIZE)"

definition pipe_advance :: "pipe \<Rightarrow> pipe" where
  "pipe_advance p = p\<lparr>pi_nread := pi_nread p + 1\<rparr>"

interpretation pq: bounded_queue pipe_ok pipe_bytes PIPESIZE pipe_full pipe_empty put_byte pipe_front pipe_advance
proof
  fix p :: pipe and b assume ok: "pipe_ok p"
  have N: "PIPESIZE dvd 2 ^ LENGTH(32)" "PIPESIZE < 2 ^ LENGTH(32)" by (simp_all add: PIPESIZE_def)
  have d: "length (pi_data p) = PIPESIZE" "unat (pi_nwrite p - pi_nread p) \<le> PIPESIZE" using ok by (simp_all add: pipe_ok_def)
  show f: "pipe_full p \<longleftrightarrow> length (pipe_bytes p) = PIPESIZE"
    using ring_full [OF N(2), of "pi_nwrite p" "pi_nread p"] by (simp add: pipe_full_def pipe_bytes_def)
  show "length (pipe_bytes p) \<le> PIPESIZE" using d by (simp add: pipe_bytes_def)
  show e: "pipe_empty p \<longleftrightarrow> pipe_bytes p = []" by (simp add: pipe_empty_def pipe_bytes_def)
  show "pipe_ok (put_byte b p) \<and> pipe_bytes (put_byte b p) = pipe_bytes p @ [b]" if "\<not> pipe_full p"
  proof -
    have l: "unat (pi_nwrite p - pi_nread p) < PIPESIZE" using that f d(2) by (simp add: pipe_bytes_def)
    have c: "pipe_bytes (put_byte b p) = pipe_bytes p @ [b]"
      using ring_put [OF N d(1) l] by (simp add: pipe_bytes_def put_byte_def)
    then have "length (pipe_bytes (put_byte b p)) \<le> PIPESIZE" using l by (simp add: pipe_bytes_def)
    then show ?thesis using c d(1) by (simp add: pipe_ok_def pipe_bytes_def put_byte_def)
  qed
  show "pipe_ok (pipe_advance p) \<and> pipe_bytes p = pipe_front p # pipe_bytes (pipe_advance p)" if "\<not> pipe_empty p"
  proof -
    have ne: "pi_nread p \<noteq> pi_nwrite p" using that by (simp add: pipe_empty_def)
    then have c: "pipe_bytes p = pipe_front p # pipe_bytes (pipe_advance p)"
      using ring_get [OF ne] by (simp add: pipe_bytes_def pipe_front_def pipe_advance_def)
    then have "length (pipe_bytes (pipe_advance p)) \<le> PIPESIZE" using d(2) by (metis length_ring length_Cons pipe_bytes_def Suc_leD)
    then show ?thesis using c d(1) by (simp add: pipe_ok_def pipe_bytes_def pipe_advance_def)
  qed
qed

section \<open>Writing and reading\<close>

lemma woke_refl: "sched_ok s \<Longrightarrow> woke s s"
proof -
  have "\<exists>st e. procs s j = (procs s j)\<lparr>p_state := st, p_wq_entry := e\<rparr>" for j
    by (intro exI [of _ "p_state (procs s j)"] exI [of _ "p_wq_entry (procs s j)"]) simp
  then show "sched_ok s \<Longrightarrow> woke s s"
    unfolding woke_def by (intro conjI exI [of _ "procs s"] exI [of _ "buckets s"]) simp_all
qed

lemma wakeup_one_woke:
  assumes "sched_ok s" shows "\<exists>s'. wakeup_one c s = Some s' \<and> woke s s'"
proof -
  obtain qs where q: "sched_inv s qs" using assms by (auto simp: sched_ok_def)
  let ?b = "wq_bucket_for c" and ?f = "\<lambda>j. p_chan (procs s j) = c"
  have eq: "wakeup_one c s = (case find ?f (qs ?b) of None \<Rightarrow> Some s
      | Some i \<Rightarrow> wq_remove_locked ?b i (make_runnable i s))"
    using wakeup_one_loop_spec [OF q wq.bucket_less, where zs = "[]" and ys = "qs ?b"]
      bucket_head [OF q, of c] by (simp add: wakeup_one_def Let_def)
  show ?thesis
  proof (cases "find ?f (qs ?b)")
    case None
    then show ?thesis using eq woke_refl [OF assms] by simp
  next
    case (Some i)
    then have "i \<in> set (qs ?b)" by (auto simp: find_Some_iff)
    then obtain s' where s': "wq_remove_locked ?b i (make_runnable i s) = Some s'"
        "sched_inv s' (qs(?b := remove1 i (qs ?b)))" "wq_frame {i} (make_runnable i s) s'"
      using wake_entry [OF q wq.bucket_less] by blast
    have "\<exists>st e. procs s' j = (procs s j)\<lparr>p_state := st, p_wq_entry := e\<rparr>" for j
    proof -
      have "\<exists>st. pcore (procs s' j) = (pcore (procs s j))\<lparr>p_state := st\<rparr>"
        using wake_entry_pcore [OF s'(3), of j] by (auto intro: exI [where x = "p_state (procs s j)"])
      then show ?thesis using pcore_eq_state by blast
    qed
    moreover obtain ps bs where "s' = s\<lparr>procs := ps, buckets := bs\<rparr>"
      using wake_frame_entry [OF s'(3)] by (auto simp: wake_frame_def)
    ultimately have "woke s s'" using s'(2) unfolding woke_def sched_ok_def by auto
    then show ?thesis using eq Some s'(1) by simp
  qed
qed

lemma wake_one_fast_woke: "sched_ok s \<Longrightarrow> \<exists>s'. wake_one_fast c s = Ok s' \<and> woke s s'"
  using wakeup_one_woke [of s c] woke_refl [of s] by (auto simp: wake_one_fast_def)

lemma upd_pipe_simps [simp]:
  "pipes (upd_pipe a f s) b = (if b = a then f (pipes s a) else pipes s b)" "mem (upd_pipe a f s) = mem s"
  "procs (upd_pipe a f s) = procs s" "buckets (upd_pipe a f s) = buckets s" "killed me (upd_pipe a f s) = killed me s"
  "sched_ok (upd_pipe a f s) = sched_ok s"
proof -
  show "sched_ok (upd_pipe a f s) = sched_ok s" by (rule sched_ok_cong) (simp_all add: upd_pipe_def)
qed (simp_all add: upd_pipe_def killed_def)

lemma upd_pipe_twice: "upd_pipe a g (upd_pipe a f s) = upd_pipe a (g \<circ> f) s"
  by (simp add: upd_pipe_def)

lemma upd_pipe_id: "upd_pipe a id s = s" "upd_pipe a (\<lambda>p. p) s = s"
  by (simp_all add: upd_pipe_def)

text \<open>One byte of a user range.\<close>

lemma readable_byte:
  assumes "readable m pt va n" "k < n"
  shows "readable m pt (va + of_nat k) 1" "user_bytes m pt (va + of_nat k) 1 = [user_bytes m pt va n ! k]"
proof -
  have "readable m pt (va + of_nat k) (n - k)" using readable_shift assms by simp
  then show "readable m pt (va + of_nat k) 1" using assms(2) by (auto simp: readable_def dest: spec [of _ 0])
  show "user_bytes m pt (va + of_nat k) 1 = [user_bytes m pt va n ! k]" using assms(2) by (simp add: user_bytes_def)
qed

lemma length_user_bytes [simp]: "length (user_bytes m pt va n) = n"
  by (simp add: user_bytes_def)

section \<open>Writing\<close>

definition pipe_room :: "pipe \<Rightarrow> nat" where
  "pipe_room p = PIPESIZE - length (pipe_bytes p)"

lemma pipe_room_put:
  assumes "pipe_ok p" "\<not> pipe_full p"
  shows "pipe_ok (put_byte b p)" "pipe_bytes (put_byte b p) = pipe_bytes p @ [b]" "pipe_room p = Suc (pipe_room (put_byte b p))"
proof -
  show p: "pipe_ok (put_byte b p)" "pipe_bytes (put_byte b p) = pipe_bytes p @ [b]" using pq.put_law assms by blast+
  show "pipe_room p = Suc (pipe_room (put_byte b p))"
    using pq.full_iff [OF assms(1)] pq.within_cap [OF assms(1)] assms(2) p(2) by (simp add: pipe_room_def)
qed

lemma put_byte_simps [simp]:
  "pi_readopen (put_byte b p) = pi_readopen p" "pi_writeopen (put_byte b p) = pi_writeopen p" "pi_nread (put_byte b p) = pi_nread p"
  by (simp_all add: put_byte_def)

lemma fold_put_ends: "pi_readopen (fold put_byte xs p) = pi_readopen p \<and> pi_writeopen (fold put_byte xs p) = pi_writeopen p"
  by (induction xs arbitrary: p) simp_all

lemma pipewrite_loop_ok:
  fixes s :: kernel
  assumes "sched_ok s" "pipe_ok (pipes s pi)" "pi_readopen (pipes s pi)" "killed me s = 0"
    "readable (mem s) (p_pagetable (procs s me)) addr N" "k \<le> N"
    "m = min (N - k) (pipe_room (pipes s pi))" "ub = user_bytes (mem s) (p_pagetable (procs s me)) addr N"
  shows "\<exists>s'. pipewrite_loop me pi addr (int N) (int k) s =
      Ok (if m = N - k then Done (int N) else Blocked (nwrite_chan pi), int (k + m), s') \<and>
    wake_one_fast (nread_chan pi) (upd_pipe pi (fold put_byte (take m (drop k ub))) s) = Ok s'"
  using assms
proof (induction "N - k" arbitrary: k s m ub)
  case 0
  obtain s' where "wake_one_fast (nread_chan pi) s = Ok s'" "woke s s'" using wake_one_fast_woke [OF 0(2)] by blast
  then show ?case using 0 by (subst pipewrite_loop.simps) (simp add: upd_pipe_id)
next
  case (Suc d)
  note p = Suc.prems
  show ?case
  proof (cases "pipe_full (pipes s pi)")
    case True
    then have room: "pipe_room (pipes s pi) = 0" using pq.full_iff [OF p(2)] by (simp add: pipe_room_def)
    obtain s' where "wake_one_fast (nread_chan pi) s = Ok s'" "woke s s'" using wake_one_fast_woke [OF p(1)] by blast
    then show ?thesis using p Suc.hyps(2) True room by (subst pipewrite_loop.simps) (auto simp: upd_pipe_id)
  next
    case False
    let ?b = "user_bytes (mem s) (p_pagetable (procs s me)) addr N ! k"
    let ?s = "upd_pipe pi (put_byte ?b) s"
    note room = pipe_room_put [OF p(2) False, of ?b]
    have k: "k < N" using Suc.hyps(2) by linarith
    have step: "pipewrite_loop me pi addr (int N) (int k) s = pipewrite_loop me pi addr (int N) (int (Suc k)) ?s"
      using p(3,4) False k copyin_spec [OF readable_byte(1) [OF p(5) k]] readable_byte(2) [OF p(5) k]
      by (subst pipewrite_loop.simps) (simp add: add.commute)
    have "\<exists>s'. pipewrite_loop me pi addr (int N) (int (Suc k)) ?s =
        Ok (if min (N - Suc k) (pipe_room (pipes ?s pi)) = N - Suc k then Done (int N) else Blocked (nwrite_chan pi),
          int (Suc k + min (N - Suc k) (pipe_room (pipes ?s pi))), s') \<and>
      wake_one_fast (nread_chan pi) (upd_pipe pi (fold put_byte (take (min (N - Suc k) (pipe_room (pipes ?s pi)))
        (drop (Suc k) (user_bytes (mem ?s) (p_pagetable (procs ?s me)) addr N)))) ?s) = Ok s'"
      by (rule Suc.hyps(1)) (use Suc.hyps(2) p room k in simp_all)
    moreover have "min (N - k) (pipe_room (pipes s pi)) = Suc (min (N - Suc k) (pipe_room (pipes ?s pi)))"
      using room k by simp
    moreover have "take (Suc n) (drop k ub) = ?b # take n (drop (Suc k) ub)" for n
      using k p(8) by (simp add: Cons_nth_drop_Suc [symmetric])
    ultimately show ?thesis using step p(7,8) k by (auto simp: upd_pipe_twice)
  qed
qed

section \<open>Reading\<close>

lemma writable_byte:
  assumes "writable m pt va n" "k < n" shows "writable m pt (va + of_nat k) 1"
proof -
  have "writable m pt (va + of_nat k) (n - k)" using writable_shift assms by simp
  then show ?thesis using assms(2) readable_byte(1) [of m pt va n k] assms(1)
    by (auto simp: writable_def dest: spec [of _ 0])
qed

text \<open>\<open>delivered pt va xs m m'\<close>: \<open>m'\<close> is \<open>m\<close> with the bytes \<open>xs\<close> stored at the user address \<open>va\<close>.\<close>

definition delivered :: "u64 \<Rightarrow> u64 \<Rightarrow> u8 list \<Rightarrow> memory \<Rightarrow> memory \<Rightarrow> bool" where
  "delivered pt va xs m m' \<longleftrightarrow>
     (\<forall>i<length xs. m' (tr m pt (va + of_nat i)) = xs ! i) \<and>
     (\<forall>x. (\<forall>i<length xs. x \<noteq> tr m pt (va + of_nat i)) \<longrightarrow> m' x = m x) \<and>
     (\<forall>p\<in>tables m pt. \<forall>x\<in>page p. m' x = m x)"

lemma delivered_Nil [simp]: "delivered pt va [] m m"
  by (simp add: delivered_def)

lemma delivered_user_bytes:
  assumes "delivered pt va xs m m'" "pt_wf m pt" shows "user_bytes m' pt va (length xs) = xs"
proof -
  have "tr m' pt a = tr m pt a" for a using assms tables_untouched(4) unfolding delivered_def by blast
  then show ?thesis using assms(1) by (intro nth_equalityI) (simp_all add: user_bytes_def delivered_def)
qed

lemma delivered_Cons:
  assumes w: "writable m pt va (Suc (length xs))" and d: "delivered pt va [x] m m1" "delivered pt (va + 1) xs m1 m2"
  shows "delivered pt va (x # xs) m m2"
proof -
  have wf: "pt_wf m pt" using w by (simp add: writable_def readable_def)
  have t1: "\<forall>p\<in>tables m pt. \<forall>x\<in>page p. m1 x = m x" using d(1) by (simp add: delivered_def)
  note tu = tables_untouched [OF wf t1]
  have sh: "va + 1 + of_nat i = va + of_nat (Suc i)" for i by (simp add: add.assoc)
  have inj: "tr m pt (va + of_nat i) \<noteq> tr m pt va" if "0 < i" "i \<le> length xs" for i
  proof
    assume "tr m pt (va + of_nat i) = tr m pt va"
    then have "tr m pt (va + of_nat i) = tr m pt (va + of_nat 0)" by simp
    moreover have "i < Suc (length xs)" "0 < Suc (length xs)" using that by simp_all
    ultimately have "i = 0" using w unfolding writable_def by blast
    then show False using that by simp
  qed
  have d2: "\<forall>i<length xs. m2 (tr m pt (va + of_nat (Suc i))) = xs ! i"
      "\<forall>a. (\<forall>i<length xs. a \<noteq> tr m pt (va + of_nat (Suc i))) \<longrightarrow> m2 a = m1 a"
      "\<forall>p\<in>tables m pt. \<forall>x\<in>page p. m2 x = m1 x"
    using d(2) unfolding delivered_def tu sh by blast+
  have d1: "m1 (tr m pt va) = x" "\<And>a. a \<noteq> tr m pt va \<Longrightarrow> m1 a = m a" using d(1) by (auto simp: delivered_def)
  have "m2 (tr m pt va) = x" using d2(2) inj d1(1) by (metis Suc_leI zero_less_Suc)
  then have "\<forall>i<length (x # xs). m2 (tr m pt (va + of_nat i)) = (x # xs) ! i"
    using d2(1) by (auto simp: less_Suc_eq_0_disj)
  moreover have "m2 a = m a" if "\<forall>i<length (x # xs). a \<noteq> tr m pt (va + of_nat i)" for a
  proof -
    have "a \<noteq> tr m pt va" using that by (auto dest: spec [of _ 0])
    moreover have "\<forall>i<length xs. a \<noteq> tr m pt (va + of_nat (Suc i))" using that by (metis Suc_less_eq length_Cons)
    ultimately show ?thesis using d2(2) d1(2) by simp
  qed
  ultimately show ?thesis using d2(3) t1 by (simp add: delivered_def)
qed

lemma copyout_byte:
  assumes "writable (mem s) pt va 1"
  shows "\<exists>m. copyout me pt va [b] s = Ok (0, s\<lparr>mem := m\<rparr>) \<and> delivered pt va [b] (mem s) m"
proof -
  have "writable (mem s) pt va (length [b])" using assms by simp
  from copyout_spec [OF this, of me] obtain m where
    m: "copyout me pt va [b] s = Ok (0, s\<lparr>mem := m\<rparr>)" "user_bytes m pt va 1 = [b]"
      "\<forall>x. x \<noteq> tr (mem s) pt va \<longrightarrow> m x = mem s x" "\<forall>p\<in>tables (mem s) pt. \<forall>x\<in>page p. m x = mem s x"
    by auto
  have "pt_wf (mem s) pt" using assms by (simp add: writable_def readable_def)
  then have "tr m pt va = tr (mem s) pt va" using tables_untouched(4) m(4) by blast
  then have "m (tr (mem s) pt va) = b" using m(2) by (simp add: user_bytes_def)
  then show ?thesis using m by (auto simp: delivered_def)
qed

lemma delivered_writable:
  assumes "delivered pt va xs m m'" "writable m pt va' n" shows "writable m' pt va' n"
  using assms writable_cong unfolding delivered_def by blast

lemma upd_pipe_mem: "upd_pipe a f (s\<lparr>mem := m\<rparr>) = (upd_pipe a f s)\<lparr>mem := m\<rparr>"
  by (simp add: upd_pipe_def)

lemma piperead_copy_ok:
  fixes s :: kernel
  assumes "pipe_ok (pipes s pi)" "writable (mem s) (p_pagetable (procs s me)) (addr + of_nat k) (N - k)" "k \<le> N"
    "c = min (N - k) (length (pipe_bytes (pipes s pi)))"
  shows "\<exists>m. piperead_copy me pi addr (int N) (int k) s = Ok (int (k + c), (upd_pipe pi (pipe_advance ^^ c) s)\<lparr>mem := m\<rparr>) \<and>
    delivered (p_pagetable (procs s me)) (addr + of_nat k) (take c (pipe_bytes (pipes s pi))) (mem s) m"
  using assms
proof (induction "N - k" arbitrary: k s c)
  case 0
  then show ?case by (subst piperead_copy.simps) (auto simp: upd_pipe_id intro: exI [of _ "mem s"])
next
  case (Suc d)
  note p = Suc.prems
  let ?pt = "p_pagetable (procs s me)"
  have k: "k < N" using Suc.hyps(2) by linarith
  show ?case
  proof (cases "pipe_empty (pipes s pi)")
    case True
    then show ?thesis using p pq.empty_iff [OF p(1)] by (subst piperead_copy.simps) (auto simp: upd_pipe_id intro: exI [of _ "mem s"])
  next
    case False
    let ?b = "pipe_front (pipes s pi)"
    have q: "pipe_ok (pipe_advance (pipes s pi))" "pipe_bytes (pipes s pi) = ?b # pipe_bytes (pipe_advance (pipes s pi))"
      using pq.advance_law [OF p(1) False] by blast+
    have w1: "writable (mem s) ?pt (addr + of_nat k) 1" using writable_byte [OF p(2), of 0] k by simp
    obtain m1 where m1: "copyout me ?pt (addr + of_nat k) [?b] s = Ok (0, s\<lparr>mem := m1\<rparr>)"
        "delivered ?pt (addr + of_nat k) [?b] (mem s) m1" using copyout_byte [OF w1] by blast
    let ?s = "upd_pipe pi pipe_advance (s\<lparr>mem := m1\<rparr>)"
    have step: "piperead_copy me pi addr (int N) (int k) s = piperead_copy me pi addr (int N) (int (Suc k)) ?s"
      using False k m1(1) by (subst piperead_copy.simps) (simp add: pipe_front_def pipe_advance_def [abs_def] add.commute Let_def)
    have "addr + of_nat (Suc k) = addr + of_nat k + of_nat 1" "N - Suc k = N - k - 1" by (simp_all add: add.assoc)
    then have w2: "writable m1 ?pt (addr + of_nat (Suc k)) (N - Suc k)"
      using writable_shift [OF delivered_writable [OF m1(2) p(2)], of 1] k by (simp add: add_ac)
    have "\<exists>m. piperead_copy me pi addr (int N) (int (Suc k)) ?s =
        Ok (int (Suc k + min (N - Suc k) (length (pipe_bytes (pipes ?s pi)))),
          (upd_pipe pi (pipe_advance ^^ min (N - Suc k) (length (pipe_bytes (pipes ?s pi)))) ?s)\<lparr>mem := m\<rparr>) \<and>
      delivered (p_pagetable (procs ?s me)) (addr + of_nat (Suc k))
        (take (min (N - Suc k) (length (pipe_bytes (pipes ?s pi)))) (pipe_bytes (pipes ?s pi))) (mem ?s) m"
      by (rule Suc.hyps(1)) (use Suc.hyps(2) p q w2 k in simp_all)
    then obtain n m where n: "n = min (N - Suc k) (length (pipe_bytes (pipe_advance (pipes s pi))))"
        "piperead_copy me pi addr (int N) (int (Suc k)) ?s = Ok (int (Suc k + n), (upd_pipe pi (pipe_advance ^^ n) ?s)\<lparr>mem := m\<rparr>)"
        "delivered ?pt (addr + of_nat (Suc k)) (take n (pipe_bytes (pipe_advance (pipes s pi)))) m1 m" by auto
    have c: "c = Suc n" using p(4) n(1) q(2) k by simp
    have "Suc (length (take n (pipe_bytes (pipe_advance (pipes s pi))))) \<le> N - k" using n(1) k by simp
    then have "writable (mem s) ?pt (addr + of_nat k) (Suc (length (take n (pipe_bytes (pipe_advance (pipes s pi))))))"
      using p(2) by (auto simp: writable_def readable_def)
    from delivered_Cons [OF this m1(2)] n(3)
    have "delivered ?pt (addr + of_nat k) (take c (pipe_bytes (pipes s pi))) (mem s) m"
      unfolding c q(2) by (simp add: add_ac)
    then show ?thesis using step n(2) c by (auto simp: upd_pipe_mem upd_pipe_twice funpow_swap1 comp_def)
  qed
qed

lemma pipe_advance_ends: "pi_readopen ((pipe_advance ^^ c) p) = pi_readopen p \<and> pi_writeopen ((pipe_advance ^^ c) p) = pi_writeopen p"
  by (induction c) (simp_all add: pipe_advance_def)

section \<open>The pipe delivers what was written, in order\<close>

text \<open>
  \<open>pipe_queue\<close>: what a writer and a reader see of a pipe: the bytes in it and whether each end is open.
\<close>

definition pipe_queue :: "pipe \<Rightarrow> u8 list \<times> bool \<times> bool" where
  "pipe_queue p = (pipe_bytes p, pi_readopen p, pi_writeopen p)"

lemma pipewrite_ok:
  fixes s :: kernel
  assumes "sched_ok s" "pipe_ok (pipes s pi)" "pipe_queue (pipes s pi) = (q, True, w)" "killed me s = 0"
    "readable (mem s) (p_pagetable (procs s me)) addr N"
  shows "\<exists>s'. pipewrite_loop me pi addr (int N) 0 s =
      Ok (if length q + N \<le> PIPESIZE then Done (int N) else Blocked (nwrite_chan pi), int (min N (PIPESIZE - length q)), s') \<and>
    wake_one_fast (nread_chan pi) (s\<lparr>pipes := (pipes s)(pi := pipes s' pi)\<rparr>) = Ok s' \<and>
    woke (s\<lparr>pipes := (pipes s)(pi := pipes s' pi)\<rparr>) s' \<and> pipe_ok (pipes s' pi) \<and>
    pipe_queue (pipes s' pi) =
      (q @ take (PIPESIZE - length q) (user_bytes (mem s) (p_pagetable (procs s me)) addr N), True, w)"
proof -
  let ?m = "min N (pipe_room (pipes s pi))" and ?ub = "user_bytes (mem s) (p_pagetable (procs s me)) addr N"
  let ?xs = "take ?m ?ub"
  have q: "pipe_bytes (pipes s pi) = q" "pi_readopen (pipes s pi)" "pi_writeopen (pipes s pi) = w"
    using assms(3) by (simp_all add: pipe_queue_def)
  have len: "length q \<le> PIPESIZE" using pq.within_cap [OF assms(2)] q(1) by simp
  obtain s' where s': "pipewrite_loop me pi addr (int N) 0 s =
      Ok (if ?m = N then Done (int N) else Blocked (nwrite_chan pi), int ?m, s')"
      "wake_one_fast (nread_chan pi) (upd_pipe pi (fold put_byte ?xs) s) = Ok s'"
    using pipewrite_loop_ok [OF assms(1,2) q(2) assms(4,5), of 0 ?m ?ub] by auto
  have wk: "woke (upd_pipe pi (fold put_byte ?xs) s) s'"
    using wake_one_fast_woke [of "upd_pipe pi (fold put_byte ?xs) s" "nread_chan pi"] s'(2) assms(1) by auto
  have p': "pipes s' = (pipes s)(pi := fold put_byte ?xs (pipes s pi))"
    using woke_simps [OF wk] by (auto simp: fun_eq_iff)
  have "pipe_ok (fold put_byte ?xs (pipes s pi)) \<and> pipe_bytes (fold put_byte ?xs (pipes s pi)) = q @ ?xs"
    using pq.fold_put [OF assms(2), of ?xs] q(1) len by (simp add: pipe_room_def)
  moreover have "?xs = take (PIPESIZE - length q) ?ub" using q(1) by (simp add: pipe_room_def min_def)
  ultimately have "pipe_ok (pipes s' pi)" "pipe_queue (pipes s' pi) = (q @ take (PIPESIZE - length q) ?ub, True, w)"
    using fold_put_ends [of ?xs "pipes s pi"] q p' by (simp_all add: pipe_queue_def)
  moreover have "upd_pipe pi (fold put_byte ?xs) s = s\<lparr>pipes := (pipes s)(pi := pipes s' pi)\<rparr>"
    using p' by (simp add: upd_pipe_def)
  moreover have "?m = N \<longleftrightarrow> length q + N \<le> PIPESIZE" using len q(1) by (auto simp: pipe_room_def)
  moreover have "?m = min N (PIPESIZE - length q)" using q(1) by (simp add: pipe_room_def)
  ultimately show ?thesis using s' wk by simp
qed

lemma piperead_ok:
  fixes s :: kernel
  assumes "sched_ok s" "pipe_ok (pipes s pi)" "pipe_queue (pipes s pi) = (q, r, w)" "q \<noteq> [] \<or> \<not> w"
    "writable (mem s) (p_pagetable (procs s me)) addr N"
  shows "\<exists>s'. piperead me pi addr (int N) s = Ok (int (min N (length q)), s') \<and>
    wake_one_fast (nwrite_chan pi) (s\<lparr>pipes := (pipes s)(pi := pipes s' pi), mem := mem s'\<rparr>) = Ok s' \<and>
    woke (s\<lparr>pipes := (pipes s)(pi := pipes s' pi), mem := mem s'\<rparr>) s' \<and> pipe_ok (pipes s' pi) \<and>
    pipe_queue (pipes s' pi) = (drop N q, r, w) \<and>
    delivered (p_pagetable (procs s me)) addr (take N q) (mem s) (mem s')"
proof -
  let ?c = "min N (length q)"
  have q: "pipe_bytes (pipes s pi) = q" "pi_readopen (pipes s pi) = r" "pi_writeopen (pipes s pi) = w"
    using assms(3) by (simp_all add: pipe_queue_def)
  have ne: "\<not> (pipe_empty (pipes s pi) \<and> pi_writeopen (pipes s pi))"
    using pq.empty_iff [OF assms(2)] q assms(4) by auto
  obtain m where m: "piperead_copy me pi addr (int N) 0 s = Ok (int ?c, (upd_pipe pi (pipe_advance ^^ ?c) s)\<lparr>mem := m\<rparr>)"
      "delivered (p_pagetable (procs s me)) addr (take ?c q) (mem s) m"
    using piperead_copy_ok [OF assms(2), of me addr 0 N ?c] assms(5) q(1) by auto
  let ?s = "(upd_pipe pi (pipe_advance ^^ ?c) s)\<lparr>mem := m\<rparr>"
  have "sched_ok ?s" using assms(1) sched_ok_cong [of ?s s] by simp
  then obtain s' where s': "wake_one_fast (nwrite_chan pi) ?s = Ok s'" "woke ?s s'" using wake_one_fast_woke by blast
  have w: "mem s' = m" "pipes s' = (pipes s)(pi := (pipe_advance ^^ ?c) (pipes s pi))"
    using woke_simps [OF s'(2)] by (auto simp: fun_eq_iff)
  have "pipe_ok ((pipe_advance ^^ ?c) (pipes s pi)) \<and> pipe_bytes ((pipe_advance ^^ ?c) (pipes s pi)) = drop ?c q"
    using pq.advance_pow [OF assms(2), of ?c] q(1) by simp
  moreover have "drop ?c q = drop N q" "take ?c q = take N q" by (simp_all add: min_def)
  ultimately have "pipe_ok (pipes s' pi)" "pipe_queue (pipes s' pi) = (drop N q, r, w)"
      "delivered (p_pagetable (procs s me)) addr (take N q) (mem s) (mem s')"
    using w m(2) pipe_advance_ends [of ?c "pipes s pi"] q by (simp_all add: pipe_queue_def)
  moreover have "?s = s\<lparr>pipes := (pipes s)(pi := pipes s' pi), mem := mem s'\<rparr>" using w by (simp add: upd_pipe_def)
  ultimately show ?thesis using s' m(1) ne by (simp add: piperead_def piperead_run_def)
qed

text \<open>
  (C10) A pipe is a first-in first-out byte queue between two address spaces. A writer that finds the
  reading end open appends its user bytes, in order, behind what the pipe holds, as many as there is room
  for, and returns their number when all fit and otherwise goes to sleep on the writers' channel. A later
  read of \<open>M\<close> bytes returns the first \<open>M\<close> bytes of that queue in the reader's memory (all of them when
  there are fewer), leaves the rest in the pipe, and changes no other memory. The 32-bit counters may
  wrap around at any point.
\<close>

theorem pipe_fifo:
  fixes s :: kernel
  assumes "sched_ok s" "pipe_ok (pipes s pi)" "pipe_queue (pipes s pi) = (q, True, w)" "killed a s = 0"
    "readable (mem s) (p_pagetable (procs s a)) src N" "writable (mem s) (p_pagetable (procs s b)) dst M"
    "q \<noteq> [] \<or> 0 < N"
  shows "\<exists>r s1 s2. let q' = q @ take (PIPESIZE - length q) (user_bytes (mem s) (p_pagetable (procs s a)) src N) in
    pipewrite_loop a pi src (int N) 0 s = Ok (r, int (length q' - length q), s1) \<and>
    r = (if length q + N \<le> PIPESIZE then Done (int N) else Blocked (nwrite_chan pi)) \<and>
    pipe_queue (pipes s1 pi) = (q', True, w) \<and> mem s1 = mem s \<and>
    piperead b pi dst (int M) s1 = Ok (int (min M (length q')), s2) \<and>
    pipe_queue (pipes s2 pi) = (drop M q', True, w) \<and>
    delivered (p_pagetable (procs s b)) dst (take M q') (mem s) (mem s2) \<and>
    user_bytes (mem s2) (p_pagetable (procs s b)) dst (min M (length q')) = take M q' \<and>
    (\<forall>x. x \<noteq> pi \<longrightarrow> pipes s2 x = pipes s x)"
proof -
  let ?q = "q @ take (PIPESIZE - length q) (user_bytes (mem s) (p_pagetable (procs s a)) src N)"
  obtain s1 where s1: "pipewrite_loop a pi src (int N) 0 s =
      Ok (if length q + N \<le> PIPESIZE then Done (int N) else Blocked (nwrite_chan pi), int (min N (PIPESIZE - length q)), s1)"
      "woke (s\<lparr>pipes := (pipes s)(pi := pipes s1 pi)\<rparr>) s1" "pipe_ok (pipes s1 pi)" "pipe_queue (pipes s1 pi) = (?q, True, w)"
    using pipewrite_ok [OF assms(1-5)] by blast
  have w1: "mem s1 = mem s" "p_pagetable (procs s1 j) = p_pagetable (procs s j)" "sched_ok s1" for j
    using woke_simps [OF s1(2)] s1(2) by (simp_all add: woke_def)
  have len: "length q \<le> PIPESIZE" using pq.within_cap [OF assms(2)] assms(3) by (simp add: pipe_queue_def)
  have ne: "?q \<noteq> [] \<or> \<not> w"
    using assms(7) len by (cases q) (auto simp: PIPESIZE_def dest: arg_cong [of _ _ length])
  have "writable (mem s1) (p_pagetable (procs s1 b)) dst M" using assms(6) w1 by simp
  from piperead_ok [OF w1(3) s1(3,4) ne this] obtain s2 where
    s2: "piperead b pi dst (int M) s1 = Ok (int (min M (length ?q)), s2)"
      "woke (s1\<lparr>pipes := (pipes s1)(pi := pipes s2 pi), mem := mem s2\<rparr>) s2"
      "pipe_queue (pipes s2 pi) = (drop M ?q, True, w)"
      "delivered (p_pagetable (procs s1 b)) dst (take M ?q) (mem s1) (mem s2)"
    by blast
  have d: "delivered (p_pagetable (procs s b)) dst (take M ?q) (mem s) (mem s2)" using s2(4) by (simp only: w1)
  have "pt_wf (mem s) (p_pagetable (procs s b))" using assms(6) by (simp add: writable_def readable_def)
  from delivered_user_bytes [OF d this]
  have u: "user_bytes (mem s2) (p_pagetable (procs s b)) dst (min M (length ?q)) = take M ?q"
    by (simp only: length_take min.commute)
  have f: "\<forall>x. x \<noteq> pi \<longrightarrow> pipes s2 x = pipes s x"
    using woke_simps(9) [OF s1(2)] woke_simps(9) [OF s2(2)] by (simp add: fun_eq_iff)
  have n: "min N (PIPESIZE - length q) = length ?q - length q" by simp
  show ?thesis unfolding Let_def n [symmetric]
    by (rule exI, rule exI [of _ s1], rule exI [of _ s2], rule conjI, rule s1(1)) (intro conjI refl s1(4) s2(1,3) d u f w1(1))
qed

text \<open>A machine whose processes run in one address space: the starting point of concrete runs.\<close>

definition run_kernel :: "memory \<Rightarrow> u64 \<Rightarrow> pipe \<Rightarrow> kernel" where
  "run_kernel m pt p = boot_kernel\<lparr>mem := m, procs := \<lambda>_. boot_proc\<lparr>p_pagetable := pt\<rparr>, pipes := \<lambda>_. p\<rparr>"

lemma run_kernel_simps [simp]:
  "mem (run_kernel m pt p) = m" "procs (run_kernel m pt p) i = boot_proc\<lparr>p_pagetable := pt\<rparr>"
  "pipes (run_kernel m pt p) x = p" "killed i (run_kernel m pt p) = 0"
  by (simp_all add: run_kernel_def killed_def boot_proc_def)

lemma run_kernel_sched: "sched_inv (run_kernel m pt p) (\<lambda>_. [])"
  by (simp add: sched_inv_def wq_queues_def wq_queue_def run_kernel_def boot_kernel_def boot_proc_def)

text \<open>An open pipe that is empty just before its counters wrap around.\<close>

definition wrap_pipe :: pipe where
  "wrap_pipe = \<lparr>pi_data = replicate PIPESIZE 0, pi_nread = -1, pi_nwrite = -1, pi_readopen = True, pi_writeopen = True\<rparr>"

lemma wrap_pipe: "pipe_ok wrap_pipe" "pipe_queue wrap_pipe = ([], True, True)"
  by (simp_all add: pipe_ok_def pipe_queue_def pipe_bytes_def wrap_pipe_def PIPESIZE_def ring_def)

theorem pipe_fifo_witness:
  "\<exists>m pt s1 s2. pipewrite_loop 1 0x87000000 0x1FFE 2 0 (run_kernel m pt wrap_pipe) = Ok (Done 2, 2, s1) \<and>
     piperead 2 0x87000000 0x1FFE 2 s1 = Ok (2, s2) \<and>
     user_bytes (mem s2) pt 0x1FFE 2 = user_bytes m pt 0x1FFE 2"
proof -
  obtain s :: kstate and pt where w: "writable (mem s) pt 0x1FFE 2" using boot_mapped by blast
  let ?s = "run_kernel (mem s) pt wrap_pipe"
  have "sched_ok ?s" using run_kernel_sched unfolding sched_ok_def by blast
  moreover have "readable (mem s) pt 0x1FFE 2" using w by (simp add: writable_def)
  ultimately obtain s1 s2 where
    "pipewrite_loop 1 0x87000000 0x1FFE (int 2) 0 ?s = Ok (Done (int 2), int 2, s1)"
    "piperead 2 0x87000000 0x1FFE (int 2) s1 = Ok (int 2, s2)"
    "user_bytes (mem s2) pt 0x1FFE 2 = take 2 (take PIPESIZE (user_bytes (mem s) pt 0x1FFE 2))"
    using pipe_fifo [of ?s "0x87000000" "[]" True 1 "0x1FFE" 2 2 "0x1FFE" 2] wrap_pipe w
    by (auto simp: Let_def PIPESIZE_def boot_proc_def)
  then show ?thesis by (intro exI [of _ "mem s"] exI [of _ pt] exI [of _ s1] exI [of _ s2]) (simp add: PIPESIZE_def)
qed

section \<open>Two readers\<close>

lemma wakeup_one_keeps:
  assumes "sched_inv s qs" "wakeup_one c s = Some s'"
  shows "\<exists>qs' i. sched_inv s' qs' \<and> (\<forall>j c'. sleeps_on s j c' \<and> (c' \<noteq> c \<or> j \<noteq> i) \<longrightarrow> sleeps_on s' j c')"
proof (cases "find (\<lambda>j. p_chan (procs s j) = c) (qs (wq_bucket_for c))")
  case None
  then have "s' = s" using wakeup_one_spec [OF assms(1), of c] assms(2) by simp
  then show ?thesis using assms(1) by blast
next
  case (Some i)
  then have w: "sleeps_on s i c" "sched_inv s' (qs(wq_bucket_for c := remove1 i (qs (wq_bucket_for c))))"
      "\<And>j. pcore (procs s' j) = (if j = i then (pcore (procs s i))\<lparr>p_state := RUNNABLE\<rparr> else pcore (procs s j))"
    using wakeup_one_spec [OF assms(1), of c] assms(2) by auto
  have "p_state (procs s' j) = p_state (procs s j)" "p_chan (procs s' j) = p_chan (procs s j)" if "j \<noteq> i" for j
    using arg_cong [OF w(3) [of j], of p_state] arg_cong [OF w(3) [of j], of p_chan] that by simp_all
  then have "sleeps_on s j c' \<and> (c' \<noteq> c \<or> j \<noteq> i) \<longrightarrow> sleeps_on s' j c'" for j c'
    using w(1) by (cases "j = i") (auto simp: sleeps_on_def)
  then show ?thesis using w(2) by blast
qed

lemma sleeps_on_upd:
  "sleeps_on (s\<lparr>pipes := p\<rparr>) j c = sleeps_on s j c" "sleeps_on (s\<lparr>pipes := p, mem := m\<rparr>) j c = sleeps_on s j c"
  by (simp_all add: sleeps_on_def)

lemma wake_one_fast_keeps:
  assumes "sched_ok s" "wake_one_fast c s = Ok s'"
  shows "\<exists>i. \<forall>j c'. sleeps_on s j c' \<and> (c' \<noteq> c \<or> j \<noteq> i) \<longrightarrow> sleeps_on s' j c'"
proof (cases "wq_has_sleeper c s")
  case True
  then have "wakeup_one c s = Some s'" using assms(2) by (cases "wakeup_one c s") (simp_all add: wake_one_fast_def)
  then show ?thesis using wakeup_one_keeps assms(1) unfolding sched_ok_def by meson
qed (use assms(2) in \<open>simp add: wake_one_fast_def\<close>)

text \<open>
  (C11) \<^verbatim>\<open>wakeup_one\<close> strands a reader. When two processes sleep in \<^verbatim>\<open>piperead\<close> and a writer puts \<open>N\<close>
  bytes into the empty pipe, one reader is woken; after a reader has taken \<open>M < N\<close> bytes, one of the two
  is still asleep on the readers' channel although the pipe holds data, because \<^verbatim>\<open>piperead\<close> wakes
  writers only.
\<close>

theorem pipe_reader_stranded:
  fixes s :: kernel
  assumes "sched_ok s" "pipe_ok (pipes s pi)" "pipe_queue (pipes s pi) = ([], True, w)" "killed a s = 0"
    "readable (mem s) (p_pagetable (procs s a)) src N" "writable (mem s) (p_pagetable (procs s b)) dst M"
    "M < N" "N \<le> PIPESIZE" "sleeps_on s i (nread_chan pi)" "sleeps_on s j (nread_chan pi)" "i \<noteq> j"
  shows "\<exists>s1 s2. pipewrite a pi src (int N) s = Ok (int N, s1) \<and> piperead b pi dst (int M) s1 = Ok (int M, s2) \<and>
    pipe_bytes (pipes s2 pi) \<noteq> [] \<and> (sleeps_on s2 i (nread_chan pi) \<or> sleeps_on s2 j (nread_chan pi))"
proof -
  let ?q = "user_bytes (mem s) (p_pagetable (procs s a)) src N"
  obtain s1 where s1: "pipewrite_loop a pi src (int N) 0 s = Ok (Done (int N), int N, s1)"
      "wake_one_fast (nread_chan pi) (s\<lparr>pipes := (pipes s)(pi := pipes s1 pi)\<rparr>) = Ok s1"
      "woke (s\<lparr>pipes := (pipes s)(pi := pipes s1 pi)\<rparr>) s1" "pipe_ok (pipes s1 pi)" "pipe_queue (pipes s1 pi) = (?q, True, w)"
    using pipewrite_ok [OF assms(1-5)] assms(8) by auto
  have w1: "mem s1 = mem s" "p_pagetable (procs s1 j) = p_pagetable (procs s j)" "sched_ok s1" for j
    using woke_simps [OF s1(3)] s1(3) by (simp_all add: woke_def)
  have "sched_ok (s\<lparr>pipes := (pipes s)(pi := pipes s1 pi)\<rparr>)" 
    by (rule sched_ok_cong [THEN iffD2, OF _ _ assms(1)]) simp_all
  from wake_one_fast_keeps [OF this s1(2)] assms(9-11)
  have z: "sleeps_on s1 i (nread_chan pi) \<or> sleeps_on s1 j (nread_chan pi)" unfolding sleeps_on_upd by metis
  have "?q \<noteq> [] \<or> \<not> w" "writable (mem s1) (p_pagetable (procs s1 b)) dst M"
    using assms(6,7) w1 by (auto dest: arg_cong [of _ _ length])
  from piperead_ok [OF w1(3) s1(4,5) this] obtain s2 where
    s2: "piperead b pi dst (int M) s1 = Ok (int (min M (length ?q)), s2)"
      "wake_one_fast (nwrite_chan pi) (s1\<lparr>pipes := (pipes s1)(pi := pipes s2 pi), mem := mem s2\<rparr>) = Ok s2"
      "pipe_queue (pipes s2 pi) = (drop M ?q, True, w)" by blast
  have ok: "sched_ok (s1\<lparr>pipes := (pipes s1)(pi := pipes s2 pi), mem := mem s2\<rparr>)"
    by (rule sched_ok_cong [THEN iffD2, OF _ _ w1(3)]) simp_all
  have "nread_chan pi \<noteq> nwrite_chan pi" by (simp add: nread_chan_def nwrite_chan_def)
  with wake_one_fast_keeps [OF ok s2(2)] z
  have "sleeps_on s2 i (nread_chan pi) \<or> sleeps_on s2 j (nread_chan pi)" unfolding sleeps_on_upd by metis
  moreover have "pipe_bytes (pipes s2 pi) \<noteq> []"
    using s2(3) assms(7) by (auto simp: pipe_queue_def dest: arg_cong [of _ _ length])
  ultimately show ?thesis using s1(1) s2(1) assms(7) by (simp add: pipewrite_def min_absorb1)
qed

text \<open>Processes 2 and 3 asleep in \<^verbatim>\<open>piperead\<close> of the pipe at \<open>0x87000000\<close>.\<close>

definition two_readers :: "memory \<Rightarrow> u64 \<Rightarrow> kernel" where
  "two_readers m pt = sleep_prepare 3 (nread_chan 0x87000000) (sleep_prepare 2 (nread_chan 0x87000000) (run_kernel m pt wrap_pipe))"

lemma sleep_prepare_frame: "pipes (sleep_prepare i c s) = pipes s" "mem (sleep_prepare i c s) = mem s"
  "p_pagetable (procs (sleep_prepare i c s) j) = p_pagetable (procs s j)" "killed j (sleep_prepare i c s) = killed j s"
proof -
  show "pipes (sleep_prepare i c s) = pipes s" "mem (sleep_prepare i c s) = mem s"
    by (simp_all add: sleep_prepare_def wq_add_locked_def upd_proc_def upd_entry_def set_head_def Let_def)
  show "p_pagetable (procs (sleep_prepare i c s) j) = p_pagetable (procs s j)" "killed j (sleep_prepare i c s) = killed j s"
    using arg_cong [OF sleep_prepare_procs [of i c s j], of p_pagetable]
      arg_cong [OF sleep_prepare_procs [of i c s j], of p_killed] by (simp_all add: killed_def pcore_def split: if_splits)
qed

theorem pipe_reader_stranded_witness:
  "\<exists>m pt s1 s2. pipewrite 1 0x87000000 0x1FFE 2 (two_readers m pt) = Ok (2, s1) \<and>
     piperead 3 0x87000000 0x1FFE 1 s1 = Ok (1, s2) \<and> pipe_bytes (pipes s2 0x87000000) \<noteq> [] \<and>
     (sleeps_on s2 2 (nread_chan 0x87000000) \<or> sleeps_on s2 3 (nread_chan 0x87000000))"
proof -
  obtain s :: kstate and pt where w: "writable (mem s) pt 0x1FFE 2" using boot_mapped by blast
  let ?s = "run_kernel (mem s) pt wrap_pipe" and ?c = "nread_chan 0x87000000"
  define t where "t = two_readers (mem s) pt"
  have "sched_inv (sleep_prepare 2 ?c ?s) ((\<lambda>_. [])(wq_bucket_for ?c := [2]))"
    using sleep_prepare_inv [OF run_kernel_sched, of 2] by (simp add: NPROC_def boot_proc_def)
  from sleep_prepare_inv [OF this, of 3 ?c] have "sched_ok t"
    unfolding t_def two_readers_def sched_ok_def by (auto simp: NPROC_def boot_proc_def sleep_prepare_state)
  moreover have "readable (mem s) pt 0x1FFE 2" "writable (mem s) pt 0x1FFE 1"
    using w writable_byte [OF w, of 0] by (simp_all add: writable_def)
  moreover have "sleeps_on t 2 ?c" "sleeps_on t 3 ?c"
    by (simp_all add: t_def two_readers_def sleeps_on_def sleep_prepare_state)
  moreover have "pipes t 0x87000000 = wrap_pipe" "mem t = mem s" "killed 1 t = 0" "p_pagetable (procs t k) = pt" for k
    by (simp_all add: t_def two_readers_def sleep_prepare_frame)
  ultimately show ?thesis
    using pipe_reader_stranded [of t "0x87000000" True 1 "0x1FFE" 2 3 "0x1FFE" 1 2 3] wrap_pipe
    unfolding t_def by (auto simp: PIPESIZE_def)
qed

end
