(* ===== verification/Console.thy ===== *)
theory Console
  imports Pipe Printf
begin

text \<open>
  The console (\<^verbatim>\<open>kernel/console.c\<close>), the interrupt-driven half of the UART driver (\<^verbatim>\<open>kernel/uart.c\<close>) and
  \<^verbatim>\<open>procdump\<close> of \<^verbatim>\<open>kernel/proc.c\<close>, which control-P runs. The device is its receive queue, a list of bytes,
  and the bytes written to its transmit register (\<open>uart_out\<close>). The sleep in \<^verbatim>\<open>uartwrite\<close> is ended only by
  the transmit-complete interrupt, which the device raises when it has sent a byte; the model takes
  that interrupt during the sleep.
\<close>

section \<open>UART\<close>

text \<open>The register writes of \<^verbatim>\<open>uartinit\<close>, as pairs of register number and value, in program order.\<close>

definition uartinit :: "(nat \<times> u8) list" where
  "uartinit = [(1, 0x00), (3, 0x80), (0, 0x03), (1, 0x00), (3, 0x03), (2, 0x01 OR 0x06), (1, 0x02 OR 0x01)]"

text \<open>The first section of \<^verbatim>\<open>uartintr\<close>; \<open>lsr_tx_idle\<close> is the bit LSR_TX_IDLE it reads.\<close>

definition uartintr_tx :: "bool \<Rightarrow> kernel \<Rightarrow> kernel res" where
  "uartintr_tx lsr_tx_idle s =
     (if lsr_tx_idle then do_wakeup (a_tx_chan (syms s)) (s\<lparr>tx_busy := False\<rparr>) else Ok s)"

fun uartwrite :: "u8 list \<Rightarrow> kernel \<Rightarrow> kernel res" where
  "uartwrite [] s = Ok s"
| "uartwrite (c # cs) s =
     res_bind (if tx_busy s then uartintr_tx True s else Ok s) (\<lambda>s.
     uartwrite cs (s\<lparr>uart_out := uart_out s @ [c], tx_busy := True\<rparr>))"

definition uartgetc :: "u8 list \<Rightarrow> int \<times> u8 list" where
  "uartgetc rx = (case rx of [] \<Rightarrow> (-1, []) | c # rx \<Rightarrow> (uint c, rx))"

section \<open>Writing to and reading from the console\<close>

function consolewrite_loop :: "nat \<Rightarrow> ksrc \<Rightarrow> int \<Rightarrow> int \<Rightarrow> kernel \<Rightarrow> (int \<times> kernel) res" where
  "consolewrite_loop me src n i s =
     (if i < n
      then (let nn = min 32 (n - i) in
        res_bind (either_copyin me (ksrc_add src (word_of_int i)) (nat nn) s) (\<lambda>(r, buf, s).
        if r = -1 then Ok (i, s)
        else res_bind (uartwrite buf s) (consolewrite_loop me src n (i + nn))))
      else Ok (i, s))"
  by pat_completeness auto
termination
  by (relation "measure (\<lambda>(_, _, n, i, _). nat (n - i))") auto

declare consolewrite_loop.simps [simp del]

definition consolewrite :: "nat \<Rightarrow> ksrc \<Rightarrow> int \<Rightarrow> kernel \<Rightarrow> (int \<times> kernel) res" where
  "consolewrite me src n s = consolewrite_loop me src n 0 s"

definition upd_cons :: "(consbuf \<Rightarrow> consbuf) \<Rightarrow> kernel \<Rightarrow> kernel" where
  "upd_cons f s = s\<lparr>cons := f (cons s)\<rparr>"

text \<open>
  \<open>consoleread_loop me dst target n s\<close>: \<^verbatim>\<open>consoleread\<close> from the test of its outer loop on, with \<open>n\<close> bytes
  still wanted. When it blocks, the destination and the count at that point are returned for the
  continuation.
\<close>

function consoleread_loop ::
    "nat \<Rightarrow> kdst \<Rightarrow> int \<Rightarrow> int \<Rightarrow> kernel \<Rightarrow> (outcome \<times> kdst \<times> int \<times> kernel) res" where
  "consoleread_loop me dst target n s =
     (if n > 0
      then (if cons_r (cons s) = cons_w (cons s)
        then (if killed me s \<noteq> 0 then Ok (Done (-1), dst, n, s) else Ok (Blocked (a_cons_r (syms s)), dst, n, s))
        else (let c = cons_buf (cons s) ! (unat (cons_r (cons s)) mod INPUT_BUF_SIZE);
                  s = upd_cons (\<lambda>b. b\<lparr>cons_r := cons_r b + 1\<rparr>) s in
          if c = 4
          then Ok (Done (target - n), dst, n, if n < target then upd_cons (\<lambda>b. b\<lparr>cons_r := cons_r b - 1\<rparr>) s else s)
          else res_bind (either_copyout me dst [c] s) (\<lambda>(r, s).
            if r = -1 then Ok (Done (target - n), dst, n, s)
            else if c = 10 then Ok (Done (target - (n - 1)), kdst_add dst 1, n - 1, s)
            else consoleread_loop me (kdst_add dst 1) target (n - 1) s)))
      else Ok (Done (target - n), dst, n, s))"
  by pat_completeness auto
termination
  by (relation "measure (\<lambda>(_, _, _, n, _). nat n)") auto

declare consoleread_loop.simps [simp del]

definition consoleread :: "nat \<Rightarrow> kdst \<Rightarrow> int \<Rightarrow> kernel \<Rightarrow> (int \<times> kernel) res" where
  "consoleread me dst n s =
     res_bind (consoleread_loop me dst n n s) (\<lambda>(r, _, _, s).
       case r of Done r \<Rightarrow> Ok (r, s) | Blocked c \<Rightarrow> Sleeps c)"

section \<open>Input\<close>

fun state_name :: "procstate \<Rightarrow> string" where
  "state_name UNUSED = ''unused''"
| "state_name USED = ''used''"
| "state_name SLEEPING = ''sleep ''"
| "state_name RUNNABLE = ''runble''"
| "state_name RUNNING = ''run   ''"
| "state_name ZOMBIE = ''zombie''"

definition c_string :: "u8 list \<Rightarrow> u8 list" where
  "c_string xs = takeWhile (\<lambda>c. c \<noteq> 0) xs"

fun procdump_loop :: "nat list \<Rightarrow> kernel \<Rightarrow> kernel res" where
  "procdump_loop [] s = Ok s"
| "procdump_loop (i # is1) s =
     (let p = procs s i in
      if p_state p = UNUSED then procdump_loop is1 s
      else res_bind (printf ''%d %s %s'' [VNum (ucast (p_pid p)), VStr (Some (str (state_name (p_state p)))),
             VStr (Some (c_string (p_name p)))] s) (\<lambda>s.
           res_bind (printf ''\<newline>'' [] s) (procdump_loop is1)))"

definition procdump :: "kernel \<Rightarrow> kernel res" where
  "procdump s = res_bind (printf ''\<newline>'' [] s) (procdump_loop [0..<NPROC])"

lemma consputc_cons: "consputc c s = Ok s' \<Longrightarrow> cons s' = cons s"
  by (auto simp: consputc_def uartputc_sync_def res_bind_Ok_iff split: if_splits)

text \<open>The loop that kills the input line; it ends because \<^verbatim>\<open>e\<close> moves back towards \<^verbatim>\<open>w\<close>.\<close>

function kill_line :: "kernel \<Rightarrow> kernel res" where
  "kill_line s =
     (let b = cons s in
      if cons_e b \<noteq> cons_w b \<and> cons_buf b ! (unat (cons_e b - 1) mod INPUT_BUF_SIZE) \<noteq> 10
      then res_bind (consputc BACKSPACE (upd_cons (\<lambda>b. b\<lparr>cons_e := cons_e b - 1\<rparr>) s)) kill_line
      else Ok s)"
  by pat_completeness auto
termination
proof (relation "measure (\<lambda>s. unat (cons_e (cons s) - cons_w (cons s)))")
  fix s b s' assume b: "b = cons s" "cons_e b \<noteq> cons_w b \<and> cons_buf b ! (unat (cons_e b - 1) mod INPUT_BUF_SIZE) \<noteq> 10"
    and s': "consputc BACKSPACE (upd_cons (\<lambda>b. b\<lparr>cons_e := cons_e b - 1\<rparr>) s) = Ok s'"
  have "cons_e b - cons_w b \<noteq> 0" using b(2) by simp
  then have "unat (cons_e b - cons_w b - 1) < unat (cons_e b - cons_w b)" by (rule measure_unat)
  then show "(s', s) \<in> measure (\<lambda>s. unat (cons_e (cons s) - cons_w (cons s)))"
    using b(1) consputc_cons [OF s'] by (simp add: upd_cons_def algebra_simps)
qed simp

declare kill_line.simps [simp del]

definition consoleintr :: "int \<Rightarrow> kernel \<Rightarrow> kernel res" where
  "consoleintr c s =
     (let b = cons s in
      if c = 16 then procdump s
      else if c = 21 then kill_line s
      else if c = 8 \<or> c = 127
      then (if cons_e b \<noteq> cons_w b then consputc BACKSPACE (upd_cons (\<lambda>b. b\<lparr>cons_e := cons_e b - 1\<rparr>) s) else Ok s)
      else if c \<noteq> 0 \<and> cons_e b - cons_r b < of_nat INPUT_BUF_SIZE
      then (let c = (if c = 13 then 10 else c) in
        res_bind (consputc (word_of_int c) s) (\<lambda>s.
        let s = upd_cons (\<lambda>b. b\<lparr>cons_buf := (cons_buf b)[unat (cons_e b) mod INPUT_BUF_SIZE := word_of_int c],
                cons_e := cons_e b + 1\<rparr>) s in
        if c = 10 \<or> c = 4 \<or> cons_e (cons s) - cons_r (cons s) = of_nat INPUT_BUF_SIZE
        then do_wakeup (a_cons_r (syms s)) (upd_cons (\<lambda>b. b\<lparr>cons_w := cons_e b\<rparr>) s)
        else Ok s))
      else Ok s)"

text \<open>The receive loop of \<^verbatim>\<open>uartintr\<close>, over the bytes waiting in the device.\<close>

function uartintr_rx :: "u8 list \<Rightarrow> kernel \<Rightarrow> kernel res" where
  "uartintr_rx rx s =
     (let (c, rx) = uartgetc rx in
      if c = -1 then Ok s else res_bind (consoleintr c s) (uartintr_rx rx))"
  by pat_completeness auto
termination
  by (relation "measure (\<lambda>(rx, _). length rx)") (auto simp: uartgetc_def split: list.splits)

declare uartintr_rx.simps [simp del]

definition uartintr :: "bool \<Rightarrow> u8 list \<Rightarrow> kernel \<Rightarrow> kernel res" where
  "uartintr lsr_tx_idle rx s = res_bind (uartintr_tx lsr_tx_idle s) (uartintr_rx rx)"

definition CONSOLE :: nat where "CONSOLE = 1"

definition consoleinit :: "kernel \<Rightarrow> kernel" where
  "consoleinit s = s\<lparr>devsw_read := (devsw_read s)(CONSOLE := Some Consoleread),
     devsw_write := (devsw_write s)(CONSOLE := Some Consolewrite)\<rparr>"

end
