(* ===== verification/LineDisc.thy ===== *)
theory LineDisc
  imports Console
begin

text \<open>
  The contract of the console (\<^verbatim>\<open>kernel/console.c\<close>): a line discipline. The abstract state is a pair of
  the bytes ready for \<^verbatim>\<open>consoleread\<close> and the line that is still being edited. \<open>line_step\<close> is what one
  input byte does to it and \<open>line_take\<close> what a read takes; the circular buffer with its three counters
  (\<^verbatim>\<open>cons.r\<close>, \<^verbatim>\<open>cons.w\<close>, \<^verbatim>\<open>cons.e\<close>) implements them, whatever the counters' values.
\<close>

section \<open>The abstract console\<close>

type_synonym line_state = "u8 list \<times> u8 list"

definition line_step :: "int \<Rightarrow> line_state \<Rightarrow> line_state" where
  "line_step c = (\<lambda>(ready, edit).
     if c = 16 then (ready, edit)
     else if c = 21 then (ready, [])
     else if c = 8 \<or> c = 127 then (ready, butlast edit)
     else if c = 0 \<or> length ready + length edit \<ge> INPUT_BUF_SIZE then (ready, edit)
     else (let b = word_of_int (if c = 13 then 10 else c) in
       if b = 10 \<or> b = 4 \<or> Suc (length ready + length edit) = INPUT_BUF_SIZE then (ready @ edit @ [b], [])
       else (ready, edit @ [b])))"

text \<open>
  \<open>line_take started n ready\<close>: the bytes a read of \<open>n\<close> bytes delivers and those that stay; \<open>None\<close> when
  it has to wait for more. A control-D ends the read and stays for the next one if something was
  delivered before.
\<close>

fun line_take :: "bool \<Rightarrow> nat \<Rightarrow> u8 list \<Rightarrow> (u8 list \<times> u8 list) option" where
  "line_take started 0 xs = Some ([], xs)"
| "line_take started (Suc n) [] = None"
| "line_take started (Suc n) (c # xs) =
     (if c = 4 then Some ([], if started then c # xs else xs)
      else if c = 10 then Some ([c], xs)
      else map_option (\<lambda>(ys, zs). (c # ys, zs)) (line_take True n xs))"

lemma line_take_length: "line_take st n xs = Some (ys, zs) \<Longrightarrow> length ys \<le> n"
  by (induction st n xs arbitrary: ys zs rule: line_take.induct) (auto split: if_splits)

section \<open>The buffer\<close>

lemma ring_split:
  fixes r w e :: u32
  assumes "unat (w - r) \<le> unat (e - r)"
  shows "ring N d r e = ring N d r w @ ring N d w e" "unat (e - w) = unat (e - r) - unat (w - r)"
proof -
  have "e - w = (e - r) - (w - r)" by simp
  then show l: "unat (e - w) = unat (e - r) - unat (w - r)" using assms by (metis unat_sub word_le_nat_alt)
  have w: "w = r + of_nat (unat (w - r))" by simp
  show "ring N d r e = ring N d r w @ ring N d w e"
  proof (rule nth_equalityI)
    show "length (ring N d r e) = length (ring N d r w @ ring N d w e)" using l assms by simp
    fix i assume i: "i < length (ring N d r e)"
    show "ring N d r e ! i = (ring N d r w @ ring N d w e) ! i"
    proof (cases "i < unat (w - r)")
      case True
      then show ?thesis using i by (simp add: nth_append ring_def)
    next
      case False
      then have "w + of_nat (i - unat (w - r)) = r + of_nat i" by (subst w) (simp add: of_nat_diff add.assoc)
      then show ?thesis using False i l by (simp add: nth_append ring_def add.commute)
    qed
  qed
qed

definition cons_view :: "consbuf \<Rightarrow> line_state" where
  "cons_view b = (ring INPUT_BUF_SIZE (cons_buf b) (cons_r b) (cons_w b), ring INPUT_BUF_SIZE (cons_buf b) (cons_w b) (cons_e b))"

definition cons_ok :: "consbuf \<Rightarrow> bool" where
  "cons_ok b \<longleftrightarrow> length (cons_buf b) = INPUT_BUF_SIZE \<and> unat (cons_w b - cons_r b) \<le> unat (cons_e b - cons_r b) \<and>
     unat (cons_e b - cons_r b) \<le> INPUT_BUF_SIZE \<and> 10 \<notin> set (snd (cons_view b))"

lemma buf_dvd: "INPUT_BUF_SIZE dvd 2 ^ LENGTH(32)" "INPUT_BUF_SIZE < 2 ^ LENGTH(32)" by (simp_all add: INPUT_BUF_SIZE_def)

lemma cons_room:
  assumes "cons_ok b" "cons_view b = (ready, edit)"
  shows "length ready + length edit = unat (cons_e b - cons_r b)" "length ready = unat (cons_w b - cons_r b)"
    "cons_e b - cons_r b < of_nat INPUT_BUF_SIZE \<longleftrightarrow> length ready + length edit < INPUT_BUF_SIZE"
    "cons_e b \<noteq> cons_w b \<longleftrightarrow> edit \<noteq> []"
proof -
  let ?N = INPUT_BUF_SIZE
  have v: "ready = ring ?N (cons_buf b) (cons_r b) (cons_w b)" "edit = ring ?N (cons_buf b) (cons_w b) (cons_e b)"
    using assms(2) by (simp_all add: cons_view_def)
  show s: "length ready + length edit = unat (cons_e b - cons_r b)" "length ready = unat (cons_w b - cons_r b)"
    using assms(1) ring_split(2) [of "cons_w b" "cons_r b" "cons_e b"] unfolding v by (simp_all add: cons_ok_def)
  have "unat (of_nat ?N :: u32) = ?N" by (simp add: INPUT_BUF_SIZE_def)
  then show "cons_e b - cons_r b < of_nat ?N \<longleftrightarrow> length ready + length edit < ?N" by (simp add: word_less_nat_alt s(1))
  show "cons_e b \<noteq> cons_w b \<longleftrightarrow> edit \<noteq> []" unfolding v by auto
qed

text \<open>The three changes to the buffer: erase, append, and release of the line.\<close>

lemma cons_erase:
  assumes "cons_ok b" "cons_view b = (ready, edit)" "edit \<noteq> []"
  shows "cons_ok (b\<lparr>cons_e := cons_e b - 1\<rparr>)" "cons_view (b\<lparr>cons_e := cons_e b - 1\<rparr>) = (ready, butlast edit)"
    "last edit = cons_buf b ! (unat (cons_e b - 1) mod INPUT_BUF_SIZE)"
proof -
  have ne: "cons_w b \<noteq> cons_e b" using cons_room(4) [OF assms(1,2)] assms(3) by auto
  note cr = cons_room [OF assms(1,2)]
  have "unat (cons_w b - cons_r b) < unat (cons_e b - cons_r b)" unfolding cr(1,2) [symmetric] using assms(3) by simp
  then have "cons_r b \<noteq> cons_e b" by auto
  from unat_diff_pred [OF this] have u: "unat (cons_e b - 1 - cons_r b) = unat (cons_e b - cons_r b) - 1" by simp
  show v: "cons_view (b\<lparr>cons_e := cons_e b - 1\<rparr>) = (ready, butlast edit)"
    using ring_unput [OF ne, of INPUT_BUF_SIZE "cons_buf b"] assms(2) by (auto simp: cons_view_def)
  show "cons_ok (b\<lparr>cons_e := cons_e b - 1\<rparr>)"
    using assms(1,2) u \<open>unat (cons_w b - cons_r b) < _\<close> unfolding cons_ok_def v by (auto dest: in_set_butlastD)
  show "last edit = cons_buf b ! (unat (cons_e b - 1) mod INPUT_BUF_SIZE)"
    using ring_last [OF buf_dvd(1) ne, of "cons_buf b"] assms(2) by (auto simp: cons_view_def)
qed

definition cons_put :: "u8 \<Rightarrow> consbuf \<Rightarrow> consbuf" where
  "cons_put c b = b\<lparr>cons_buf := (cons_buf b)[unat (cons_e b) mod INPUT_BUF_SIZE := c], cons_e := cons_e b + 1\<rparr>"

lemma cons_put:
  assumes "cons_ok b" "cons_view b = (ready, edit)" "length ready + length edit < INPUT_BUF_SIZE"
  shows "cons_view (cons_put c b) = (ready, edit @ [c])" "c \<noteq> 10 \<Longrightarrow> cons_ok (cons_put c b)"
    "cons_ok ((cons_put c b)\<lparr>cons_w := cons_e (cons_put c b)\<rparr>)"
    "cons_view ((cons_put c b)\<lparr>cons_w := cons_e (cons_put c b)\<rparr>) = (ready @ edit @ [c], [])"
    "unat (cons_e (cons_put c b) - cons_r (cons_put c b)) = Suc (length ready + length edit)"
proof -
  let ?N = INPUT_BUF_SIZE and ?d = "(cons_buf b)[unat (cons_e b) mod INPUT_BUF_SIZE := c]"
  have o: "length (cons_buf b) = ?N" "unat (cons_w b - cons_r b) \<le> unat (cons_e b - cons_r b)" "10 \<notin> set edit"
    using assms(1,2) by (simp_all add: cons_ok_def)
  note cr = cons_room [OF assms(1,2)]
  have l: "unat (cons_e b - cons_r b) < ?N" using cr(1) assms(3) by simp
  then have u: "unat (cons_e b + 1 - cons_r b) = Suc (unat (cons_e b - cons_r b))"
    using buf_dvd(2) by (intro unat_diff_Suc) simp
  have all: "ring ?N ?d (cons_r b) (cons_e b + 1) = ready @ edit @ [c]"
    using ring_put [OF buf_dvd o(1) l] ring_split(1) [OF o(2), of ?N "cons_buf b"] assms(2) by (simp add: cons_view_def)
  have "unat (cons_w b - cons_r b) \<le> unat (cons_e b + 1 - cons_r b)" using o(2) u by simp
  from ring_split(1) [OF this, of ?N ?d] all cr(2)
  have two: "ring ?N ?d (cons_r b) (cons_w b) = ready" "ring ?N ?d (cons_w b) (cons_e b + 1) = edit @ [c]"
    by (metis append_eq_append_conv length_ring)+
  show v: "cons_view (cons_put c b) = (ready, edit @ [c])" using two by (simp add: cons_view_def cons_put_def)
  show "cons_view ((cons_put c b)\<lparr>cons_w := cons_e (cons_put c b)\<rparr>) = (ready @ edit @ [c], [])"
    using all by (simp add: cons_view_def cons_put_def)
  then show "cons_ok ((cons_put c b)\<lparr>cons_w := cons_e (cons_put c b)\<rparr>)" using o u l by (simp add: cons_ok_def cons_put_def)
  show "c \<noteq> 10 \<Longrightarrow> cons_ok (cons_put c b)" using o u l v by (simp add: cons_ok_def) (simp add: cons_put_def)
  show "unat (cons_e (cons_put c b) - cons_r (cons_put c b)) = Suc (length ready + length edit)"
    using u cr(1) by (simp add: cons_put_def)
qed

lemma cons_get:
  assumes "cons_ok b" "cons_view b = (c # ready, edit)"
  shows "cons_r b \<noteq> cons_w b" "cons_buf b ! (unat (cons_r b) mod INPUT_BUF_SIZE) = c"
    "cons_ok (b\<lparr>cons_r := cons_r b + 1\<rparr>)" "cons_view (b\<lparr>cons_r := cons_r b + 1\<rparr>) = (ready, edit)"
proof -
  show ne: "cons_r b \<noteq> cons_w b" using assms(2) by (auto simp: cons_view_def)
  from ring_get [OF ne, of INPUT_BUF_SIZE "cons_buf b"] assms(2)
  show "cons_buf b ! (unat (cons_r b) mod INPUT_BUF_SIZE) = c" and v: "cons_view (b\<lparr>cons_r := cons_r b + 1\<rparr>) = (ready, edit)"
    by (auto simp: cons_view_def)
  note cr = cons_room [OF assms]
  have "cons_r b \<noteq> cons_e b" using cr(1) by auto
  then have "unat (cons_e b - (cons_r b + 1)) = unat (cons_e b - cons_r b) - 1" "unat (cons_w b - (cons_r b + 1)) = unat (cons_w b - cons_r b) - 1"
    using unat_diff_pred ne by blast+
  then show "cons_ok (b\<lparr>cons_r := cons_r b + 1\<rparr>)" using assms v unfolding cons_ok_def by auto
qed

section \<open>Input\<close>

definition console_ok :: "kernel \<Rightarrow> bool" where
  "console_ok s \<longleftrightarrow> cons_ok (cons s) \<and> sched_ok s \<and> \<not> panicked s"

text \<open>\<open>typed v s s'\<close>: the console of \<open>s'\<close> shows \<open>v\<close>, and user memory is as in \<open>s\<close>.\<close>

definition typed :: "line_state \<Rightarrow> kernel \<Rightarrow> kernel \<Rightarrow> bool" where
  "typed v s s' \<longleftrightarrow> console_ok s' \<and> cons_view (cons s') = v \<and> mem s' = mem s \<and>
     (\<forall>j. p_pagetable (procs s' j) = p_pagetable (procs s j))"

lemma typed_trans: "typed v s t \<Longrightarrow> typed v' t u \<Longrightarrow> typed v' s u"
  by (simp add: typed_def)

lemma typed_out:
  assumes "sched_ok s" "\<not> panicked s" "cons_ok b" "cons_view b = v"
  shows "typed v s (s\<lparr>uart_out := o1, cons := b\<rparr>)"
  using assms sched_ok_cong [of "s\<lparr>uart_out := o1, cons := b\<rparr>" s] by (simp add: typed_def console_ok_def)

lemma consputc_backspace:
  "\<not> panicked s \<Longrightarrow> consputc BACKSPACE (upd_cons f s) = Ok (s\<lparr>uart_out := uart_out s @ [8, 32, 8], cons := f (cons s)\<rparr>)"
  by (simp add: upd_cons_def consputc_def uartputc_sync_def)

lemma procdump_loop_ok: "\<not> panicked s \<Longrightarrow> \<exists>out. procdump_loop is1 s = Ok (s\<lparr>uart_out := uart_out s @ out\<rparr>)"
proof (induction is1 arbitrary: s)
  case Nil
  show ?case by (auto intro: exI [of _ "[]"])
next
  case (Cons i is1)
  show ?case
  proof (cases "p_state (procs s i) = UNUSED")
    case True
    then show ?thesis using Cons by simp
  next
    case False
    let ?ap = "[VNum (ucast (p_pid (procs s i))), VStr (Some (str (state_name (p_state (procs s i))))), VStr (Some (c_string (p_name (procs s i))))]"
    obtain o1 where 1: "printf ''%d %s %s'' ?ap s = Ok (s\<lparr>uart_out := uart_out s @ o1\<rparr>)"
      using printf_loop_ok [OF Cons.prems] unfolding printf_def by blast
    obtain o2 where 2: "printf ''\<newline>'' [] (s\<lparr>uart_out := uart_out s @ o1\<rparr>) = Ok (s\<lparr>uart_out := (uart_out s @ o1) @ o2\<rparr>)"
      using printf_loop_ok [of "s\<lparr>uart_out := uart_out s @ o1\<rparr>"] Cons.prems unfolding printf_def by auto
    obtain o3 where "procdump_loop is1 (s\<lparr>uart_out := (uart_out s @ o1) @ o2\<rparr>) = Ok (s\<lparr>uart_out := ((uart_out s @ o1) @ o2) @ o3\<rparr>)"
      using Cons.IH [of "s\<lparr>uart_out := (uart_out s @ o1) @ o2\<rparr>"] Cons.prems by auto
    then show ?thesis using False 1 2 by (auto simp: Let_def)
  qed
qed

lemma procdump_ok: "\<not> panicked s \<Longrightarrow> \<exists>out. procdump s = Ok (s\<lparr>uart_out := out\<rparr>)"
proof -
  assume np: "\<not> panicked s"
  then obtain o1 where 1: "printf ''\<newline>'' [] s = Ok (s\<lparr>uart_out := uart_out s @ o1\<rparr>)"
    using printf_loop_ok unfolding printf_def by blast
  then show ?thesis
    using procdump_loop_ok [of "s\<lparr>uart_out := uart_out s @ o1\<rparr>"] np by (auto simp: procdump_def)
qed

lemma kill_line_ok:
  assumes "console_ok s" "cons_view (cons s) = (ready, edit)"
  shows "\<exists>s'. kill_line s = Ok s' \<and> typed (ready, []) s s'"
  using assms
proof (induction "length edit" arbitrary: edit s)
  case 0
  then show ?case using cons_room(4) [of "cons s" ready edit]
    by (subst kill_line.simps) (simp add: Let_def typed_def console_ok_def)
next
  case (Suc n)
  then have o: "cons_ok (cons s)" "sched_ok s" "\<not> panicked s" "edit \<noteq> []" by (auto simp: console_ok_def)
  note er = cons_erase [OF o(1) Suc.prems(2) o(4)]
  have "last edit \<noteq> 10" using o(1,4) Suc.prems(2) unfolding cons_ok_def by (metis last_in_set snd_conv)
  then have c: "cons_e (cons s) \<noteq> cons_w (cons s)" "cons_buf (cons s) ! (unat (cons_e (cons s) - 1) mod INPUT_BUF_SIZE) \<noteq> 10"
    using er(3) cons_room(4) [OF o(1) Suc.prems(2)] o(4) by simp_all
  obtain out where out: "consputc BACKSPACE (upd_cons (\<lambda>b. b\<lparr>cons_e := cons_e b - 1\<rparr>) s) =
      Ok (s\<lparr>uart_out := out, cons := (cons s)\<lparr>cons_e := cons_e (cons s) - 1\<rparr>\<rparr>)" (is "_ = Ok ?t")
    using consputc_backspace [OF o(3)] by blast
  have t: "typed (ready, butlast edit) s ?t" using typed_out [OF o(2,3) er(1,2)] .
  moreover have "n = length (butlast edit)" using Suc.hyps(2) by simp
  ultimately obtain s' where "kill_line ?t = Ok s'" "typed (ready, []) ?t s'"
    using Suc.hyps(1) [of "butlast edit" ?t] unfolding typed_def by auto
  then show ?case using c out typed_trans [OF t] by (subst kill_line.simps) (simp add: Let_def)
qed

lemma consoleintr_ok:
  assumes "console_ok s" "0 \<le> c" "c < 256"
  shows "\<exists>s'. consoleintr c s = Ok s' \<and> typed (line_step c (cons_view (cons s))) s s'"
proof -
  obtain ready edit where v: "cons_view (cons s) = (ready, edit)" by fastforce
  have o: "cons_ok (cons s)" "sched_ok s" "\<not> panicked s" using assms(1) by (auto simp: console_ok_def)
  have same: "typed (ready, edit) s s" using assms(1) v by (simp add: typed_def)
  let ?b = "if c = 13 then 10 else c" and ?room = "length ready + length edit < INPUT_BUF_SIZE"
  consider "c = 16" | "c = 21" | "c = 8 \<or> c = 127" | "c \<noteq> 16" "c \<noteq> 21" "c \<noteq> 8" "c \<noteq> 127" "c = 0 \<or> \<not> ?room"
    | "c \<noteq> 16" "c \<noteq> 21" "c \<noteq> 8" "c \<noteq> 127" "c \<noteq> 0" "?room" by blast
  then show ?thesis
  proof cases
    case 1
    obtain out where "procdump s = Ok (s\<lparr>uart_out := out\<rparr>)" using procdump_ok [OF o(3)] by blast
    then show ?thesis using 1 typed_out [OF o(2,3,1) v, of out] by (simp add: consoleintr_def line_step_def v)
  next
    case 2
    then show ?thesis using kill_line_ok [OF assms(1) v] by (simp add: consoleintr_def line_step_def v)
  next
    case 3
    show ?thesis
    proof (cases "edit = []")
      case True
      then show ?thesis using 3 same cons_room(4) [OF o(1) v] by (auto simp: consoleintr_def line_step_def v Let_def)
    next
      case False
      note er = cons_erase [OF o(1) v False]
      obtain out where "consputc BACKSPACE (upd_cons (\<lambda>b. b\<lparr>cons_e := cons_e b - 1\<rparr>) s) =
          Ok (s\<lparr>uart_out := out, cons := (cons s)\<lparr>cons_e := cons_e (cons s) - 1\<rparr>\<rparr>)"
        using consputc_backspace [OF o(3)] by blast
      then show ?thesis
        using 3 False typed_out [OF o(2,3) er(1,2), of out] cons_room(4) [OF o(1) v]
        by (auto simp: consoleintr_def line_step_def v Let_def)
    qed
  next
    case 4
    then show ?thesis using same cons_room(3) [OF o(1) v] by (auto simp: consoleintr_def line_step_def v Let_def)
  next
    case 5
    let ?c = "word_of_int ?b :: u8" and ?t = "\<lambda>out. s\<lparr>uart_out := out, cons := cons_put (word_of_int ?b) (cons s)\<rparr>"
    note put = cons_put [OF o(1) v 5(6), of ?c]
    have b: "?c = 10 \<longleftrightarrow> ?b = 10" "?c = 4 \<longleftrightarrow> ?b = 4"
      using assms(2,3) by (auto simp: word_uint_eq_iff uint_word_of_int take_bit_int_eq_self_iff)
    have full: "cons_e (cons_put ?c (cons s)) - cons_r (cons_put ?c (cons s)) = of_nat INPUT_BUF_SIZE \<longleftrightarrow>
        Suc (length ready + length edit) = INPUT_BUF_SIZE"
      unfolding word_unat_eq_iff put(5) by (simp add: INPUT_BUF_SIZE_def)
    obtain out where out: "consputc (word_of_int ?b) s = Ok (s\<lparr>uart_out := out\<rparr>)" using consputc_ok [OF o(3)] by blast
    have run: "consoleintr c s = (if ?b = 10 \<or> ?b = 4 \<or> Suc (length ready + length edit) = INPUT_BUF_SIZE
        then do_wakeup (a_cons_r (syms s)) ((?t out)\<lparr>cons := (cons_put ?c (cons s))\<lparr>cons_w := cons_e (cons_put ?c (cons s))\<rparr>\<rparr>)
        else Ok (?t out))"
      using 5 out cons_room(3) [OF o(1) v] unfolding consoleintr_def
      by (simp add: Let_def upd_cons_def full flip: cons_put_def)
    show ?thesis
    proof (cases "?b = 10 \<or> ?b = 4 \<or> Suc (length ready + length edit) = INPUT_BUF_SIZE")
      case True
      let ?u = "s\<lparr>uart_out := out, cons := (cons_put ?c (cons s))\<lparr>cons_w := cons_e (cons_put ?c (cons s))\<rparr>\<rparr>"
      have u: "typed (ready @ edit @ [?c], []) s ?u" using typed_out [OF o(2,3) put(3,4)] .
      then have "sched_ok ?u" by (simp add: typed_def console_ok_def)
      then obtain s' where s': "do_wakeup (a_cons_r (syms s)) ?u = Ok s'" "woke ?u s'" using do_wakeup_woke by blast
      have "typed (ready @ edit @ [?c], []) s s'"
        using u woke_simps [OF s'(2)] s'(2) by (simp add: typed_def console_ok_def woke_def)
      moreover have "line_step c (cons_view (cons s)) = (ready @ edit @ [?c], [])"
        using 5 True b by (simp add: line_step_def v Let_def)
      ultimately show ?thesis using run True s'(1) by simp
    next
      case False
      then have "line_step c (cons_view (cons s)) = (ready, edit @ [?c])" using 5 b by (simp add: line_step_def v Let_def)
      moreover have "typed (ready, edit @ [?c]) s (?t out)" using typed_out [OF o(2,3) put(2) put(1)] False b by simp
      ultimately show ?thesis using run False by simp
    qed
  qed
qed

lemma uartintr_rx_ok:
  assumes "console_ok s"
  shows "\<exists>s'. uartintr_rx rx s = Ok s' \<and> typed (fold (\<lambda>c. line_step (uint c)) rx (cons_view (cons s))) s s'"
  using assms
proof (induction rx arbitrary: s)
  case Nil
  then show ?case by (subst uartintr_rx.simps) (simp add: uartgetc_def typed_def)
next
  case (Cons c rx)
  have "uint c < 256" using uint_bounded [of c] by simp
  then obtain s1 where s1: "consoleintr (uint c) s = Ok s1" "typed (line_step (uint c) (cons_view (cons s))) s s1"
    using consoleintr_ok [OF Cons.prems uint_ge_0] by blast
  then obtain s' where "uartintr_rx rx s1 = Ok s'" "typed (fold (\<lambda>c. line_step (uint c)) rx (cons_view (cons s1))) s1 s'"
    using Cons.IH unfolding typed_def by blast
  moreover have "uint c \<noteq> -1" using uint_ge_0 [of c] by linarith
  ultimately show ?case
    using s1 typed_trans [OF s1(2)] by (subst uartintr_rx.simps) (auto simp: uartgetc_def typed_def)
qed

section \<open>Reading\<close>

lemma consoleread_loop_ok:
  assumes "cons_ok (cons s)" "cons_view (cons s) = (ready, edit)" "writable (mem s) (p_pagetable (procs s me)) va n"
    "n \<le> target" "line_take (n < target) n ready = Some (ys, rest)"
  shows "\<exists>d k b m. consoleread_loop me (UserDst va) (int target) (int n) s =
      Ok (Done (int (target - n + length ys)), d, k, s\<lparr>cons := b, mem := m\<rparr>) \<and>
    cons_ok b \<and> cons_view b = (rest, edit) \<and> delivered (p_pagetable (procs s me)) va ys (mem s) m"
  using assms
proof (induction n arbitrary: ready va s ys)
  case 0
  then show ?case by (subst consoleread_loop.simps) (auto intro!: exI [of _ "cons s"] exI [of _ "mem s"] simp: of_nat_diff)
next
  case (Suc n)
  note p = Suc.prems
  let ?pt = "p_pagetable (procs s me)" and ?b = "(cons s)\<lparr>cons_r := cons_r (cons s) + 1\<rparr>"
  obtain c rd where rd: "ready = c # rd" using p(5) by (cases ready) auto
  note get = cons_get [OF p(1) p(2) [unfolded rd]]
  show ?case
  proof (cases "c = 4")
    case True
    have "consoleread_loop me (UserDst va) (int target) (int (Suc n)) s =
        Ok (Done (int target - int (Suc n)), UserDst va, int (Suc n), s\<lparr>cons := if Suc n < target then cons s else ?b\<rparr>)"
      using get(1,2) True by (subst consoleread_loop.simps) (simp add: Let_def upd_cons_def)
    moreover have "ys = []" "rest = (if Suc n < target then ready else rd)" using p(5) True rd by (auto split: if_splits)
    ultimately show ?thesis using get(3,4) p(1,2,4)
      by (intro exI [of _ "UserDst va"] exI [of _ "int (Suc n)"] exI [of _ "if Suc n < target then cons s else ?b"] exI [of _ "mem s"])
        (simp add: of_nat_diff)
  next
    case False
    have w1: "writable (mem s) ?pt va 1" using writable_byte [OF p(3), of 0] by simp
    obtain m1 where m2: "copyout me ?pt va [c] (s\<lparr>cons := ?b\<rparr>) = Ok (0, s\<lparr>cons := ?b, mem := m1\<rparr>)"
        and m1: "delivered ?pt va [c] (mem s) m1"
      using copyout_byte [of "s\<lparr>cons := ?b\<rparr>" ?pt va me c] w1 by auto
    let ?s = "s\<lparr>cons := ?b, mem := m1\<rparr>"
    have step: "consoleread_loop me (UserDst va) (int target) (int (Suc n)) s =
        (if c = 10 then Ok (Done (int target - int n), UserDst (va + 1), int n, ?s)
         else consoleread_loop me (UserDst (va + 1)) (int target) (int n) ?s)"
      using get(1,2) False m2 by (subst consoleread_loop.simps) (simp add: Let_def upd_cons_def either_copyout_def kdst_add_def)
    show ?thesis
    proof (cases "c = 10")
      case True
      then have "ys = [c]" "rest = rd" using p(5) rd by auto
      then show ?thesis using step True get(3,4) m1 p(4)
        by (intro exI [of _ "UserDst (va + 1)"] exI [of _ "int n"] exI [of _ ?b] exI [of _ m1]) (simp add: of_nat_diff)
    next
      case nl: False
      obtain ys' where ys: "ys = c # ys'" "line_take True n rd = Some (ys', rest)"
        using p(5) rd False nl by (auto split: if_splits)
      have w2: "writable m1 ?pt (va + 1) n"
        using writable_shift [OF delivered_writable [OF m1 p(3)], of 1] by simp
      have "n < target" using p(4) by simp
      then have "\<exists>d k b m. consoleread_loop me (UserDst (va + 1)) (int target) (int n) ?s =
          Ok (Done (int (target - n + length ys')), d, k, ?s\<lparr>cons := b, mem := m\<rparr>) \<and>
          cons_ok b \<and> cons_view b = (rest, edit) \<and> delivered (p_pagetable (procs ?s me)) (va + 1) ys' (mem ?s) m"
        using get(3,4) w2 ys(2) by (intro Suc.IH [of _ rd]) simp_all
      then obtain d k b m where r: "consoleread_loop me (UserDst (va + 1)) (int target) (int n) ?s =
          Ok (Done (int (target - n + length ys')), d, k, s\<lparr>cons := b, mem := m\<rparr>)"
          "cons_ok b" "cons_view b = (rest, edit)" "delivered ?pt (va + 1) ys' m1 m" by auto
      have "Suc (length ys') \<le> Suc n" using line_take_length [OF ys(2)] by simp
      then have "writable (mem s) ?pt va (Suc (length ys'))" using p(3) by (auto simp: writable_def readable_def)
      from delivered_Cons [OF this m1 r(4)] have "delivered ?pt va ys (mem s) m" by (simp add: ys(1))
      moreover have "target - n + length ys' = target - Suc n + length ys" using \<open>n < target\<close> ys(1) by simp
      ultimately show ?thesis using step nl r by auto
    qed
  qed
qed

text \<open>
  (C21) The console is a line discipline: the circular buffer implements the abstract line editor. Whatever
  bytes \<open>rx\<close> the UART delivers, the interrupt handler returns and has done to the buffer what
  \<open>line_step\<close> says for each byte (erase the last byte, kill the line, drop what does not fit, and
  release the line at a newline, at control-D or when the buffer is full); a following \<^verbatim>\<open>consoleread\<close> of \<open>n\<close> bytes
  delivers into user memory exactly what \<open>line_take\<close> takes from the released bytes, that is at most one
  line, returns its length, and leaves the rest and the line under edit for later. The counters may wrap.
\<close>

theorem console_line_discipline:
  assumes "console_ok s" "fold (\<lambda>c. line_step (uint c)) rx (cons_view (cons s)) = (ready, edit)"
    "writable (mem s) (p_pagetable (procs s me)) va n" "line_take False n ready = Some (ys, rest)"
  shows "\<exists>s1 s2. uartintr_rx rx s = Ok s1 \<and> console_ok s1 \<and> cons_view (cons s1) = (ready, edit) \<and> mem s1 = mem s \<and>
    consoleread me (UserDst va) (int n) s1 = Ok (int (length ys), s2) \<and> console_ok s2 \<and> cons_view (cons s2) = (rest, edit) \<and>
    delivered (p_pagetable (procs s me)) va ys (mem s) (mem s2) \<and>
    user_bytes (mem s2) (p_pagetable (procs s me)) va (length ys) = ys"
proof -
  obtain s1 where s1: "uartintr_rx rx s = Ok s1" "typed (ready, edit) s s1"
    using uartintr_rx_ok [OF assms(1), of rx] unfolding assms(2) by blast
  then have t: "console_ok s1" "cons_view (cons s1) = (ready, edit)" "mem s1 = mem s" "p_pagetable (procs s1 me) = p_pagetable (procs s me)"
    by (simp_all add: typed_def)
  have "cons_ok (cons s1)" using t(1) by (simp add: console_ok_def)
  from consoleread_loop_ok [OF this t(2), of me va n n ys rest] assms(3,4) t(3,4)
  obtain d k b m where r: "consoleread_loop me (UserDst va) (int n) (int n) s1 = Ok (Done (int (length ys)), d, k, s1\<lparr>cons := b, mem := m\<rparr>)"
      "cons_ok b" "cons_view b = (rest, edit)" and dl: "delivered (p_pagetable (procs s me)) va ys (mem s) m" by auto
  have "pt_wf (mem s) (p_pagetable (procs s me))" using assms(3) by (simp add: writable_def readable_def)
  from delivered_user_bytes [OF dl this] have u: "user_bytes m (p_pagetable (procs s me)) va (length ys) = ys" .
  have "console_ok (s1\<lparr>cons := b, mem := m\<rparr>)"
    using t(1) r(2) sched_ok_cong [of "s1\<lparr>cons := b, mem := m\<rparr>" s1] by (simp add: console_ok_def)
  moreover have "consoleread me (UserDst va) (int n) s1 = Ok (int (length ys), s1\<lparr>cons := b, mem := m\<rparr>)"
    using r(1) by (simp add: consoleread_def)
  ultimately show ?thesis using s1(1) t r(3) dl u by (intro exI [of _ s1] exI [of _ "s1\<lparr>cons := b, mem := m\<rparr>"]) simp
qed

text \<open>Typing a, b, backspace, c and return, and reading two bytes.\<close>

theorem console_line_discipline_witness:
  "\<exists>m pt s1 s2. uartintr_rx [97, 98, 8, 99, 13] (run_kernel m pt wrap_pipe) = Ok s1 \<and>
     consoleread 1 (UserDst 0x1FFE) 2 s1 = Ok (2, s2) \<and> user_bytes (mem s2) pt 0x1FFE 2 = [97, 99] \<and> cons_view (cons s2) = ([10], [])"
proof -
  obtain s :: kstate and pt where w: "writable (mem s) pt 0x1FFE 2" using boot_mapped by blast
  let ?s = "run_kernel (mem s) pt wrap_pipe"
  have c: "cons ?s = \<lparr>cons_buf = replicate INPUT_BUF_SIZE 0, cons_r = 0, cons_w = 0, cons_e = 0\<rparr>" "\<not> panicked ?s"
    by (simp_all add: run_kernel_def boot_kernel_def)
  then have v: "cons_view (cons ?s) = ([], [])" by (simp add: cons_view_def)
  have "sched_ok ?s" using run_kernel_sched unfolding sched_ok_def by blast
  then have "console_ok ?s" using c(2) unfolding console_ok_def cons_ok_def v by (simp add: c(1))
  moreover have "fold (\<lambda>c :: u8. line_step (uint c)) [97, 98, 8, 99, 13] (cons_view (cons ?s)) = ([97, 99, 10], [])"
    unfolding v by code_simp
  moreover have "writable (mem ?s) (p_pagetable (procs ?s 1)) 0x1FFE 2" using w by (simp add: boot_proc_def)
  moreover have "line_take False 2 [97, 99, 10] = Some ([97, 99], [10])" by code_simp
  ultimately show ?thesis
    using console_line_discipline [of ?s "[97, 98, 8, 99, 13]" "[97, 99, 10]" "[]" 1 "0x1FFE" 2 "[97, 99]" "[10]"]
    by (intro exI [of _ "mem s"] exI [of _ pt]) (auto simp: eval_nat_numeral)
qed

end
