(* ===== verification/File.thy ===== *)
theory File
  imports Console Dir
begin

text \<open>
  Open files (\<^verbatim>\<open>kernel/file.c\<close>) and \<^verbatim>\<open>pipealloc\<close> of \<^verbatim>\<open>kernel/pipe.c\<close>. A file pointer is the index of its entry
  in \<^verbatim>\<open>ftable\<close>; a section under \<^verbatim>\<open>ftable.lock\<close> is one step. The functions in \<^verbatim>\<open>devsw\<close> are those of the
  console.
\<close>

section \<open>Operations\<close>

definition filealloc :: "kernel \<Rightarrow> nat option \<times> kernel" where
  "filealloc s =
     (case find (\<lambda>f. f_ref (ftable s f) = 0) [0..<NFILE] of
        Some f \<Rightarrow> (Some f, upd_file f (\<lambda>x. x\<lparr>f_ref := 1\<rparr>) s)
      | None \<Rightarrow> (None, s))"

definition filedup :: "nat \<Rightarrow> kernel \<Rightarrow> (nat \<times> kernel) res" where
  "filedup f s =
     (if f_ref (ftable s f) < 1 then Panic ''filedup''
      else Ok (f, upd_file f (\<lambda>x. x\<lparr>f_ref := f_ref x + 1\<rparr>) s))"

definition fileclose :: "nat \<Rightarrow> nat \<Rightarrow> kernel \<Rightarrow> kernel res" where
  "fileclose me f s =
     (if f_ref (ftable s f) < 1 then Panic ''fileclose''
      else (let s = upd_file f (\<lambda>x. x\<lparr>f_ref := f_ref x - 1\<rparr>) s in
        if f_ref (ftable s f) > 0 then Ok s
        else (let ff = ftable s f; s = upd_file f (\<lambda>x. x\<lparr>f_ref := 0, f_type := FD_NONE\<rparr>) s in
          if f_type ff = FD_PIPE then pipeclose (f_pipe ff) (f_writable ff) s
          else if f_type ff = FD_INODE \<or> f_type ff = FD_DEVICE
          then res_bind (begin_op s) (\<lambda>s. res_bind (iput me (f_ip ff) s) (end_op me))
          else Ok s)))"

text \<open>
  The bytes of a \<^verbatim>\<open>struct stat\<close>; \<open>pad\<close> is what the four padding bytes of the local variable happen to
  hold.
\<close>

definition stat_bytes :: "u8 list \<Rightarrow> stat \<Rightarrow> u8 list" where
  "stat_bytes pad st = bytes32 (st_dev st) @ bytes32 (st_ino st) @ bytes16 (st_type st) @ bytes16 (st_nlink st) @
     pad @ bytes64 (st_size st)"

definition filestat :: "u8 list \<Rightarrow> nat \<Rightarrow> nat \<Rightarrow> u64 \<Rightarrow> kernel \<Rightarrow> (int \<times> kernel) res" where
  "filestat pad me f addr s =
     (let x = ftable s f in
      if f_type x = FD_INODE \<or> f_type x = FD_DEVICE
      then res_bind (ilock me (f_ip x) s) (\<lambda>s.
        let st = stati (f_ip x) s in
        res_bind (iunlock me (f_ip x) s) (\<lambda>s.
        res_bind (copyout me (p_pagetable (procs s me)) addr (stat_bytes pad st) s) (\<lambda>(r, s).
        if r < 0 then Ok (-1, s) else Ok (0, s))))
      else Ok (-1, s))"

text \<open>The device number of an open device, checked against the size of \<^verbatim>\<open>devsw\<close>.\<close>

definition bad_major :: "u16 \<Rightarrow> bool" where
  "bad_major m \<longleftrightarrow> sint m < 0 \<or> sint m \<ge> int NDEV"

definition fileread :: "nat \<Rightarrow> nat \<Rightarrow> u64 \<Rightarrow> int \<Rightarrow> kernel \<Rightarrow> (int \<times> kernel) res" where
  "fileread me f addr n s =
     (let x = ftable s f in
      if \<not> f_readable x then Ok (-1, s)
      else (case f_type x of
        FD_PIPE \<Rightarrow> piperead me (f_pipe x) addr n s
      | FD_DEVICE \<Rightarrow>
          (if bad_major (f_major x) then Ok (-1, s)
           else (case devsw_read s (unat (f_major x)) of
             Some Consoleread \<Rightarrow> consoleread me (UserDst addr) n s
           | Some Consolewrite \<Rightarrow> consolewrite me (UserSrc addr) n s
           | None \<Rightarrow> Ok (-1, s)))
      | FD_INODE \<Rightarrow>
          res_bind (ilock me (f_ip x) s) (\<lambda>s.
          res_bind (readi me (f_ip x) (UserDst addr) (f_off (ftable s f)) (word_of_int n) s) (\<lambda>(r, _, s).
          let s = (if r > 0 then upd_file f (\<lambda>x. x\<lparr>f_off := f_off x + word_of_int r\<rparr>) s else s) in
          res_bind (iunlock me (f_ip x) s) (\<lambda>s. Ok (r, s))))
      | FD_NONE \<Rightarrow> Panic ''fileread''))"

definition write_max :: int where
  "write_max = (int MAXOPBLOCKS - 1 - 1 - 2) div 2 * int BSIZE"

lemma write_max_val: "write_max = 3072"
  by (simp add: write_max_def MAXOPBLOCKS_def)

function filewrite_loop :: "nat \<Rightarrow> nat \<Rightarrow> u64 \<Rightarrow> int \<Rightarrow> int \<Rightarrow> kernel \<Rightarrow> (int \<times> kernel) res" where
  "filewrite_loop me f addr n i s =
     (if i < n
      then (let n1 = min (n - i) write_max; x = ftable s f in
        res_bind (begin_op s) (\<lambda>s.
        res_bind (ilock me (f_ip x) s) (\<lambda>s.
        res_bind (writei me (f_ip x) (UserSrc (addr + word_of_int i)) (f_off (ftable s f)) (word_of_int n1) s) (\<lambda>(r, s).
        let s = (if r > 0 then upd_file f (\<lambda>x. x\<lparr>f_off := f_off x + word_of_int r\<rparr>) s else s) in
        res_bind (iunlock me (f_ip x) s) (\<lambda>s.
        res_bind (end_op me s) (\<lambda>s.
        if r \<noteq> n1 then Ok (i, s) else filewrite_loop me f addr n (i + n1) s))))))
      else Ok (i, s))"
  by pat_completeness auto
termination
  by (relation "measure (\<lambda>(_, _, _, n, i, _). nat (n - i))") (auto simp: write_max_val)

declare filewrite_loop.simps [simp del]

definition filewrite :: "nat \<Rightarrow> nat \<Rightarrow> u64 \<Rightarrow> int \<Rightarrow> kernel \<Rightarrow> (int \<times> kernel) res" where
  "filewrite me f addr n s =
     (let x = ftable s f in
      if \<not> f_writable x then Ok (-1, s)
      else (case f_type x of
        FD_PIPE \<Rightarrow> pipewrite me (f_pipe x) addr n s
      | FD_DEVICE \<Rightarrow>
          (if bad_major (f_major x) then Ok (-1, s)
           else (case devsw_write s (unat (f_major x)) of
             Some Consolewrite \<Rightarrow> consolewrite me (UserSrc addr) n s
           | Some Consoleread \<Rightarrow> consoleread me (UserDst addr) n s
           | None \<Rightarrow> Ok (-1, s)))
      | FD_INODE \<Rightarrow> res_bind (filewrite_loop me f addr n 0 s) (\<lambda>(i, s). Ok (if i = n then n else -1, s))
      | FD_NONE \<Rightarrow> Panic ''filewrite''))"

section \<open>Creating a pipe\<close>

definition pipealloc_bad :: "nat \<Rightarrow> u64 \<Rightarrow> nat option \<Rightarrow> nat option \<Rightarrow> kernel \<Rightarrow> (int \<times> nat option \<times> nat option \<times> kernel) res" where
  "pipealloc_bad me pi f0 f1 s =
     res_bind (if pi \<noteq> 0 then kfree pi s else Ok s) (\<lambda>s.
     res_bind (case f0 of Some f \<Rightarrow> fileclose me f s | None \<Rightarrow> Ok s) (\<lambda>s.
     res_bind (case f1 of Some f \<Rightarrow> fileclose me f s | None \<Rightarrow> Ok s) (\<lambda>s. Ok (-1, f0, f1, s))))"

definition pipe_init :: "pipe \<Rightarrow> pipe" where
  "pipe_init p = p\<lparr>pi_readopen := True, pi_writeopen := True, pi_nwrite := 0, pi_nread := 0\<rparr>"

definition pipealloc :: "nat \<Rightarrow> kernel \<Rightarrow> (int \<times> nat option \<times> nat option \<times> kernel) res" where
  "pipealloc me s =
     (let (f0, s) = filealloc s in
      case f0 of
        None \<Rightarrow> pipealloc_bad me 0 None None s
      | Some a \<Rightarrow>
          (let (f1, s) = filealloc s in
           case f1 of
             None \<Rightarrow> pipealloc_bad me 0 f0 None s
           | Some b \<Rightarrow>
               (let (pi, s) = kalloc s in
                if pi = 0 then pipealloc_bad me 0 f0 f1 s
                else Ok (0, f0, f1,
                  upd_file b (\<lambda>x. x\<lparr>f_type := FD_PIPE, f_readable := False, f_writable := True, f_pipe := pi\<rparr>)
                   (upd_file a (\<lambda>x. x\<lparr>f_type := FD_PIPE, f_readable := True, f_writable := False, f_pipe := pi\<rparr>)
                     (upd_pipe pi pipe_init s))))))"

end
