(* ===== verification/Proc.thy ===== *)
theory Proc
  imports File
begin

text \<open>
  Processes (\<^verbatim>\<open>kernel/proc.c\<close>): creation, growth, fork, exit and wait. A section under \<^verbatim>\<open>p->lock\<close>,
  \<^verbatim>\<open>pid_lock\<close> or \<^verbatim>\<open>wait_lock\<close> is one step. The trapframe of a process lives in the physical page \<open>p_trapframe\<close>;
  its fields are read and written at their offsets. Dereferencing the null pointer in the kernel traps
  and ends in the panic of \<^verbatim>\<open>kerneltrap\<close>.
\<close>

section \<open>The trapframe (kernel/proc.h)\<close>

definition TF_kernel_satp :: u64 where "TF_kernel_satp = 0"
definition TF_kernel_sp :: u64 where "TF_kernel_sp = 8"
definition TF_kernel_trap :: u64 where "TF_kernel_trap = 16"
definition TF_epc :: u64 where "TF_epc = 24"
definition TF_kernel_hartid :: u64 where "TF_kernel_hartid = 32"
definition TF_sp :: u64 where "TF_sp = 48"
definition TF_a0 :: u64 where "TF_a0 = 112"
definition TF_a1 :: u64 where "TF_a1 = 120"
definition TF_a7 :: u64 where "TF_a7 = 168"
definition TF_size :: nat where "TF_size = 288"

definition tf_get :: "nat \<Rightarrow> u64 \<Rightarrow> kernel \<Rightarrow> u64" where
  "tf_get i fld s = load64 (mem s) (p_trapframe (procs s i) + fld)"

definition tf_set :: "nat \<Rightarrow> u64 \<Rightarrow> u64 \<Rightarrow> kernel \<Rightarrow> kernel" where
  "tf_set i fld v s = s\<lparr>mem := store64 (mem s) (p_trapframe (procs s i) + fld) v\<rparr>"

section \<open>Allocation\<close>

definition proc_mapstacks :: "u64 \<Rightarrow> kernel \<Rightarrow> kernel res" where
  "proc_mapstacks kpgtbl s =
     fold (\<lambda>i r. res_bind r (\<lambda>s.
       let (pa, s) = kalloc s in
       if pa = 0 then Panic ''kalloc'' else kvmmap kpgtbl (KSTACK i) pa PGSIZE (PTE_R OR PTE_W) s)) [0..<NPROC] (Ok s)"

definition allocpid :: "kernel \<Rightarrow> u32 \<times> kernel" where
  "allocpid s = (nextpid s, s\<lparr>nextpid := nextpid s + 1\<rparr>)"

definition proc_freepagetable :: "u64 \<Rightarrow> u64 \<Rightarrow> kernel \<Rightarrow> kernel res" where
  "proc_freepagetable pagetable sz s =
     res_bind (uvmunmap pagetable TRAMPOLINE 1 False s) (\<lambda>s.
     res_bind (uvmunmap pagetable TRAPFRAME 1 False s) (uvmfree pagetable sz))"

definition proc_pagetable :: "nat \<Rightarrow> kernel \<Rightarrow> (u64 \<times> kernel) res" where
  "proc_pagetable i s =
     (let (pagetable, s) = uvmcreate s in
      if pagetable = 0 then Ok (0, s)
      else res_bind (mappages pagetable TRAMPOLINE PGSIZE (a_trampoline (syms s)) (PTE_R OR PTE_X) s) (\<lambda>(r, s).
        if r < 0 then res_bind (uvmfree pagetable 0 s) (\<lambda>s. Ok (0, s))
        else res_bind (mappages pagetable TRAPFRAME PGSIZE (p_trapframe (procs s i)) (PTE_R OR PTE_W) s) (\<lambda>(r, s).
          if r < 0
          then res_bind (uvmunmap pagetable TRAMPOLINE 1 False s) (\<lambda>s.
            res_bind (uvmfree pagetable 0 s) (\<lambda>s. Ok (0, s)))
          else Ok (pagetable, s))))"

definition clear_proc :: "proc \<Rightarrow> proc" where
  "clear_proc p = p\<lparr>p_pagetable := 0, p_sz := 0, p_pid := 0, p_parent := None, p_name := (p_name p)[0 := 0],
     p_chan := 0, p_wq_entry := (p_wq_entry p)\<lparr>e_chan := 0, e_next := None, e_queued := 0\<rparr>,
     p_killed := 0, p_xstate := 0, p_state := UNUSED\<rparr>"

definition freeproc :: "nat \<Rightarrow> kernel \<Rightarrow> kernel res" where
  "freeproc i s =
     res_bind (if p_trapframe (procs s i) \<noteq> 0 then kfree (p_trapframe (procs s i)) s else Ok s) (\<lambda>s.
     let s = upd_proc i (\<lambda>p. p\<lparr>p_trapframe := 0\<rparr>) s in
     res_bind (if p_pagetable (procs s i) \<noteq> 0 then proc_freepagetable (p_pagetable (procs s i)) (p_sz (procs s i)) s
               else Ok s) (\<lambda>s.
     Ok (upd_proc i clear_proc s)))"

definition allocproc :: "kernel \<Rightarrow> (nat option \<times> kernel) res" where
  "allocproc s =
     (case find (\<lambda>i. p_state (procs s i) = UNUSED) [0..<NPROC] of
        None \<Rightarrow> Ok (None, s)
      | Some i \<Rightarrow>
          (let (pid, s) = allocpid s;
               s = upd_proc i (\<lambda>p. p\<lparr>p_pid := pid, p_state := USED\<rparr>) s;
               (tf, s) = kalloc s;
               s = upd_proc i (\<lambda>p. p\<lparr>p_trapframe := tf\<rparr>) s in
           if tf = 0 then res_bind (freeproc i s) (\<lambda>s. Ok (None, s))
           else res_bind (proc_pagetable i s) (\<lambda>(pt, s).
             let s = upd_proc i (\<lambda>p. p\<lparr>p_pagetable := pt\<rparr>) s in
             if pt = 0 then res_bind (freeproc i s) (\<lambda>s. Ok (None, s))
             else Ok (Some i, upd_proc i (\<lambda>p. p\<lparr>p_context := \<lparr>ctx_ra = a_forkret (syms s),
                    ctx_sp = p_kstack p + PGSIZE, ctx_s = replicate 12 0\<rparr>\<rparr>) s))))"

definition userinit :: "kernel \<Rightarrow> kernel res" where
  "userinit s =
     res_bind (allocproc s) (\<lambda>(p, s).
     let s = s\<lparr>initproc := p\<rparr> in
     case p of
       None \<Rightarrow> Panic ''kerneltrap''
     | Some i \<Rightarrow>
         res_bind (namei i [slash] s) (\<lambda>(ip, s).
         Ok (upd_proc i (\<lambda>p. p\<lparr>p_cwd := ip, p_state := RUNNABLE\<rparr>) s)))"

definition growproc :: "nat \<Rightarrow> int \<Rightarrow> kernel \<Rightarrow> (int \<times> kernel) res" where
  "growproc me n s =
     (let sz = p_sz (procs s me); pt = p_pagetable (procs s me) in
      if n > 0
      then (if sz + word_of_int n > TRAPFRAME then Ok (-1, s)
        else res_bind (uvmalloc pt sz (sz + word_of_int n) PTE_W s) (\<lambda>(sz, s).
          if sz = 0 then Ok (-1, s) else Ok (0, upd_proc me (\<lambda>p. p\<lparr>p_sz := sz\<rparr>) s)))
      else if n < 0
      then res_bind (uvmdealloc pt sz (sz + word_of_int n) s) (\<lambda>(sz, s). Ok (0, upd_proc me (\<lambda>p. p\<lparr>p_sz := sz\<rparr>) s))
      else Ok (0, upd_proc me (\<lambda>p. p\<lparr>p_sz := sz\<rparr>) s))"

section \<open>Fork, exit and wait\<close>

text \<open>\<^verbatim>\<open>safestrcpy\<close> between two local arrays, the destination given with its old content.\<close>

definition safestrcpy_local :: "u8 list \<Rightarrow> u8 list \<Rightarrow> u8 list" where
  "safestrcpy_local dst src =
     bytes_at (safestrcpy (store_bytes (store_bytes (\<lambda>_. 0) 0 dst) 0x1000 src) 0 0x1000 (int (length dst))) 0 (length dst)"

fun fork_files :: "nat \<Rightarrow> nat \<Rightarrow> nat list \<Rightarrow> kernel \<Rightarrow> kernel res" where
  "fork_files me np [] s = Ok s"
| "fork_files me np (i # is1) s =
     (case p_ofile (procs s me) ! i of
        Some f \<Rightarrow> res_bind (filedup f s) (\<lambda>(f, s).
          fork_files me np is1 (upd_proc np (\<lambda>p. p\<lparr>p_ofile := (p_ofile p)[i := Some f]\<rparr>) s))
      | None \<Rightarrow> fork_files me np is1 s)"

definition kfork :: "nat \<Rightarrow> kernel \<Rightarrow> (int \<times> kernel) res" where
  "kfork me s =
     res_bind (allocproc s) (\<lambda>(np, s).
     case np of
       None \<Rightarrow> Ok (-1, s)
     | Some np \<Rightarrow>
         res_bind (uvmcopy (p_pagetable (procs s me)) (p_pagetable (procs s np)) (p_sz (procs s me)) s) (\<lambda>(r, s).
         if r < 0 then res_bind (freeproc np s) (\<lambda>s. Ok (-1, s))
         else
           (let s = upd_proc np (\<lambda>p. p\<lparr>p_sz := p_sz (procs s me)\<rparr>) s;
                s = s\<lparr>mem := store_bytes (mem s) (p_trapframe (procs s np)) (bytes_at (mem s) (p_trapframe (procs s me)) TF_size)\<rparr>;
                s = tf_set np TF_a0 0 s in
            res_bind (fork_files me np [0..<NOFILE] s) (\<lambda>s.
            case p_cwd (procs s me) of
              None \<Rightarrow> Panic ''kerneltrap''
            | Some cwd \<Rightarrow>
                (let (ip, s) = idup cwd s;
                     s = upd_proc np (\<lambda>p. p\<lparr>p_cwd := Some ip\<rparr>) s;
                     s = upd_proc np (\<lambda>p. p\<lparr>p_name := safestrcpy_local (p_name p) (p_name (procs s me))\<rparr>) s;
                     pid = sint (p_pid (procs s np));
                     s = upd_proc np (\<lambda>p. p\<lparr>p_parent := Some me\<rparr>) s;
                     s = upd_proc np (\<lambda>p. p\<lparr>p_state := RUNNABLE\<rparr>) s in
                 Ok (pid, s))))))"

text \<open>A process pointer as a wait channel; the null pointer is address 0.\<close>

definition proc_chan :: "nat option \<Rightarrow> kernel \<Rightarrow> chan" where
  "proc_chan p s = (case p of Some i \<Rightarrow> a_proc (syms s) i | None \<Rightarrow> 0)"

fun reparent_loop :: "nat \<Rightarrow> nat list \<Rightarrow> kernel \<Rightarrow> kernel res" where
  "reparent_loop p [] s = Ok s"
| "reparent_loop p (i # is1) s =
     (if p_parent (procs s i) = Some p
      then res_bind (do_wakeup (proc_chan (initproc s) s) (upd_proc i (\<lambda>q. q\<lparr>p_parent := initproc s\<rparr>) s))
        (reparent_loop p is1)
      else reparent_loop p is1 s)"

definition reparent :: "nat \<Rightarrow> kernel \<Rightarrow> kernel res" where
  "reparent p s = reparent_loop p [0..<NPROC] s"

fun close_files :: "nat \<Rightarrow> nat list \<Rightarrow> kernel \<Rightarrow> kernel res" where
  "close_files me [] s = Ok s"
| "close_files me (fd # fds) s =
     (case p_ofile (procs s me) ! fd of
        Some f \<Rightarrow> res_bind (fileclose me f s) (\<lambda>s.
          close_files me fds (upd_proc me (\<lambda>p. p\<lparr>p_ofile := (p_ofile p)[fd := None]\<rparr>) s))
      | None \<Rightarrow> close_files me fds s)"

text \<open>\<^verbatim>\<open>kexit\<close> up to its call of \<^verbatim>\<open>sched\<close>, from which it does not return.\<close>

definition kexit :: "nat \<Rightarrow> int \<Rightarrow> kernel \<Rightarrow> kernel res" where
  "kexit me status s =
     (if initproc s = Some me then Panic ''init exiting''
      else res_bind (close_files me [0..<NOFILE] s) (\<lambda>s.
        res_bind (begin_op s) (\<lambda>s.
        case p_cwd (procs s me) of
          None \<Rightarrow> Panic ''kerneltrap''
        | Some cwd \<Rightarrow>
            res_bind (iput me cwd s) (\<lambda>s.
            res_bind (end_op me s) (\<lambda>s.
            res_bind (reparent me (upd_proc me (\<lambda>p. p\<lparr>p_cwd := None\<rparr>) s)) (\<lambda>s.
            res_bind (do_wakeup (proc_chan (p_parent (procs s me)) s) s) (\<lambda>s.
            Ok (upd_proc me (\<lambda>p. p\<lparr>p_xstate := word_of_int status, p_state := ZOMBIE\<rparr>) s))))))))"

text \<open>
  One scan of \<^verbatim>\<open>kwait\<close> over the process table: a result, or whether the caller has children. \<open>kwait_run\<close>
  is one round of its outer loop, which sleeps on the process's own address when there are only
  running children.
\<close>

fun kwait_scan :: "nat \<Rightarrow> u64 \<Rightarrow> nat list \<Rightarrow> bool \<Rightarrow> kernel \<Rightarrow> (int option \<times> bool \<times> kernel) res" where
  "kwait_scan me addr [] havekids s = Ok (None, havekids, s)"
| "kwait_scan me addr (i # is1) havekids s =
     (if p_parent (procs s i) = Some me
      then (if p_state (procs s i) = ZOMBIE
        then (let pid = sint (p_pid (procs s i)) in
          res_bind (if addr \<noteq> 0 then copyout me (p_pagetable (procs s me)) addr (bytes32 (p_xstate (procs s i))) s
                    else Ok (0, s)) (\<lambda>(r, s).
          if r < 0 then Ok (Some (-1), True, s)
          else res_bind (freeproc i s) (\<lambda>s. Ok (Some pid, True, s))))
        else kwait_scan me addr is1 True s)
      else kwait_scan me addr is1 havekids s)"

definition kwait_run :: "nat \<Rightarrow> u64 \<Rightarrow> kernel \<Rightarrow> (outcome \<times> kernel) res" where
  "kwait_run me addr s =
     res_bind (kwait_scan me addr [0..<NPROC] False s) (\<lambda>(r, havekids, s).
     case r of
       Some v \<Rightarrow> Ok (Done v, s)
     | None \<Rightarrow> if \<not> havekids \<or> killed me s \<noteq> 0 then Ok (Done (-1), s) else Ok (Blocked (a_proc (syms s) me), s))"

definition kwait :: "nat \<Rightarrow> u64 \<Rightarrow> kernel \<Rightarrow> (int \<times> kernel) res" where
  "kwait me addr s =
     res_bind (kwait_run me addr s) (\<lambda>(r, s). case r of Done v \<Rightarrow> Ok (v, s) | Blocked c \<Rightarrow> Sleeps c)"

section \<open>Parents and children\<close>

text \<open>\<^verbatim>\<open>kwait\<close> reaps the first child in the process table that has exited.\<close>

definition zombie_child :: "nat \<Rightarrow> kernel \<Rightarrow> nat option" where
  "zombie_child me s = find (\<lambda>i. p_parent (procs s i) = Some me \<and> p_state (procs s i) = ZOMBIE) [0..<NPROC]"

lemma kwait_scan_eq:
  "kwait_scan me addr is1 hk s =
     (case find (\<lambda>i. p_parent (procs s i) = Some me \<and> p_state (procs s i) = ZOMBIE) is1 of
        None \<Rightarrow> Ok (None, hk \<or> (\<exists>i\<in>set is1. p_parent (procs s i) = Some me), s)
      | Some i \<Rightarrow> res_bind (if addr \<noteq> 0 then copyout me (p_pagetable (procs s me)) addr (bytes32 (p_xstate (procs s i))) s else Ok (0, s))
          (\<lambda>(r, s'). if r < 0 then Ok (Some (-1), True, s')
             else res_bind (freeproc i s') (\<lambda>s''. Ok (Some (sint (p_pid (procs s i))), True, s''))))"
proof (induction is1 arbitrary: hk)
  case (Cons i is1)
  show ?case
  proof (cases "p_parent (procs s i) = Some me \<and> p_state (procs s i) = ZOMBIE")
    case True
    then show ?thesis by (simp add: Let_def)
  next
    case False
    have "(hk \<or> (\<exists>j\<in>set (i # is1). p_parent (procs s j) = Some me)) \<longleftrightarrow>
        ((hk \<or> p_parent (procs s i) = Some me) \<or> (\<exists>j\<in>set is1. p_parent (procs s j) = Some me))" by auto
    then show ?thesis using False Cons.IH [of hk] Cons.IH [of True] by (cases "p_parent (procs s i) = Some me") (simp_all split: option.split)
  qed
qed simp

lemma reparent_loop_ok:
  assumes "sched_ok s"
  shows "\<exists>s'. reparent_loop p is1 s = Ok s' \<and> sched_ok s' \<and> initproc s' = initproc s \<and>
    (\<forall>i. p_pid (procs s' i) = p_pid (procs s i) \<and> p_xstate (procs s' i) = p_xstate (procs s i)) \<and>
    (\<forall>i. p_parent (procs s' i) = (if i \<in> set is1 \<and> p_parent (procs s i) = Some p then initproc s else p_parent (procs s i)))"
  using assms
proof (induction is1 arbitrary: s)
  case Nil
  then show ?case by simp
next
  case (Cons i is1)
  show ?case
  proof (cases "p_parent (procs s i) = Some p")
    case False
    then show ?thesis using Cons.IH [OF Cons.prems] by auto
  next
    case True
    let ?t = "upd_proc i (\<lambda>q. q\<lparr>p_parent := initproc s\<rparr>) s"
    have "p_state (procs ?t j) = p_state (procs s j)" "p_chan (procs ?t j) = p_chan (procs s j)"
      "p_wq_entry (procs ?t j) = p_wq_entry (procs s j)" "buckets ?t = buckets s" for j by simp_all
    then have "sched_ok ?t"
      using Cons.prems unfolding sched_ok_def sched_inv_def wq_queues_def wq_queue_def queued_ok_def enext_def by (simp only:)
    then obtain u where u: "do_wakeup (proc_chan (initproc s) s) ?t = Ok u" "woke ?t u" using do_wakeup_woke by blast
    have "initproc u = initproc s" using u(2) by (auto simp: woke_def upd_proc_def)
    note w = woke_simps [OF u(2)] this
    have "sched_ok u" using u(2) by (simp add: woke_def)
    then obtain s' where s': "reparent_loop p is1 u = Ok s'" "sched_ok s'" "initproc s' = initproc u"
        "\<forall>j. p_pid (procs s' j) = p_pid (procs u j) \<and> p_xstate (procs s' j) = p_xstate (procs u j)"
        "\<forall>j. p_parent (procs s' j) = (if j \<in> set is1 \<and> p_parent (procs u j) = Some p then initproc u else p_parent (procs u j))"
      using Cons.IH by blast
    have "reparent_loop p (i # is1) s = Ok s'" using True u(1) s'(1) by simp
    then show ?thesis using s' w True by (intro exI [of _ s']) auto
  qed
qed

text \<open>
  (C31) No orphans: \<^verbatim>\<open>reparent\<close>, which \<^verbatim>\<open>kexit\<close> runs before the process becomes a zombie, always returns, and afterwards every
  former child of the process, dead or alive, is a child of init, so that a \<^verbatim>\<open>kwait\<close> of init finds it: no process has
  the exiting process as its parent any more, every other parent is as before, and exit statuses and pids are kept. A \<^verbatim>\<open>kwait\<close> of the process itself would find no child.
\<close>

theorem reparent_leaves_no_orphan:
  assumes "sched_ok s" "initproc s = Some ini" "ini \<noteq> p"
  shows "\<exists>s'. reparent p s = Ok s' \<and> sched_ok s' \<and>
    (\<forall>i<NPROC. p_parent (procs s' i) = (if p_parent (procs s i) = Some p then Some ini else p_parent (procs s i))) \<and>
    (\<forall>i. p_pid (procs s' i) = p_pid (procs s i) \<and> p_xstate (procs s' i) = p_xstate (procs s i)) \<and>
    kwait_run p addr s' = Ok (Done (-1), s')"
proof -
  obtain s' where s': "reparent_loop p [0..<NPROC] s = Ok s'" "sched_ok s'"
      "\<forall>i. p_pid (procs s' i) = p_pid (procs s i) \<and> p_xstate (procs s' i) = p_xstate (procs s i)"
      "\<forall>i. p_parent (procs s' i) = (if i \<in> set [0..<NPROC] \<and> p_parent (procs s i) = Some p then initproc s else p_parent (procs s i))"
    using reparent_loop_ok [OF assms(1), of p "[0..<NPROC]"] by blast
  have par: "p_parent (procs s' i) = (if p_parent (procs s i) = Some p then Some ini else p_parent (procs s i))" if "i < NPROC" for i
    using s'(4) assms(2) that by simp
  then have no: "p_parent (procs s' i) \<noteq> Some p" if "i < NPROC" for i using assms(3) that by auto
  then have "find (\<lambda>i. p_parent (procs s' i) = Some p \<and> p_state (procs s' i) = ZOMBIE) [0..<NPROC] = None" by (auto simp: find_None_iff)
  then have "kwait_run p addr s' = Ok (Done (-1), s')" using no by (simp add: kwait_run_def kwait_scan_eq)
  then show ?thesis using s' par by (auto simp: reparent_def)
qed

text \<open>Process 2 exits and leaves the running child 3 and the zombie 4.\<close>

theorem reparent_leaves_no_orphan_witness:
  "\<exists>s s'. reparent 2 s = Ok s' \<and> p_parent (procs s 3) = Some 2 \<and> p_parent (procs s' 3) = Some 1 \<and>
     p_parent (procs s 4) = Some 2 \<and> p_parent (procs s' 4) = Some 1 \<and> p_parent (procs s' 2) = Some 1"
proof -
  define s :: kernel where "s = boot_kernel\<lparr>initproc := Some 1,
    procs := (\<lambda>_. boot_proc)(2 := boot_proc\<lparr>p_parent := Some 1\<rparr>, 3 := boot_proc\<lparr>p_parent := Some 2\<rparr>, 4 := boot_proc\<lparr>p_parent := Some 2, p_state := ZOMBIE\<rparr>)\<rparr>"
  have "sched_inv s (\<lambda>_. [])"
    by (simp add: s_def sched_inv_def wq_queues_def wq_queue_def boot_kernel_def boot_proc_def)
  then have "sched_ok s" unfolding sched_ok_def by blast
  moreover have "initproc s = Some 1" by (simp add: s_def)
  ultimately obtain s' where "reparent 2 s = Ok s'"
      "\<forall>i<NPROC. p_parent (procs s' i) = (if p_parent (procs s i) = Some 2 then Some 1 else p_parent (procs s i))"
    using reparent_leaves_no_orphan [of s 1 2 0] by auto
  then show ?thesis by (intro exI [of _ s] exI [of _ s']) (simp add: s_def NPROC_def)
qed

end
