(* ===== verification/Exec.thy ===== *)
theory Exec
  imports Proc
begin

text \<open>
  Loading a program (\<^verbatim>\<open>kernel/exec.c\<close>). The ELF structures are read at their byte offsets; the strings
  of \<^verbatim>\<open>argv\<close> are lists of bytes without the terminating zero. The label \<^verbatim>\<open>bad\<close> is the function \<open>kexec_bad\<close>.
\<close>

definition ELF_MAGIC :: u32 where "ELF_MAGIC = 0x464C457F"
definition ELF_PROG_LOAD :: u32 where "ELF_PROG_LOAD = 1"
definition USERSTACK :: u64 where "USERSTACK = 1"

record elfhdr =
  elf_magic :: u32
  elf_entry :: u64
  elf_phoff :: u64
  elf_phnum :: u16

record proghdr =
  ph_type :: u32
  ph_flags :: u32
  ph_off :: u64
  ph_vaddr :: u64
  ph_filesz :: u64
  ph_memsz :: u64

definition elfhdr_of :: "u8 list \<Rightarrow> elfhdr" where
  "elfhdr_of d = \<lparr>elf_magic = get32 d 0, elf_entry = get64 d 24, elf_phoff = get64 d 32, elf_phnum = get16 d 56\<rparr>"

definition proghdr_of :: "u8 list \<Rightarrow> proghdr" where
  "proghdr_of d = \<lparr>ph_type = get32 d 0, ph_flags = get32 d 4, ph_off = get64 d 8, ph_vaddr = get64 d 16,
     ph_filesz = get64 d 32, ph_memsz = get64 d 40\<rparr>"

definition flags2perm :: "u32 \<Rightarrow> u64" where
  "flags2perm flags =
     (let perm = (if flags AND 1 \<noteq> 0 then PTE_X else 0) in
      if flags AND 2 \<noteq> 0 then perm OR PTE_W else perm)"

section \<open>Loading the segments\<close>

text \<open>The loop of \<^verbatim>\<open>loadseg\<close>; its counter is a 32-bit word and could wrap around.\<close>

partial_function (option) loadseg_loop ::
    "nat \<Rightarrow> u64 \<Rightarrow> u64 \<Rightarrow> nat \<Rightarrow> u32 \<Rightarrow> u32 \<Rightarrow> u32 \<Rightarrow> kernel \<Rightarrow> (int \<times> kernel) res option" where
  "loadseg_loop me pagetable va ip offset sz i s =
     (if i < sz
      then res_opt (walkaddr pagetable (va + ucast i) s) (\<lambda>(pa, s).
        if pa = 0 then Some (Panic ''loadseg: address should exist'')
        else (let n = (if ucast (sz - i) < PGSIZE then sz - i else ucast PGSIZE) in
          res_opt (readi me ip (MemDst pa) (offset + i) n s) (\<lambda>(r, _, s).
          if word_of_int r \<noteq> n then Some (Ok (-1, s))
          else loadseg_loop me pagetable va ip offset sz (i + ucast PGSIZE) s)))
      else Some (Ok (0, s)))"

definition loadseg :: "nat \<Rightarrow> u64 \<Rightarrow> u64 \<Rightarrow> nat \<Rightarrow> u32 \<Rightarrow> u32 \<Rightarrow> kernel \<Rightarrow> (int \<times> kernel) res" where
  "loadseg me pagetable va ip offset sz s = res_join (loadseg_loop me pagetable va ip offset sz 0 s)"

text \<open>The loop over the program headers: whether it got through, and the size reached.\<close>

fun load_segments :: "nat \<Rightarrow> u64 \<Rightarrow> nat \<Rightarrow> nat \<Rightarrow> u32 \<Rightarrow> u64 \<Rightarrow> kernel \<Rightarrow> (bool \<times> u64 \<times> kernel) res" where
  "load_segments me pagetable ip 0 off sz s = Ok (True, sz, s)"
| "load_segments me pagetable ip (Suc k) off sz s =
     res_bind (readi me ip LocalDst off 56 s) (\<lambda>(r, d, s).
     if r \<noteq> 56 then Ok (False, sz, s)
     else (let ph = proghdr_of d in
       if ph_type ph \<noteq> ELF_PROG_LOAD then load_segments me pagetable ip k (off + 56) sz s
       else if ph_memsz ph < ph_filesz ph then Ok (False, sz, s)
       else if ph_vaddr ph + ph_memsz ph < ph_vaddr ph then Ok (False, sz, s)
       else if ph_vaddr ph mod PGSIZE \<noteq> 0 then Ok (False, sz, s)
       else res_bind (uvmalloc pagetable sz (ph_vaddr ph + ph_memsz ph) (flags2perm (ph_flags ph)) s) (\<lambda>(sz1, s).
         if sz1 = 0 then Ok (False, sz, s)
         else res_bind (loadseg me pagetable (ph_vaddr ph) ip (ucast (ph_off ph)) (ucast (ph_filesz ph)) s) (\<lambda>(r, s).
           if r < 0 then Ok (False, sz1, s) else load_segments me pagetable ip k (off + 56) sz1 s))))"

section \<open>The arguments\<close>

fun push_args :: "nat \<Rightarrow> u64 \<Rightarrow> u64 \<Rightarrow> u8 list list \<Rightarrow> nat \<Rightarrow> u64 \<Rightarrow> u64 list \<Rightarrow> kernel \<Rightarrow>
    (bool \<times> u64 \<times> u64 list \<times> kernel) res" where
  "push_args me pagetable stackbase [] argc sp ustack s = Ok (True, sp, ustack, s)"
| "push_args me pagetable stackbase (a # argv) argc sp ustack s =
     (if argc \<ge> MAXARG then Ok (False, sp, ustack, s)
      else (let sp = sp - (of_nat (length a) + 1); sp = sp - sp mod 16 in
        if sp < stackbase then Ok (False, sp, ustack, s)
        else res_bind (copyout me pagetable sp (a @ [0]) s) (\<lambda>(r, s).
          if r < 0 then Ok (False, sp, ustack, s)
          else push_args me pagetable stackbase argv (Suc argc) sp (ustack @ [sp]) s)))"

text \<open>The part of the path after its last slash.\<close>

definition last_elem :: "u8 list \<Rightarrow> u8 list" where
  "last_elem path = rev (takeWhile (\<lambda>c. c \<noteq> slash) (rev path))"

section \<open>kexec\<close>

definition kexec_bad :: "nat \<Rightarrow> u64 \<Rightarrow> u64 \<Rightarrow> nat option \<Rightarrow> kernel \<Rightarrow> (int \<times> kernel) res" where
  "kexec_bad me pagetable sz ip s =
     res_bind (if pagetable \<noteq> 0 then proc_freepagetable pagetable sz s else Ok s) (\<lambda>s.
     res_bind (case ip of Some i \<Rightarrow> res_bind (iunlockput me i s) (end_op me) | None \<Rightarrow> Ok s) (\<lambda>s. Ok (-1, s)))"

text \<open>From the allocation of the stack on: \<open>sz\<close> is the size of the loaded image.\<close>

definition kexec_commit ::
    "nat \<Rightarrow> u8 list \<Rightarrow> u64 \<Rightarrow> u64 \<Rightarrow> u64 \<Rightarrow> u64 \<Rightarrow> u64 \<Rightarrow> kernel \<Rightarrow> (int \<times> kernel) res" where
  "kexec_commit me path pagetable sz sp entry1 argc s =
     (let oldsz = p_sz (procs s me);
          s = tf_set me TF_a1 sp s;
          s = upd_proc me (\<lambda>p. p\<lparr>p_name := safestrcpy_local (p_name p) (last_elem path @ [0])\<rparr>) s;
          oldpagetable = p_pagetable (procs s me);
          s = upd_proc me (\<lambda>p. p\<lparr>p_pagetable := pagetable, p_sz := sz\<rparr>) s;
          s = tf_set me TF_sp sp (tf_set me TF_epc entry1 s) in
      res_bind (proc_freepagetable oldpagetable oldsz s) (\<lambda>s. Ok (sint argc, s)))"

definition kexec_stack ::
    "nat \<Rightarrow> u8 list \<Rightarrow> u8 list list \<Rightarrow> u64 \<Rightarrow> u64 \<Rightarrow> u64 \<Rightarrow> kernel \<Rightarrow> (int \<times> kernel) res" where
  "kexec_stack me path argv pagetable sz entry1 s =
     (let sz = PGROUNDUP sz in
      res_bind (uvmalloc pagetable sz (sz + (USERSTACK + 1) * PGSIZE) PTE_W s) (\<lambda>(sz1, s).
      if sz1 = 0 then kexec_bad me pagetable sz None s
      else (let sz = sz1 in
        res_bind (uvmclear pagetable (sz - (USERSTACK + 1) * PGSIZE) s) (\<lambda>s.
        let stackbase = sz - USERSTACK * PGSIZE in
        res_bind (push_args me pagetable stackbase argv 0 sz [] s) (\<lambda>(ok, sp, ustack, s).
        if \<not> ok then kexec_bad me pagetable sz None s
        else (let sp = sp - (of_nat (length ustack) + 1) * 8; sp = sp - sp mod 16 in
          if sp < stackbase then kexec_bad me pagetable sz None s
          else res_bind (copyout me pagetable sp (concat (map bytes64 (ustack @ [0]))) s) (\<lambda>(r, s).
            if r < 0 then kexec_bad me pagetable sz None s
            else kexec_commit me path pagetable sz sp entry1 (of_nat (length ustack)) s)))))))"

definition kexec :: "nat \<Rightarrow> u8 list \<Rightarrow> u8 list list \<Rightarrow> kernel \<Rightarrow> (int \<times> kernel) res" where
  "kexec me path argv s =
     res_bind (begin_op s) (\<lambda>s.
     res_bind (namei me path s) (\<lambda>(ip, s).
     case ip of
       None \<Rightarrow> res_bind (end_op me s) (\<lambda>s. Ok (-1, s))
     | Some ip \<Rightarrow>
         res_bind (ilock me ip s) (\<lambda>s.
         res_bind (readi me ip LocalDst 0 64 s) (\<lambda>(r, d, s).
         if r \<noteq> 64 then kexec_bad me 0 0 (Some ip) s
         else (let elf = elfhdr_of d in
           if elf_magic elf \<noteq> ELF_MAGIC then kexec_bad me 0 0 (Some ip) s
           else res_bind (proc_pagetable me s) (\<lambda>(pagetable, s).
             if pagetable = 0 then kexec_bad me 0 0 (Some ip) s
             else res_bind (load_segments me pagetable ip (unat (elf_phnum elf)) (ucast (elf_phoff elf)) 0 s) (\<lambda>(ok, sz, s).
               if \<not> ok then kexec_bad me pagetable sz (Some ip) s
               else res_bind (iunlockput me ip s) (\<lambda>s.
                 res_bind (end_op me s) (kexec_stack me path argv pagetable sz (elf_entry elf))))))))))"

end
