(* ===== verification/Sysfile.thy ===== *)
theory Sysfile
  imports Exec
begin

text \<open>
  System call arguments (\<^verbatim>\<open>kernel/syscall.c\<close>) and the file-system calls (\<^verbatim>\<open>kernel/sysfile.c\<close>). Every handler
  takes the running process and the state and returns the value for register a0; the user's strings
  are fetched through its page table. Labels of the C code are separate functions.
\<close>

section \<open>Arguments\<close>

definition fetchaddr :: "nat \<Rightarrow> u64 \<Rightarrow> kernel \<Rightarrow> (int \<times> u64 \<times> kernel) res" where
  "fetchaddr me addr s =
     (let sz = p_sz (procs s me) in
      if addr \<ge> sz \<or> addr + 8 > sz then Ok (-1, 0, s)
      else res_bind (copyin me (p_pagetable (procs s me)) addr 8 s) (\<lambda>(r, xs, s).
        if r \<noteq> 0 then Ok (-1, 0, s) else Ok (0, get64 xs 0, s)))"

text \<open>\<^verbatim>\<open>fetchstr\<close>: the C result, and the bytes written to the buffer.\<close>

definition fetchstr :: "nat \<Rightarrow> u64 \<Rightarrow> nat \<Rightarrow> kernel \<Rightarrow> (int \<times> u8 list \<times> kernel) res" where
  "fetchstr me addr mx s =
     res_bind (copyinstr (p_pagetable (procs s me)) addr mx s) (\<lambda>(r, xs, s).
     if r < 0 then Ok (-1, xs, s) else Ok (int (length (c_string xs)), xs, s))"

definition argraw :: "nat \<Rightarrow> nat \<Rightarrow> kernel \<Rightarrow> u64 res" where
  "argraw me n s = (if n \<le> 5 then Ok (tf_get me (TF_a0 + 8 * of_nat n) s) else Panic ''argraw'')"

definition argint :: "nat \<Rightarrow> nat \<Rightarrow> kernel \<Rightarrow> int res" where
  "argint me n s = res_bind (argraw me n s) (\<lambda>v. Ok (sint (ucast v :: u32)))"

definition argaddr :: "nat \<Rightarrow> nat \<Rightarrow> kernel \<Rightarrow> u64 res" where
  "argaddr me n s = argraw me n s"

definition argstr :: "nat \<Rightarrow> nat \<Rightarrow> nat \<Rightarrow> kernel \<Rightarrow> (int \<times> u8 list \<times> kernel) res" where
  "argstr me n mx s = res_bind (argaddr me n s) (\<lambda>addr. fetchstr me addr mx s)"

definition MAXPATH :: nat where "MAXPATH = 128"

text \<open>A path argument: \<open>None\<close> when \<^verbatim>\<open>argstr\<close> fails.\<close>

definition argpath :: "nat \<Rightarrow> nat \<Rightarrow> kernel \<Rightarrow> (u8 list option \<times> kernel) res" where
  "argpath me n s =
     res_bind (argstr me n MAXPATH s) (\<lambda>(r, xs, s). Ok (if r < 0 then None else Some (c_string xs), s))"

section \<open>File descriptors\<close>

definition argfd :: "nat \<Rightarrow> nat \<Rightarrow> kernel \<Rightarrow> (nat \<times> nat) option res" where
  "argfd me n s =
     res_bind (argint me n s) (\<lambda>fd.
     if fd < 0 \<or> fd \<ge> int NOFILE then Ok None
     else (case p_ofile (procs s me) ! nat fd of None \<Rightarrow> Ok None | Some f \<Rightarrow> Ok (Some (nat fd, f))))"

definition fdalloc :: "nat \<Rightarrow> nat \<Rightarrow> kernel \<Rightarrow> int \<times> kernel" where
  "fdalloc me f s =
     (case find (\<lambda>fd. p_ofile (procs s me) ! fd = None) [0..<NOFILE] of
        Some fd \<Rightarrow> (int fd, upd_proc me (\<lambda>p. p\<lparr>p_ofile := (p_ofile p)[fd := Some f]\<rparr>) s)
      | None \<Rightarrow> (-1, s))"

definition sys_dup :: "nat \<Rightarrow> kernel \<Rightarrow> (u64 \<times> kernel) res" where
  "sys_dup me s =
     res_bind (argfd me 0 s) (\<lambda>r.
     case r of
       None \<Rightarrow> Ok (-1, s)
     | Some (_, f) \<Rightarrow>
         (let (fd, s) = fdalloc me f s in
          if fd < 0 then Ok (-1, s) else res_bind (filedup f s) (\<lambda>(_, s). Ok (word_of_int fd, s))))"

definition sys_read :: "nat \<Rightarrow> kernel \<Rightarrow> (u64 \<times> kernel) res" where
  "sys_read me s =
     res_bind (argaddr me 1 s) (\<lambda>p.
     res_bind (argint me 2 s) (\<lambda>n.
     res_bind (argfd me 0 s) (\<lambda>r.
     case r of
       None \<Rightarrow> Ok (-1, s)
     | Some (_, f) \<Rightarrow> res_bind (fileread me f p n s) (\<lambda>(r, s). Ok (word_of_int r, s)))))"

definition sys_write :: "nat \<Rightarrow> kernel \<Rightarrow> (u64 \<times> kernel) res" where
  "sys_write me s =
     res_bind (argaddr me 1 s) (\<lambda>p.
     res_bind (argint me 2 s) (\<lambda>n.
     res_bind (argfd me 0 s) (\<lambda>r.
     case r of
       None \<Rightarrow> Ok (-1, s)
     | Some (_, f) \<Rightarrow> res_bind (filewrite me f p n s) (\<lambda>(r, s). Ok (word_of_int r, s)))))"

definition clear_fd :: "nat \<Rightarrow> nat \<Rightarrow> kernel \<Rightarrow> kernel" where
  "clear_fd me fd = upd_proc me (\<lambda>p. p\<lparr>p_ofile := (p_ofile p)[fd := None]\<rparr>)"

definition sys_close :: "nat \<Rightarrow> kernel \<Rightarrow> (u64 \<times> kernel) res" where
  "sys_close me s =
     res_bind (argfd me 0 s) (\<lambda>r.
     case r of
       None \<Rightarrow> Ok (-1, s)
     | Some (fd, f) \<Rightarrow> res_bind (fileclose me f (clear_fd me fd s)) (\<lambda>s. Ok (0, s)))"

definition sys_fstat :: "u8 list \<Rightarrow> nat \<Rightarrow> kernel \<Rightarrow> (u64 \<times> kernel) res" where
  "sys_fstat pad me s =
     res_bind (argaddr me 1 s) (\<lambda>st.
     res_bind (argfd me 0 s) (\<lambda>r.
     case r of
       None \<Rightarrow> Ok (-1, s)
     | Some (_, f) \<Rightarrow> res_bind (filestat pad me f st s) (\<lambda>(r, s). Ok (word_of_int r, s))))"

section \<open>Links\<close>

text \<open>Leaving a system call with -1 after \<^verbatim>\<open>end_op\<close>.\<close>

definition fail_op :: "nat \<Rightarrow> kernel \<Rightarrow> (u64 \<times> kernel) res" where
  "fail_op me s = res_bind (end_op me s) (\<lambda>s. Ok (-1, s))"

definition add_nlink :: "nat \<Rightarrow> u16 \<Rightarrow> kernel \<Rightarrow> kernel" where
  "add_nlink ip d = upd_inode ip (\<lambda>p. p\<lparr>i_nlink := i_nlink p + d\<rparr>)"

definition link_bad :: "nat \<Rightarrow> nat \<Rightarrow> kernel \<Rightarrow> (u64 \<times> kernel) res" where
  "link_bad me ip s =
     res_bind (ilock me ip s) (\<lambda>s.
     res_bind (iupdate me ip (add_nlink ip (-1) s)) (\<lambda>s.
     res_bind (iunlockput me ip s) (fail_op me)))"

definition sys_link :: "nat \<Rightarrow> kernel \<Rightarrow> (u64 \<times> kernel) res" where
  "sys_link me s =
     res_bind (argpath me 0 s) (\<lambda>(old, s).
     case old of None \<Rightarrow> Ok (-1, s)
     | Some old \<Rightarrow>
     res_bind (argpath me 1 s) (\<lambda>(new, s).
     case new of None \<Rightarrow> Ok (-1, s)
     | Some new \<Rightarrow>
     res_bind (begin_op s) (\<lambda>s.
     res_bind (namei me old s) (\<lambda>(ip, s).
     case ip of None \<Rightarrow> fail_op me s
     | Some ip \<Rightarrow>
     res_bind (ilock me ip s) (\<lambda>s.
     if i_type (itable s ip) = T_DIR then res_bind (iunlockput me ip s) (fail_op me)
     else
       res_bind (iupdate me ip (add_nlink ip 1 s)) (\<lambda>s.
       res_bind (iunlock me ip s) (\<lambda>s.
       res_bind (nameiparent me new s) (\<lambda>(dp, name, s).
       case dp of None \<Rightarrow> link_bad me ip s
       | Some dp \<Rightarrow>
       res_bind (ilock me dp s) (\<lambda>s.
       res_bind (if i_dev (itable s dp) \<noteq> i_dev (itable s ip) then Ok (-1, s)
                 else dirlink me dp name (i_inum (itable s ip)) s) (\<lambda>(r, s).
       if r < 0 then res_bind (iunlockput me dp s) (link_bad me ip)
       else
         res_bind (iunlockput me dp s) (\<lambda>s.
         res_bind (iput me ip s) (\<lambda>s.
         res_bind (end_op me s) (\<lambda>s. Ok (0, s))))))))))))))"

partial_function (option) isdirempty_loop :: "nat \<Rightarrow> nat \<Rightarrow> u32 \<Rightarrow> kernel \<Rightarrow> (bool \<times> kernel) res option" where
  "isdirempty_loop me dp off s =
     (if off < i_size (itable s dp)
      then res_opt (readi me dp LocalDst off 16 s) (\<lambda>(r, de, s).
        if r \<noteq> 16 then Some (Panic ''isdirempty: readi'')
        else if de_inum de \<noteq> 0 then Some (Ok (False, s))
        else isdirempty_loop me dp (off + 16) s)
      else Some (Ok (True, s)))"

definition isdirempty :: "nat \<Rightarrow> nat \<Rightarrow> kernel \<Rightarrow> (bool \<times> kernel) res" where
  "isdirempty me dp s = res_join (isdirempty_loop me dp (2 * 16) s)"

definition unlink_bad :: "nat \<Rightarrow> nat \<Rightarrow> kernel \<Rightarrow> (u64 \<times> kernel) res" where
  "unlink_bad me dp s = res_bind (iunlockput me dp s) (fail_op me)"

definition dot :: "u8 list" where "dot = str ''.'' @ [0]"
definition dotdot :: "u8 list" where "dotdot = str ''..'' @ [0]"

text \<open>From the clearing of the directory entry at \<open>off\<close> on.\<close>

definition unlink_entry :: "nat \<Rightarrow> nat \<Rightarrow> nat \<Rightarrow> u32 \<Rightarrow> kernel \<Rightarrow> (u64 \<times> kernel) res" where
  "unlink_entry me dp ip off s =
     res_bind (writei me dp (LocalSrc (replicate 16 0)) off 16 s) (\<lambda>(r, s).
     if r \<noteq> 16 then Panic ''unlink: writei''
     else
       res_bind (if i_type (itable s ip) = T_DIR then iupdate me dp (add_nlink dp (-1) s) else Ok s) (\<lambda>s.
       res_bind (iunlockput me dp s) (\<lambda>s.
       res_bind (iupdate me ip (add_nlink ip (-1) s)) (\<lambda>s.
       res_bind (iunlockput me ip s) (\<lambda>s.
       res_bind (end_op me s) (\<lambda>s. Ok (0, s)))))))"

definition sys_unlink :: "nat \<Rightarrow> kernel \<Rightarrow> (u64 \<times> kernel) res" where
  "sys_unlink me s =
     res_bind (argpath me 0 s) (\<lambda>(path, s).
     case path of None \<Rightarrow> Ok (-1, s)
     | Some path \<Rightarrow>
     res_bind (begin_op s) (\<lambda>s.
     res_bind (nameiparent me path s) (\<lambda>(dp, name, s).
     case dp of None \<Rightarrow> fail_op me s
     | Some dp \<Rightarrow>
     res_bind (ilock me dp s) (\<lambda>s.
     if namecmp name dot = 0 \<or> namecmp name dotdot = 0 then unlink_bad me dp s
     else
       res_bind (dirlookup me dp name s) (\<lambda>(r, s).
       case r of None \<Rightarrow> unlink_bad me dp s
       | Some (ip, off) \<Rightarrow>
       res_bind (ilock me ip s) (\<lambda>s.
       if sint (i_nlink (itable s ip)) < 1 then Panic ''unlink: nlink < 1''
       else
         res_bind (if i_type (itable s ip) = T_DIR then isdirempty me ip s else Ok (True, s)) (\<lambda>(empty, s).
         if \<not> empty then res_bind (iunlockput me ip s) (unlink_bad me dp)
         else unlink_entry me dp ip off s)))))))"

section \<open>Creating and opening\<close>

definition create_fail :: "nat \<Rightarrow> nat \<Rightarrow> nat \<Rightarrow> kernel \<Rightarrow> (nat option \<times> kernel) res" where
  "create_fail me dp ip s =
     res_bind (iupdate me ip (upd_inode ip (\<lambda>p. p\<lparr>i_nlink := 0\<rparr>) s)) (\<lambda>s.
     res_bind (iunlockput me ip s) (\<lambda>s.
     res_bind (iunlockput me dp s) (\<lambda>s. Ok (None, s))))"

definition create_dots :: "nat \<Rightarrow> nat \<Rightarrow> nat \<Rightarrow> kernel \<Rightarrow> (int \<times> kernel) res" where
  "create_dots me dp ip s =
     res_bind (dirlink me ip dot (i_inum (itable s ip)) s) (\<lambda>(r, s).
     if r < 0 then Ok (-1, s) else dirlink me ip dotdot (i_inum (itable s dp)) s)"

definition create :: "nat \<Rightarrow> u8 list \<Rightarrow> u16 \<Rightarrow> u16 \<Rightarrow> u16 \<Rightarrow> kernel \<Rightarrow> (nat option \<times> kernel) res" where
  "create me path type1 major minor s =
     res_bind (nameiparent me path s) (\<lambda>(dp, name, s).
     case dp of None \<Rightarrow> Ok (None, s)
     | Some dp \<Rightarrow>
     res_bind (ilock me dp s) (\<lambda>s.
     res_bind (dirlookup me dp name s) (\<lambda>(r, s).
     case r of
       Some (ip, _) \<Rightarrow>
         res_bind (iunlockput me dp s) (\<lambda>s.
         res_bind (ilock me ip s) (\<lambda>s.
         if type1 = T_FILE \<and> (i_type (itable s ip) = T_FILE \<or> i_type (itable s ip) = T_DEVICE) then Ok (Some ip, s)
         else res_bind (iunlockput me ip s) (\<lambda>s. Ok (None, s))))
     | None \<Rightarrow>
         res_bind (ialloc me (i_dev (itable s dp)) type1 s) (\<lambda>(ip, s).
         case ip of None \<Rightarrow> res_bind (iunlockput me dp s) (\<lambda>s. Ok (None, s))
         | Some ip \<Rightarrow>
         res_bind (ilock me ip s) (\<lambda>s.
         res_bind (iupdate me ip (upd_inode ip (\<lambda>p. p\<lparr>i_major := major, i_minor := minor, i_nlink := 1\<rparr>) s)) (\<lambda>s.
         res_bind (if type1 = T_DIR then create_dots me dp ip s else Ok (0, s)) (\<lambda>(r, s).
         if r < 0 then create_fail me dp ip s
         else res_bind (dirlink me dp name (i_inum (itable s ip)) s) (\<lambda>(r, s).
           if r < 0 then create_fail me dp ip s
           else
             res_bind (if type1 = T_DIR then iupdate me dp (add_nlink dp 1 s) else Ok s) (\<lambda>s.
             res_bind (iunlockput me dp s) (\<lambda>s. Ok (Some ip, s)))))))))))"

definition O_WRONLY :: u32 where "O_WRONLY = 1"
definition O_RDWR :: u32 where "O_RDWR = 2"
definition O_CREATE :: u32 where "O_CREATE = 0x200"
definition O_TRUNC :: u32 where "O_TRUNC = 0x400"

definition unlock_fail :: "nat \<Rightarrow> nat \<Rightarrow> kernel \<Rightarrow> (u64 \<times> kernel) res" where
  "unlock_fail me ip s = res_bind (iunlockput me ip s) (fail_op me)"

text \<open>From the allocation of the file structure on, with the inode locked.\<close>

definition open_file :: "nat \<Rightarrow> u32 \<Rightarrow> nat \<Rightarrow> kernel \<Rightarrow> (u64 \<times> kernel) res" where
  "open_file me omode ip s =
     (let (f, s) = filealloc s in
      case f of None \<Rightarrow> unlock_fail me ip s
      | Some f \<Rightarrow>
        (let (fd, s) = fdalloc me f s in
         if fd < 0 then res_bind (fileclose me f s) (unlock_fail me ip)
         else
           (let p = itable s ip;
                s = (if i_type p = T_DEVICE then upd_file f (\<lambda>x. x\<lparr>f_type := FD_DEVICE, f_major := i_major p\<rparr>) s
                     else upd_file f (\<lambda>x. x\<lparr>f_type := FD_INODE, f_off := 0\<rparr>) s);
                s = upd_file f (\<lambda>x. x\<lparr>f_ip := ip, f_readable := (omode AND O_WRONLY = 0),
                      f_writable := (omode AND O_WRONLY \<noteq> 0 \<or> omode AND O_RDWR \<noteq> 0)\<rparr>) s in
            res_bind (if omode AND O_TRUNC \<noteq> 0 \<and> i_type p = T_FILE then itrunc me ip s else Ok s) (\<lambda>s.
            res_bind (iunlock me ip s) (\<lambda>s.
            res_bind (end_op me s) (\<lambda>s. Ok (word_of_int fd, s)))))))"

definition sys_open :: "nat \<Rightarrow> kernel \<Rightarrow> (u64 \<times> kernel) res" where
  "sys_open me s =
     res_bind (argint me 1 s) (\<lambda>om.
     let omode = word_of_int om :: u32 in
     res_bind (argpath me 0 s) (\<lambda>(path, s).
     case path of None \<Rightarrow> Ok (-1, s)
     | Some path \<Rightarrow>
     res_bind (begin_op s) (\<lambda>s.
     res_bind
       (if omode AND O_CREATE \<noteq> 0 then create me path T_FILE 0 0 s
        else res_bind (namei me path s) (\<lambda>(ip, s).
          case ip of None \<Rightarrow> Ok (None, s)
          | Some ip \<Rightarrow>
            res_bind (ilock me ip s) (\<lambda>s.
            if i_type (itable s ip) = T_DIR \<and> omode \<noteq> 0 then res_bind (iunlockput me ip s) (\<lambda>s. Ok (None, s))
            else Ok (Some ip, s)))) (\<lambda>(ip, s).
     case ip of None \<Rightarrow> fail_op me s
     | Some ip \<Rightarrow>
       if i_type (itable s ip) = T_DEVICE \<and> bad_major (i_major (itable s ip)) then unlock_fail me ip s
       else open_file me omode ip s))))"

definition sys_mkdir :: "nat \<Rightarrow> kernel \<Rightarrow> (u64 \<times> kernel) res" where
  "sys_mkdir me s =
     res_bind (begin_op s) (\<lambda>s.
     res_bind (argpath me 0 s) (\<lambda>(path, s).
     case path of None \<Rightarrow> fail_op me s
     | Some path \<Rightarrow>
     res_bind (create me path T_DIR 0 0 s) (\<lambda>(ip, s).
     case ip of None \<Rightarrow> fail_op me s
     | Some ip \<Rightarrow> res_bind (iunlockput me ip s) (\<lambda>s. res_bind (end_op me s) (\<lambda>s. Ok (0, s))))))"

definition sys_mknod :: "nat \<Rightarrow> kernel \<Rightarrow> (u64 \<times> kernel) res" where
  "sys_mknod me s =
     res_bind (begin_op s) (\<lambda>s.
     res_bind (argint me 1 s) (\<lambda>major.
     res_bind (argint me 2 s) (\<lambda>minor.
     res_bind (argpath me 0 s) (\<lambda>(path, s).
     case path of None \<Rightarrow> fail_op me s
     | Some path \<Rightarrow>
     res_bind (create me path T_DEVICE (word_of_int major) (word_of_int minor) s) (\<lambda>(ip, s).
     case ip of None \<Rightarrow> fail_op me s
     | Some ip \<Rightarrow> res_bind (iunlockput me ip s) (\<lambda>s. res_bind (end_op me s) (\<lambda>s. Ok (0, s))))))))"

definition sys_chdir :: "nat \<Rightarrow> kernel \<Rightarrow> (u64 \<times> kernel) res" where
  "sys_chdir me s =
     res_bind (begin_op s) (\<lambda>s.
     res_bind (argpath me 0 s) (\<lambda>(path, s).
     case path of None \<Rightarrow> fail_op me s
     | Some path \<Rightarrow>
     res_bind (namei me path s) (\<lambda>(ip, s).
     case ip of None \<Rightarrow> fail_op me s
     | Some ip \<Rightarrow>
     res_bind (ilock me ip s) (\<lambda>s.
     if i_type (itable s ip) \<noteq> T_DIR then unlock_fail me ip s
     else
       res_bind (iunlock me ip s) (\<lambda>s.
       case p_cwd (procs s me) of None \<Rightarrow> Panic ''kerneltrap''
       | Some cwd \<Rightarrow>
       res_bind (iput me cwd s) (\<lambda>s.
       res_bind (end_op me s) (\<lambda>s.
       Ok (0, upd_proc me (\<lambda>p. p\<lparr>p_cwd := Some ip\<rparr>) s))))))))"

section \<open>exec and pipe\<close>

text \<open>
  The loop of \<^verbatim>\<open>sys_exec\<close> that fetches the arguments: for each a page and the string copied there. The
  flag says whether the terminating null pointer was reached.
\<close>

function exec_args :: "nat \<Rightarrow> u64 \<Rightarrow> nat \<Rightarrow> (u64 \<times> u8 list) list \<Rightarrow> kernel \<Rightarrow> (bool \<times> (u64 \<times> u8 list) list \<times> kernel) res" where
  "exec_args me uargv i argv s =
     (if i \<ge> MAXARG then Ok (False, argv, s)
      else res_bind (fetchaddr me (uargv + 8 * of_nat i) s) (\<lambda>(r, uarg, s).
        if r < 0 then Ok (False, argv, s)
        else if uarg = 0 then Ok (True, argv, s)
        else (let (page, s) = kalloc s in
          if page = 0 then Ok (False, argv, s)
          else res_bind (fetchstr me uarg (unat PGSIZE) s) (\<lambda>(r, xs, s).
            let s = s\<lparr>mem := store_bytes (mem s) page xs\<rparr>; argv = argv @ [(page, c_string xs)] in
            if r < 0 then Ok (False, argv, s) else exec_args me uargv (Suc i) argv s))))"
  by pat_completeness auto
termination
  by (relation "measure (\<lambda>(_, _, i, _). MAXARG - i)") auto

declare exec_args.simps [simp del]

fun kfree_all :: "u64 list \<Rightarrow> kernel \<Rightarrow> kernel res" where
  "kfree_all [] s = Ok s"
| "kfree_all (p # ps) s = res_bind (kfree p s) (kfree_all ps)"

definition sys_exec :: "nat \<Rightarrow> kernel \<Rightarrow> (u64 \<times> kernel) res" where
  "sys_exec me s =
     res_bind (argaddr me 1 s) (\<lambda>uargv.
     res_bind (argpath me 0 s) (\<lambda>(path, s).
     case path of None \<Rightarrow> Ok (-1, s)
     | Some path \<Rightarrow>
     res_bind (exec_args me uargv 0 [] s) (\<lambda>(ok, argv, s).
     if \<not> ok then res_bind (kfree_all (map fst argv) s) (\<lambda>s. Ok (-1, s))
     else res_bind (kexec me path (map snd argv) s) (\<lambda>(ret, s).
       res_bind (kfree_all (map fst argv) s) (\<lambda>s. Ok (word_of_int ret, s))))))"

definition pipe_close2 :: "nat \<Rightarrow> nat \<Rightarrow> nat \<Rightarrow> kernel \<Rightarrow> (u64 \<times> kernel) res" where
  "pipe_close2 me rfile wfile s =
     res_bind (fileclose me rfile s) (\<lambda>s. res_bind (fileclose me wfile s) (\<lambda>s. Ok (-1, s)))"

definition sys_pipe :: "nat \<Rightarrow> kernel \<Rightarrow> (u64 \<times> kernel) res" where
  "sys_pipe me s =
     res_bind (argaddr me 0 s) (\<lambda>fdarray.
     res_bind (pipealloc me s) (\<lambda>(r, rfile, wfile, s).
     case (rfile, wfile) of
       (Some rfile, Some wfile) \<Rightarrow>
         if r < 0 then Ok (-1, s)
         else
           (let (fd0, s) = fdalloc me rfile s in
            if fd0 < 0 then pipe_close2 me rfile wfile s
            else
              (let (fd1, s) = fdalloc me wfile s in
               if fd1 < 0 then pipe_close2 me rfile wfile (clear_fd me (nat fd0) s)
               else
                 res_bind (copyout me (p_pagetable (procs s me)) fdarray (bytes32 (word_of_int fd0)) s) (\<lambda>(r, s).
                 res_bind (if r < 0 then Ok (r, s)
                           else copyout me (p_pagetable (procs s me)) (fdarray + 4) (bytes32 (word_of_int fd1)) s) (\<lambda>(r, s).
                 if r < 0 then pipe_close2 me rfile wfile (clear_fd me (nat fd1) (clear_fd me (nat fd0) s))
                 else Ok (0, s)))))
     | _ \<Rightarrow> Ok (-1, s)))"

end
