(* ===== verification/Trunc.thy ===== *)
theory Trunc
  imports Content
begin

text \<open>
  Freeing files (\<^verbatim>\<open>itrunc\<close>, \<^verbatim>\<open>iput\<close> of \<^verbatim>\<open>kernel/fs.c\<close>) and ending a transaction (\<^verbatim>\<open>end_op\<close> of \<^verbatim>\<open>kernel/log.c\<close>): on a
  well-formed file system neither panics. \<open>freed\<close> says what a sequence of \<^verbatim>\<open>bfree\<close> does: a set of blocks becomes free and
  nothing but the bitmap changes.
\<close>

section \<open>Freeing blocks\<close>

definition bmap_blocks :: "superblock \<Rightarrow> u32 set" where
  "bmap_blocks sbk = (\<lambda>b. BBLOCK b sbk) ` {b. b < sb_size sbk}"

definition freed :: "nat \<Rightarrow> nat set \<Rightarrow> kernel \<Rightarrow> u32 list \<Rightarrow> u32 set \<Rightarrow> kernel \<Rightarrow> u32 list \<Rightarrow> bool" where
  "freed me H s bl A s' bl' \<longleftrightarrow> tstep me H s s' bl' \<and> set bl' \<subseteq> set bl \<union> bmap_blocks (sb s) \<and>
     (\<forall>m. m \<notin> bmap_blocks (sb s) \<longrightarrow> blk s' m = blk s m) \<and>
     (\<forall>b < sb_size (sb s). block_used (blk s') (sb s) b \<longleftrightarrow> b \<notin> A \<and> block_used (blk s) (sb s) b)"

text \<open>Room in the cache and the log for \<open>n\<close> buffers besides the logged blocks and the bitmap.\<close>

definition room :: "nat \<Rightarrow> kernel \<Rightarrow> u32 list \<Rightarrow> bool" where
  "room n s bl \<longleftrightarrow> n + card (set bl \<union> bmap_blocks (sb s)) < NBUF"

lemma freedD:
  assumes "freed me H s bl A s' bl'"
  shows "tx me s' H bl'" "fframe s s'" "sb s' = sb s" "tstep me H s s' bl'"
    "m \<notin> bmap_blocks (sb s) \<Longrightarrow> blk s' m = blk s m"
    "b < sb_size (sb s) \<Longrightarrow> block_used (blk s') (sb s) b \<longleftrightarrow> b \<notin> A \<and> block_used (blk s) (sb s) b"
    "j \<in> H \<Longrightarrow> buf_of s' j m \<longleftrightarrow> buf_of s j m" "room n s bl \<Longrightarrow> room n s' bl'"
proof -
  show t: "tx me s' H bl'" "fframe s s'" "tstep me H s s' bl'" "j \<in> H \<Longrightarrow> buf_of s' j m \<longleftrightarrow> buf_of s j m"
    using assms by (simp_all add: freed_def tstep_def)
  show s: "sb s' = sb s" using fframeD(2) [OF t(2)] .
  have "card (set bl' \<union> bmap_blocks (sb s)) \<le> card (set bl \<union> bmap_blocks (sb s))"
    using assms by (intro card_mono) (auto simp: freed_def)
  then show "room n s bl \<Longrightarrow> room n s' bl'" by (simp add: room_def s)
qed (use assms in \<open>simp_all add: freed_def\<close>)

lemma freed_refl: "tx me s H bl \<Longrightarrow> freed me H s bl {} s bl"
  by (simp add: freed_def tstep_refl)

lemma freed_trans:
  assumes "freed me H s bl A t blt" "freed me H t blt B u blu" shows "freed me H s bl (A \<union> B) u blu"
  using assms freedD(3) [OF assms(1)] tstep_trans [OF freedD(4) [OF assms(1)] freedD(4) [OF assms(2)]] unfolding freed_def by auto

lemma freed_upd_inode:
  assumes "freed me H s bl A s' bl'" shows "freed me H s bl A (upd_inode ip f s') bl'"
  using assms fframe_trans [OF freedD(2) [OF assms] fframe_simps(1)] by (simp add: freed_def tstep_def)

lemma room_length: "room n s bl \<Longrightarrow> distinct bl \<Longrightarrow> n + length bl < NBUF"
  using card_mono [of "set bl \<union> bmap_blocks (sb s)" "set bl"] by (auto simp: room_def distinct_card)

lemma bfree_freed:
  assumes t: "tx me s H bl" and c: "room (card H) s bl" and g: "bitmap_geom (sb s)" "alloc_held s H"
    and a: "a < sb_size (sb s)" "block_used (blk s) (sb s) a"
  shows "\<exists>s' bl'. bfree me ROOTDEV a s = Ok s' \<and> freed me H s bl {a} s' bl' \<and> itable s' = itable s"
proof -
  have "card H + length bl < NBUF" using room_length [OF c txD(6) [OF t]] .
  from bfree_ok [OF t this g a] obtain s' where r: "bfree me ROOTDEV a s = Ok s'" "tstep me H s s' (absorb (BBLOCK a (sb s)) bl)"
      "itable s' = itable s" "\<forall>n. n \<noteq> BBLOCK a (sb s) \<longrightarrow> blk s' n = blk s n"
      "\<forall>b < sb_size (sb s). block_used (blk s') (sb s) b \<longleftrightarrow> b \<noteq> a \<and> block_used (blk s) (sb s) b" by auto
  have "BBLOCK a (sb s) \<in> bmap_blocks (sb s)" using a(1) by (auto simp: bmap_blocks_def)
  moreover from this have "\<forall>m. m \<notin> bmap_blocks (sb s) \<longrightarrow> blk s' m = blk s m" using r(4) by metis
  ultimately have "freed me H s bl {a} s' (absorb (BBLOCK a (sb s)) bl)" using r(2,5) unfolding freed_def by (auto simp: absorb_def)
  then show ?thesis using r(1,3) by blast
qed

text \<open>The blocks that the entries \<open>ks\<close> of an address table \<open>f\<close> name are in use and different from each other.\<close>

definition entries_ok :: "kernel \<Rightarrow> (nat \<Rightarrow> u32) \<Rightarrow> nat list \<Rightarrow> bool" where
  "entries_ok s f ks \<longleftrightarrow> distinct ks \<and>
     (\<forall>k \<in> set ks. f k \<noteq> 0 \<longrightarrow> f k < sb_size (sb s) \<and> block_used (blk s) (sb s) (f k)) \<and>
     (\<forall>k \<in> set ks. \<forall>l \<in> set ks. f k = f l \<longrightarrow> f k \<noteq> 0 \<longrightarrow> k = l)"

definition entries :: "(nat \<Rightarrow> u32) \<Rightarrow> nat list \<Rightarrow> u32 set" where
  "entries f ks = f ` set ks - {0}"

lemma entries_Cons: "entries f (k # ks) = (if f k = 0 then {} else {f k}) \<union> entries f ks"
  by (auto simp: entries_def)

lemma entries_ok_tail: "entries_ok s f (k # ks) \<Longrightarrow> entries_ok s f ks"
  by (auto simp: entries_ok_def)

lemma entries_ok_freed:
  assumes "entries_ok s f (k # ks)" "f k \<noteq> 0" "freed me H s bl {f k} s' bl'"
  shows "entries_ok s' f ks"
  using assms(1,2) freedD(3,6) [OF assms(3)] by (auto simp: entries_ok_def)

lemma entries_ok_cong:
  assumes "entries_ok s f ks" "\<And>k. k \<in> set ks \<Longrightarrow> g k = f k" "sb s' = sb s" "blk s' = blk s"
  shows "entries_ok s' g ks"
  using assms by (auto simp: entries_ok_def)

lemma itrunc_direct_ok:
  assumes "tx me s {} bl" "room 0 s bl" "bitmap_geom (sb s)" "i_dev (itable s ip) = ROOTDEV" "length (i_addrs (itable s ip)) = 13"
    "\<forall>k \<in> set ks. k < 13" "entries_ok s ((!) (i_addrs (itable s ip))) ks"
  shows "\<exists>s' bl' as'. itrunc_direct me ip ks s = Ok s' \<and> freed me {} s bl (entries ((!) (i_addrs (itable s ip))) ks) s' bl' \<and>
    itable s' = (itable s)(ip := (itable s ip)\<lparr>i_addrs := as'\<rparr>) \<and> length as' = 13 \<and>
    (\<forall>k<13. as' ! k = (if k \<in> set ks then 0 else i_addrs (itable s ip) ! k))"
  using assms
proof (induction ks arbitrary: s bl)
  case Nil
  then show ?case using freed_refl [OF Nil.prems(1)] by (intro exI [of _ s] exI [of _ bl] exI [of _ "i_addrs (itable s ip)"]) (simp add: entries_def)
next
  case (Cons k ks)
  note p = Cons.prems
  let ?as = "i_addrs (itable s ip)"
  have ks: "\<forall>l \<in> set ks. l < 13" using p(6) by simp
  show ?case
  proof (cases "?as ! k = 0")
    case True
    obtain s' bl' as' where "itrunc_direct me ip ks s = Ok s'" "freed me {} s bl (entries ((!) ?as) ks) s' bl'"
        "itable s' = (itable s)(ip := (itable s ip)\<lparr>i_addrs := as'\<rparr>)" "length as' = 13" "\<forall>l<13. as' ! l = (if l \<in> set ks then 0 else ?as ! l)"
      using Cons.IH [OF p(1-5) ks entries_ok_tail [OF p(7)]] by blast
    then show ?thesis using True by (intro exI [of _ s'] exI [of _ bl'] exI [of _ as']) (auto simp: entries_Cons)
  next
    case False
    have a: "?as ! k < sb_size (sb s)" "block_used (blk s) (sb s) (?as ! k)" using p(7) False by (simp_all add: entries_ok_def)
    have "alloc_held s {}" by (simp add: alloc_held_def)
    from bfree_freed [OF p(1) _ p(3) this a] p(2)
    obtain s1 bl1 where 1: "bfree me ROOTDEV (?as ! k) s = Ok s1" "freed me {} s bl {?as ! k} s1 bl1" "itable s1 = itable s" by auto
    let ?s = "upd_inode ip (\<lambda>p. p\<lparr>i_addrs := (i_addrs p)[k := 0]\<rparr>) s1"
    have f: "freed me {} s bl {?as ! k} ?s bl1" using freed_upd_inode [OF 1(2)] .
    have as': "i_addrs (itable ?s ip) = ?as[k := 0]" using 1(3) by simp
    have "k \<notin> set ks" using p(7) by (simp add: entries_ok_def)
    then have g: "?as[k := 0] ! l = ?as ! l" if "l \<in> set ks" for l using that by (metis nth_list_update_neq)
    have "entries_ok ?s ((!) (i_addrs (itable ?s ip))) ks"
      unfolding as' by (rule entries_ok_cong [OF entries_ok_freed [OF p(7) False f]]) (simp_all add: g)
    note IH = Cons.IH [OF freedD(1) [OF f] freedD(8) [OF f p(2)] _ _ _ ks this, unfolded as']
    have "bitmap_geom (sb ?s)" "i_dev (itable ?s ip) = ROOTDEV" "length (?as[k := 0]) = 13" using p(3-5) freedD(3) [OF f] 1(3) by simp_all
    from IH [OF this] obtain s' bl' bs where 2: "itrunc_direct me ip ks ?s = Ok s'" "freed me {} ?s bl1 (entries ((!) (?as[k := 0])) ks) s' bl'"
        "itable s' = (itable ?s)(ip := (itable ?s ip)\<lparr>i_addrs := bs\<rparr>)" "length bs = 13" "\<forall>l<13. bs ! l = (if l \<in> set ks then 0 else ?as[k := 0] ! l)"
      by blast
    have e: "entries ((!) (?as[k := 0])) ks = entries ((!) ?as) ks" using g by (auto simp: entries_def image_def)
    have "itrunc_direct me ip (k # ks) s = Ok s'" using False 1(1) 2(1) p(4) by (simp add: Let_def)
    moreover have "freed me {} s bl (entries ((!) ?as) (k # ks)) s' bl'"
      using freed_trans [OF f 2(2)] False unfolding e by (simp add: entries_Cons)
    moreover have "itable s' = (itable s)(ip := (itable s ip)\<lparr>i_addrs := bs\<rparr>)" using 2(3) 1(3) by (simp add: fun_eq_iff)
    moreover have "\<forall>l<13. bs ! l = (if l \<in> set (k # ks) then 0 else ?as ! l)"
      using 2(5) p(5,6) by (auto simp: nth_list_update)
    ultimately show ?thesis using 2(4) by blast
  qed
qed

text \<open>The words of the indirect block at \<open>x\<close>, whose buffer is held meanwhile.\<close>

lemma itrunc_indirect_ok:
  assumes "tx me s {bp} bl" "room 1 s bl" "bitmap_geom (sb s)" "i_dev (itable s ip) = ROOTDEV" "buf_of s bp x"
    "x < sb_size (sb s)" "block_used (blk s) (sb s) x" "x \<notin> bmap_blocks (sb s)"
    "entries_ok s (\<lambda>k. get32 (blk s x) (4 * k)) ks" "x \<notin> entries (\<lambda>k. get32 (blk s x) (4 * k)) ks"
  shows "\<exists>s' bl'. itrunc_indirect me ip bp ks s = Ok s' \<and> freed me {bp} s bl (entries (\<lambda>k. get32 (blk s x) (4 * k)) ks) s' bl' \<and>
    itable s' = itable s"
  using assms
proof (induction ks arbitrary: s bl)
  case Nil
  then show ?case using freed_refl [OF Nil.prems(1)] by (intro exI [of _ s] exI [of _ bl]) (simp add: entries_def)
next
  case (Cons k ks)
  note p = Cons.prems
  let ?f = "\<lambda>k. get32 (blk s x) (4 * k)"
  have d: "b_data (bufs s bp) = blk s x" using tx_data [OF p(1) _ p(5)] by simp
  show ?case
  proof (cases "?f k = 0")
    case True
    obtain s' bl' where "itrunc_indirect me ip bp ks s = Ok s'" "freed me {bp} s bl (entries ?f ks) s' bl'" "itable s' = itable s"
      using Cons.IH [OF p(1-8) entries_ok_tail [OF p(9)]] p(10) by (auto simp: entries_Cons)
    then show ?thesis using True d by (intro exI [of _ s'] exI [of _ bl']) (simp add: entries_Cons)
  next
    case False
    have a: "?f k < sb_size (sb s)" "block_used (blk s) (sb s) (?f k)" using p(9) False by (simp_all add: entries_ok_def)
    have "alloc_held s {bp}" using p(5,7,8) by (auto simp: alloc_held_def buf_of_def bmap_blocks_def)
    from bfree_freed [OF p(1) _ p(3) this a] p(2)
    obtain s1 bl1 where 1: "bfree me ROOTDEV (?f k) s = Ok s1" "freed me {bp} s bl {?f k} s1 bl1" "itable s1 = itable s" by auto
    have x: "x \<noteq> ?f k" "x \<notin> entries ?f ks" using p(10) False by (auto simp: entries_Cons)
    have b: "blk s1 x = blk s x" using freedD(5) [OF 1(2) p(8)] .
    have "buf_of s1 bp x" using freedD(7) [OF 1(2)] p(5) by simp
    moreover have "block_used (blk s1) (sb s1) x" using freedD(3,6) [OF 1(2)] p(6,7) x(1) by simp
    moreover have "entries_ok s1 (\<lambda>k. get32 (blk s1 x) (4 * k)) ks" unfolding b by (rule entries_ok_freed [OF p(9) False 1(2)])
    ultimately obtain s' bl' where 2: "itrunc_indirect me ip bp ks s1 = Ok s'" "freed me {bp} s1 bl1 (entries ?f ks) s' bl'" "itable s' = itable s1"
      using Cons.IH [OF freedD(1) [OF 1(2)] freedD(8) [OF 1(2) p(2)]] p(3,4,6,8) freedD(3) [OF 1(2)] 1(3) x(2) unfolding b by auto
    have "itrunc_indirect me ip bp (k # ks) s = Ok s'" using False 1(1) 2(1) p(4) d by (simp add: Let_def)
    moreover have "freed me {bp} s bl (entries ?f (k # ks)) s' bl'" using freed_trans [OF 1(2) 2(2)] False by (simp add: entries_Cons)
    ultimately show ?thesis using 2(3) 1(3) by auto
  qed
qed

text \<open>Reading the indirect block, freeing what it lists and releasing it.\<close>

lemma free_indirect:
  assumes t: "tx me s {} bl" and c: "room 1 s bl" and g: "bitmap_geom (sb s)" and p: "i_dev (itable s ip) = ROOTDEV"
    and x: "x < sb_size (sb s)" "block_used (blk s) (sb s) x" "x \<notin> bmap_blocks (sb s)"
    and f: "f = (\<lambda>k. get32 (blk s x) (4 * k))" "entries_ok s f ks" "x \<notin> entries f ks"
  shows "\<exists>bp s1 s2 s3 bl'. bread me ROOTDEV x s = Ok (bp, s1) \<and> itrunc_indirect me ip bp ks s1 = Ok s2 \<and> brelse me bp s2 = Ok s3 \<and>
    freed me {} s bl (entries f ks) s3 bl' \<and> itable s3 = itable s"
proof -
  have "card {} + length bl < NBUF" using room_length [OF c txD(6) [OF t]] by simp
  from tx_bread [OF t this, of x] obtain bp s1 where 1: "bread me ROOTDEV x s = Ok (bp, s1)" "tx me s1 {bp} bl" "buf_of s1 bp x"
      "blk s1 = blk s" "fframe s s1" "itable s1 = itable s" by auto
  have sb1: "sb s1 = sb s" using fframeD(2) [OF 1(5)] .
  have "entries_ok s1 f ks" by (rule entries_ok_cong [OF f(2)]) (simp_all add: 1(4) sb1)
  then obtain s2 bl2 where 2: "itrunc_indirect me ip bp ks s1 = Ok s2" "freed me {bp} s1 bl (entries f ks) s2 bl2" "itable s2 = itable s1"
    using itrunc_indirect_ok [OF 1(2), of ip x ks] c g p x 1(3,6) f(3) unfolding f(1) by (auto simp: room_def sb1 1(4))
  have "buf_of s2 bp x" using freedD(7) [OF 2(2)] 1(3) by simp
  from tx_brelse [OF freedD(1) [OF 2(2)] _ this] obtain s3 where 3: "brelse me bp s2 = Ok s3" "tstep me {} s2 s3 bl2" "blk s3 = blk s2" "itable s3 = itable s2"
    by auto
  have "fframe s s3" using fframe_trans [OF fframe_trans [OF 1(5) freedD(2) [OF 2(2)]] tstepD(2) [OF 3(2)]] .
  then have "freed me {} s bl (entries f ks) s3 bl2"
    using 2(2) tstepD(1) [OF 3(2)] by (simp add: freed_def tstep_def 3(3) 1(4) sb1)
  then show ?thesis using 1(1) 2(1) 3(1) 1(6) 2(3) 3(4) by metis
qed

lemma entries_ok_after:
  assumes "entries_ok s f ks" "freed me H s bl A s' bl'" "entries f ks \<inter> A = {}" shows "entries_ok s' f ks"
  using assms(1,3) freedD(3,6) [OF assms(2)] by (auto simp: entries_ok_def entries_def)

section \<open>Truncating a file\<close>

text \<open>All blocks of a file, with its indirect block.\<close>

definition file_blocks :: "(u32 \<Rightarrow> u8 list) \<Rightarrow> u32 list \<Rightarrow> u32 set" where
  "file_blocks f as1 = fslot f as1 ` {..MAXFILE} - {0}"

lemma file_blocks_split:
  assumes "file_wf sbk f as1"
  defines "A \<equiv> entries ((!) as1) [0..<NDIRECT]" and "B \<equiv> entries (\<lambda>k. get32 (f (as1 ! NDIRECT)) (4 * k)) [0..<NINDIRECT]"
  shows "file_blocks f as1 = (if as1 ! NDIRECT = 0 then A else A \<union> B \<union> {as1 ! NDIRECT})"
    "as1 ! NDIRECT \<noteq> 0 \<Longrightarrow> A \<inter> B = {} \<and> as1 ! NDIRECT \<notin> A \<union> B"
proof -
  have d: "fslot f as1 k = as1 ! k" if "k < NDIRECT" for k using that by (simp add: fslot_def fblock_def)
  have i: "fslot f as1 (NDIRECT + k) = (if as1 ! NDIRECT = 0 then 0 else get32 (f (as1 ! NDIRECT)) (4 * k))" if "k < NINDIRECT" for k
    using that by (simp add: fslot_def fblock_def)
  have x: "fslot f as1 MAXFILE = as1 ! NDIRECT" by (simp add: fslot_def)
  have m: "MAXFILE = NDIRECT + NINDIRECT" by (rule MAXFILE_def)
  have "v \<in> fslot f as1 ` {..MAXFILE} \<longleftrightarrow> v \<in> (!) as1 ` {..<NDIRECT} \<or> v \<in> (\<lambda>k. fslot f as1 (NDIRECT + k)) ` {..<NINDIRECT} \<or> v = as1 ! NDIRECT" for v
  proof
    assume "v \<in> fslot f as1 ` {..MAXFILE}"
    then obtain k where k: "k \<le> MAXFILE" "v = fslot f as1 k" by blast
    then have "k \<le> NDIRECT + NINDIRECT" using m by linarith
    then consider "k < NDIRECT" | "NDIRECT \<le> k" "k - NDIRECT < NINDIRECT" | "k = MAXFILE" unfolding m by linarith
    then show "v \<in> (!) as1 ` {..<NDIRECT} \<or> v \<in> (\<lambda>k. fslot f as1 (NDIRECT + k)) ` {..<NINDIRECT} \<or> v = as1 ! NDIRECT"
    proof cases
      case 2
      then have "fslot f as1 k = fslot f as1 (NDIRECT + (k - NDIRECT))" by simp
      then show ?thesis using 2 k(2) by (metis imageI lessThan_iff)
    qed (use k(2) d x in auto)
  next
    assume "v \<in> (!) as1 ` {..<NDIRECT} \<or> v \<in> (\<lambda>k. fslot f as1 (NDIRECT + k)) ` {..<NINDIRECT} \<or> v = as1 ! NDIRECT"
    then consider k where "k < NDIRECT" "v = as1 ! k" | k where "k < NINDIRECT" "v = fslot f as1 (NDIRECT + k)" | "v = as1 ! NDIRECT" by auto
    then show "v \<in> fslot f as1 ` {..MAXFILE}"
    proof cases
      case 1
      then have "k \<le> MAXFILE" using m by linarith
      then show ?thesis using 1 d [of k] by (intro image_eqI [of _ _ k]) (simp_all del: fs_consts)
    next
      case 2
      then have "NDIRECT + k \<le> MAXFILE" using m by linarith
      then show ?thesis using 2 by (intro image_eqI [of _ _ "NDIRECT + k"]) (simp_all del: fs_consts)
    next
      case 3
      then show ?thesis using x by (intro image_eqI [of _ _ MAXFILE]) simp_all
    qed
  qed
  then have eq: "fslot f as1 ` {..MAXFILE} = (!) as1 ` {..<NDIRECT} \<union> (\<lambda>k. fslot f as1 (NDIRECT + k)) ` {..<NINDIRECT} \<union> {as1 ! NDIRECT}"
    by blast
  have "(\<lambda>k. fslot f as1 (NDIRECT + k)) ` {..<NINDIRECT} = (\<lambda>k. if as1 ! NDIRECT = 0 then 0 else get32 (f (as1 ! NDIRECT)) (4 * k)) ` {..<NINDIRECT}"
    using i by (intro image_cong) (simp_all del: fs_consts)
  then show "file_blocks f as1 = (if as1 ! NDIRECT = 0 then A else A \<union> B \<union> {as1 ! NDIRECT})"
    unfolding file_blocks_def eq by (auto simp: A_def B_def entries_def atLeast0LessThan simp del: fs_consts)
  show "A \<inter> B = {} \<and> as1 ! NDIRECT \<notin> A \<union> B" if "as1 ! NDIRECT \<noteq> 0"
  proof -
    have "fslot f as1 m \<noteq> fslot f as1 l" if "m \<le> MAXFILE" "l \<le> MAXFILE" "m \<noteq> l" "fslot f as1 m \<noteq> 0" for m l
      using file_wfD(3) [OF assms(1) that(1,2)] that(3,4) by blast
    note n = this [of _ MAXFILE, unfolded x] this
    have 1: "as1 ! NDIRECT \<noteq> as1 ! k" if "k < NDIRECT" for k
      using n(1) [of k] d [OF that] that \<open>as1 ! NDIRECT \<noteq> 0\<close> by auto
    have 2: "as1 ! NDIRECT \<noteq> get32 (f (as1 ! NDIRECT)) (4 * l)" if "l < NINDIRECT" for l
      using n(1) [of "NDIRECT + l"] i [OF that] that \<open>as1 ! NDIRECT \<noteq> 0\<close> by auto
    have 3: "as1 ! k = get32 (f (as1 ! NDIRECT)) (4 * l) \<Longrightarrow> as1 ! k = 0" if "k < NDIRECT" "l < NINDIRECT" for k l
      using n(2) [of k "NDIRECT + l"] d [OF that(1)] i [OF that(2)] that \<open>as1 ! NDIRECT \<noteq> 0\<close> by auto
    have "v \<in> A \<Longrightarrow> v \<noteq> 0 \<and> (\<exists>k<NDIRECT. v = as1 ! k)" "v \<in> B \<Longrightarrow> \<exists>l<NINDIRECT. v = get32 (f (as1 ! NDIRECT)) (4 * l)" for v
      by (auto simp: A_def B_def entries_def simp del: fs_consts)
    then show ?thesis using 1 2 3 by blast
  qed
qed

lemma file_entries_ok:
  fixes s :: kernel
  assumes wf: "file_wf (sb s) (blk s) as1"
  shows "entries_ok s ((!) as1) [0..<NDIRECT]"
    "as1 ! NDIRECT \<noteq> 0 \<Longrightarrow> entries_ok s (\<lambda>k. get32 (blk s (as1 ! NDIRECT)) (4 * k)) [0..<NINDIRECT]"
    "as1 ! NDIRECT \<noteq> 0 \<Longrightarrow> as1 ! NDIRECT < sb_size (sb s) \<and> block_used (blk s) (sb s) (as1 ! NDIRECT) \<and> as1 ! NDIRECT \<notin> bmap_blocks (sb s)"
proof -
  have k: "fslot (blk s) as1 m < sb_size (sb s) \<and> block_used (blk s) (sb s) (fslot (blk s) as1 m) \<and> fslot (blk s) as1 m \<notin> bmap_blocks (sb s)"
    if "m \<le> MAXFILE" "fslot (blk s) as1 m \<noteq> 0" for m
    using file_wfD(2) [OF wf that] by (auto simp: kept_def bmap_blocks_def)
  have d: "fslot (blk s) as1 m = as1 ! m" if "m < NDIRECT" for m using that by (simp add: fslot_def fblock_def)
  have i: "fslot (blk s) as1 (NDIRECT + m) = get32 (blk s (as1 ! NDIRECT)) (4 * m)" if "m < NINDIRECT" "as1 ! NDIRECT \<noteq> 0" for m
    using that by (simp add: fslot_def fblock_def)
  have m: "k < NDIRECT \<Longrightarrow> k \<le> MAXFILE" "k < NINDIRECT \<Longrightarrow> NDIRECT + k \<le> MAXFILE" for k by simp_all
  show "entries_ok s ((!) as1) [0..<NDIRECT]"
    unfolding entries_ok_def
  proof (intro conjI ballI impI)
    fix k l assume kl: "k \<in> set [0..<NDIRECT]" "l \<in> set [0..<NDIRECT]" "as1 ! k = as1 ! l" "as1 ! k \<noteq> 0"
    then have "k < NDIRECT" "l < NDIRECT" by simp_all
    then show "k = l" using file_wfD(3) [OF wf m(1) m(1), of k l] d kl(3,4) by simp
  next
    fix l assume l: "l \<in> set [0..<NDIRECT]" "as1 ! l \<noteq> 0"
    then have "l < NDIRECT" by simp
    then show "as1 ! l < sb_size (sb s)" "block_used (blk s) (sb s) (as1 ! l)" using k [of l] d [of l] m(1) l(2) by simp_all
  qed simp
  show "as1 ! NDIRECT < sb_size (sb s) \<and> block_used (blk s) (sb s) (as1 ! NDIRECT) \<and> as1 ! NDIRECT \<notin> bmap_blocks (sb s)" if "as1 ! NDIRECT \<noteq> 0"
    using k [of MAXFILE] that by (simp add: fslot_def)
  show "entries_ok s (\<lambda>k. get32 (blk s (as1 ! NDIRECT)) (4 * k)) [0..<NINDIRECT]" if x: "as1 ! NDIRECT \<noteq> 0"
    unfolding entries_ok_def
  proof (intro conjI ballI impI)
    fix k l assume kl: "k \<in> set [0..<NINDIRECT]" "l \<in> set [0..<NINDIRECT]"
      "get32 (blk s (as1 ! NDIRECT)) (4 * k) = get32 (blk s (as1 ! NDIRECT)) (4 * l)" "get32 (blk s (as1 ! NDIRECT)) (4 * k) \<noteq> 0"
    then have "k < NINDIRECT" "l < NINDIRECT" by simp_all
    then show "k = l" using file_wfD(3) [OF wf m(2) m(2), of k l] i x kl(3,4) by simp
  next
    fix l assume l: "l \<in> set [0..<NINDIRECT]" "get32 (blk s (as1 ! NDIRECT)) (4 * l) \<noteq> 0"
    then have "l < NINDIRECT" by simp
    then show "get32 (blk s (as1 ! NDIRECT)) (4 * l) < sb_size (sb s)" "block_used (blk s) (sb s) (get32 (blk s (as1 ! NDIRECT)) (4 * l))"
      using k [of "NDIRECT + l"] i [of l] m(2) x l(2) by simp_all
  qed simp
qed

text \<open>The statements of \<^verbatim>\<open>itrunc\<close> before the last two free exactly the blocks of the file and clear its addresses.\<close>

lemma itrunc_blocks_ok:
  fixes s :: kernel
  assumes t: "tx me s {} bl" and c: "room 1 s bl" and g: "bitmap_geom (sb s)" and dev: "i_dev (itable s ip) = ROOTDEV"
    and wf: "file_wf (sb s) (blk s) (i_addrs (itable s ip))"
  shows "\<exists>s' bl'. itrunc me ip s = iupdate me ip (upd_inode ip (\<lambda>p. p\<lparr>i_size := 0\<rparr>) s') \<and>
    freed me {} s bl (file_blocks (blk s) (i_addrs (itable s ip))) s' bl' \<and>
    itable s' = (itable s)(ip := (itable s ip)\<lparr>i_addrs := replicate 13 0\<rparr>)"
proof -
  let ?as = "i_addrs (itable s ip)"
  let ?x = "?as ! NDIRECT" and ?A = "entries ((!) ?as) [0..<NDIRECT]"
  let ?f = "\<lambda>k. get32 (blk s ?x) (4 * k)"
  let ?B = "entries ?f [0..<NINDIRECT]"
  note e = file_entries_ok [OF wf] and sp = file_blocks_split [OF wf]
  have c0: "room 0 s bl" using c by (simp add: room_def)
  have l: "length ?as = 13" using file_wfD(1) [OF wf] .
  obtain s1 bl1 as1 where 1: "itrunc_direct me ip [0..<NDIRECT] s = Ok s1" "freed me {} s bl ?A s1 bl1"
      "itable s1 = (itable s)(ip := (itable s ip)\<lparr>i_addrs := as1\<rparr>)" "length as1 = 13" "\<forall>k<13. as1 ! k = (if k \<in> set [0..<NDIRECT] then 0 else ?as ! k)"
    using itrunc_direct_ok [OF t c0 g dev l _ e(1)] by auto
  have as1: "as1 ! NDIRECT = ?x" "k < NDIRECT \<Longrightarrow> as1 ! k = 0" for k using 1(5) by simp_all
  have zero: "as1[NDIRECT := 0] = replicate 13 0" using 1(4) as1(2) by (intro nth_equalityI) (auto simp: nth_list_update)
  show ?thesis
  proof (cases "?x = 0")
    case True
    then have "as1 = replicate 13 0" using zero as1(1) by (metis list_update_id)
    moreover have "itrunc me ip s = iupdate me ip (upd_inode ip (\<lambda>p. p\<lparr>i_size := 0\<rparr>) s1)"
      using 1(1,3) as1(1) True by (simp add: itrunc_def Let_def del: fs_consts)
    ultimately show ?thesis using 1(2,3) sp(1) True by (intro exI [of _ s1] exI [of _ bl1]) simp
  next
    case False
    note x = e(3) [OF False] and dis = sp(2) [OF False]
    have b1: "blk s1 ?x = blk s ?x" "sb s1 = sb s" using freedD(5) [OF 1(2)] freedD(3) [OF 1(2)] x by simp_all
    have dev1: "i_dev (itable s1 ip) = ROOTDEV" using 1(3) dev by simp
    have x1: "block_used (blk s1) (sb s1) ?x" using freedD(6) [OF 1(2), of ?x] x dis b1(2) by auto
    have "entries_ok s1 ?f [0..<NINDIRECT]" using entries_ok_after [OF e(2) [OF False] 1(2)] dis by blast
    moreover have "?x \<notin> ?B" using dis by blast
    ultimately obtain bp s2 s3 s4 bl4 where 4: "bread me ROOTDEV ?x s1 = Ok (bp, s2)" "itrunc_indirect me ip bp [0..<NINDIRECT] s2 = Ok s3"
        "brelse me bp s3 = Ok s4" "freed me {} s1 bl1 ?B s4 bl4" "itable s4 = itable s1"
      using free_indirect [OF freedD(1) [OF 1(2)] freedD(8) [OF 1(2) c] _ dev1, of ?x ?f "[0..<NINDIRECT]"] g x x1 b1 by auto
    note f4 = freed_trans [OF 1(2) 4(4)]
    have x4: "?x < sb_size (sb s4)" "block_used (blk s4) (sb s4) ?x" using freedD(3,6) [OF f4] x dis by auto
    have "alloc_held s4 {}" by (simp add: alloc_held_def)
    from bfree_freed [OF freedD(1) [OF f4] _ _ this x4] obtain s5 bl5 where
      5: "bfree me ROOTDEV ?x s4 = Ok s5" "freed me {} s4 bl4 {?x} s5 bl5" "itable s5 = itable s4"
      using freedD(8) [OF f4 c0] freedD(3) [OF f4] g by auto
    let ?s = "upd_inode ip (\<lambda>p. p\<lparr>i_addrs := (i_addrs p)[NDIRECT := 0]\<rparr>) s5"
    have it: "itable ?s = (itable s)(ip := (itable s ip)\<lparr>i_addrs := replicate 13 0\<rparr>)"
      using 1(3) 4(5) 5(3) zero by (simp add: fun_eq_iff del: fs_consts)
    have "itrunc me ip s = iupdate me ip (upd_inode ip (\<lambda>p. p\<lparr>i_size := 0\<rparr>) ?s)"
      using 1(1,3) as1(1) False dev 4(1-3,5) 5(1) by (simp add: itrunc_def Let_def del: fs_consts)
    moreover have "freed me {} s bl (file_blocks (blk s) ?as) ?s bl5"
      using freed_upd_inode [OF freed_trans [OF f4 5(2)]] sp(1) False by simp
    ultimately show ?thesis using it by blast
  qed
qed

section \<open>Dropping the last reference\<close>

lemma iupdate_short:
  assumes "tx me s {} bl" "length bl < NBUF" "q = itable s ip" "i_dev q = ROOTDEV" "length (i_addrs q) = 13" "B = IBLOCK (i_inum q) (sb s)"
  shows "\<exists>s' xs. iupdate me ip s = Ok s' \<and> tstep me {} s s' (absorb B bl) \<and> itable s' = itable s \<and> blk s' = (blk s)(B := xs) \<and>
    disk_inode (blk s') (sb s) (i_inum q) = dinode_of q"
proof -
  obtain s' where r: "iupdate me ip s = Ok s'" "tstep me {} s s' (absorb B bl)" "itable s' = itable s"
      "blk s' = (blk s)(B := patch (blk s B) (64 * islot (i_inum q)) (dinode_bytes (dinode_of q)))"
      "disk_inode (blk s') (sb s) = (disk_inode (blk s) (sb s))(i_inum q := dinode_of q)"
    using iupdate_ok [OF assms(1) _ _ assms(3-5)] assms(2,6) by auto
  have "disk_inode (blk s') (sb s) (i_inum q) = dinode_of q" unfolding r(5) by simp
  then show ?thesis using r(1-4) by blast
qed

text \<open>
  \<^verbatim>\<open>iput\<close> of the only reference to an inode without links: its blocks become free, its on-disk copy gets type 0, no other block
  changes, and the table entry is free.
\<close>

lemma iput_unlinked_ok:
  fixes s :: kernel
  assumes t: "tx me s {} bl" and c: "room 1 s bl" and g: "bitmap_geom (sb s)"
    and p: "p = itable s ip" "i_dev p = ROOTDEV" "i_ref p = 1" "i_valid p \<noteq> 0" "i_nlink p = 0" "sl_locked (i_lock p) = 0"
    and wf: "file_wf (sb s) (blk s) (i_addrs p)" and B: "B = IBLOCK (i_inum p) (sb s)" "B \<notin> bmap_blocks (sb s)"
  shows "\<exists>s' bl'. iput me ip s = Ok s' \<and> tstep me {} s s' bl' \<and> set bl' \<subseteq> set bl \<union> insert B (bmap_blocks (sb s)) \<and>
    (\<forall>k. k \<noteq> ip \<longrightarrow> itable s' k = itable s k) \<and> i_ref (itable s' ip) = 0 \<and> sl_locked (i_lock (itable s' ip)) = 0 \<and>
    di_type (disk_inode (blk s') (sb s) (i_inum p)) = 0 \<and> (\<forall>m. m \<notin> insert B (bmap_blocks (sb s)) \<longrightarrow> blk s' m = blk s m) \<and>
    (\<forall>b < sb_size (sb s). block_used (blk s') (sb s) b \<longleftrightarrow> b \<notin> file_blocks (blk s) (i_addrs p) \<and> block_used (blk s) (sb s) b)"
proof -
  let ?lk = "(i_lock p)\<lparr>sl_locked := 1, sl_pid := p_pid (procs s me)\<rparr>"
  let ?s0 = "upd_inode ip (\<lambda>q. q\<lparr>i_lock := ?lk\<rparr>) s"
  have l: "lock_inode me ip s = Ok ?s0" using lock_inode_free [of s ip me] p by simp
  have "tx me ?s0 {} bl" "room 1 ?s0 bl" "file_wf (sb ?s0) (blk ?s0) (i_addrs (itable ?s0 ip))" using t c wf p(1) by (simp_all add: room_def)
  from itrunc_blocks_ok [OF this(1,2) _ _ this(3)] g p obtain s1 bl1 where
    1: "itrunc me ip ?s0 = iupdate me ip (upd_inode ip (\<lambda>p. p\<lparr>i_size := 0\<rparr>) s1)" "freed me {} ?s0 bl (file_blocks (blk s) (i_addrs p)) s1 bl1"
      "itable s1 = (itable ?s0)(ip := (itable ?s0 ip)\<lparr>i_addrs := replicate 13 0\<rparr>)" by auto
  let ?s1 = "upd_inode ip (\<lambda>p. p\<lparr>i_size := 0\<rparr>) s1"
  have t1: "tx me ?s1 {} bl1" "sb s1 = sb s" "length bl1 + 1 < NBUF"
    using freedD(1,3) [OF 1(2)] room_length [OF freedD(8) [OF 1(2)] txD(6) [OF freedD(1) [OF 1(2)]], of 1] c by (simp_all add: room_def)
  have q1: "itable ?s1 ip = p\<lparr>i_lock := ?lk, i_addrs := replicate 13 0, i_size := 0\<rparr>" using 1(3) p(1) by simp
  obtain s2 xs2 where 2: "iupdate me ip ?s1 = Ok s2" "tstep me {} ?s1 s2 (absorb B bl1)" "itable s2 = itable ?s1" "blk s2 = (blk ?s1)(B := xs2)"
    using iupdate_short [OF t1(1) _ q1 [symmetric], of B] t1(2,3) p(2) B(1) by auto
  let ?s2 = "upd_inode ip (\<lambda>p. p\<lparr>i_type := 0\<rparr>) s2"
  have sb2: "sb ?s2 = sb s" using fframeD(2) [OF tstepD(2) [OF 2(2)]] t1(2) by simp
  have q2: "itable ?s2 ip = p\<lparr>i_lock := ?lk, i_addrs := replicate 13 0, i_size := 0, i_type := 0\<rparr>" using 2(3) q1 by simp
  have "tx me ?s2 {} (absorb B bl1)" "length (absorb B bl1) < NBUF" using tstepD(1) [OF 2(2)] t1(3) length_absorb [of B bl1] by simp_all
  from iupdate_short [OF this q2 [symmetric], of B] sb2 p(2) B(1) obtain s3 xs3 where
    3: "iupdate me ip ?s2 = Ok s3" "tstep me {} ?s2 s3 (absorb B (absorb B bl1))" "itable s3 = itable ?s2" "blk s3 = (blk ?s2)(B := xs3)"
      "disk_inode (blk s3) (sb s) (i_inum p) = dinode_of (itable ?s2 ip)"
    unfolding q2 by auto
  let ?s3 = "upd_inode ip (\<lambda>p. p\<lparr>i_valid := 0\<rparr>) s3" and ?bl = "absorb B (absorb B bl1)"
  have "tx me ?s3 {} ?bl" using tstepD(1) [OF 3(2)] by simp
  then obtain s4 where 4: "unlock_inode ip ?s3 = Ok s4" "tstep me {} ?s3 s4 ?bl" "blk s4 = blk ?s3"
      "itable s4 = (itable ?s3)(ip := (itable ?s3 ip)\<lparr>i_lock := (i_lock (itable ?s3 ip))\<lparr>sl_locked := 0, sl_pid := 0\<rparr>\<rparr>)"
    using unlock_inode_ok by blast
  let ?s4 = "upd_inode ip (\<lambda>p. p\<lparr>i_ref := i_ref p - 1\<rparr>) s4"
  have run: "iput me ip s = Ok ?s4" using p l 1(1) 2(1) 3(1) 4(1) by (simp add: iput_def Let_def)
  have "fframe s ?s4"
    by (rule fframe_trans [OF fframe_simps(1) [of s ip]], rule fframe_trans [OF freedD(2) [OF 1(2)]], rule fframe_trans [OF fframe_simps(1)],
      rule fframe_trans [OF tstepD(2) [OF 2(2)]], rule fframe_trans [OF fframe_simps(1)], rule fframe_trans [OF tstepD(2) [OF 3(2)]],
      rule fframe_trans [OF fframe_simps(1)], rule fframe_trans [OF tstepD(2) [OF 4(2)] fframe_simps(1)])
  then have ts: "tstep me {} s ?s4 ?bl" using tstepD(1) [OF 4(2)] by (simp add: tstep_def)
  have xs: "blk ?s4 = (blk s1)(B := xs3)" using 2(4) 3(4) 4(3) by simp
  have "itable ?s4 k = itable s k" if "k \<noteq> ip" for k using that 1(3) 2(3) 3(3) 4(4) by simp
  moreover have "i_ref (itable ?s4 ip) = 0" "sl_locked (i_lock (itable ?s4 ip)) = 0" using 4(4) 3(3) q2 p(3) by simp_all
  moreover have "di_type (disk_inode (blk ?s4) (sb s) (i_inum p)) = 0" using 3(5) 4(3) q2 by (simp add: dinode_of_def)
  moreover have "blk ?s4 m = blk s m" if "m \<notin> insert B (bmap_blocks (sb s))" for m using that freedD(5) [OF 1(2), of m] xs by simp
  moreover have "block_used (blk ?s4) (sb s) b \<longleftrightarrow> b \<notin> file_blocks (blk s) (i_addrs p) \<and> block_used (blk s) (sb s) b" if "b < sb_size (sb s)" for b
  proof -
    have "\<forall>b < sb_size (sb s). B \<noteq> BBLOCK b (sb s)" using B(2) by (auto simp: bmap_blocks_def)
    then have "block_used (blk ?s4) (sb s) b = block_used (blk s1) (sb s) b" unfolding xs using that by (rule block_used_other)
    then show ?thesis using freedD(6) [OF 1(2), of b] that by simp
  qed
  moreover have "set ?bl \<subseteq> set bl \<union> insert B (bmap_blocks (sb s))" using 1(2) by (auto simp: freed_def absorb_def)
  ultimately show ?thesis using run ts by (intro exI [of _ ?s4] exI [of _ ?bl]) blast
qed

section \<open>Transactions\<close>

text \<open>\<open>fs_ready me s bl\<close>: outside of a transaction of its own, process \<open>me\<close> sees a cache in order and a log with the blocks \<open>bl\<close>.\<close>

definition fs_ready :: "nat \<Rightarrow> kernel \<Rightarrow> u32 list \<Rightarrow> bool" where
  "fs_ready me s bl \<longleftrightarrow> bci me s {} (set bl) \<and> log_list (lg_lh (klog s)) bl \<and> 0 \<le> lg_outstanding (klog s) \<and> \<not> panicked s \<and>
     (\<forall>n. n \<notin> set bl \<longrightarrow> blk s n = disk s n) \<and> lg_dev (klog s) = ROOTDEV \<and> set bl \<inter> log_area (lg_start (klog s)) = {}"

lemma begin_op_ok:
  assumes "fs_ready me s bl" "\<not> op_must_wait (klog s)"
  defines "s' \<equiv> upd_log (\<lambda>l. l\<lparr>lg_outstanding := lg_outstanding l + 1\<rparr>) s"
  shows "begin_op s = Ok s'" "tx me s' {} bl" "blk s' = blk s" "length bl \<le> 20"
proof -
  show "begin_op s = Ok s'" using assms(2) by (simp add: begin_op_def s'_def)
  show b: "blk s' = blk s" by (simp add: s'_def)
  have "\<not> panicked s'" "bci me s' {} (set bl)" using assms(1) unfolding s'_def fs_ready_def by (simp_all, simp add: upd_log_def)
  then show "tx me s' {} bl" using assms(1) b by (simp add: fs_ready_def tx_def s'_def)
  show "length bl \<le> 20" using assms(1,2) by (simp add: fs_ready_def op_must_wait_def log_list_def MAXOPBLOCKS_def NBUF_val)
qed

lemma end_op_ok:
  assumes t: "tx me s {} bl" and l: "lg_committing (klog s) = 0" "lg_dev (klog s) = ROOTDEV" "set bl \<inter> log_area (lg_start (klog s)) = {}" "length bl + 2 \<le> NBUF"
  shows "\<exists>s'. end_op me s = Ok s' \<and> ftable s' = ftable s \<and> itable s' = itable s \<and> (\<forall>j. p_ofile (procs s' j) = p_ofile (procs s j))"
proof -
  note d = txD [OF t]
  let ?s = "upd_log (\<lambda>l. l\<lparr>lg_outstanding := lg_outstanding l - 1\<rparr>) s"
  have w: "\<exists>s'. do_wakeup (a_log (syms u)) u = Ok s' \<and> ftable s' = ftable s \<and> itable s' = itable s \<and> (\<forall>j. p_ofile (procs s' j) = p_ofile (procs s j))"
    if u: "sched_ok u" "rest u = rest s" for u
  proof -
    obtain s' where s': "do_wakeup (a_log (syms u)) u = Ok s'" "woke u s'" using do_wakeup_woke [OF u(1)] by blast
    then show ?thesis using restD(3,4,14) [OF u(2)] woke_simps(7,8,20) [OF s'(2)] by auto
  qed
  show ?thesis
  proof (cases "lg_outstanding (klog s) = 1")
    case False
    have "sched_ok ?s" using bciD(2) [OF d(1)] sched_ok_cong [of ?s s] by (simp add: upd_log_def)
    then show ?thesis using w [of ?s] False l(1) by (simp add: end_op_def Let_def)
  next
    case True
    let ?c = "upd_log (\<lambda>l. l\<lparr>lg_committing := 1\<rparr>) ?s"
    have b: "bci me ?c {} (set bl)" "rest ?c = rest s" using d(1) by simp_all
    have np: "\<not> panicked ?c" using d(4) by (simp add: upd_log_def)
    have "\<exists>u. commit me ?c = Ok u \<and> rest u = rest s \<and> sched_ok u"
    proof (cases "bl = []")
      case True
      then have "commit me ?c = Ok ?c" using d(2) by (simp add: commit_def log_list_def)
      then show ?thesis using b(2) bciD(2) [OF b(1)] by blast
    next
      case False
      have "log_env ?c (lg_start (klog s)) bl" using d(2) l by (simp add: log_env_def log_list_def)
      from commit_ok [OF this b(1) False np] obtain u where "commit me ?c = Ok u" "bci me u {} {}" "rest u = rest ?c" by blast
      then show ?thesis using b(2) bciD(2) by metis
    qed
    then obtain u where u: "commit me ?c = Ok u" "rest u = rest s" "sched_ok u" by blast
    have "sched_ok (upd_log (\<lambda>l. l\<lparr>lg_committing := 0\<rparr>) u)" using u(3) sched_ok_cong [of "upd_log (\<lambda>l. l\<lparr>lg_committing := 0\<rparr>) u" u] by (simp add: upd_log_def)
    moreover have "syms (upd_log g u) = syms u" for g by (simp add: upd_log_def)
    ultimately show ?thesis using w [of "upd_log (\<lambda>l. l\<lparr>lg_committing := 0\<rparr>) u"] u(1,2) True l(1) by (simp add: end_op_def Let_def)
  qed
qed

text \<open>
  \<open>release_ok me ip s\<close>: the last reference to an open file may give up inode \<open>ip\<close>. If the inode goes away with it, it must be unlocked,
  a well-formed file on a disk that \<^verbatim>\<open>mkfs\<close> laid out, with log, inodes and bitmap apart and a bitmap of at most 7 blocks, so that a
  transaction has room for it.
\<close>

definition release_ok :: "nat \<Rightarrow> nat \<Rightarrow> kernel \<Rightarrow> bool" where
  "release_ok me ip s \<longleftrightarrow> (\<exists>bl. fs_ready me s bl) \<and>
     (let p = itable s ip; B = IBLOCK (i_inum p) (sb s) in
      i_ref p = 1 \<and> i_valid p \<noteq> 0 \<and> i_nlink p = 0 \<longrightarrow>
        i_dev p = ROOTDEV \<and> sl_locked (i_lock p) = 0 \<and> bitmap_geom (sb s) \<and> card (bmap_blocks (sb s)) \<le> 7 \<and> file_wf (sb s) (blk s) (i_addrs p) \<and>
        B \<notin> bmap_blocks (sb s) \<and> insert B (bmap_blocks (sb s)) \<inter> log_area (lg_start (klog s)) = {})"

lemma release_inode_ok:
  assumes r: "release_ok me ip s" and w: "\<not> op_must_wait (klog s)"
  shows "\<exists>s1 s2 s3. begin_op s = Ok s1 \<and> iput me ip s1 = Ok s2 \<and> end_op me s2 = Ok s3 \<and> ftable s3 = ftable s \<and>
    (\<forall>j. p_ofile (procs s3 j) = p_ofile (procs s j))"
proof -
  obtain bl where f: "fs_ready me s bl" using r by (auto simp: release_ok_def)
  define s1 where "s1 = upd_log (\<lambda>l. l\<lparr>lg_outstanding := lg_outstanding l + 1\<rparr>) s"
  note b = begin_op_ok [OF f w, folded s1_def]
  have e: "itable s1 = itable s" "sb s1 = sb s" "lg_start (klog s1) = lg_start (klog s)" "lg_dev (klog s1) = ROOTDEV" "lg_committing (klog s1) = 0"
      "set bl \<inter> log_area (lg_start (klog s)) = {}" "ftable s1 = ftable s" "procs s1 = procs s"
    using f w by (simp_all add: s1_def fs_ready_def op_must_wait_def) (simp_all add: upd_log_def)
  let ?p = "itable s ip" and ?X = "insert (IBLOCK (i_inum (itable s ip)) (sb s)) (bmap_blocks (sb s))"
  have len: "card (set bl) \<le> 20" using b(4) card_length [of bl] by linarith
  have "\<exists>s2 bl2. iput me ip s1 = Ok s2 \<and> tstep me {} s1 s2 bl2 \<and> set bl2 \<inter> log_area (lg_start (klog s)) = {} \<and> length bl2 + 2 \<le> NBUF"
  proof (cases "i_ref ?p = 1 \<and> i_valid ?p \<noteq> 0 \<and> i_nlink ?p = 0")
    case False
    let ?s = "upd_inode ip (\<lambda>p. p\<lparr>i_ref := i_ref p - 1\<rparr>) s1"
    have "iput me ip s1 = Ok ?s" using False e(1) by (auto simp: iput_def Let_def)
    moreover have "tstep me {} s1 ?s bl" using b(2) by (simp add: tstep_def)
    ultimately show ?thesis using e(6) b(4) by (intro exI [of _ ?s] exI [of _ bl]) (simp add: NBUF_val)
  next
    case True
    then have g: "i_dev ?p = ROOTDEV" "sl_locked (i_lock ?p) = 0" "bitmap_geom (sb s)" "card (bmap_blocks (sb s)) \<le> 7" "file_wf (sb s) (blk s) (i_addrs ?p)"
        "IBLOCK (i_inum ?p) (sb s) \<notin> bmap_blocks (sb s)" "?X \<inter> log_area (lg_start (klog s)) = {}"
      using r by (simp_all add: release_ok_def Let_def)
    have "room 1 s1 bl" using card_Un_le [of "set bl" "bmap_blocks (sb s)"] len g(4) by (simp add: room_def e(2) NBUF_val)
    from iput_unlinked_ok [OF b(2) this _ refl, of ip] True g e(1,2) b(3) obtain s2 bl2 where
      2: "iput me ip s1 = Ok s2" "tstep me {} s1 s2 bl2" "set bl2 \<subseteq> set bl \<union> ?X" by auto
    have "card (set bl2) \<le> card (set bl \<union> ?X)" using 2(3) by (intro card_mono) simp_all
    also have "\<dots> \<le> 28" using card_Un_le [of "set bl" ?X] card_insert_le_m1 [of 8 "bmap_blocks (sb s)"] len g(4) card_insert_if [of "bmap_blocks (sb s)"]
      by (simp add: g(6))
    finally have "length bl2 + 2 \<le> NBUF" using distinct_card [OF txD(6) [OF tstepD(1) [OF 2(2)]]] by (simp add: NBUF_val)
    then show ?thesis using 2 e(6) g(7) by blast
  qed
  then obtain s2 bl2 where 2: "iput me ip s1 = Ok s2" "tstep me {} s1 s2 bl2" "set bl2 \<inter> log_area (lg_start (klog s)) = {}" "length bl2 + 2 \<le> NBUF" by blast
  note fr = fframeD [OF tstepD(2) [OF 2(2)]]
  obtain s3 where 3: "end_op me s2 = Ok s3" "ftable s3 = ftable s2" "\<forall>j. p_ofile (procs s3 j) = p_ofile (procs s2 j)"
    using end_op_ok [OF tstepD(1) [OF 2(2)]] 2(3,4) fr(17,18,19) e(3-5) by auto
  then show ?thesis using b(1) 2(1) fr(3,15) e(7,8) by auto
qed

end
