(* ===== verification/Descriptors.thy ===== *)
theory Descriptors
  imports Sysfile Trunc
begin

text \<open>
  The typing of file descriptors (\<^verbatim>\<open>p->ofile\<close>, \<^verbatim>\<open>ftable\<close>) and their reference counts. \<open>fd_refs h s\<close> says
  that every process has a table of \<^verbatim>\<open>NOFILE\<close> descriptors, each empty or an entry of \<^verbatim>\<open>ftable\<close>, and
  that the count of an entry is the number of descriptors that refer to it plus \<open>h\<close>, the references
  that a system call in progress holds besides (or, negative, that it has not counted yet). Every
  operation on descriptors keeps it, moving references between the tables and \<open>h\<close>.
\<close>

section \<open>The invariant\<close>

definition refs :: "(nat \<Rightarrow> proc) \<Rightarrow> nat \<Rightarrow> nat" where
  "refs ps f = (\<Sum>i<NPROC. count_list (p_ofile (ps i)) (Some f))"

definition fd_refs :: "(nat \<Rightarrow> int) \<Rightarrow> kernel \<Rightarrow> bool" where
  "fd_refs h s \<longleftrightarrow>
     (\<forall>i<NPROC. length (p_ofile (procs s i)) = NOFILE \<and> (\<forall>f. Some f \<in> set (p_ofile (procs s i)) \<longrightarrow> f < NFILE)) \<and>
     (\<forall>f<NFILE. f_ref (ftable s f) = int (refs (procs s) f) + h f)"

lemma count_list_update:
  "k < length xs \<Longrightarrow> int (count_list (xs[k := y]) z) =
     int (count_list xs z) - of_bool (xs ! k = z) + of_bool (y = z)"
proof (induction xs arbitrary: k)
  case (Cons x xs)
  then show ?case by (cases k) simp_all
qed simp

text \<open>Changing one descriptor of one process.\<close>

lemma refs_update:
  assumes "me < NPROC" "k < length (p_ofile (ps me))"
  shows "int (refs (ps(me := (ps me)\<lparr>p_ofile := (p_ofile (ps me))[k := y]\<rparr>)) f) =
    int (refs ps f) - of_bool (p_ofile (ps me) ! k = Some f) + of_bool (y = Some f)"
proof -
  let ?ps = "ps(me := (ps me)\<lparr>p_ofile := (p_ofile (ps me))[k := y]\<rparr>)"
  have r: "refs qs f = count_list (p_ofile (qs me)) (Some f) + (\<Sum>i\<in>{..<NPROC} - {me}. count_list (p_ofile (qs i)) (Some f))" for qs
    unfolding refs_def using assms(1) by (intro sum.remove) simp_all
  have "(\<Sum>i\<in>{..<NPROC} - {me}. count_list (p_ofile (?ps i)) (Some f)) = (\<Sum>i\<in>{..<NPROC} - {me}. count_list (p_ofile (ps i)) (Some f))"
    by (intro sum.cong) simp_all
  then show ?thesis using r [of ?ps] r [of ps] count_list_update [OF assms(2), of y "Some f"] by simp
qed

lemma fd_refsD:
  assumes "fd_refs h s" "me < NPROC"
  shows "length (p_ofile (procs s me)) = NOFILE" "fd < NOFILE \<Longrightarrow> p_ofile (procs s me) ! fd = Some f \<Longrightarrow> f < NFILE"
    "fd < NOFILE \<Longrightarrow> p_ofile (procs s me) ! fd = Some f \<Longrightarrow> 0 < refs (procs s) f"
    "f < NFILE \<Longrightarrow> f_ref (ftable s f) = int (refs (procs s) f) + h f"
proof -
  show l: "length (p_ofile (procs s me)) = NOFILE" and "f < NFILE \<Longrightarrow> f_ref (ftable s f) = int (refs (procs s) f) + h f"
    using assms by (simp_all add: fd_refs_def)
  show "f < NFILE" if "fd < NOFILE" "p_ofile (procs s me) ! fd = Some f"
    using that assms l unfolding fd_refs_def by (metis nth_mem)
  show "0 < refs (procs s) f" if "fd < NOFILE" "p_ofile (procs s me) ! fd = Some f"
  proof -
    have "Some f \<in> set (p_ofile (procs s me))" using that l by (metis nth_mem)
    then have "count_list (p_ofile (procs s me)) (Some f) \<noteq> 0" by (simp add: count_list_0_iff)
    moreover have "count_list (p_ofile (procs s me)) (Some f) \<le> refs (procs s) f"
      unfolding refs_def using assms(2) by (intro member_le_sum) simp_all
    ultimately show ?thesis by linarith
  qed
qed

lemma fd_refs_cong:
  assumes "fd_refs h s" "\<And>i. p_ofile (procs s' i) = p_ofile (procs s i)" "\<And>f. f_ref (ftable s' f) = f_ref (ftable s f)"
  shows "fd_refs h s'"
  using assms by (simp add: fd_refs_def refs_def)

text \<open>The two elementary changes.\<close>

lemma fd_refs_set:
  assumes "fd_refs h s" "me < NPROC" "k < NOFILE" "\<And>f. y = Some f \<Longrightarrow> f < NFILE"
  shows "fd_refs (\<lambda>f. h f + of_bool (p_ofile (procs s me) ! k = Some f) - of_bool (y = Some f))
    (upd_proc me (\<lambda>p. p\<lparr>p_ofile := (p_ofile p)[k := y]\<rparr>) s)"
proof -
  have l: "length (p_ofile (procs s me)) = NOFILE" by (rule fd_refsD(1) [OF assms(1,2)])
  have k: "k < length (p_ofile (procs s me))" using l assms(3) by simp
  have "\<forall>f. Some f \<in> set ((p_ofile (procs s me))[k := y]) \<longrightarrow> f < NFILE"
    using assms set_update_subset_insert [of "p_ofile (procs s me)" k y] unfolding fd_refs_def by blast
  then show ?thesis
    using assms(1) l refs_update [where ps = "procs s" and y = y, OF assms(2) k] unfolding fd_refs_def by (simp add: upd_proc_def)
qed

lemma fd_refs_count:
  assumes "fd_refs h s" "\<And>x. f_ref (g x) = f_ref x + d"
  shows "fd_refs (h(f := h f + d)) (upd_file f g s)"
  using assms by (simp add: fd_refs_def upd_file_def)

lemma procs_upd_file [simp]: "procs (upd_file f g s) = procs s" "ftable (upd_proc i k s) = ftable s"
  by (simp_all add: upd_file_def upd_proc_def)

section \<open>The operations\<close>

text \<open>The lowest free descriptor.\<close>

definition lowest_fd :: "nat option list \<Rightarrow> nat option" where
  "lowest_fd os = find (\<lambda>fd. os ! fd = None) [0..<NOFILE]"

lemma fdalloc_ok:
  assumes "fd_refs h s" "me < NPROC" "f < NFILE"
  shows "case lowest_fd (p_ofile (procs s me)) of
      None \<Rightarrow> fdalloc me f s = (-1, s)
    | Some fd \<Rightarrow> fd < NOFILE \<and> (\<exists>s'. fdalloc me f s = (int fd, s') \<and> fd_refs (h(f := h f - 1)) s' \<and> ftable s' = ftable s \<and>
        p_ofile (procs s' me) = (p_ofile (procs s me))[fd := Some f] \<and> (\<forall>i. i \<noteq> me \<longrightarrow> procs s' i = procs s i))"
proof (cases "lowest_fd (p_ofile (procs s me))")
  case None
  then show ?thesis by (simp add: fdalloc_def lowest_fd_def)
next
  case (Some fd)
  then have fd: "fd < NOFILE" "p_ofile (procs s me) ! fd = None" by (auto simp: lowest_fd_def find_Some_iff)
  have "h(f := h f - 1) = (\<lambda>g. h g + of_bool (p_ofile (procs s me) ! fd = Some g) - of_bool (Some f = Some g))"
    using fd(2) by (auto simp: fun_eq_iff)
  then have "fd_refs (h(f := h f - 1)) (upd_proc me (\<lambda>p. p\<lparr>p_ofile := (p_ofile p)[fd := Some f]\<rparr>) s)"
    using fd_refs_set [OF assms(1,2) fd(1), of "Some f"] assms(3) by simp
  then show ?thesis using Some fd by (simp add: fdalloc_def lowest_fd_def)
qed

lemma filealloc_ok:
  assumes "fd_refs h s"
  shows "case filealloc s of
      (None, s') \<Rightarrow> s' = s \<and> (\<forall>f<NFILE. f_ref (ftable s f) \<noteq> 0)
    | (Some f, s') \<Rightarrow> f < NFILE \<and> f_ref (ftable s f) = 0 \<and> fd_refs (h(f := h f + 1)) s'"
proof (cases "find (\<lambda>f. f_ref (ftable s f) = 0) [0..<NFILE]")
  case None
  moreover from None have "\<forall>f<NFILE. f_ref (ftable s f) \<noteq> 0" by (auto simp: find_None_iff)
  ultimately show ?thesis by (simp add: filealloc_def)
next
  case (Some f)
  then have f: "f < NFILE" "f_ref (ftable s f) = 0" by (auto simp: find_Some_iff)
  have "fd_refs (h(f := h f + 1)) (upd_file f (\<lambda>x. x\<lparr>f_ref := 1\<rparr>) s)"
    using assms f by (simp add: fd_refs_def upd_file_def)
  then show ?thesis using Some f by (simp add: filealloc_def)
qed

lemma filedup_ok:
  assumes "fd_refs h s" "f_ref (ftable s f) \<ge> 1"
  shows "\<exists>s'. filedup f s = Ok (f, s') \<and> fd_refs (h(f := h f + 1)) s' \<and> procs s' = procs s \<and>
    (\<forall>g. f_ref (ftable s' g) = f_ref (ftable s g) + of_bool (g = f))"
  using assms fd_refs_count [OF assms(1), of "\<lambda>x. x\<lparr>f_ref := f_ref x + 1\<rparr>" 1 f]
  by (auto simp: filedup_def upd_file_def)

text \<open>
  What closing a file needs when the reference is the last one: a pipe must be a page of the kernel, and the file system must be
  ready to give up the inode of a file or device in a transaction of its own.
\<close>

definition closable :: "nat \<Rightarrow> nat \<Rightarrow> kernel \<Rightarrow> bool" where
  "closable me f s \<longleftrightarrow>
     (let x = ftable s f in
      f_ref x = 1 \<longrightarrow>
        (case f_type x of
           FD_NONE \<Rightarrow> True
         | FD_PIPE \<Rightarrow> sched_ok s \<and> f_pipe x mod PGSIZE = 0 \<and> kend s \<le> f_pipe x \<and> f_pipe x < PHYSTOP
         | _ \<Rightarrow> release_ok me (f_ip x) s))"

text \<open>Closing the last reference to an inode waits when the log has no room for another transaction.\<close>

definition close_waits :: "nat \<Rightarrow> kernel \<Rightarrow> bool" where
  "close_waits f s \<longleftrightarrow>
     f_ref (ftable s f) = 1 \<and> (f_type (ftable s f) = FD_INODE \<or> f_type (ftable s f) = FD_DEVICE) \<and> op_must_wait (klog s)"

lemma pipeclose_ok:
  assumes "sched_ok s" "pi mod PGSIZE = 0" "kend s \<le> pi" "pi < PHYSTOP"
  shows "\<exists>s'. pipeclose pi wr s = Ok s' \<and> ftable s' = ftable s \<and> (\<forall>i. p_ofile (procs s' i) = p_ofile (procs s i))"
proof -
  define t where "t = upd_pipe pi (if wr then (\<lambda>p. p\<lparr>pi_writeopen := False\<rparr>) else (\<lambda>p. p\<lparr>pi_readopen := False\<rparr>)) s"
  have t: "sched_ok t" "ftable t = ftable s" "procs t = procs s" "kend t = kend s"
    using assms(1) sched_ok_cong [of t s] by (simp_all add: t_def upd_pipe_def)
  obtain u where u: "do_wakeup (if wr then nread_chan pi else nwrite_chan pi) t = Ok u" "woke t u" using do_wakeup_woke [OF t(1)] by blast
  note w = woke_simps [OF u(2)]
  have "pipeclose pi wr s = (if \<not> pi_readopen (pipes u pi) \<and> \<not> pi_writeopen (pipes u pi) then kfree pi u else Ok u)"
    using u(1) by (cases wr) (simp_all add: pipeclose_def t_def)
  moreover have "\<exists>u'. kfree pi u = Ok u' \<and> ftable u' = ftable u \<and> procs u' = procs u"
    using assms w(12) t(4) by (simp add: kfree_def Let_def not_less not_le)
  ultimately show ?thesis using w(8,20) t(2,3) by auto
qed

lemma release_ok_file: "release_ok me ip (upd_file f g s) = release_ok me ip s"
proof -
  have "bci me (upd_file f g s) {} P = bci me s {} P" for P by (rule bci_cong) (simp_all add: upd_file_def)
  moreover have "blk (upd_file f g s) = blk s" by (rule blk_cong) (simp_all add: upd_file_def)
  ultimately show ?thesis by (simp add: release_ok_def fs_ready_def) (simp add: upd_file_def)
qed

lemma fileclose_ok:
  assumes "fd_refs h s" "f_ref (ftable s f) \<ge> 1" "closable me f s"
  shows "if close_waits f s then fileclose me f s = Sleeps (a_log (syms s))
    else \<exists>s'. fileclose me f s = Ok s' \<and> fd_refs (h(f := h f - 1)) s' \<and> (\<forall>i. p_ofile (procs s' i) = p_ofile (procs s i)) \<and>
      (\<forall>g. f_ref (ftable s' g) = f_ref (ftable s g) - of_bool (g = f))"
proof -
  let ?s = "upd_file f (\<lambda>x. x\<lparr>f_ref := f_ref x - 1\<rparr>) s"
  have k: "fd_refs (h(f := h f - 1)) ?s" using fd_refs_count [OF assms(1), of "\<lambda>x. x\<lparr>f_ref := f_ref x - 1\<rparr>" "-1" f] by simp
  show ?thesis
  proof (cases "f_ref (ftable s f) > 1")
    case True
    then show ?thesis using k by (auto simp: fileclose_def upd_file_def close_waits_def)
  next
    case False
    let ?t = "upd_file f (\<lambda>x. x\<lparr>f_ref := 0, f_type := FD_NONE\<rparr>) ?s" and ?x = "ftable s f"
    have one: "f_ref ?x = 1" using False assms(2) by simp
    have t: "fd_refs (h(f := h f - 1)) ?t" "\<forall>g. f_ref (ftable ?t g) = f_ref (ftable s g) - of_bool (g = f)"
      using one fd_refs_cong [OF k, of ?t] by (simp_all add: upd_file_def)
    have fin: "\<exists>s'. r = Ok s' \<and> fd_refs (h(f := h f - 1)) s' \<and> (\<forall>i. p_ofile (procs s' i) = p_ofile (procs s i)) \<and>
        (\<forall>g. f_ref (ftable s' g) = f_ref (ftable s g) - of_bool (g = f))"
      if "r = Ok s'" "ftable s' = ftable ?t" "\<forall>i. p_ofile (procs s' i) = p_ofile (procs ?t i)" for r s'
      using that t fd_refs_cong [OF t(1), of s'] by auto
    have run: "fileclose me f s = (if f_type ?x = FD_PIPE then pipeclose (f_pipe ?x) (f_writable ?x) ?t
        else if f_type ?x = FD_INODE \<or> f_type ?x = FD_DEVICE
        then res_bind (begin_op ?t) (\<lambda>s. res_bind (iput me (f_ip ?x) s) (end_op me)) else Ok ?t)"
      using one by (simp add: fileclose_def Let_def upd_file_def)
    consider "f_type ?x = FD_PIPE" | "f_type ?x = FD_INODE \<or> f_type ?x = FD_DEVICE" | "f_type ?x = FD_NONE" by (cases "f_type ?x") auto
    then show ?thesis
    proof cases
      case 1
      then have c: "sched_ok s" "f_pipe ?x mod PGSIZE = 0" "kend s \<le> f_pipe ?x" "f_pipe ?x < PHYSTOP"
        using assms(3) one by (simp_all add: closable_def Let_def)
      have "sched_ok ?t" "kend ?t = kend s" using c(1) sched_ok_cong [of ?t s] by (simp_all add: upd_file_def)
      then obtain s' where "pipeclose (f_pipe ?x) (f_writable ?x) ?t = Ok s'" "ftable s' = ftable ?t" "\<forall>i. p_ofile (procs s' i) = p_ofile (procs ?t i)"
        using pipeclose_ok [of ?t "f_pipe ?x" "f_writable ?x"] c by auto
      then show ?thesis using fin run 1 by (simp add: close_waits_def)
    next
      case 2
      then have r: "release_ok me (f_ip ?x) ?t" using assms(3) one by (auto simp: closable_def release_ok_file Let_def)
      have e: "klog ?t = klog s" "syms ?t = syms s" by (simp_all add: upd_file_def)
      show ?thesis
      proof (cases "op_must_wait (klog s)")
        case True
        then show ?thesis using run 2 one e by (auto simp: close_waits_def begin_op_def)
      next
        case w: False
        obtain s1 s2 s3 where "begin_op ?t = Ok s1" "iput me (f_ip ?x) s1 = Ok s2" "end_op me s2 = Ok s3" "ftable s3 = ftable ?t"
            "\<forall>j. p_ofile (procs s3 j) = p_ofile (procs ?t j)"
          using release_inode_ok [OF r] w e(1) by auto
        then have "fileclose me f s = Ok s3" "ftable s3 = ftable ?t" "\<forall>i. p_ofile (procs s3 i) = p_ofile (procs ?t i)" using run 2 by auto
        then show ?thesis using fin w by (simp add: close_waits_def)
      qed
    next
      case 3
      then show ?thesis using fin [of _ ?t] run by (simp add: close_waits_def)
    qed
  qed
qed

section \<open>System calls\<close>

lemma sched_ok_ofile: "sched_ok (upd_proc me (\<lambda>p. p\<lparr>p_ofile := g p\<rparr>) s) \<longleftrightarrow> sched_ok s"
proof -
  let ?t = "upd_proc me (\<lambda>p. p\<lparr>p_ofile := g p\<rparr>) s"
  have "p_state (procs ?t i) = p_state (procs s i)" "p_chan (procs ?t i) = p_chan (procs s i)"
    "p_wq_entry (procs ?t i) = p_wq_entry (procs s i)" "buckets ?t = buckets s" for i by simp_all
  then show ?thesis unfolding sched_ok_def sched_inv_def wq_queues_def wq_queue_def queued_ok_def enext_def by (simp only:)
qed

lemma release_ok_ofile: "release_ok me ip (upd_proc i (\<lambda>p. p\<lparr>p_ofile := g p\<rparr>) s) = release_ok me ip s"
proof -
  let ?t = "upd_proc i (\<lambda>p. p\<lparr>p_ofile := g p\<rparr>) s"
  have "blk ?t = blk s" by (rule blk_cong) (simp_all add: upd_proc_def)
  moreover have "bufs ?t = bufs s" "disk ?t = disk s" "klog ?t = klog s" "panicked ?t = panicked s" "itable ?t = itable s" "sb ?t = sb s"
    by (simp_all add: upd_proc_def)
  moreover from this have "bci me ?t {} P = bci me s {} P" for P unfolding bci_def bring_def buf_of_def by (simp add: sched_ok_ofile)
  ultimately show ?thesis by (simp add: release_ok_def fs_ready_def)
qed

lemma clear_fd_ok:
  assumes "fd_refs h s" "me < NPROC" "fd < NOFILE" "p_ofile (procs s me) ! fd = Some f"
  shows "fd_refs (h(f := h f + 1)) (clear_fd me fd s)" "closable me f (clear_fd me fd s) \<longleftrightarrow> closable me f s"
    "ftable (clear_fd me fd s) = ftable s" "close_waits f (clear_fd me fd s) \<longleftrightarrow> close_waits f s" "syms (clear_fd me fd s) = syms s"
proof -
  have "h(f := h f + 1) = (\<lambda>g. h g + of_bool (p_ofile (procs s me) ! fd = Some g) - of_bool (None = Some g))"
    using assms(4) by (auto simp: fun_eq_iff)
  then show "fd_refs (h(f := h f + 1)) (clear_fd me fd s)"
    using fd_refs_set [OF assms(1-3), of None] by (simp add: clear_fd_def)
  show ft: "ftable (clear_fd me fd s) = ftable s" by (simp add: clear_fd_def)
  show "syms (clear_fd me fd s) = syms s" "close_waits f (clear_fd me fd s) \<longleftrightarrow> close_waits f s"
    by (simp_all add: close_waits_def ft) (simp_all add: clear_fd_def upd_proc_def)
  have e: "kend (clear_fd me fd s) = kend s" by (simp add: clear_fd_def upd_proc_def)
  have q: "sched_ok (clear_fd me fd s) = sched_ok s" "release_ok me ip (clear_fd me fd s) = release_ok me ip s" for ip
    by (simp_all add: clear_fd_def sched_ok_ofile release_ok_ofile)
  show "closable me f (clear_fd me fd s) \<longleftrightarrow> closable me f s" unfolding closable_def ft e q ..
qed

lemma argfd_cases:
  "\<exists>r. argfd me 0 s = Ok r \<and> (case r of None \<Rightarrow> True | Some (fd, f) \<Rightarrow> fd < NOFILE \<and> p_ofile (procs s me) ! fd = Some f)"
  by (auto simp: argfd_def argint_def argraw_def split: option.splits)

lemma sys_dup_ok:
  assumes "fd_refs (\<lambda>_. 0) s" "me < NPROC" "argfd me 0 s = Ok (Some (fd, f))" "f < NFILE" "f_ref (ftable s f) \<ge> 1"
  shows "case lowest_fd (p_ofile (procs s me)) of
      None \<Rightarrow> sys_dup me s = Ok (-1, s)
    | Some fd' \<Rightarrow> \<exists>s'. sys_dup me s = Ok (of_nat fd', s') \<and> fd_refs (\<lambda>_. 0) s' \<and>
        p_ofile (procs s' me) = (p_ofile (procs s me))[fd' := Some f] \<and> (\<forall>i. i \<noteq> me \<longrightarrow> procs s' i = procs s i)"
proof (cases "lowest_fd (p_ofile (procs s me))")
  case None
  then show ?thesis using fdalloc_ok [OF assms(1,2,4)] assms(3) by (simp add: sys_dup_def)
next
  case (Some fd')
  then obtain s1 where s1: "fdalloc me f s = (int fd', s1)" "fd_refs ((\<lambda>_. 0)(f := -1)) s1" "ftable s1 = ftable s"
      "p_ofile (procs s1 me) = (p_ofile (procs s me))[fd' := Some f]" "\<forall>i. i \<noteq> me \<longrightarrow> procs s1 i = procs s i"
    using fdalloc_ok [OF assms(1,2,4)] by auto
  have "f_ref (ftable s1 f) \<ge> 1" using assms(5) s1(3) by simp
  from filedup_ok [OF s1(2) this] obtain s2 where
    "filedup f s1 = Ok (f, s2)" "fd_refs ((\<lambda>_. 0)(f := 0)) s2" "procs s2 = procs s1" by auto
  moreover have "(\<lambda>_. 0 :: int)(f := 0) = (\<lambda>_. 0)" by (simp add: fun_eq_iff)
  ultimately show ?thesis using Some s1 assms(3) by (simp add: sys_dup_def)
qed

lemma sys_close_ok:
  assumes "fd_refs (\<lambda>_. 0) s" "me < NPROC" "argfd me 0 s = Ok (Some (fd, f))" "fd < NOFILE" "p_ofile (procs s me) ! fd = Some f"
    "f_ref (ftable s f) \<ge> 1" "closable me f s"
  shows "if close_waits f s then sys_close me s = Sleeps (a_log (syms s))
    else \<exists>s'. sys_close me s = Ok (0, s') \<and> fd_refs (\<lambda>_. 0) s' \<and>
      p_ofile (procs s' me) = (p_ofile (procs s me))[fd := None] \<and>
      (\<forall>i. i \<noteq> me \<longrightarrow> p_ofile (procs s' i) = p_ofile (procs s i)) \<and>
      (\<forall>g. f_ref (ftable s' g) = f_ref (ftable s g) - of_bool (g = f))"
proof -
  note c = clear_fd_ok [OF assms(1,2,4,5)]
  let ?c = "clear_fd me fd s"
  have z: "((\<lambda>_. 0 :: int)(f := 0 + 1))(f := ((\<lambda>_. 0)(f := 0 + 1)) f - 1) = (\<lambda>_. 0)" by (simp add: fun_eq_iff)
  have "1 \<le> f_ref (ftable ?c f)" "closable me f ?c" using c(2,3) assms(6,7) by simp_all
  note fc = fileclose_ok [OF c(1) this, unfolded z c(3-5)]
  have run: "sys_close me s = res_bind (fileclose me f ?c) (\<lambda>s. Ok (0, s))" using assms(3) by (simp add: sys_close_def)
  have o: "p_ofile (procs ?c i) = (if i = me then (p_ofile (procs s me))[fd := None] else p_ofile (procs s i))" for i by (simp add: clear_fd_def)
  show ?thesis
  proof (cases "close_waits f s")
    case True
    then show ?thesis using fc run by simp
  next
    case False
    then obtain s' where "fileclose me f ?c = Ok s'" "fd_refs (\<lambda>_. 0) s'" "\<forall>i. p_ofile (procs s' i) = p_ofile (procs ?c i)"
        "\<forall>g. f_ref (ftable s' g) = f_ref (ftable s g) - of_bool (g = f)" using fc by auto
    then show ?thesis using False run o by simp
  qed
qed

lemma fork_files_ok:
  assumes "fd_refs h s" "me < NPROC" "np < NPROC" "me \<noteq> np" "k \<le> NOFILE"
    "p_ofile (procs s np) = take k (p_ofile (procs s me)) @ replicate (NOFILE - k) None"
    "\<forall>f<NFILE. 0 \<le> h f"
  shows "\<exists>s'. fork_files me np [k..<NOFILE] s = Ok s' \<and> fd_refs h s' \<and> p_ofile (procs s' np) = p_ofile (procs s me) \<and>
    (\<forall>i. i \<noteq> np \<longrightarrow> procs s' i = procs s i) \<and>
    (\<forall>g. f_ref (ftable s' g) = f_ref (ftable s g) + int (count_list (drop k (p_ofile (procs s me))) (Some g)))"
  using assms
proof (induction "NOFILE - k" arbitrary: k s)
  case 0
  then show ?case using fd_refsD(1) [of h s me] by auto
next
  case (Suc n)
  note p = Suc.prems
  let ?o = "p_ofile (procs s me)"
  have k: "k < NOFILE" "[k..<NOFILE] = k # [Suc k..<NOFILE]" "n = NOFILE - Suc k" using Suc.hyps(2) by (simp_all add: upt_conv_Cons)
  have l: "length ?o = NOFILE" using fd_refsD(1) [OF p(1,2)] .
  then have tk: "take (Suc k) ?o = take k ?o @ [?o ! k]" "drop k ?o = ?o ! k # drop (Suc k) ?o"
    using k(1) by (simp_all add: take_Suc_conv_app_nth Cons_nth_drop_Suc)
  have np: "p_ofile (procs s np) ! k = None" "(p_ofile (procs s np))[k := ?o ! k] = take (Suc k) ?o @ replicate (NOFILE - Suc k) None"
    using p(6) l k tk(1) by (auto simp: nth_append list_update_append Suc.hyps(2) [symmetric])
  show ?case
  proof (cases "?o ! k")
    case None
    have "p_ofile (procs s np) = take (Suc k) ?o @ replicate (NOFILE - Suc k) None"
      using np None by (metis list_update_id)
    then obtain s' where "fork_files me np [Suc k..<NOFILE] s = Ok s'" "fd_refs h s'" "p_ofile (procs s' np) = ?o"
        "\<forall>i. i \<noteq> np \<longrightarrow> procs s' i = procs s i" "\<forall>g. f_ref (ftable s' g) = f_ref (ftable s g) + int (count_list (drop (Suc k) ?o) (Some g))"
      using Suc.hyps(1) [OF k(3), of s] p k(1) by auto
    then show ?thesis using None k(2) tk(2) by auto
  next
    case (Some f)
    have f: "f < NFILE" "f_ref (ftable s f) \<ge> 1"
      using fd_refsD(2,3) [OF p(1,2) k(1) Some] fd_refsD(4) [OF p(1,2), of f] p(7) by fastforce+
    obtain s1 where s1: "filedup f s = Ok (f, s1)" "fd_refs (h(f := h f + 1)) s1" "procs s1 = procs s"
        "\<forall>g. f_ref (ftable s1 g) = f_ref (ftable s g) + of_bool (g = f)"
      using filedup_ok [OF p(1) f(2)] by blast
    let ?s = "upd_proc np (\<lambda>p. p\<lparr>p_ofile := (p_ofile p)[k := Some f]\<rparr>) s1"
    have "(\<lambda>g. (h(f := h f + 1)) g + of_bool (p_ofile (procs s1 np) ! k = Some g) - of_bool (Some f = Some g)) = h"
      using np(1) s1(3) by (auto simp: fun_eq_iff)
    then have fr: "fd_refs h ?s" using fd_refs_set [OF s1(2) p(3) k(1), of "Some f"] f(1) by simp
    moreover have o: "p_ofile (procs ?s np) = take (Suc k) (p_ofile (procs ?s me)) @ replicate (NOFILE - Suc k) None" "p_ofile (procs ?s me) = ?o"
      using np(2) Some s1(3) p(4) by simp_all
    ultimately obtain s' where s': "fork_files me np [Suc k..<NOFILE] ?s = Ok s'" "fd_refs h s'" "p_ofile (procs s' np) = ?o"
        "\<forall>i. i \<noteq> np \<longrightarrow> procs s' i = procs ?s i" "\<forall>g. f_ref (ftable s' g) = f_ref (ftable ?s g) + int (count_list (drop (Suc k) ?o) (Some g))"
      using Suc.hyps(1) [OF k(3) fr p(2-4) _ o(1) p(7)] k(1) o(2) by auto
    have "fork_files me np [k..<NOFILE] s = Ok s'" using s1(1) s'(1) Some k(2) by simp
    moreover have "\<forall>i. i \<noteq> np \<longrightarrow> procs s' i = procs s i" using s'(4) s1(3) by simp
    moreover have "\<forall>g. f_ref (ftable s' g) = f_ref (ftable s g) + int (count_list (drop k ?o) (Some g))"
      using s'(5) s1(4) Some tk(2) by simp
    ultimately show ?thesis using s'(2,3) by blast
  qed
qed

section \<open>Properties\<close>

text \<open>
  (C20) Descriptors are well typed and their references counted. Between system calls every descriptor is empty or refers to an
  entry of \<^verbatim>\<open>ftable\<close> whose reference count is the number of descriptors that refer to it. A
  descriptor argument is accepted only if it is open, so the file \<^verbatim>\<open>argfd\<close> gives is live; otherwise \<^verbatim>\<open>dup\<close>
  and \<^verbatim>\<open>close\<close> return -1 and change nothing. \<^verbatim>\<open>dup\<close> never panics and keeps the invariant: it makes the lowest free descriptor refer to
  the same file, or returns -1 when there is none. \<^verbatim>\<open>close\<close> is proved under the condition \<open>closable\<close>, which concerns the last
  reference to a file only: the page of a pipe lies in the kernel's memory and the wait queues are in order; for a file or device, cache and log are in
  order (\<open>fs_ready\<close>) and an inode that goes away, having no links left, is unlocked and a well-formed file (\<open>release_ok\<close>). Then \<^verbatim>\<open>close\<close> does not panic: it goes to sleep on the log when
  the last reference to a file or device is closed and the log has no room for a transaction, and otherwise returns 0, empties exactly this descriptor, drops one
  reference and keeps the invariant.
\<close>

theorem descriptors_typed:
  assumes "fd_refs (\<lambda>_. 0) s" "me < NPROC"
  shows "case argfd me 0 s of
      Ok None \<Rightarrow> sys_dup me s = Ok (-1, s) \<and> sys_close me s = Ok (-1, s)
    | Ok (Some (fd, f)) \<Rightarrow>
        fd < NOFILE \<and> p_ofile (procs s me) ! fd = Some f \<and> f < NFILE \<and> f_ref (ftable s f) \<ge> 1 \<and>
        (case lowest_fd (p_ofile (procs s me)) of
          None \<Rightarrow> sys_dup me s = Ok (-1, s)
        | Some fd' \<Rightarrow> \<exists>s'. sys_dup me s = Ok (of_nat fd', s') \<and> fd_refs (\<lambda>_. 0) s' \<and>
            p_ofile (procs s' me) = (p_ofile (procs s me))[fd' := Some f] \<and> (\<forall>i. i \<noteq> me \<longrightarrow> procs s' i = procs s i)) \<and>
        (closable me f s \<longrightarrow>
          (if close_waits f s then sys_close me s = Sleeps (a_log (syms s))
           else \<exists>s'. sys_close me s = Ok (0, s') \<and> fd_refs (\<lambda>_. 0) s' \<and>
            p_ofile (procs s' me) = (p_ofile (procs s me))[fd := None] \<and>
            (\<forall>i. i \<noteq> me \<longrightarrow> p_ofile (procs s' i) = p_ofile (procs s i)) \<and>
            (\<forall>g. f_ref (ftable s' g) = f_ref (ftable s g) - of_bool (g = f))))
    | _ \<Rightarrow> False"
proof -
  obtain r where r: "argfd me 0 s = Ok r" "case r of None \<Rightarrow> True | Some (fd, f) \<Rightarrow> fd < NOFILE \<and> p_ofile (procs s me) ! fd = Some f"
    using argfd_cases by blast
  show ?thesis
  proof (cases r)
    case None
    then show ?thesis using r(1) by (simp add: sys_dup_def sys_close_def)
  next
    case (Some x)
    then obtain fd f where x: "r = Some (fd, f)" "fd < NOFILE" "p_ofile (procs s me) ! fd = Some f" using r(2) by (cases x) auto
    have f: "f < NFILE" "f_ref (ftable s f) \<ge> 1"
      using fd_refsD(2,3) [OF assms x(2,3)] fd_refsD(4) [OF assms, of f] by fastforce+
    have a: "argfd me 0 s = Ok (Some (fd, f))" using r(1) x(1) by simp
    show ?thesis using a x(2,3) f sys_dup_ok [OF assms a f] sys_close_ok [OF assms a x(2,3) f(2)] by simp
  qed
qed

text \<open>
  (C32) \<^verbatim>\<open>fork\<close> shares the open files: for a child whose descriptors are empty, the loop of \<^verbatim>\<open>kfork\<close> over the
  descriptors never panics, gives the child the parent's table, leaves every other process alone, and raises the
  reference count of every file by the number of the parent's descriptors that refer to it.
\<close>

theorem fork_shares_files:
  assumes "fd_refs (\<lambda>_. 0) s" "me < NPROC" "np < NPROC" "me \<noteq> np" "p_ofile (procs s np) = replicate NOFILE None"
  shows "\<exists>s'. fork_files me np [0..<NOFILE] s = Ok s' \<and> fd_refs (\<lambda>_. 0) s' \<and> p_ofile (procs s' np) = p_ofile (procs s me) \<and>
    (\<forall>i. i \<noteq> np \<longrightarrow> procs s' i = procs s i) \<and>
    (\<forall>g. f_ref (ftable s' g) = f_ref (ftable s g) + int (count_list (p_ofile (procs s me)) (Some g)))"
  using fork_files_ok [OF assms(1-4), of 0] assms(5) by simp

text \<open>Two states in which process 1 has one open file, entry 3, and the descriptor argument is 0.\<close>

lemma one_file:
  assumes o: "\<And>i. p_ofile (procs s i) = (if i = 1 then Some 3 # replicate 15 None else replicate 16 None)"
    and f: "\<And>f. f_ref (ftable s f) = of_bool (f = 3)" and m: "mem s = (\<lambda>_. 0)"
  shows "fd_refs (\<lambda>_. 0) s" "argfd 1 0 s = Ok (Some (0, 3))"
proof -
  have c: "count_list (p_ofile (procs s i)) (Some f) = (if i = 1 then of_bool (f = 3) else 0)" for i f
    unfolding o by (simp add: count_list_0_iff)
  have "1 < NPROC" by (simp add: NPROC_def)
  then have "refs (procs s) f = of_bool (f = 3)" for f
    unfolding refs_def c by (subst sum.delta) simp_all
  then show "fd_refs (\<lambda>_. 0) s" unfolding fd_refs_def o by (simp add: NOFILE_def NFILE_def f)
  have "load_le (\<lambda>_. 0) a n = 0" for a n by (induction n arbitrary: a) simp_all
  then have "tf_get 1 TF_a0 s = 0" by (simp add: tf_get_def m)
  then show "argfd 1 0 s = Ok (Some (0, 3))" using o by (simp add: argfd_def argint_def argraw_def NOFILE_def)
qed

text \<open>A pipe end.\<close>

definition demo_files :: kernel where
  "demo_files = boot_kernel\<lparr>mem := \<lambda>_. 0, procs := (\<lambda>i. boot_proc\<lparr>p_ofile := if i = 1 then Some 3 # replicate 15 None else replicate 16 None\<rparr>),
     ftable := (\<lambda>_. boot_file)(3 := boot_file\<lparr>f_ref := 1, f_type := FD_PIPE, f_pipe := 0x87000000\<rparr>), kend := 0x80020000\<rparr>"

lemma demo_files:
  "fd_refs (\<lambda>_. 0) demo_files" "argfd 1 0 demo_files = Ok (Some (0, 3))" "p_ofile (procs demo_files 1) = Some 3 # replicate 15 None"
  "p_ofile (procs demo_files 2) = replicate 16 None" "closable 1 3 demo_files" "\<not> close_waits 3 demo_files"
proof -
  have o: "p_ofile (procs demo_files i) = (if i = 1 then Some 3 # replicate 15 None else replicate 16 None)" for i
    by (simp add: demo_files_def)
  then show "p_ofile (procs demo_files 1) = Some 3 # replicate 15 None" "p_ofile (procs demo_files 2) = replicate 16 None" by simp_all
  show "fd_refs (\<lambda>_. 0) demo_files" "argfd 1 0 demo_files = Ok (Some (0, 3))"
    by (rule one_file [OF o]; simp add: demo_files_def boot_file_def)+
  have "sched_inv demo_files (\<lambda>_. [])"
    by (simp add: sched_inv_def wq_queues_def wq_queue_def demo_files_def boot_kernel_def boot_proc_def)
  then have "sched_ok demo_files" unfolding sched_ok_def by blast
  moreover have "ftable demo_files 3 = boot_file\<lparr>f_ref := 1, f_type := FD_PIPE, f_pipe := 0x87000000\<rparr>" "kend demo_files = 0x80020000"
    by (simp_all add: demo_files_def)
  ultimately show "closable 1 3 demo_files" "\<not> close_waits 3 demo_files"
    by (simp_all add: closable_def close_waits_def PGSIZE_def PHYSTOP_def KERNBASE_def)
qed

text \<open>The last reference to the file of \<open>demo_fs\<close>, which has been unlinked: closing it frees its inode and its block.\<close>

definition demo_unlinked :: kernel where
  "demo_unlinked = upd_proc 1 (\<lambda>p. p\<lparr>p_ofile := Some 3 # replicate 15 None\<rparr>)
     (upd_file 3 (\<lambda>_. boot_file\<lparr>f_ref := 1, f_type := FD_INODE, f_ip := 0\<rparr>)
     (upd_inode 0 (\<lambda>_. demo_inode\<lparr>i_nlink := 0\<rparr>) (fs_boot demo_disk demo_sb)))"

lemma demo_boot:
  "ftable (fs_boot demo_disk demo_sb) = (\<lambda>_. boot_file)" "procs (fs_boot demo_disk demo_sb) = (\<lambda>_. boot_proc)" "mem (fs_boot demo_disk demo_sb) = (\<lambda>_. 0)"
  "klog (fs_boot demo_disk demo_sb) = (klog boot_kernel)\<lparr>lg_outstanding := 1, lg_dev := ROOTDEV\<rparr>"
proof -
  obtain bf where bf: "binit (boot_kernel\<lparr>disk := demo_disk\<rparr>) = boot_kernel\<lparr>disk := demo_disk, bufs := bf\<rparr>"
    using binit_bufs [of "boot_kernel\<lparr>disk := demo_disk\<rparr>"] by auto
  show "ftable (fs_boot demo_disk demo_sb) = (\<lambda>_. boot_file)" "procs (fs_boot demo_disk demo_sb) = (\<lambda>_. boot_proc)"
    "mem (fs_boot demo_disk demo_sb) = (\<lambda>_. 0)" "klog (fs_boot demo_disk demo_sb) = (klog boot_kernel)\<lparr>lg_outstanding := 1, lg_dev := ROOTDEV\<rparr>"
    unfolding fs_boot_def bf upd_log_def by (simp_all add: boot_kernel_def)
qed

lemma demo_release: "release_ok 1 0 (upd_inode 0 (\<lambda>_. demo_inode\<lparr>i_nlink := 0\<rparr>) (fs_boot demo_disk demo_sb))" (is "release_ok 1 0 ?s")
proof -
  have l: "length (demo_disk n) = BSIZE" for n by (simp add: demo_disk_def)
  have t: "tx 1 ?s {} []" "blk ?s = demo_disk" "sb ?s = demo_sb" using fs_boot_tx(1-3) [where d = demo_disk and k = demo_sb, OF l] by simp_all
  have f: "fs_ready 1 ?s []" using txD(1,2,4,5) [OF t(1)] by (simp add: fs_ready_def demo_boot)
  have wf: "file_wf demo_sb demo_disk (60 # replicate 12 0)" unfolding file_wf_def using demo_slot demo_fs(7) by simp
  have sz: "sb_size demo_sb = 200" by (simp add: demo_sb_def)
  then have bm: "bmap_blocks demo_sb = {45}" using demo_used(1) demo_used(1) [of 0] by (auto simp: bmap_blocks_def image_iff intro!: exI [of _ 0])
  have g: "bitmap_geom demo_sb" using demo_fs(3,5) by (simp add: fs_ok_def)
  have B: "IBLOCK 5 demo_sb = 32" by (simp add: IBLOCK_def demo_sb_def)
  have "n \<le> 30" if "n \<in> log_area 0" for n
  proof -
    have "n = 0 \<or> (\<exists>t<30. n = of_nat t + 1)" using that by (auto simp: log_area_def log_slot_def NBUF_val)
    then show ?thesis by (auto simp: word_le_nat_alt unat_word_ariths unat_of_nat)
  qed
  then have "{32, 45} \<inter> log_area 0 = {}" by fastforce
  moreover have "lg_start (klog boot_kernel) = 0" by (simp add: boot_kernel_def)
  ultimately show ?thesis
    unfolding release_ok_def Let_def t(2,3) bm using f g wf B by (auto simp: demo_inode_def demo_boot boot_inode_def boot_lock_def bm)
qed

lemma demo_unlinked:
  "fd_refs (\<lambda>_. 0) demo_unlinked" "argfd 1 0 demo_unlinked = Ok (Some (0, 3))" "p_ofile (procs demo_unlinked 1) = Some 3 # replicate 15 None"
  "closable 1 3 demo_unlinked" "\<not> close_waits 3 demo_unlinked"
proof -
  have o: "p_ofile (procs demo_unlinked i) = (if i = 1 then Some 3 # replicate 15 None else replicate 16 None)" for i
    using demo_boot(2) by (simp add: demo_unlinked_def boot_proc_def NOFILE_def)
  then show "p_ofile (procs demo_unlinked 1) = Some 3 # replicate 15 None" by simp
  have f: "ftable demo_unlinked = (\<lambda>_. boot_file)(3 := boot_file\<lparr>f_ref := 1, f_type := FD_INODE, f_ip := 0\<rparr>)" "mem demo_unlinked = (\<lambda>_. 0)"
      "klog demo_unlinked = (klog boot_kernel)\<lparr>lg_outstanding := 1, lg_dev := ROOTDEV\<rparr>"
    using demo_boot by (simp_all add: demo_unlinked_def upd_file_def upd_inode_def upd_proc_def)
  show "fd_refs (\<lambda>_. 0) demo_unlinked" "argfd 1 0 demo_unlinked = Ok (Some (0, 3))" by (rule one_file [OF o]; simp add: f boot_file_def)+
  have "release_ok 1 0 demo_unlinked" using demo_release by (simp add: demo_unlinked_def release_ok_ofile release_ok_file)
  then show "closable 1 3 demo_unlinked" by (simp add: closable_def f)
  show "\<not> close_waits 3 demo_unlinked" by (simp add: close_waits_def f op_must_wait_def boot_kernel_def MAXOPBLOCKS_def NBUF_val)
qed

theorem descriptors_typed_witness:
  "(\<exists>s'. sys_dup 1 demo_files = Ok (1, s') \<and> fd_refs (\<lambda>_. 0) s' \<and> p_ofile (procs s' 1) = Some 3 # Some 3 # replicate 14 None) \<and>
   (\<exists>s'. sys_close 1 demo_files = Ok (0, s') \<and> fd_refs (\<lambda>_. 0) s' \<and> p_ofile (procs s' 1) = replicate 16 None) \<and>
   (\<exists>s'. sys_close 1 demo_unlinked = Ok (0, s') \<and> fd_refs (\<lambda>_. 0) s' \<and> p_ofile (procs s' 1) = replicate 16 None)"
proof -
  have "lowest_fd (Some 3 # replicate 15 None) = Some 1" by code_simp
  moreover have "(Some 3 # replicate 15 None)[1 := Some 3] = Some 3 # Some 3 # replicate 14 None"
    "(Some (3 :: nat) # replicate 15 None)[0 := None] = replicate 16 None" by (simp_all add: numeral_eq_Suc)
  moreover have "1 < NPROC" by (simp add: NPROC_def)
  ultimately show ?thesis
    using descriptors_typed [OF demo_files(1), of 1] demo_files(2,3,5,6) descriptors_typed [OF demo_unlinked(1), of 1] demo_unlinked(2-5) by auto
qed

theorem fork_shares_files_witness:
  "\<exists>s'. fork_files 1 2 [0..<NOFILE] demo_files = Ok s' \<and> p_ofile (procs s' 2) = Some 3 # replicate 15 None \<and> f_ref (ftable s' 3) = 2"
proof -
  have "p_ofile (procs demo_files 2) = replicate NOFILE None" "count_list (Some 3 # replicate 15 None) (Some (3 :: nat)) = 1"
    "f_ref (ftable demo_files 3) = 1"
    using demo_files(4) by (simp_all add: NOFILE_def count_list_0_iff demo_files_def)
  then show ?thesis using fork_shares_files [OF demo_files(1), of 1 2] demo_files(3) by (auto simp: NPROC_def)
qed

end
