(* ===== verification/Virtio.thy ===== *)
theory Virtio
  imports Bio Ring
begin

text \<open>
  The disk driver (\<^verbatim>\<open>kernel/virtio_disk.c\<close>, structures of \<^verbatim>\<open>kernel/virtio.h\<close>). A pointer that the driver
  gives the device is the object it points to (\<open>vaddr\<close>). A call of \<^verbatim>\<open>wakeup\<close> is recorded in \<open>v_wakeups\<close>,
  which the step relation carries out. The parts of \<^verbatim>\<open>virtio_disk_rw\<close> between two waits are \<open>rw_try\<close> (up to
  the notification of the device) and \<open>rw_finish\<close> (after the completion). The device is not part of the
  program: it is a parameter \<open>dev\<close>, and \<open>virtio_device S dev\<close> states what the virtio specification promises of it: it takes
  requests from the available ring and completes them in any order, each with a status of \<open>S\<close>. It reads and writes
  memory only as the flags and lengths of the descriptors allow, and of a request that is not well formed nothing is
  promised. The theorems of \<^verbatim>\<open>VirtioSpec\<close> show that the driver implements \<open>virtio_disk_rw\<close> of the buffer cache for any number of
  concurrent requests.
\<close>

section \<open>Data\<close>

definition NUM :: nat where "NUM = 8"

datatype vaddr = ANull | AOps nat | AData nat | AStatus nat

datatype vchan = ChFree | ChBuf nat

record virtq_desc =
  d_addr :: vaddr
  d_len :: u32
  d_flags :: u16
  d_next :: u16

record virtio_blk_req =
  r_type :: u32
  r_reserved :: u32
  r_sector :: u64

text \<open>\<open>v_used_id\<close> holds the field \<^verbatim>\<open>id\<close> of the elements of the used ring, \<open>v_dev_idx\<close> is \<^verbatim>\<open>used->idx\<close>.\<close>

record vdisk =
  v_desc :: "nat \<Rightarrow> virtq_desc"
  v_avail_idx :: u16
  v_avail :: "u16 list"
  v_dev_idx :: u16
  v_used_id :: "u32 list"
  v_free :: "nat \<Rightarrow> bool"
  v_used_idx :: u16
  v_info_b :: "nat \<Rightarrow> nat option"
  v_status :: "nat \<Rightarrow> u8"
  v_ops :: "nat \<Rightarrow> virtio_blk_req"
  v_wakeups :: "vchan list"

definition VRING_DESC_F_NEXT :: u16 where "VRING_DESC_F_NEXT = 1"
definition VRING_DESC_F_WRITE :: u16 where "VRING_DESC_F_WRITE = 2"

definition null_desc :: virtq_desc where
  "null_desc = \<lparr>d_addr = ANull, d_len = 0, d_flags = 0, d_next = 0\<rparr>"

section \<open>Descriptors\<close>

definition alloc_desc :: "vdisk \<Rightarrow> int \<times> vdisk" where
  "alloc_desc d =
     (case find (v_free d) [0..<NUM] of
        Some i \<Rightarrow> (int i, d\<lparr>v_free := (v_free d)(i := False)\<rparr>)
      | None \<Rightarrow> (-1, d))"

definition free_desc :: "nat \<Rightarrow> vdisk \<Rightarrow> vdisk res" where
  "free_desc i d =
     (if i \<ge> NUM then Panic ''free_desc 1''
      else if v_free d i then Panic ''free_desc 2''
      else Ok (d\<lparr>v_desc := (v_desc d)(i := null_desc), v_free := (v_free d)(i := True), v_wakeups := v_wakeups d @ [ChFree]\<rparr>))"

definition busy :: "vdisk \<Rightarrow> nat set" where "busy d = {i. i < NUM \<and> \<not> v_free d i}"

lemma free_desc_busy: "free_desc i d = Ok d' \<Longrightarrow> busy d' = busy d - {i} \<and> i \<in> busy d"
  by (auto simp: free_desc_def busy_def split: if_splits)

function free_chain :: "nat \<Rightarrow> vdisk \<Rightarrow> vdisk res" where
  "free_chain i d =
     (let flag = d_flags (v_desc d i); nxt = d_next (v_desc d i) in
      res_bind (free_desc i d) (\<lambda>d.
      if flag AND VRING_DESC_F_NEXT \<noteq> 0 then free_chain (unat nxt) d else Ok d))"
  by pat_completeness auto
termination
proof (relation "measure (\<lambda>(_, d). card (busy d))")
  fix i d d' and flag nxt :: u16
  assume "free_desc i d = Ok d'"
  then have "busy d' = busy d - {i}" "i \<in> busy d" using free_desc_busy by blast+
  moreover have "finite (busy d)" by (simp add: busy_def)
  ultimately show "((unat nxt, d'), (i, d)) \<in> measure (\<lambda>(_, d). card (busy d))" 
    using card_Diff1_less [of "busy d" i] by (simp only: in_measure case_prod_conv)
qed simp

declare free_chain.simps [simp del]

fun free_descs :: "nat list \<Rightarrow> vdisk \<Rightarrow> vdisk res" where
  "free_descs [] d = Ok d"
| "free_descs (i # is1) d = res_bind (free_desc i d) (free_descs is1)"

text \<open>\<open>n\<close> more descriptors are wanted, \<open>idx\<close> are those allocated already.\<close>

fun alloc3_loop :: "nat \<Rightarrow> nat list \<Rightarrow> vdisk \<Rightarrow> (nat list option \<times> vdisk) res" where
  "alloc3_loop 0 idx d = Ok (Some idx, d)"
| "alloc3_loop (Suc n) idx d =
     (let (i, d) = alloc_desc d in
      if i < 0 then res_bind (free_descs idx d) (\<lambda>d. Ok (None, d))
      else alloc3_loop n (idx @ [nat i]) d)"

definition alloc3_desc :: "vdisk \<Rightarrow> (nat list option \<times> vdisk) res" where
  "alloc3_desc d = alloc3_loop 3 [] d"

section \<open>Requests\<close>

definition rw_format :: "nat \<Rightarrow> bool \<Rightarrow> u32 \<Rightarrow> nat \<Rightarrow> nat \<Rightarrow> nat \<Rightarrow> vdisk \<Rightarrow> vdisk" where
  "rw_format b wr blockno i0 i1 i2 d =
     (let sector = ucast (blockno * of_nat (BSIZE div 512)) :: u64;
          d = d\<lparr>v_ops := (v_ops d)(i0 := \<lparr>r_type = (if wr then 1 else 0), r_reserved = 0, r_sector = sector\<rparr>)\<rparr>;
          d = d\<lparr>v_desc := (v_desc d)(i0 := \<lparr>d_addr = AOps i0, d_len = 16, d_flags = VRING_DESC_F_NEXT, d_next = of_nat i1\<rparr>)\<rparr>;
          d = d\<lparr>v_desc := (v_desc d)(i1 := \<lparr>d_addr = AData b, d_len = of_nat BSIZE,
                d_flags = (if wr then 0 else VRING_DESC_F_WRITE) OR VRING_DESC_F_NEXT, d_next = of_nat i2\<rparr>)\<rparr>;
          d = d\<lparr>v_status := (v_status d)(i0 := 0xff)\<rparr>
      in d\<lparr>v_desc := (v_desc d)(i2 := \<lparr>d_addr = AStatus i0, d_len = 1, d_flags = VRING_DESC_F_WRITE, d_next = 0\<rparr>)\<rparr>)"

definition rw_publish :: "nat \<Rightarrow> nat \<Rightarrow> vdisk \<times> kernel \<Rightarrow> vdisk \<times> kernel" where
  "rw_publish b i0 = (\<lambda>(d, s).
     (let s = upd_buf b (\<lambda>x. x\<lparr>b_disk := 1\<rparr>) s;
          d = d\<lparr>v_info_b := (v_info_b d)(i0 := Some b)\<rparr>;
          d = d\<lparr>v_avail := (v_avail d)[unat (v_avail_idx d) mod NUM := of_nat i0]\<rparr>
      in (d\<lparr>v_avail_idx := v_avail_idx d + 1\<rparr>, s)))"

text \<open>One round of the loop that allocates descriptors; on success the request is given to the device.\<close>

definition rw_try :: "nat \<Rightarrow> bool \<Rightarrow> vdisk \<times> kernel \<Rightarrow> (nat list option \<times> vdisk \<times> kernel) res" where
  "rw_try b wr = (\<lambda>(d, s).
     res_bind (alloc3_desc d) (\<lambda>(r, d).
     case r of
       None \<Rightarrow> Ok (None, d, s)
     | Some idx \<Rightarrow>
         Ok (r, rw_publish b (idx ! 0) (rw_format b wr (b_blockno (bufs s b)) (idx ! 0) (idx ! 1) (idx ! 2) d, s))))"

definition rw_finish :: "nat \<Rightarrow> vdisk \<Rightarrow> vdisk res" where
  "rw_finish i0 d = free_chain i0 (d\<lparr>v_info_b := (v_info_b d)(i0 := None)\<rparr>)"

text \<open>The loop of \<^verbatim>\<open>virtio_disk_intr\<close>; a completion without a buffer would store through the null pointer.\<close>

function virtio_disk_intr :: "vdisk \<times> kernel \<Rightarrow> (vdisk \<times> kernel) res" where
  "virtio_disk_intr (d, s) =
     (if v_used_idx d = v_dev_idx d then Ok (d, s)
      else (let id = unat (v_used_id d ! (unat (v_used_idx d) mod NUM)) in
        if v_status d id \<noteq> 0 then Panic ''virtio_disk_intr status''
        else (case v_info_b d id of
          None \<Rightarrow> Panic ''kerneltrap''
        | Some b \<Rightarrow> virtio_disk_intr
            (d\<lparr>v_wakeups := v_wakeups d @ [ChBuf b], v_used_idx := v_used_idx d + 1\<rparr>, upd_buf b (\<lambda>x. x\<lparr>b_disk := 0\<rparr>) s))))"
  by pat_completeness auto
termination
  by (relation "measure (\<lambda>(d, s). unat (v_dev_idx d - v_used_idx d))") (auto simp: unat_diff_pred intro: diff_less)

declare virtio_disk_intr.simps [simp del]

section \<open>Initialisation\<close>

text \<open>
  What \<^verbatim>\<open>virtio_disk_init\<close> reads from the device registers, in program order.
\<close>

record vregs =
  g_magic :: u32
  g_version :: u32
  g_device_id :: u32
  g_vendor_id :: u32
  g_features :: u32
  g_status :: u32
  g_queue_ready :: u32
  g_queue_max :: u32

definition driver_features :: "u32 \<Rightarrow> u32" where
  "driver_features f = f AND NOT (push_bit 5 1) AND NOT (push_bit 7 1) AND NOT (push_bit 11 1) AND NOT (push_bit 12 1) AND
     NOT (push_bit 27 1) AND NOT (push_bit 29 1) AND NOT (push_bit 28 1)"

definition zero_vdisk :: vdisk where
  "zero_vdisk = \<lparr>v_desc = (\<lambda>_. null_desc), v_avail_idx = 0, v_avail = replicate NUM 0, v_dev_idx = 0, v_used_id = replicate NUM 0,
     v_free = (\<lambda>_. False), v_used_idx = 0, v_info_b = (\<lambda>_. None), v_status = (\<lambda>_. 0),
     v_ops = (\<lambda>_. \<lparr>r_type = 0, r_reserved = 0, r_sector = 0\<rparr>), v_wakeups = []\<rparr>"

text \<open>
  The result is the list of register writes (offset and value), the driver's state and the kernel's. The three pages are
  zeroed, which is the state \<open>zero_vdisk\<close> of the queue.
\<close>

definition virtio_disk_init :: "vregs \<Rightarrow> kernel \<Rightarrow> ((u64 \<times> u32) list \<times> vdisk \<times> kernel) res" where
  "virtio_disk_init g s =
     (if g_magic g \<noteq> 0x74726976 \<or> g_version g \<noteq> 2 \<or> g_device_id g \<noteq> 2 \<or> g_vendor_id g \<noteq> 0x554d4551
      then Panic ''could not find virtio disk''
      else
        (let w1 = [(0x70, 0), (0x70, 1), (0x70, 1 OR 2), (0x20, driver_features (g_features g)), (0x70, 1 OR 2 OR 8)] in
         if g_status g AND 8 = 0 then Panic ''virtio disk FEATURES_OK unset''
         else if g_queue_ready g \<noteq> 0 then Panic ''virtio disk should not be ready''
         else if g_queue_max g = 0 then Panic ''virtio disk has no queue 0''
         else if g_queue_max g < of_nat NUM then Panic ''virtio disk max queue too short''
         else
           (let (desc, s) = kalloc s; (avail, s) = kalloc s; (used, s) = kalloc s in
            if desc = 0 \<or> avail = 0 \<or> used = 0 then Panic ''virtio disk kalloc''
            else
              (let s = s\<lparr>mem := memset (mem s) desc 0 (unat PGSIZE)\<rparr>;
                   s = s\<lparr>mem := memset (mem s) avail 0 (unat PGSIZE)\<rparr>;
                   s = s\<lparr>mem := memset (mem s) used 0 (unat PGSIZE)\<rparr> in
               Ok (w1 @ [(0x30, 0), (0x38, of_nat NUM), (0x80, ucast desc), (0x84, ucast (drop_bit 32 desc)), (0x90, ucast avail),
                     (0x94, ucast (drop_bit 32 avail)), (0xa0, ucast used), (0xa4, ucast (drop_bit 32 used)), (0x44, 1),
                     (0x70, g_status g OR 4)],
                   zero_vdisk\<lparr>v_free := (\<lambda>i. i < NUM)\<rparr>, s)))))"

section \<open>The device and the interleaving of requests\<close>

record vdev =
  dv_avail :: u16
  dv_taken :: "nat list"

text \<open>
  A thread in \<^verbatim>\<open>virtio_disk_rw\<close> for buffer \<open>b\<close>: about to allocate, asleep for a free descriptor, testing \<^verbatim>\<open>b->disk\<close> with
  its \<^verbatim>\<open>idx\<close> array, or asleep on the buffer.
\<close>

datatype vpc = VIdle | VAlloc nat bool | VSleepFree nat bool
  | VWait nat bool nat nat nat | VSleepBuf nat bool nat nat nat

record vsys =
  vd :: vdisk
  kern :: kernel
  dvs :: vdev
  vpcs :: "nat \<Rightarrow> vpc"

definition dev_fetch :: "vsys \<Rightarrow> vsys option" where
  "dev_fetch x =
     (if dv_avail (dvs x) = v_avail_idx (vd x) then None
      else Some (x\<lparr>dvs := \<lparr>dv_avail = dv_avail (dvs x) + 1,
        dv_taken = dv_taken (dvs x) @ [unat (v_avail (vd x) ! (unat (dv_avail (dvs x)) mod NUM))]\<rparr>\<rparr>))"

text \<open>
  The disk as the device addresses it: byte \<open>p\<close> is byte \<open>p mod BSIZE\<close> of block \<open>p div BSIZE\<close>, and a sector is 512 bytes.
\<close>

definition dev_load :: "(u32 \<Rightarrow> u8 list) \<Rightarrow> nat \<Rightarrow> nat \<Rightarrow> u8 list" where
  "dev_load f p n = map (\<lambda>a. f (of_nat (a div BSIZE)) ! (a mod BSIZE)) [p..<p + n]"

definition dev_store :: "(u32 \<Rightarrow> u8 list) \<Rightarrow> nat \<Rightarrow> u8 list \<Rightarrow> u32 \<Rightarrow> u8 list" where
  "dev_store f p xs n = map (\<lambda>k. let a = unat n * BSIZE + k in if p \<le> a \<and> a < p + length xs then xs ! (a - p) else f n ! k) [0..<BSIZE]"

definition dev_blocks :: "nat \<Rightarrow> nat \<Rightarrow> u32 list" where
  "dev_blocks p n = map of_nat [p div BSIZE..<(p + n + BSIZE - 1) div BSIZE]"

text \<open>
  The request that starts at descriptor \<open>i\<close>, as section 5.2 of the specification lays it out: a header of 16 bytes that the device
  reads, the data, which the device reads (\<^verbatim>\<open>VIRTIO_BLK_T_OUT\<close>) or writes (\<^verbatim>\<open>VIRTIO_BLK_T_IN\<close>) and which is a number of
  sectors, and a byte for the status that the device writes; chained by \<^verbatim>\<open>VRING_DESC_F_NEXT\<close>. The result is the header, the
  buffer, the length of the data and the place of the status; \<open>None\<close> when the chain is anything else, or longer than the buffer.
\<close>

definition dflag :: "u16 \<Rightarrow> virtq_desc \<Rightarrow> bool" where
  "dflag m e \<longleftrightarrow> d_flags e AND m \<noteq> 0"

definition dev_request :: "nat \<Rightarrow> vdisk \<Rightarrow> (virtio_blk_req \<times> nat \<times> nat \<times> nat) option" where
  "dev_request i d =
     (let e0 = v_desc d i; e1 = v_desc d (unat (d_next e0)); e2 = v_desc d (unat (d_next e1)); n = unat (d_len e1) in
      if i < NUM \<and> unat (d_next e0) < NUM \<and> unat (d_next e1) < NUM \<and>
        dflag VRING_DESC_F_NEXT e0 \<and> dflag VRING_DESC_F_NEXT e1 \<and> \<not> dflag VRING_DESC_F_NEXT e2 \<and>
        \<not> dflag VRING_DESC_F_WRITE e0 \<and> dflag VRING_DESC_F_WRITE e2 \<and> d_len e0 = 16 \<and> 1 \<le> d_len e2 \<and> 512 dvd n \<and> n \<le> BSIZE
      then (case (d_addr e0, d_addr e1, d_addr e2) of
        (AOps j, AData b, AStatus k) \<Rightarrow>
          if r_type (v_ops d j) = (if dflag VRING_DESC_F_WRITE e1 then 0 else 1) then Some (v_ops d j, b, n, k) else None
      | _ \<Rightarrow> None)
      else None)"

text \<open>
  The transfer of \<open>n\<close> bytes. When the device reports a status other than 0, what it has stored is not known: the bytes \<open>junk\<close>.
\<close>

definition dev_transfer :: "virtio_blk_req \<Rightarrow> nat \<Rightarrow> nat \<Rightarrow> u8 \<Rightarrow> (nat \<Rightarrow> u8) \<Rightarrow> kernel \<Rightarrow> kernel" where
  "dev_transfer rq b n st junk s =
     (let p = 512 * unat (r_sector rq); bad = map junk [0..<n] in
      if r_type rq = 1
      then (let f = dev_store (disk s) p (if st = 0 then take n (b_data (bufs s b)) else bad) in
            s\<lparr>disk := f, dtrace := dtrace s @ map (\<lambda>m. (m, f m)) (dev_blocks p n)\<rparr>)
      else upd_buf b (\<lambda>x. x\<lparr>b_data := patch (b_data x) 0 (if st = 0 then dev_load (disk s) p n else bad)\<rparr>) s)"

definition dev_complete :: "nat \<Rightarrow> u8 \<Rightarrow> (nat \<Rightarrow> u8) \<Rightarrow> vsys \<Rightarrow> vsys option" where
  "dev_complete i st junk x =
     (let d = vd x in
      map_option (\<lambda>(rq, b, n, k).
        x\<lparr>kern := dev_transfer rq b n st junk (kern x),
          vd := d\<lparr>v_status := (v_status d)(k := st), v_used_id := (v_used_id d)[unat (v_dev_idx d) mod NUM := of_nat i],
            v_dev_idx := v_dev_idx d + 1\<rparr>,
          dvs := (dvs x)\<lparr>dv_taken := remove1 i (dv_taken (dvs x))\<rparr>\<rparr>) (dev_request i d))"

text \<open>A device that has taken a request which is not well formed may do anything.\<close>

definition virtio_device :: "u8 set \<Rightarrow> (vsys \<Rightarrow> vsys \<Rightarrow> bool) \<Rightarrow> bool" where
  "virtio_device S dev \<longleftrightarrow>
     (\<forall>x y. dev x y \<longrightarrow> dev_fetch x = Some y \<or>
       (\<exists>i \<in> set (dv_taken (dvs x)). dev_request i (vd x) = None \<or> (\<exists>st \<in> S. \<exists>junk. dev_complete i st junk x = Some y)))"

fun vbuf :: "vpc \<Rightarrow> nat option" where
  "vbuf VIdle = None"
| "vbuf (VAlloc b wr) = Some b"
| "vbuf (VSleepFree b wr) = Some b"
| "vbuf (VWait b wr i j k) = Some b"
| "vbuf (VSleepBuf b wr i j k) = Some b"

fun vreq :: "vpc \<Rightarrow> (nat \<times> bool \<times> nat \<times> nat \<times> nat) option" where
  "vreq (VWait b wr i j k) = Some (b, wr, i, j, k)"
| "vreq (VSleepBuf b wr i j k) = Some (b, wr, i, j, k)"
| "vreq _ = None"

fun wake_pc :: "vchan list \<Rightarrow> vpc \<Rightarrow> vpc" where
  "wake_pc ws (VSleepFree b wr) = (if ChFree \<in> set ws then VAlloc b wr else VSleepFree b wr)"
| "wake_pc ws (VSleepBuf b wr i j k) = (if ChBuf b \<in> set ws then VWait b wr i j k else VSleepBuf b wr i j k)"
| "wake_pc ws p = p"

text \<open>The state after a section under \<^verbatim>\<open>vdisk_lock\<close>, with the wakeups it called carried out.\<close>

definition vupd :: "vdisk \<times> kernel \<Rightarrow> vsys \<Rightarrow> vsys" where
  "vupd ds x = x\<lparr>vd := (fst ds)\<lparr>v_wakeups := []\<rparr>, kern := snd ds, vpcs := wake_pc (v_wakeups (fst ds)) \<circ> vpcs x\<rparr>"

definition set_pc :: "nat \<Rightarrow> vpc \<Rightarrow> vsys \<Rightarrow> vsys" where
  "set_pc t p x = x\<lparr>vpcs := (vpcs x)(t := p)\<rparr>"

text \<open>
  The steps. A caller holds the sleep lock of its buffer, and the cache has one buffer for a block, so
  concurrent requests are for different buffers and blocks. Before a request its caller may have given the buffer
  to another block \<open>n\<close> and changed its data; \<^verbatim>\<open>kkill\<close> may wake a sleeper at any time.
\<close>

inductive vstep :: "(vsys \<Rightarrow> vsys \<Rightarrow> bool) \<Rightarrow> vsys \<Rightarrow> vsys \<Rightarrow> bool" for dev where
  start: "vpcs x t = VIdle \<Longrightarrow> length data = BSIZE \<Longrightarrow> unat n < 2 ^ 31 \<Longrightarrow>
    (\<forall>u b'. vbuf (vpcs x u) = Some b' \<longrightarrow> b' \<noteq> b \<and> b_blockno (bufs (kern x) b') \<noteq> n) \<Longrightarrow>
    vstep dev x (set_pc t (VAlloc b wr) (x\<lparr>kern := upd_buf b (\<lambda>x. x\<lparr>b_blockno := n, b_data := data\<rparr>) (kern x)\<rparr>))"
| submit: "vpcs x t = VAlloc b wr \<Longrightarrow> rw_try b wr (vd x, kern x) = Ok (Some idx, ds) \<Longrightarrow>
    vstep dev x (set_pc t (VWait b wr (idx ! 0) (idx ! 1) (idx ! 2)) (vupd ds x))"
| no_desc: "vpcs x t = VAlloc b wr \<Longrightarrow> rw_try b wr (vd x, kern x) = Ok (None, ds) \<Longrightarrow>
    vstep dev x (set_pc t (VSleepFree b wr) (vupd ds x))"
| wait: "vpcs x t = VWait b wr i j k \<Longrightarrow> b_disk (bufs (kern x) b) = 1 \<Longrightarrow> vstep dev x (set_pc t (VSleepBuf b wr i j k) x)"
| finish: "vpcs x t = VWait b wr i j k \<Longrightarrow> b_disk (bufs (kern x) b) \<noteq> 1 \<Longrightarrow> rw_finish i (vd x) = Ok d \<Longrightarrow>
    vstep dev x (set_pc t VIdle (vupd (d, kern x) x))"
| kill: "vstep dev x (set_pc t (wake_pc [ChFree, ChBuf b] (vpcs x t)) x)"
| intr: "virtio_disk_intr (vd x, kern x) = Ok ds \<Longrightarrow> vstep dev x (vupd ds x)"
| device: "dev x y \<Longrightarrow> vstep dev x y"

definition vinit :: "vsys \<Rightarrow> bool" where
  "vinit x \<longleftrightarrow> (\<forall>i<NUM. v_free (vd x) i) \<and> length (v_avail (vd x)) = NUM \<and> length (v_used_id (vd x)) = NUM \<and>
     v_avail_idx (vd x) = dv_avail (dvs x) \<and> v_used_idx (vd x) = v_dev_idx (vd x) \<and> v_wakeups (vd x) = [] \<and>
     dv_taken (dvs x) = [] \<and> (\<forall>t. vpcs x t = VIdle) \<and> (\<forall>b. unat (b_blockno (bufs (kern x) b)) < 2 ^ 31) \<and>
     (\<forall>b. length (b_data (bufs (kern x) b)) = BSIZE) \<and> (\<forall>n. length (disk (kern x) n) = BSIZE)"

end
