(* ===== verification/VirtioInv.thy ===== *)
theory VirtioInv
  imports Virtio
begin

text \<open>
  Correctness of the disk driver: the invariant that relates descriptors, rings and waiting threads, its
  preservation by every step of drivers and device, and the theorem that the driver implements the
  transfer the buffer cache relies on.
\<close>

section \<open>Allocation of descriptors\<close>

definition free_list :: "vdisk \<Rightarrow> nat list" where
  "free_list d = filter (v_free d) [0..<NUM]"

definition take_descs :: "nat list \<Rightarrow> vdisk \<Rightarrow> vdisk" where
  "take_descs xs d = d\<lparr>v_free := (\<lambda>i. v_free d i \<and> i \<notin> set xs)\<rparr>"

definition give_descs :: "nat list \<Rightarrow> vdisk \<Rightarrow> vdisk" where
  "give_descs xs d = d\<lparr>v_desc := (\<lambda>i. if i \<in> set xs then null_desc else v_desc d i), v_free := (\<lambda>i. v_free d i \<or> i \<in> set xs),
     v_wakeups := v_wakeups d @ replicate (length xs) ChFree\<rparr>"

lemma find_filter: "find P xs = (case filter P xs of [] \<Rightarrow> None | y # _ \<Rightarrow> Some y)"
  by (induction xs) simp_all

lemma alloc_desc_eq:
  "alloc_desc d = (case free_list d of [] \<Rightarrow> (-1, d) | i # _ \<Rightarrow> (int i, take_descs [i] d))"
  unfolding alloc_desc_def find_filter free_list_def
  by (auto simp: take_descs_def fun_upd_def fun_eq_iff split: list.split intro!: arg_cong [where f = "\<lambda>f. d\<lparr>v_free := f\<rparr>"])

lemma free_list_take: "free_list (take_descs xs d) = filter (\<lambda>i. i \<notin> set xs) (free_list d)"
  by (simp add: free_list_def take_descs_def conj_commute)

lemma free_list_props: "distinct (free_list d)" "i \<in> set (free_list d) \<longleftrightarrow> i < NUM \<and> v_free d i"
  by (auto simp: free_list_def)

lemma alloc3_loop_eq:
  "alloc3_loop n idx d =
     (if n \<le> length (free_list d) then Ok (Some (idx @ take n (free_list d)), take_descs (take n (free_list d)) d)
      else res_bind (free_descs (idx @ free_list d) (take_descs (free_list d) d)) (\<lambda>d. Ok (None, d)))"
proof (induction n arbitrary: idx d)
  case 0
  show ?case by (simp add: take_descs_def)
next
  case (Suc n)
  show ?case
  proof (cases "free_list d")
    case Nil
    then show ?thesis by (simp add: alloc_desc_eq take_descs_def)
  next
    case (Cons i is1)
    have f: "free_list (take_descs [i] d) = is1"
      using free_list_props(1) [of d] unfolding free_list_take Cons by (auto simp: filter_id_conv)
    have "take_descs xs (take_descs [i] d) = take_descs (i # xs) d" for xs by (auto simp: take_descs_def fun_eq_iff)
    then show ?thesis using Suc.IH [of "idx @ [i]" "take_descs [i] d"] Cons f by (simp add: alloc_desc_eq)
  qed
qed

lemma give_descs_Cons: "i \<notin> set xs \<Longrightarrow> give_descs xs (give_descs [i] d) = give_descs (i # xs) d"
  by (auto simp: give_descs_def fun_eq_iff)

lemma free_desc_give: "i < NUM \<Longrightarrow> \<not> v_free d i \<Longrightarrow> free_desc i d = Ok (give_descs [i] d)"
  by (auto simp: free_desc_def give_descs_def fun_upd_def fun_eq_iff)

lemma free_descs_ok:
  "distinct xs \<Longrightarrow> (\<And>i. i \<in> set xs \<Longrightarrow> i < NUM \<and> \<not> v_free d i) \<Longrightarrow> free_descs xs d = Ok (give_descs xs d)"
proof (induction xs arbitrary: d)
  case Nil
  show ?case by (simp add: give_descs_def)
next
  case (Cons i is1)
  have "free_descs is1 (give_descs [i] d) = Ok (give_descs is1 (give_descs [i] d))"
    using Cons by (intro Cons.IH) (auto simp: give_descs_def)
  then show ?case using Cons.prems free_desc_give [of i d] give_descs_Cons by simp
qed

text \<open>Three descriptors are allocated if there are three, the lowest ones; otherwise nothing is, and sleepers are woken for each that was tried.\<close>

lemma alloc3_desc_eq:
  "alloc3_desc d = (if 3 \<le> length (free_list d) then Ok (Some (take 3 (free_list d)), take_descs (take 3 (free_list d)) d)
     else Ok (None, give_descs (free_list d) (take_descs (free_list d) d)))"
proof -
  have "free_descs (free_list d) (take_descs (free_list d) d) = Ok (give_descs (free_list d) (take_descs (free_list d) d))"
    using free_list_props by (intro free_descs_ok) (auto simp: take_descs_def)
  then show ?thesis by (simp add: alloc3_desc_def alloc3_loop_eq)
qed

section \<open>The invariant\<close>

type_synonym vrequest = "nat \<times> bool \<times> nat \<times> nat \<times> nat"

fun req_descs :: "vrequest \<Rightarrow> nat set" where
  "req_descs (b, wr, i, j, k) = {i, j, k}"

definition chain_ok :: "vdisk \<Rightarrow> kernel \<Rightarrow> vrequest \<Rightarrow> bool" where
  "chain_ok d s = (\<lambda>(b, wr, i, j, k).
     i < NUM \<and> j < NUM \<and> k < NUM \<and> distinct [i, j, k] \<and> \<not> v_free d i \<and> \<not> v_free d j \<and> \<not> v_free d k \<and>
     v_desc d i = \<lparr>d_addr = AOps i, d_len = 16, d_flags = VRING_DESC_F_NEXT, d_next = of_nat j\<rparr> \<and>
     v_desc d j = \<lparr>d_addr = AData b, d_len = of_nat BSIZE,
       d_flags = (if wr then 0 else VRING_DESC_F_WRITE) OR VRING_DESC_F_NEXT, d_next = of_nat k\<rparr> \<and>
     v_desc d k = \<lparr>d_addr = AStatus i, d_len = 1, d_flags = VRING_DESC_F_WRITE, d_next = 0\<rparr> \<and>
     v_ops d i = \<lparr>r_type = (if wr then 1 else 0), r_reserved = 0, r_sector = ucast (b_blockno (bufs s b) * of_nat (BSIZE div 512))\<rparr> \<and>
     v_info_b d i = Some b)"

text \<open>The requests the device has still to complete, and those completed that the driver has not looked at.\<close>

definition pend :: "vdisk \<Rightarrow> vdev \<Rightarrow> nat list" where
  "pend d dv = map unat (ring NUM (v_avail d) (dv_avail dv) (v_avail_idx d)) @ dv_taken dv"

definition completed :: "vdisk \<Rightarrow> nat list" where
  "completed d = map unat (ring NUM (v_used_id d) (v_used_idx d) (v_dev_idx d))"

definition threads_ok :: "vdisk \<Rightarrow> kernel \<Rightarrow> (nat \<Rightarrow> vrequest option) \<Rightarrow> (nat \<Rightarrow> nat option) \<Rightarrow> bool" where
  "threads_ok d s w a \<longleftrightarrow>
     (\<forall>t r. w t = Some r \<longrightarrow> chain_ok d s r \<and> a t = Some (fst r)) \<and>
     (\<forall>t u r q. t \<noteq> u \<longrightarrow> w t = Some r \<longrightarrow> w u = Some q \<longrightarrow> req_descs r \<inter> req_descs q = {}) \<and>
     (\<forall>n<NUM. \<not> v_free d n \<longrightarrow> (\<exists>t r. w t = Some r \<and> n \<in> req_descs r)) \<and>
     (\<forall>t u b c. t \<noteq> u \<longrightarrow> a t = Some b \<longrightarrow> a u = Some c \<longrightarrow> b \<noteq> c \<and> b_blockno (bufs s b) \<noteq> b_blockno (bufs s c)) \<and>
     (\<forall>b. unat (b_blockno (bufs s b)) < 2 ^ 31 \<and> length (b_data (bufs s b)) = BSIZE) \<and> (\<forall>n. length (disk s n) = BSIZE)"

text \<open>
  A request that is neither with the device nor reported as failed has been carried out.
\<close>

definition queues_ok :: "u8 set \<Rightarrow> vdisk \<Rightarrow> kernel \<Rightarrow> vdev \<Rightarrow> (nat \<Rightarrow> vrequest option) \<Rightarrow> bool" where
  "queues_ok S d s dv w \<longleftrightarrow>
     length (v_avail d) = NUM \<and> length (v_used_id d) = NUM \<and> distinct (pend d dv @ completed d) \<and>
     (\<forall>i. i \<in> set (pend d dv @ completed d) \<longleftrightarrow> (\<exists>t b wr j k. w t = Some (b, wr, i, j, k) \<and> b_disk (bufs s b) = 1)) \<and>
     (\<forall>i \<in> set (completed d). v_status d i \<in> S) \<and>
     (\<forall>t b wr i j k. w t = Some (b, wr, i, j, k) \<and> i \<notin> set (pend d dv) \<and> (i \<in> set (completed d) \<longrightarrow> v_status d i = 0) \<longrightarrow> disk s (b_blockno (bufs s b)) = b_data (bufs s b))"

definition vinv :: "u8 set \<Rightarrow> vsys \<Rightarrow> bool" where
  "vinv S x \<longleftrightarrow> threads_ok (vd x) (kern x) (vreq \<circ> vpcs x) (vbuf \<circ> vpcs x) \<and> queues_ok S (vd x) (kern x) (dvs x) (vreq \<circ> vpcs x)"

lemma wake_pc_same [simp]: "vreq (wake_pc ws p) = vreq p" "vbuf (wake_pc ws p) = vbuf p"
  by (cases p; simp)+

lemma wakes_same: "vreq \<circ> (wake_pc ws \<circ> f) = vreq \<circ> f" "vbuf \<circ> (wake_pc ws \<circ> f) = vbuf \<circ> f"
  by (simp_all add: fun_eq_iff)

lemma wakeups_irrelevant [simp]:
  "chain_ok (d\<lparr>v_wakeups := ws\<rparr>) s r = chain_ok d s r" "pend (d\<lparr>v_wakeups := ws\<rparr>) dv = pend d dv" "completed (d\<lparr>v_wakeups := ws\<rparr>) = completed d"
  "threads_ok (d\<lparr>v_wakeups := ws\<rparr>) s w a = threads_ok d s w a" "queues_ok S (d\<lparr>v_wakeups := ws\<rparr>) s dv w = queues_ok S d s dv w"
  by (auto simp: chain_ok_def pend_def completed_def threads_ok_def queues_ok_def split: prod.splits)

lemma vinv_upd:
  "vinv S (set_pc t p (vupd (d, s) x)) \<longleftrightarrow>
     threads_ok d s ((vreq \<circ> vpcs x)(t := vreq p)) ((vbuf \<circ> vpcs x)(t := vbuf p)) \<and> queues_ok S d s (dvs x) ((vreq \<circ> vpcs x)(t := vreq p))"
  by (simp add: vinv_def set_pc_def vupd_def fun_upd_comp wakes_same)

lemma vinv_set:
  "vinv S (set_pc t p x) \<longleftrightarrow>
     threads_ok (vd x) (kern x) ((vreq \<circ> vpcs x)(t := vreq p)) ((vbuf \<circ> vpcs x)(t := vbuf p)) \<and>
     queues_ok S (vd x) (kern x) (dvs x) ((vreq \<circ> vpcs x)(t := vreq p))"
  by (simp add: vinv_def set_pc_def fun_upd_comp)

lemma vinv_id: "vreq p = vreq (vpcs x t) \<Longrightarrow> vbuf p = vbuf (vpcs x t) \<Longrightarrow> vinv S x \<Longrightarrow> vinv S (set_pc t p x)"
  unfolding vinv_set by (simp add: vinv_def fun_upd_idem)

lemma vinit_vinv: "vinit x \<Longrightarrow> vinv S x"
  by (simp add: vinit_def vinv_def threads_ok_def queues_ok_def pend_def completed_def)

lemma threads_okD:
  assumes "threads_ok d s w a"
  shows "w t = Some r \<Longrightarrow> chain_ok d s r" "w t = Some r \<Longrightarrow> a t = Some (fst r)"
    "w t = Some r \<Longrightarrow> w u = Some q \<Longrightarrow> n \<in> req_descs r \<Longrightarrow> n \<in> req_descs q \<Longrightarrow> t = u"
    "n < NUM \<Longrightarrow> \<not> v_free d n \<Longrightarrow> \<exists>t r. w t = Some r \<and> n \<in> req_descs r"
    "a t = Some b \<Longrightarrow> a u = Some c \<Longrightarrow> b = c \<or> b_blockno (bufs s b) = b_blockno (bufs s c) \<Longrightarrow> t = u"
    "unat (b_blockno (bufs s b)) < 2 ^ 31" "length (b_data (bufs s b)) = BSIZE" "length (disk s m) = BSIZE"
  using assms unfolding threads_ok_def by blast+

lemma queues_okD:
  assumes "queues_ok S d s dv w"
  shows "length (v_avail d) = NUM" "length (v_used_id d) = NUM" "distinct (pend d dv @ completed d)"
    "i \<in> set (pend d dv @ completed d) \<longleftrightarrow> (\<exists>t b wr j k. w t = Some (b, wr, i, j, k) \<and> b_disk (bufs s b) = 1)"
    "i \<in> set (completed d) \<Longrightarrow> v_status d i \<in> S"
    "w t = Some (b, wr, i, j, k) \<Longrightarrow> i \<notin> set (pend d dv) \<Longrightarrow> (i \<in> set (completed d) \<Longrightarrow> v_status d i = 0) \<Longrightarrow> disk s (b_blockno (bufs s b)) = b_data (bufs s b)"
  using assms unfolding queues_ok_def by blast+

text \<open>A head in a queue belongs to exactly one waiting thread.\<close>

lemma queued_head:
  assumes "threads_ok d s w a" "queues_ok S d s dv w" "i \<in> set (pend d dv @ completed d)"
  obtains t b wr j k where "w t = Some (b, wr, i, j, k)" "b_disk (bufs s b) = 1" "chain_ok d s (b, wr, i, j, k)" "i < NUM"
proof -
  obtain t b wr j k where t: "w t = Some (b, wr, i, j, k)" "b_disk (bufs s b) = 1" using queues_okD(4) [OF assms(2)] assms(3) by blast
  then have "chain_ok d s (b, wr, i, j, k)" using threads_okD(1) [OF assms(1)] by blast
  then show ?thesis using that t by (simp add: chain_ok_def)
qed

lemma queue_room:
  assumes "threads_ok d s w a" "queues_ok S d s dv w" "i < NUM" "set xs \<subseteq> set (pend d dv @ completed d)" "distinct xs" "i \<notin> set xs"
  shows "length xs < NUM"
proof -
  have "set xs \<subseteq> {..<NUM} - {i}"
  proof
    fix n assume "n \<in> set xs"
    then have "n \<in> set (pend d dv @ completed d)" "n \<noteq> i" using assms(4,6) by auto
    then show "n \<in> {..<NUM} - {i}" by (elim queued_head [OF assms(1,2)]) simp
  qed
  then have "card (set xs) \<le> card ({..<NUM} - {i})" by (intro card_mono) simp_all
  moreover have "card ({..<NUM} - {i}) < NUM" using assms(3) by (simp add: NUM_def)
  ultimately show ?thesis using distinct_card [OF assms(5)] by simp
qed

lemma same_head:
  assumes "threads_ok d s w a" "w t = Some (b, wr, i, j, k)" "w u = Some (b', wr', i, j', k')"
  shows "t = u \<and> b = b' \<and> wr = wr' \<and> j = j' \<and> k = k'"
proof -
  have "t = u" using threads_okD(3) [OF assms(1-3), of i] by simp
  then show ?thesis using assms by simp
qed

lemma ring_dvd: "NUM dvd 2 ^ LENGTH(16)" "NUM < 2 ^ LENGTH(16)" by (simp_all add: NUM_def)

lemma unat_small: "i < NUM \<Longrightarrow> unat (of_nat i :: u16) = i" "i < NUM \<Longrightarrow> unat (of_nat i :: u32) = i"
  by (simp_all add: NUM_def unat_of_nat)

section \<open>Steps of the driver\<close>

lemma no_desc_ok:
  assumes "threads_ok d s w a" "queues_ok S d s dv w" "d' = give_descs (free_list d) (take_descs (free_list d) d)"
  shows "threads_ok d' s w a" "queues_ok S d' s dv w"
proof -
  have f: "v_free d' i = v_free d i" for i using free_list_props(2) [of i d] by (auto simp: assms(3) give_descs_def take_descs_def)
  have dd: "v_desc d' i = v_desc d i" if "\<not> v_free d i" for i
    using that free_list_props(2) [of i d] by (simp add: assms(3) give_descs_def take_descs_def)
  have o: "v_ops d' = v_ops d" "v_info_b d' = v_info_b d" "pend d' dv = pend d dv" "completed d' = completed d" "v_status d' = v_status d"
      "length (v_avail d') = length (v_avail d)" "length (v_used_id d') = length (v_used_id d)"
    by (simp_all add: assms(3) give_descs_def take_descs_def pend_def completed_def)
  have "chain_ok d' s r" if "chain_ok d s r" for r using that f dd o by (cases r) (simp add: chain_ok_def)
  then show "threads_ok d' s w a" using assms(1) unfolding threads_ok_def f by blast
  show "queues_ok S d' s dv w" using assms(2) unfolding queues_ok_def o .
qed

lemma submit_ok:
  assumes th: "threads_ok d s w a" and q: "queues_ok S d s dv w" and w: "w t = None" and a: "a t = Some b"
    and f: "free_list d = i # j # k # fs"
    and d': "(d', s') = rw_publish b i (rw_format b wr (b_blockno (bufs s b)) i j k (take_descs [i, j, k] d), s)"
  shows "threads_ok d' s' (w(t := Some (b, wr, i, j, k))) a" "queues_ok S d' s' dv (w(t := Some (b, wr, i, j, k)))"
proof -
  let ?w = "w(t := Some (b, wr, i, j, k))"
  have n: "i < NUM" "j < NUM" "k < NUM" "v_free d i" "v_free d j" "v_free d k" "distinct [i, j, k]"
    using free_list_props(2) [of i d] free_list_props(2) [of j d] free_list_props(2) [of k d] free_list_props(1) [of d] unfolding f by auto
  have s': "bufs s' c = (if c = b then (bufs s b)\<lparr>b_disk := 1\<rparr> else bufs s c)" "disk s' = disk s" for c
    using d' by (auto simp: rw_publish_def upd_buf_def)
  have df: "v_free d' = (\<lambda>m. v_free d m \<and> m \<notin> {i, j, k})" "v_info_b d' = (v_info_b d)(i := Some b)" "v_status d' = (v_status d)(i := 0xff)"
      "v_avail d' = (v_avail d)[unat (v_avail_idx d) mod NUM := of_nat i]" "v_avail_idx d' = v_avail_idx d + 1"
      "completed d' = completed d" "v_used_id d' = v_used_id d"
      "m \<notin> {i, j, k} \<Longrightarrow> v_desc d' m = v_desc d m" "m \<noteq> i \<Longrightarrow> v_ops d' m = v_ops d m" for m
    using d' by (auto simp: rw_publish_def rw_format_def Let_def take_descs_def completed_def)
  have new: "chain_ok d' s' (b, wr, i, j, k)"
    using d' n by (auto simp: chain_ok_def s' df(1,2)) (auto simp: rw_publish_def rw_format_def Let_def)
  have old: "chain_ok d' s' r \<and> req_descs r \<inter> {i, j, k} = {}" if "w u = Some r" for u r
  proof (cases r)
    case (fields b' wr' i' j' k')
    have c: "chain_ok d s r" using threads_okD(1) [OF th that] .
    then have e: "i' \<notin> {i, j, k}" "j' \<notin> {i, j, k}" "k' \<notin> {i, j, k}" using n(4-6) fields by (auto simp: chain_ok_def)
    have e': "v_desc d' i' = v_desc d i'" "v_desc d' j' = v_desc d j'" "v_desc d' k' = v_desc d k'" "v_ops d' i' = v_ops d i'"
      using df(8,9) e by auto
    have "chain_ok d' s' r" using c e unfolding fields chain_ok_def case_prod_conv e' df(1,2) by (simp add: s')
    then show ?thesis using e fields by auto
  qed
  show "threads_ok d' s' ?w a"
    unfolding threads_ok_def
  proof (intro conjI allI impI)
    fix u r assume "?w u = Some r"
    then show "chain_ok d' s' r" "a u = Some (fst r)" using new old a threads_okD(2) [OF th] by (auto split: if_splits)
  next
    fix u v r r' assume uv: "u \<noteq> v" "?w u = Some r" "?w v = Some r'"
    show "req_descs r \<inter> req_descs r' = {}"
    proof (cases "u = t")
      case True
      then have "r = (b, wr, i, j, k)" "w v = Some r'" using uv by simp_all
      then show ?thesis using conjunct2 [OF old [of v r']] by (simp only: req_descs.simps Int_commute [of "{i, j, k}"])
    next
      case u: False
      then have wu: "w u = Some r" using uv(2) by simp
      show ?thesis
      proof (cases "v = t")
        case True
        then have "r' = (b, wr, i, j, k)" using uv(3) by simp
        then show ?thesis using conjunct2 [OF old [OF wu]] by (simp only: req_descs.simps)
      next
        case False
        then have "w v = Some r'" using uv(3) by simp
        from threads_okD(3) [OF th wu this] show ?thesis using uv(1) by blast
      qed
    qed
  next
    fix m assume "m < NUM" "\<not> v_free d' m"
    then consider "m \<in> {i, j, k}" | "\<not> v_free d m" by (auto simp: df(1))
    then show "\<exists>u r. ?w u = Some r \<and> m \<in> req_descs r"
    proof cases
      case 1
      then show ?thesis by (intro exI [of _ t] exI [of _ "(b, wr, i, j, k)"]) simp
    next
      case 2
      then obtain u r where "w u = Some r" "m \<in> req_descs r" using threads_okD(4) [OF th \<open>m < NUM\<close>] by blast
      then show ?thesis using w by (intro exI [of _ u] exI [of _ r]) auto
    qed
  qed (use threads_okD(5-8) [OF th] s' in \<open>auto split: if_splits\<close>)
  have iq: "i \<notin> set (pend d dv @ completed d)" 
  proof
    assume "i \<in> set (pend d dv @ completed d)"
    then show False using n(4) by (elim queued_head [OF th q]) (simp add: chain_ok_def)
  qed
  have "length (ring NUM (v_avail d) (dv_avail dv) (v_avail_idx d)) < NUM"
    using queue_room [OF th q n(1), of "map unat (ring NUM (v_avail d) (dv_avail dv) (v_avail_idx d))"] queues_okD(3) [OF q] iq by (auto simp: pend_def)
  then have "ring NUM (v_avail d') (dv_avail dv) (v_avail_idx d') = ring NUM (v_avail d) (dv_avail dv) (v_avail_idx d) @ [of_nat i]"
    unfolding df using ring_put [OF ring_dvd queues_okD(1) [OF q]] by simp
  then have p: "pend d' dv = map unat (ring NUM (v_avail d) (dv_avail dv) (v_avail_idx d)) @ [i] @ dv_taken dv"
    using unat_small(1) [OF n(1)] by (simp add: pend_def)
  have sp: "set (pend d' dv @ completed d') = insert i (set (pend d dv @ completed d))" "set (pend d' dv) = insert i (set (pend d dv))"
    unfolding p df by (auto simp: pend_def)
  have nb: "b' \<noteq> b" if "w u = Some (b', wr', i', j', k')" for u b' wr' i' j' k'
    using that w a threads_okD(2) [OF th that] threads_okD(5) [OF th, of u b' t b] by auto
  show "queues_ok S d' s' dv ?w"
    unfolding queues_ok_def
  proof (intro conjI allI ballI impI)
    show "distinct (pend d' dv @ completed d')" using queues_okD(3) [OF q] iq unfolding p df by (auto simp: pend_def)
    fix m
    show "m \<in> set (pend d' dv @ completed d') \<longleftrightarrow> (\<exists>u c wr' j' k'. ?w u = Some (c, wr', m, j', k') \<and> b_disk (bufs s' c) = 1)"
    proof (cases "m = i")
      case True
      then show ?thesis unfolding sp(1) by (auto simp: s'(1) intro!: exI [of _ t])
    next
      case False
      have "?w u = Some (c, wr', m, j', k') \<and> b_disk (bufs s' c) = 1 \<longleftrightarrow> w u = Some (c, wr', m, j', k') \<and> b_disk (bufs s c) = 1"
        for u c wr' j' k'
        using False w nb [of u c wr' m j' k'] by (cases "u = t") (auto simp: s'(1))
      then show ?thesis unfolding sp(1) using queues_okD(4) [OF q, of m] False by auto
    qed
  next
    fix m assume "m \<in> set (completed d')"
    then show "v_status d' m \<in> S" using queues_okD(5) [OF q, of m] iq by (auto simp: df)
  next
    fix u c wr' m j' k' assume "?w u = Some (c, wr', m, j', k') \<and> m \<notin> set (pend d' dv) \<and> (m \<in> set (completed d') \<longrightarrow> v_status d' m = 0)"
    then have "w u = Some (c, wr', m, j', k')" "m \<notin> set (pend d dv)" "m \<in> set (completed d) \<Longrightarrow> v_status d m = 0"
      using sp(2) iq by (auto simp: df split: if_splits)
    then show "disk s' (b_blockno (bufs s' c)) = b_data (bufs s' c)" using queues_okD(6) [OF q] nb s' by auto
  qed (use queues_okD(1,2) [OF q] df in simp_all)
qed

end
