(* ===== verification/VirtioSpec.thy ===== *)
theory VirtioSpec
  imports VirtioInv
begin

text \<open>
  The remaining steps of the disk system (completion of a request, the interrupt handler, the device) keep
  the invariant of \<^verbatim>\<open>VirtioInv\<close>; the properties of the driver.
\<close>

section \<open>Completion and interrupts\<close>

lemma free_chain_ok:
  assumes "chain_ok d s (b, wr, i, j, k)"
  shows "free_chain i (d\<lparr>v_info_b := f\<rparr>) = Ok (give_descs [i, j, k] (d\<lparr>v_info_b := f\<rparr>))"
proof -
  let ?d = "d\<lparr>v_info_b := f\<rparr>"
  have c: "i < NUM" "j < NUM" "k < NUM" "distinct [i, j, k]" "\<not> v_free ?d i" "\<not> v_free ?d j" "\<not> v_free ?d k"
      "d_flags (v_desc ?d i) = VRING_DESC_F_NEXT" "d_next (v_desc ?d i) = of_nat j"
      "d_flags (v_desc ?d j) = (if wr then 0 else VRING_DESC_F_WRITE) OR VRING_DESC_F_NEXT" "d_next (v_desc ?d j) = of_nat k"
      "d_flags (v_desc ?d k) = VRING_DESC_F_WRITE"
    using assms by (simp_all add: chain_ok_def)
  let ?d1 = "give_descs [i] ?d" and ?d2 = "give_descs [j] (give_descs [i] ?d)"
  have f: "VRING_DESC_F_NEXT AND VRING_DESC_F_NEXT \<noteq> 0" "((if wr then 0 else VRING_DESC_F_WRITE) OR VRING_DESC_F_NEXT) AND VRING_DESC_F_NEXT \<noteq> 0"
      "VRING_DESC_F_WRITE AND VRING_DESC_F_NEXT = 0"
    by (simp_all add: VRING_DESC_F_NEXT_def VRING_DESC_F_WRITE_def)
  have k1: "v_desc ?d1 j = v_desc ?d j" "v_desc ?d2 k = v_desc ?d k" "\<not> v_free ?d1 j" "\<not> v_free ?d2 k"
    using c(4-7) by (auto simp: give_descs_def)
  have "free_chain i ?d = free_chain j ?d1"
    using c(8,9) f(1) free_desc_give [OF c(1,5)] unat_small(1) [OF c(2)] by (subst free_chain.simps) (simp add: Let_def)
  also have "\<dots> = free_chain k ?d2"
    using c(10,11) f(2) free_desc_give [OF c(2) k1(3)] unat_small(1) [OF c(3)] k1(1) by (subst free_chain.simps) (simp add: Let_def)
  also have "\<dots> = Ok (give_descs [k] ?d2)"
    using c(12) f(3) free_desc_give [OF c(3) k1(4)] k1(2) by (subst free_chain.simps) (simp add: Let_def)
  also have "give_descs [k] ?d2 = give_descs [i, j, k] ?d"
    using give_descs_Cons [of j "[k]"] give_descs_Cons [of i "[j, k]"] c(4) by simp
  finally show ?thesis .
qed

lemma finish_ok:
  assumes th: "threads_ok d s w a" and q: "queues_ok S d s dv w" and w: "w t = Some (b, wr, i, j, k)" and bd: "b_disk (bufs s b) \<noteq> 1"
  shows "\<exists>d'. rw_finish i d = Ok d' \<and> threads_ok d' s (w(t := None)) (a(t := None)) \<and> queues_ok S d' s dv (w(t := None))"
proof -
  define d' where "d' = give_descs [i, j, k] (d\<lparr>v_info_b := (v_info_b d)(i := None)\<rparr>)"
  have c: "chain_ok d s (b, wr, i, j, k)" by (rule threads_okD(1) [OF th w])
  have run: "rw_finish i d = Ok d'" using free_chain_ok [OF c] by (simp add: rw_finish_def d'_def)
  have df: "v_free d' m \<longleftrightarrow> v_free d m \<or> m \<in> {i, j, k}" "m \<notin> {i, j, k} \<Longrightarrow> v_desc d' m = v_desc d m" "m \<noteq> i \<Longrightarrow> v_info_b d' m = v_info_b d m"
      "v_ops d' = v_ops d" "v_status d' = v_status d" "pend d' dv = pend d dv" "completed d' = completed d"
      "v_avail d' = v_avail d" "v_used_id d' = v_used_id d" for m
    by (auto simp: d'_def give_descs_def pend_def completed_def)
  have old: "chain_ok d' s r \<and> req_descs r \<inter> {i, j, k} = {}" if u: "w u = Some r" "u \<noteq> t" for u r
  proof (cases r)
    case (fields b' wr' i' j' k')
    have dis: "req_descs r \<inter> {i, j, k} = {}" using threads_okD(3) [OF th u(1) w] u(2) by auto
    then have e: "i' \<notin> {i, j, k}" "j' \<notin> {i, j, k}" "k' \<notin> {i, j, k}" using fields by auto
    have e': "v_desc d' i' = v_desc d i'" "v_desc d' j' = v_desc d j'" "v_desc d' k' = v_desc d k'" "v_info_b d' i' = v_info_b d i'"
      using df(2,3) e by auto
    have "chain_ok d' s r"
      using threads_okD(1) [OF th u(1)] e unfolding fields chain_ok_def case_prod_conv e' df(1,4) by blast
    then show ?thesis using dis by blast
  qed
  have "threads_ok d' s (w(t := None)) (a(t := None))"
    unfolding threads_ok_def
  proof (intro conjI allI impI)
    fix u r assume "(w(t := None)) u = Some r"
    then have "w u = Some r" "u \<noteq> t" by (simp_all split: if_splits)
    then show "chain_ok d' s r" "(a(t := None)) u = Some (fst r)" using old threads_okD(2) [OF th] by simp_all
  next
    fix u v r r' assume "u \<noteq> v" "(w(t := None)) u = Some r" "(w(t := None)) v = Some r'"
    then have "w u = Some r" "w v = Some r'" "u \<noteq> v" by (simp_all split: if_splits)
    then show "req_descs r \<inter> req_descs r' = {}" using threads_okD(3) [OF th, of u r v r'] by blast
  next
    fix m assume m: "m < NUM" "\<not> v_free d' m"
    then obtain u r where u: "w u = Some r" "m \<in> req_descs r" using threads_okD(4) [OF th m(1)] df(1) by blast
    have "u \<noteq> t"
    proof
      assume "u = t"
      then have "m \<in> {i, j, k}" using u w by auto
      then show False using m(2) unfolding df(1) by blast
    qed
    then show "\<exists>u r. (w(t := None)) u = Some r \<and> m \<in> req_descs r" using u by (intro exI [of _ u] exI [of _ r]) simp
  next
    fix u v c c' assume "u \<noteq> v" "(a(t := None)) u = Some c" "(a(t := None)) v = Some c'"
    then have "a u = Some c" "a v = Some c'" "u \<noteq> v" by (simp_all split: if_splits)
    then show "c \<noteq> c'" "b_blockno (bufs s c) \<noteq> b_blockno (bufs s c')" using threads_okD(5) [OF th, of u c v c'] by blast+
  qed (use threads_okD(6-8) [OF th] in blast)+
  moreover have "queues_ok S d' s dv (w(t := None))"
    unfolding queues_ok_def df
  proof (intro conjI allI ballI impI)
    fix m
    have "(w(t := None)) u = Some (c, wr', m, j', k') \<and> b_disk (bufs s c) = 1 \<longleftrightarrow> w u = Some (c, wr', m, j', k') \<and> b_disk (bufs s c) = 1"
      for u c wr' j' k' using w bd by auto
    then show "m \<in> set (pend d dv @ completed d) \<longleftrightarrow> (\<exists>u c wr' j' k'. (w(t := None)) u = Some (c, wr', m, j', k') \<and> b_disk (bufs s c) = 1)"
      using queues_okD(4) [OF q, of m] by blast
  next
    fix u c wr' m j' k' assume "(w(t := None)) u = Some (c, wr', m, j', k') \<and> m \<notin> set (pend d dv) \<and> (m \<in> set (completed d) \<longrightarrow> v_status d m = 0)"
    then have "w u = Some (c, wr', m, j', k')" "m \<notin> set (pend d dv)" "m \<in> set (completed d) \<Longrightarrow> v_status d m = 0" by (auto split: if_splits)
    then show "disk s (b_blockno (bufs s c)) = b_data (bufs s c)" by (rule queues_okD(6) [OF q])
  qed (use queues_okD(1,2,3,5) [OF q] in blast)+
  ultimately show ?thesis using run by blast
qed

text \<open>One completion taken from the used ring.\<close>

lemma intr_one:
  assumes th: "threads_ok d s w a" and q: "queues_ok S d s dv w" and ne: "v_used_idx d \<noteq> v_dev_idx d"
    and i: "i = unat (v_used_id d ! (unat (v_used_idx d) mod NUM))" and st: "v_status d i = 0"
  shows "\<exists>b. v_info_b d i = Some b \<and>
    threads_ok (d\<lparr>v_used_idx := v_used_idx d + 1\<rparr>) (upd_buf b (\<lambda>x. x\<lparr>b_disk := 0\<rparr>) s) w a \<and>
    queues_ok S (d\<lparr>v_used_idx := v_used_idx d + 1\<rparr>) (upd_buf b (\<lambda>x. x\<lparr>b_disk := 0\<rparr>) s) dv w"
proof -
  define d' where "d' = d\<lparr>v_used_idx := v_used_idx d + 1\<rparr>"
  have c: "completed d = i # completed d'" using ring_get [OF ne, of NUM "v_used_id d"] i by (simp add: completed_def d'_def)
  then have "i \<in> set (pend d dv @ completed d)" by simp
  then obtain t b wr j k where t: "w t = Some (b, wr, i, j, k)" "b_disk (bufs s b) = 1" "chain_ok d s (b, wr, i, j, k)"
    using queued_head [OF th q] by metis
  define s' where "s' = upd_buf b (\<lambda>x. x\<lparr>b_disk := 0\<rparr>) s"
  have s': "bufs s' m = (if m = b then (bufs s b)\<lparr>b_disk := 0\<rparr> else bufs s m)" "disk s' = disk s" for m
    by (simp_all add: s'_def upd_buf_def)
  have df: "v_free d' = v_free d" "pend d' dv = pend d dv" "v_status d' = v_status d" "v_avail d' = v_avail d" "v_used_id d' = v_used_id d"
    by (simp_all add: d'_def pend_def)
  have inf: "v_info_b d i = Some b" using t(3) by (simp add: chain_ok_def)
  have bn: "b_blockno (bufs s' m) = b_blockno (bufs s m)" "b_data (bufs s' m) = b_data (bufs s m)" for m by (simp_all add: s')
  have ck: "chain_ok d' s' r \<longleftrightarrow> chain_ok d s r" for r by (cases r) (simp add: chain_ok_def bn d'_def)
  have T: "threads_ok d' s' w a" using th unfolding threads_ok_def df bn ck s'(2) .
  have dist: "distinct (pend d dv @ i # completed d')" using queues_okD(3) [OF q] c by simp
  have b': "c' = b \<longleftrightarrow> m = i" if "w u = Some (c', wr', m, j', k')" for u c' wr' m j' k'
  proof
    assume "c' = b"
    then have "u = t" using threads_okD(2) [OF th that] threads_okD(2) [OF th t(1)] threads_okD(5) [OF th, of u b t b] by simp
    then show "m = i" using that t(1) by simp
  next
    assume "m = i"
    then show "c' = b" using same_head [OF th] that t(1) by blast
  qed
  have "queues_ok S d' s' dv w"
    unfolding queues_ok_def df bn s'(2)
  proof (intro conjI allI ballI impI)
    show "distinct (pend d dv @ completed d')" using dist by simp
    fix m
    have "w u = Some (c', wr', m, j', k') \<and> b_disk (bufs s' c') = 1 \<longleftrightarrow> m \<noteq> i \<and> w u = Some (c', wr', m, j', k') \<and> b_disk (bufs s c') = 1"
      for u c' wr' j' k' using b' [of u c' wr' m j' k'] by (auto simp: s'(1))
    moreover have "m \<in> set (pend d dv @ completed d') \<longleftrightarrow> m \<noteq> i \<and> m \<in> set (pend d dv @ completed d)" using dist c by auto
    ultimately show "m \<in> set (pend d dv @ completed d') \<longleftrightarrow> (\<exists>u c' wr' j' k'. w u = Some (c', wr', m, j', k') \<and> b_disk (bufs s' c') = 1)"
      using queues_okD(4) [OF q, of m] by auto
  next
    fix m assume "m \<in> set (completed d')"
    then show "v_status d m \<in> S" using queues_okD(5) [OF q, of m] c by simp
  next
    fix u c' wr' m j' k'
    assume "w u = Some (c', wr', m, j', k') \<and> m \<notin> set (pend d dv) \<and> (m \<in> set (completed d') \<longrightarrow> v_status d m = 0)"
    then have "w u = Some (c', wr', m, j', k')" "m \<notin> set (pend d dv)" "m \<in> set (completed d) \<Longrightarrow> v_status d m = 0" using st c by auto
    then show "disk s (b_blockno (bufs s c')) = b_data (bufs s c')" by (rule queues_okD(6) [OF q])
  qed (use queues_okD(1,2) [OF q] in simp_all)
  then show ?thesis using inf T unfolding d'_def s'_def by blast
qed

text \<open>The handler takes in every completion, up to the first one that failed, on which it panics.\<close>

lemma completed_step:
  assumes "v_used_idx d \<noteq> v_dev_idx d"
  shows "completed d = unat (v_used_id d ! (unat (v_used_idx d) mod NUM)) # completed (d\<lparr>v_wakeups := ws, v_used_idx := v_used_idx d + 1\<rparr>)"
  using ring_get [OF assms, of NUM "v_used_id d"] by (simp add: completed_def)

lemma intr_ok:
  assumes "threads_ok d s w a" "queues_ok S d s dv w"
  shows "if \<forall>i \<in> set (completed d). v_status d i = 0
    then \<exists>d' s'. virtio_disk_intr (d, s) = Ok (d', s') \<and> threads_ok d' s' w a \<and> queues_ok S d' s' dv w
    else virtio_disk_intr (d, s) = Panic ''virtio_disk_intr status''"
  using assms
proof (induction "unat (v_dev_idx d - v_used_idx d)" arbitrary: d s rule: less_induct)
  case less
  show ?case
  proof (cases "v_used_idx d = v_dev_idx d")
    case True
    then have "completed d = []" by (simp add: completed_def)
    then show ?thesis using less.prems True by (subst virtio_disk_intr.simps) auto
  next
    case False
    define i where "i = unat (v_used_id d ! (unat (v_used_idx d) mod NUM))"
    define d' where "d' b = d\<lparr>v_wakeups := v_wakeups d @ [ChBuf b], v_used_idx := v_used_idx d + 1\<rparr>" for b
    have c: "completed d = i # completed (d' b)" for b using completed_step [OF False] by (simp add: d'_def i_def)
    show ?thesis
    proof (cases "v_status d i = 0")
      case bad: False
      have "virtio_disk_intr (d, s) = Panic ''virtio_disk_intr status''"
        using False bad by (subst virtio_disk_intr.simps) (simp add: i_def [symmetric] Let_def)
      moreover have "i \<in> set (completed d)" unfolding c [of 0] by simp
      ultimately show ?thesis using bad by auto
    next
      case st: True
      have ws: "d' b = (d\<lparr>v_used_idx := v_used_idx d + 1\<rparr>)\<lparr>v_wakeups := v_wakeups d @ [ChBuf b]\<rparr>" for b by (simp add: d'_def)
      obtain b where b: "v_info_b d i = Some b" "threads_ok (d' b) (upd_buf b (\<lambda>x. x\<lparr>b_disk := 0\<rparr>) s) w a"
          "queues_ok S (d' b) (upd_buf b (\<lambda>x. x\<lparr>b_disk := 0\<rparr>) s) dv w"
        using intr_one [OF less.prems False i_def st] unfolding ws wakeups_irrelevant by blast
      have "unat (v_dev_idx (d' b) - v_used_idx (d' b)) < unat (v_dev_idx d - v_used_idx d)"
        using unat_diff_pred [OF False] by (simp add: d'_def)
      note IH = less.hyps [OF this b(2,3)]
      have "virtio_disk_intr (d, s) = virtio_disk_intr (d' b, upd_buf b (\<lambda>x. x\<lparr>b_disk := 0\<rparr>) s)"
        using b(1) False st by (subst virtio_disk_intr.simps) (simp add: i_def [symmetric] d'_def Let_def)
      moreover have "v_status (d' b) = v_status d" by (simp add: d'_def)
      ultimately show ?thesis using IH st unfolding c [of b] by simp
    qed
  qed
qed

section \<open>Steps of the device\<close>

text \<open>Two sectors that start at an even one are a block.\<close>

lemma sector_block:
  fixes n :: u32
  assumes "unat n < 2 ^ 31" shows "512 * unat (ucast (n * of_nat (BSIZE div 512)) :: u64) = unat n * BSIZE"
proof -
  have "unat (n * 2) = unat n * 2" using assms by (subst unat_mult_lem [THEN iffD1]) simp_all
  moreover have "take_bit 64 (unat n * 2) = unat n * 2" using assms by (simp add: take_bit_nat_eq_self_iff)
  ultimately show ?thesis by (simp add: unsigned_ucast_eq)
qed

lemma dev_load_block: "length (f n) = BSIZE \<Longrightarrow> dev_load f (unat n * BSIZE) BSIZE = f n"
  by (intro nth_equalityI) (auto simp: dev_load_def)

lemma dev_store_block:
  fixes n :: u32
  assumes "\<And>m. length (f m) = BSIZE" "length xs = BSIZE"
  shows "dev_store f (unat n * BSIZE) xs = f(n := xs)"
proof
  fix m
  have "unat n * BSIZE \<le> unat m * BSIZE + k \<and> unat m * BSIZE + k < unat n * BSIZE + BSIZE \<longleftrightarrow> m = n" if "k < BSIZE" for k
  proof -
    have "(unat m * BSIZE + k) div BSIZE = unat m" using that by simp
    then have "unat n * BSIZE \<le> unat m * BSIZE + k \<and> unat m * BSIZE + k < unat n * BSIZE + BSIZE \<longleftrightarrow> unat m = unat n" by auto
    then show ?thesis by (simp add: word_unat_eq_iff)
  qed
  then show "dev_store f (unat n * BSIZE) xs m = (f(n := xs)) m"
    using assms by (intro nth_equalityI) (auto simp: dev_store_def Let_def simp del: fs_consts)
qed

lemma dev_blocks_block: "dev_blocks (unat n * BSIZE) BSIZE = [n]"
  by (simp add: dev_blocks_def)

text \<open>The device accepts the request, and its transfer is the one the buffer cache relies on, unless it reports a failure.\<close>

lemma request_ok:
  assumes "chain_ok d s (b, wr, i, j, k)"
  shows "dev_request i d = Some (v_ops d i, b, BSIZE, i)"
proof -
  have "i < NUM" "j < NUM" "k < NUM" "v_desc d i = \<lparr>d_addr = AOps i, d_len = 16, d_flags = VRING_DESC_F_NEXT, d_next = of_nat j\<rparr>"
      "v_desc d j = \<lparr>d_addr = AData b, d_len = of_nat BSIZE,
         d_flags = (if wr then 0 else VRING_DESC_F_WRITE) OR VRING_DESC_F_NEXT, d_next = of_nat k\<rparr>"
      "v_desc d k = \<lparr>d_addr = AStatus i, d_len = 1, d_flags = VRING_DESC_F_WRITE, d_next = 0\<rparr>"
      "r_type (v_ops d i) = (if wr then 1 else 0)"
    using assms by (simp_all add: chain_ok_def)
  then show ?thesis
    by (simp add: dev_request_def Let_def unat_small dflag_def VRING_DESC_F_NEXT_def VRING_DESC_F_WRITE_def)
qed

lemma transfer_rw:
  assumes c: "chain_ok d s (b, wr, i, j, k)" and th: "threads_ok d s w a" and s'_def: "s' = dev_transfer (v_ops d i) b BSIZE st junk s"
  shows "st = 0 \<Longrightarrow> s' = virtio_disk_rw b wr s"
    "\<exists>xs. length xs = BSIZE \<and> s' = (if wr then s\<lparr>disk := (disk s)(b_blockno (bufs s b) := xs), dtrace := dtrace s @ [(b_blockno (bufs s b), xs)]\<rparr>
       else upd_buf b (\<lambda>x. x\<lparr>b_data := xs\<rparr>) s)"
proof -
  let ?n = "b_blockno (bufs s b)"
  note l = threads_okD(6-8) [OF th]
  have "v_ops d i = \<lparr>r_type = (if wr then 1 else 0), r_reserved = 0, r_sector = ucast (?n * of_nat (BSIZE div 512))\<rparr>"
    using c by (simp add: chain_ok_def)
  then have o: "r_type (v_ops d i) = (if wr then 1 else 0)" "512 * unat (r_sector (v_ops d i)) = unat ?n * BSIZE"
    using sector_block [OF l(1), of b] by (simp_all del: fs_consts)
  define xs where "xs = (if st \<noteq> 0 then map junk [0..<BSIZE] else if wr then b_data (bufs s b) else disk s ?n)"
  have lx: "length xs = BSIZE" using l(2,3) by (simp add: xs_def)
  have p: "patch ys 0 zs = zs" if "length ys = BSIZE" "length zs = BSIZE" for ys zs :: "u8 list" using that by (simp add: patch_def)
  have st: "dev_store (disk s) (unat ?n * BSIZE) xs = (disk s)(?n := xs)" by (rule dev_store_block [OF l(3) lx])
  have s': "s' = (if wr then s\<lparr>disk := (disk s)(?n := xs), dtrace := dtrace s @ [(?n, xs)]\<rparr> else upd_buf b (\<lambda>x. x\<lparr>b_data := xs\<rparr>) s)"
  proof (cases wr)
    case True
    have "(if st = 0 then take BSIZE (b_data (bufs s b)) else map junk [0..<BSIZE]) = xs" using l(2) [of b] True by (simp add: xs_def)
    then show ?thesis using True st unfolding s'_def dev_transfer_def Let_def o dev_blocks_block by (simp del: fs_consts)
  next
    case False
    have "(if st = 0 then dev_load (disk s) (unat ?n * BSIZE) BSIZE else map junk [0..<BSIZE]) = xs"
      using dev_load_block [OF l(3)] False by (simp add: xs_def del: fs_consts)
    then show ?thesis using False p [OF l(2) [of b] lx] unfolding s'_def dev_transfer_def Let_def o by (simp add: upd_buf_def del: fs_consts)
  qed
  then show "\<exists>xs. length xs = BSIZE \<and> s' = (if wr then s\<lparr>disk := (disk s)(?n := xs), dtrace := dtrace s @ [(?n, xs)]\<rparr>
       else upd_buf b (\<lambda>x. x\<lparr>b_data := xs\<rparr>) s)" using lx by blast
  show "s' = virtio_disk_rw b wr s" if "st = 0"
    using that unfolding s' by (simp add: xs_def virtio_disk_rw_def Let_def upd_buf_def del: fs_consts)
qed

lemma fetch_ok:
  assumes "dev_fetch x = Some y" "vinv S x" shows "vinv S y"
proof -
  have ne: "dv_avail (dvs x) \<noteq> v_avail_idx (vd x)" and y: "vd y = vd x" "kern y = kern x" "vpcs y = vpcs x"
      "dvs y = \<lparr>dv_avail = dv_avail (dvs x) + 1, dv_taken = dv_taken (dvs x) @ [unat (v_avail (vd x) ! (unat (dv_avail (dvs x)) mod NUM))]\<rparr>"
    using assms(1) by (auto simp: dev_fetch_def split: if_splits)
  have p: "set (pend (vd x) (dvs y)) = set (pend (vd x) (dvs x))" "distinct (pend (vd x) (dvs y) @ zs) \<longleftrightarrow> distinct (pend (vd x) (dvs x) @ zs)" for zs
    unfolding pend_def y using ring_get [OF ne, of NUM "v_avail (vd x)"] by auto
  have "queues_ok S (vd x) (kern x) (dvs y) (vreq \<circ> vpcs x)"
    using assms(2) unfolding vinv_def queues_ok_def p set_append by blast
  then show ?thesis using assms(2) by (simp add: vinv_def y(1-3))
qed

text \<open>The state after the completion of the request at \<open>i\<close> with status \<open>st\<close>, apart from the transfer.\<close>

definition reported :: "nat \<Rightarrow> u8 \<Rightarrow> vdisk \<Rightarrow> vdisk" where
  "reported i st d = d\<lparr>v_status := (v_status d)(i := st), v_used_id := (v_used_id d)[unat (v_dev_idx d) mod NUM := of_nat i],
     v_dev_idx := v_dev_idx d + 1\<rparr>"

lemma reported_queues:
  assumes th: "threads_ok d s w a" and q: "queues_ok S d s dv w" and i: "i \<in> set (dv_taken dv)"
  defines "dv' \<equiv> dv\<lparr>dv_taken := remove1 i (dv_taken dv)\<rparr>"
  shows "completed (reported i st d) = completed d @ [i]" "set (pend (reported i st d) dv') = set (pend d dv) - {i}"
    "distinct (pend (reported i st d) dv' @ completed (reported i st d))"
    "set (pend (reported i st d) dv' @ completed (reported i st d)) = set (pend d dv @ completed d)"
proof -
  have ip: "i \<in> set (pend d dv)" using i by (simp add: pend_def)
  then have iN: "i < NUM" using queued_head [OF th q, of i] by auto
  have dist: "distinct (pend d dv @ completed d)" by (rule queues_okD(3) [OF q])
  show pd: "set (pend (reported i st d) dv') = set (pend d dv) - {i}"
    using dist i unfolding pend_def by (auto simp: reported_def dv'_def)
  have "distinct (pend (reported i st d) dv')" using dist unfolding pend_def by (auto simp: reported_def dv'_def)
  note pd = pd this
  have "length (completed d) < NUM" using queue_room [OF th q iN, of "completed d"] dist ip by auto
  then have "unat (v_dev_idx d - v_used_idx d) < NUM" by (simp add: completed_def)
  from ring_put [OF ring_dvd queues_okD(2) [OF q] this, of "of_nat i"]
  show cd: "completed (reported i st d) = completed d @ [i]" using unat_small(2) [OF iN] by (simp add: completed_def reported_def)
  show "distinct (pend (reported i st d) dv' @ completed (reported i st d))" using dist pd ip unfolding cd by auto
  show "set (pend (reported i st d) dv' @ completed (reported i st d)) = set (pend d dv @ completed d)"
    using ip unfolding cd set_append pd(1) by auto
qed

lemma complete_inv:
  assumes th: "threads_ok d s w a" and q: "queues_ok S d s dv w" and i: "i \<in> set (dv_taken dv)" and S: "st \<in> S"
    and t: "w t = Some (b, wr, i, j, k)"
    and s': "s' = (if wr then s\<lparr>disk := (disk s)(b_blockno (bufs s b) := xs), dtrace := tr\<rparr> else upd_buf b (\<lambda>x. x\<lparr>b_data := xs\<rparr>) s)"
      "length xs = BSIZE" "st = 0 \<Longrightarrow> disk s' (b_blockno (bufs s b)) = b_data (bufs s' b)"
  shows "threads_ok (reported i st d) s' w a" "queues_ok S (reported i st d) s' (dv\<lparr>dv_taken := remove1 i (dv_taken dv)\<rparr>) w"
proof -
  let ?d = "reported i st d" and ?dv = "dv\<lparr>dv_taken := remove1 i (dv_taken dv)\<rparr>"
  note r = reported_queues [OF th q i, of st]
  have e: "b_blockno (bufs s' m) = b_blockno (bufs s m)" "b_disk (bufs s' m) = b_disk (bufs s m)"
      "m \<noteq> b \<Longrightarrow> b_data (bufs s' m) = b_data (bufs s m)" "n \<noteq> b_blockno (bufs s b) \<Longrightarrow> disk s' n = disk s n"
      "length (b_data (bufs s' m)) = BSIZE" "length (disk s' n) = BSIZE" for m n
    using s'(2) threads_okD(7,8) [OF th] unfolding s'(1) by simp_all
  have df: "v_free ?d = v_free d" "v_avail ?d = v_avail d" "length (v_used_id ?d) = length (v_used_id d)" "v_status ?d = (v_status d)(i := st)"
    by (simp_all add: reported_def)
  have ck: "chain_ok ?d s' rq \<longleftrightarrow> chain_ok d s rq" for rq by (cases rq) (simp add: chain_ok_def e reported_def)
  show "threads_ok ?d s' w a" using th unfolding threads_ok_def df e(1,5,6) ck by blast
  show "queues_ok S ?d s' ?dv w"
    unfolding queues_ok_def df e(1,2) r(4)
  proof (intro conjI allI ballI impI)
    show "distinct (pend ?d ?dv @ completed ?d)" by (rule r(3))
    show "m \<in> set (pend d dv @ completed d) \<longleftrightarrow> (\<exists>u c wr' j' k'. w u = Some (c, wr', m, j', k') \<and> b_disk (bufs s c) = 1)" for m
      by (rule queues_okD(4) [OF q])
  next
    fix m assume "m \<in> set (completed ?d)"
    then show "((v_status d)(i := st)) m \<in> S" using queues_okD(5) [OF q, of m] S unfolding r(1) by auto
  next
    fix u c wr' m j' k'
    assume u: "w u = Some (c, wr', m, j', k') \<and> m \<notin> set (pend ?d ?dv) \<and> (m \<in> set (completed ?d) \<longrightarrow> ((v_status d)(i := st)) m = 0)"
    show "disk s' (b_blockno (bufs s c)) = b_data (bufs s' c)"
    proof (cases "c = b \<or> b_blockno (bufs s c) = b_blockno (bufs s b)")
      case True
      have "a u = Some c" "a t = Some b" using threads_okD(2) [OF th] u t by fastforce+
      then have "u = t" using threads_okD(5) [OF th] True by metis
      then have "c = b" "m = i" using u t by simp_all
      then show ?thesis using s'(3) u unfolding r(1) by simp
    next
      case False
      then have mi: "m \<noteq> i" using same_head [OF th conjunct1 [OF u]] t by blast
      then have "m \<notin> set (pend d dv)" "m \<in> set (completed d) \<Longrightarrow> v_status d m = 0" using u unfolding r(1,2) by auto
      then have "disk s (b_blockno (bufs s c)) = b_data (bufs s c)" using queues_okD(6) [OF q conjunct1 [OF u]] by blast
      then show ?thesis using False e(3,4) by simp
    qed
  qed (use queues_okD(1,2) [OF q] in simp_all)
qed

lemma complete_ok:
  assumes inv: "vinv S x" and i: "i \<in> set (dv_taken (dvs x))"
  shows "\<exists>y t b wr j k. dev_complete i st junk x = Some y \<and> vreq (vpcs x t) = Some (b, wr, i, j, k) \<and>
    (st = 0 \<longrightarrow> kern y = virtio_disk_rw b wr (kern x)) \<and> completed (vd y) = completed (vd x) @ [i] \<and> v_status (vd y) i = st \<and>
    (st \<in> S \<longrightarrow> vinv S y)"
proof -
  let ?d = "vd x" and ?s = "kern x" and ?w = "vreq \<circ> vpcs x" and ?a = "vbuf \<circ> vpcs x"
  have th: "threads_ok ?d ?s ?w ?a" and q: "queues_ok S ?d ?s (dvs x) ?w" using inv by (simp_all add: vinv_def)
  have "i \<in> set (pend ?d (dvs x) @ completed ?d)" using i by (simp add: pend_def)
  then obtain t b wr j k where t: "?w t = Some (b, wr, i, j, k)" "chain_ok ?d ?s (b, wr, i, j, k)"
    using queued_head [OF th q] by metis
  define s' where "s' = dev_transfer (v_ops ?d i) b BSIZE st junk ?s"
  note tr = transfer_rw [OF t(2) th s'_def]
  define y where "y = x\<lparr>kern := s', vd := reported i st ?d, dvs := (dvs x)\<lparr>dv_taken := remove1 i (dv_taken (dvs x))\<rparr>\<rparr>"
  have y: "dev_complete i st junk x = Some y"
    using request_ok [OF t(2)] by (simp add: dev_complete_def Let_def y_def s'_def reported_def)
  have "vinv S y" if S: "st \<in> S"
  proof -
    obtain xs where xs: "length xs = BSIZE" "s' = (if wr then ?s\<lparr>disk := (disk ?s)(b_blockno (bufs ?s b) := xs),
        dtrace := dtrace ?s @ [(b_blockno (bufs ?s b), xs)]\<rparr> else upd_buf b (\<lambda>x. x\<lparr>b_data := xs\<rparr>) ?s)" using tr(2) by blast
    have "disk s' (b_blockno (bufs ?s b)) = b_data (bufs s' b)" if "st = 0"
      using tr(1) [OF that] by (simp add: virtio_disk_rw_def Let_def upd_buf_def)
    from complete_inv [OF th q i S t(1) xs(2,1) this] show ?thesis by (simp add: vinv_def y_def comp_def)
  qed
  moreover have "completed (vd y) = completed ?d @ [i]" "v_status (vd y) i = st" "st = 0 \<longrightarrow> kern y = virtio_disk_rw b wr ?s"
    using reported_queues(1) [OF th q i] tr(1) by (simp_all add: y_def) (simp add: reported_def)
  ultimately show ?thesis using y t(1) by (intro exI [of _ y] exI [of _ t] exI [of _ b] exI [of _ wr] exI [of _ j] exI [of _ k]) simp
qed

section \<open>Every step keeps the invariant\<close>

lemma rw_try_cases:
  assumes "threads_ok d s w a" "queues_ok S d s dv w" "w t = None" "a t = Some b"
  shows "\<exists>r d' s'. rw_try b wr (d, s) = Ok (r, d', s') \<and>
    (case r of
       None \<Rightarrow> length (free_list d) < 3 \<and> threads_ok d' s' w a \<and> queues_ok S d' s' dv w
     | Some idx \<Rightarrow> threads_ok d' s' (w(t := Some (b, wr, idx ! 0, idx ! 1, idx ! 2))) a \<and>
         queues_ok S d' s' dv (w(t := Some (b, wr, idx ! 0, idx ! 1, idx ! 2))))"
proof (cases "3 \<le> length (free_list d)")
  case True
  then obtain i j k fs where f: "free_list d = i # j # k # fs"
    by (auto simp: numeral_3_eq_3 Suc_le_length_iff)
  obtain d' s' where d': "(d', s') = rw_publish b i (rw_format b wr (b_blockno (bufs s b)) i j k (take_descs [i, j, k] d), s)" by (metis surj_pair)
  have "rw_try b wr (d, s) = Ok (Some [i, j, k], d', s')"
    using f d' by (simp add: rw_try_def alloc3_desc_eq numeral_3_eq_3)
  then show ?thesis using submit_ok [OF assms f d'] by (intro exI [of _ "Some [i, j, k]"] exI [of _ d'] exI [of _ s']) (simp add: numeral_2_eq_2)
next
  case False
  then have "rw_try b wr (d, s) = Ok (None, give_descs (free_list d) (take_descs (free_list d) d), s)"
    by (simp add: rw_try_def alloc3_desc_eq)
  then show ?thesis using no_desc_ok [OF assms(1,2) refl] False by (intro exI) (auto simp: not_le)
qed

text \<open>A new request: nothing is known of its buffer but that no other thread uses it or its block.\<close>

lemma start_ok:
  assumes th: "threads_ok d s w a" and q: "queues_ok S d s dv w" and w: "w t = None" "a t = None" and l: "length data = BSIZE" "unat n < 2 ^ 31"
    and o: "\<forall>u b'. a u = Some b' \<longrightarrow> b' \<noteq> b \<and> b_blockno (bufs s b') \<noteq> n"
  defines "s' \<equiv> upd_buf b (\<lambda>x. x\<lparr>b_blockno := n, b_data := data\<rparr>) s"
  shows "threads_ok d s' w (a(t := Some b))" "queues_ok S d s' dv w"
proof -
  have wb: "c \<noteq> b" if "w u = Some (c, wr', m, j', k')" for u c wr' m j' k' using threads_okD(2) [OF th that] o by auto
  have e: "bufs s' c = (if c = b then (bufs s b)\<lparr>b_blockno := n, b_data := data\<rparr> else bufs s c)" "disk s' = disk s" for c
    by (simp_all add: s'_def)
  show "threads_ok d s' w (a(t := Some b))"
    unfolding threads_ok_def
  proof (intro conjI allI impI)
    fix u r assume u: "w u = Some r"
    then have "u \<noteq> t" using w by auto
    then show "(a(t := Some b)) u = Some (fst r)" using threads_okD(2) [OF th u] by simp
    show "chain_ok d s' r" using threads_okD(1) [OF th u] wb [of u] u by (cases r) (simp add: chain_ok_def e)
  next
    fix u v r r' assume "u \<noteq> v" "w u = Some r" "w v = Some r'"
    then show "req_descs r \<inter> req_descs r' = {}" using threads_okD(3) [OF th, of u r v r'] by blast
  next
    show "\<exists>t r. w t = Some r \<and> m \<in> req_descs r" if "m < NUM" "\<not> v_free d m" for m
      by (rule threads_okD(4) [OF th that])
  next
    fix u v c c' assume uv: "u \<noteq> v" "(a(t := Some b)) u = Some c" "(a(t := Some b)) v = Some c'"
    have "c \<noteq> c' \<and> b_blockno (bufs s' c) \<noteq> b_blockno (bufs s' c')"
    proof (cases "u = t \<or> v = t")
      case True
      then show ?thesis using uv o [rule_format, of v c'] o [rule_format, of u c] by (auto simp: e)
    next
      case False
      then show ?thesis using uv o [rule_format, of v c'] o [rule_format, of u c] threads_okD(5) [OF th, of u c v c'] by (auto simp: e)
    qed
    then show "c \<noteq> c'" "b_blockno (bufs s' c) \<noteq> b_blockno (bufs s' c')" by blast+
  qed (use threads_okD(6-8) [OF th] l in \<open>auto simp: e\<close>)
  have b: "(\<exists>u c wr' j' k'. w u = Some (c, wr', m, j', k') \<and> b_disk (bufs s' c) = 1) \<longleftrightarrow>
      (\<exists>u c wr' j' k'. w u = Some (c, wr', m, j', k') \<and> b_disk (bufs s c) = 1)" for m
  proof -
    have "b_disk (bufs s' c) = b_disk (bufs s c)" for c by (simp add: e)
    then show ?thesis by simp
  qed
  have "disk s' (b_blockno (bufs s' c)) = b_data (bufs s' c)"
    if "w u = Some (c, wr', i, j', k') \<and> i \<notin> set (pend d dv) \<and> (i \<in> set (completed d) \<longrightarrow> v_status d i = 0)" for u c wr' i j' k'
    using that queues_okD(6) [OF q, of u c wr' i j' k'] wb [of u c wr' i j' k'] by (simp add: e)
  then show "queues_ok S d s' dv w" using q unfolding queues_ok_def b by blast
qed

lemma vstep_vinv:
  assumes "virtio_device S dev" "vstep dev x y" "vinv S x" shows "vinv S y"
  using assms(2,3)
proof cases
  case (start t data n b wr)
  have "threads_ok (vd x) (kern x) (vreq \<circ> vpcs x) (vbuf \<circ> vpcs x)" "queues_ok S (vd x) (kern x) (dvs x) (vreq \<circ> vpcs x)"
    using assms(3) by (simp_all add: vinv_def)
  from start_ok [OF this _ _ start(3,4), of t b] start
  show ?thesis by (simp add: vinv_def set_pc_def fun_upd_comp fun_upd_idem)
next
  case (submit t b wr idx ds)
  then show ?thesis
    using rw_try_cases [of "vd x" "kern x" "vreq \<circ> vpcs x" "vbuf \<circ> vpcs x" S "dvs x" t b wr] assms(3)
    by (cases ds) (auto simp: vinv_upd, auto simp: vinv_def fun_upd_idem)
next
  case (no_desc t b wr ds)
  then show ?thesis
    using rw_try_cases [of "vd x" "kern x" "vreq \<circ> vpcs x" "vbuf \<circ> vpcs x" S "dvs x" t b wr] assms(3)
    by (cases ds) (auto simp: vinv_upd, auto simp: vinv_def fun_upd_idem)
next
  case (wait t b wr i j k)
  then show ?thesis using vinv_id [of _ x t] assms(3) by simp
next
  case (finish t b wr i j k d)
  then show ?thesis
    using finish_ok [of "vd x" "kern x" "vreq \<circ> vpcs x" "vbuf \<circ> vpcs x" S "dvs x" t b wr i j k] assms(3)
    by (auto simp: vinv_upd) (auto simp: vinv_def)
next
  case (kill t b)
  then show ?thesis using vinv_id [of _ x t] assms(3) by simp
next
  case (intr ds)
  then show ?thesis
    using intr_ok [of "vd x" "kern x" "vreq \<circ> vpcs x" "vbuf \<circ> vpcs x" S "dvs x"] assms(3)
    by (auto simp: vinv_def vupd_def wakes_same split: if_splits)
next
  case device
  then consider "dev_fetch x = Some y" | i st junk where "i \<in> set (dv_taken (dvs x))" "st \<in> S" "dev_complete i st junk x = Some y"
    | i where "i \<in> set (dv_taken (dvs x))" "dev_request i (vd x) = None"
    using assms(1) unfolding virtio_device_def by blast
  then show ?thesis
  proof cases
    case 1
    then show ?thesis using assms(3) by (rule fetch_ok)
  next
    case 2
    then show ?thesis using complete_ok [OF assms(3) 2(1), of st junk] by auto
  next
    case 3
    then show ?thesis using complete_ok [OF assms(3) 3(1), of 0 undefined] by (auto simp: dev_complete_def)
  qed
qed

lemma vsteps_vinv:
  assumes "(vstep dev)\<^sup>*\<^sup>* x y" "virtio_device S dev" "vinv S x" shows "vinv S y"
  using assms by (induction rule: rtranclp_induct) (auto intro: vstep_vinv)

text \<open>The descriptors in use are those of the waiting requests, three each.\<close>

lemma busy_count:
  assumes "vinv S x" shows "card (busy (vd x)) = 3 * card {t. vreq (vpcs x t) \<noteq> None}"
proof -
  let ?T = "{t. vreq (vpcs x t) \<noteq> None}" and ?D = "\<lambda>t. req_descs (the (vreq (vpcs x t)))"
  have th: "threads_ok (vd x) (kern x) (vreq \<circ> vpcs x) (vbuf \<circ> vpcs x)" using assms by (simp add: vinv_def)
  have c: "?D t \<subseteq> busy (vd x)" "card (?D t) = 3" "finite (?D t)" if tt: "t \<in> ?T" for t
  proof -
    obtain r where r: "vreq (vpcs x t) = Some r" using tt by auto
    then have "chain_ok (vd x) (kern x) r" using threads_okD(1) [OF th, of t] by simp
    then show "?D t \<subseteq> busy (vd x)" "card (?D t) = 3" "finite (?D t)" using r by (cases r; auto simp: chain_ok_def busy_def)+
  qed
  have dis: "?D t \<inter> ?D u = {}" if "t \<in> ?T" "u \<in> ?T" "t \<noteq> u" for t u
    using that threads_okD(3) [OF th, of t _ u] by fastforce
  have b: "busy (vd x) = (\<Union>t\<in>?T. ?D t)"
  proof (intro equalityI subsetI)
    fix n assume "n \<in> busy (vd x)"
    then obtain t r where "(vreq \<circ> vpcs x) t = Some r" "n \<in> req_descs r" using threads_okD(4) [OF th, of n] by (auto simp: busy_def)
    then show "n \<in> (\<Union>t\<in>?T. ?D t)" by (cases r, intro UN_I [of t]) auto
  qed (use c(1) in blast)
  have fb: "finite (busy (vd x))" by (simp add: busy_def)
  have "inj_on ?D ?T"
  proof (intro inj_onI)
    fix t u assume tu: "t \<in> ?T" "u \<in> ?T" "?D t = ?D u"
    have "?D t \<noteq> {}" using c(2) [OF tu(1)] by (metis card.empty zero_neq_numeral)
    then show "t = u" using dis [OF tu(1,2)] tu(3) by blast
  qed
  moreover have "?D ` ?T \<subseteq> Pow (busy (vd x))" using c(1) by blast
  ultimately have "finite ?T" by (rule inj_on_finite) (simp add: fb)
  then have "card (\<Union>t\<in>?T. ?D t) = (\<Sum>t\<in>?T. card (?D t))" using c(3) dis by (intro card_UN_disjoint) blast+
  also have "\<dots> = (\<Sum>t\<in>?T. 3)" using c(2) by (intro sum.cong) blast+
  finally show ?thesis unfolding b by simp
qed

section \<open>Properties\<close>

text \<open>
  (C5) The disk driver implements the transfer the buffer cache relies on. For every device that keeps to the virtio
  specification and reports statuses of \<open>S\<close>, and any number of threads in \<^verbatim>\<open>virtio_disk_rw\<close> for different blocks, in every
  reachable state: every request the device has taken is well formed for it, and when the device reports success for it the memory and the
  disk have changed exactly as by \<open>virtio_disk_rw\<close> of the cache model, for the buffer and direction of the thread that waits; the completion
  is appended to those the driver has to look at, with its status; a thread that
  finds \<^verbatim>\<open>b->disk\<close> cleared has its buffer equal to its block on the disk, so no failed request is taken for a successful one;
  no function of the driver panics, except \<^verbatim>\<open>virtio_disk_intr\<close>, which panics exactly when a status other than 0 has been reported
  (never, if \<open>S\<close> is \<open>{0}\<close>); and no descriptor is lost: three are in use for each waiting request.
\<close>

theorem virtio_driver_correct:
  assumes "virtio_device S dev" "vinit x0" "(vstep dev)\<^sup>*\<^sup>* x0 x"
  shows "(\<forall>t b wr. vpcs x t = VAlloc b wr \<longrightarrow> (\<exists>r ds. rw_try b wr (vd x, kern x) = Ok (r, ds))) \<and>
    (\<forall>i \<in> set (dv_taken (dvs x)). \<forall>st junk. \<exists>y t b wr j k. dev_complete i st junk x = Some y \<and>
       vreq (vpcs x t) = Some (b, wr, i, j, k) \<and> (st = 0 \<longrightarrow> kern y = virtio_disk_rw b wr (kern x)) \<and>
       completed (vd y) = completed (vd x) @ [i] \<and> v_status (vd y) i = st) \<and>
    (if \<forall>i \<in> set (completed (vd x)). v_status (vd x) i = 0 then \<exists>ds. virtio_disk_intr (vd x, kern x) = Ok ds
     else virtio_disk_intr (vd x, kern x) = Panic ''virtio_disk_intr status'') \<and>
    (\<forall>i \<in> set (completed (vd x)). v_status (vd x) i \<in> S) \<and>
    (\<forall>t b wr i j k. vpcs x t = VWait b wr i j k \<and> b_disk (bufs (kern x) b) \<noteq> 1 \<longrightarrow>
       (\<exists>d. rw_finish i (vd x) = Ok d) \<and> disk (kern x) (b_blockno (bufs (kern x) b)) = b_data (bufs (kern x) b)) \<and>
    card (busy (vd x)) = 3 * card {t. vreq (vpcs x t) \<noteq> None}"
proof -
  have inv: "vinv S x" using vsteps_vinv [OF assms(3,1)] vinit_vinv [OF assms(2)] .
  then have th: "threads_ok (vd x) (kern x) (vreq \<circ> vpcs x) (vbuf \<circ> vpcs x)" and q: "queues_ok S (vd x) (kern x) (dvs x) (vreq \<circ> vpcs x)"
    by (simp_all add: vinv_def)
  have "\<forall>t b wr. vpcs x t = VAlloc b wr \<longrightarrow> (\<exists>r ds. rw_try b wr (vd x, kern x) = Ok (r, ds))"
  proof (intro allI impI)
    fix t b wr assume "vpcs x t = VAlloc b wr"
    then show "\<exists>r ds. rw_try b wr (vd x, kern x) = Ok (r, ds)" using rw_try_cases [OF th q, of t b wr] by auto
  qed
  moreover have "if \<forall>i \<in> set (completed (vd x)). v_status (vd x) i = 0 then \<exists>ds. virtio_disk_intr (vd x, kern x) = Ok ds
      else virtio_disk_intr (vd x, kern x) = Panic ''virtio_disk_intr status''"
    using intr_ok [OF th q] by (auto split: if_splits)
  moreover have "\<forall>t b wr i j k. vpcs x t = VWait b wr i j k \<and> b_disk (bufs (kern x) b) \<noteq> 1 \<longrightarrow>
      (\<exists>d. rw_finish i (vd x) = Ok d) \<and> disk (kern x) (b_blockno (bufs (kern x) b)) = b_data (bufs (kern x) b)"
  proof (intro allI impI)
    fix t b wr i j k assume p: "vpcs x t = VWait b wr i j k \<and> b_disk (bufs (kern x) b) \<noteq> 1"
    have w: "(vreq \<circ> vpcs x) t = Some (b, wr, i, j, k)" using p by simp
    have "i \<notin> set (pend (vd x) (dvs x) @ completed (vd x))"
    proof
      assume "i \<in> set (pend (vd x) (dvs x) @ completed (vd x))"
      then obtain u c wr' j' k' where "(vreq \<circ> vpcs x) u = Some (c, wr', i, j', k')" "b_disk (bufs (kern x) c) = 1"
        using queued_head [OF th q] by metis
      then show False using same_head [OF th w] p by blast
    qed
    then show "(\<exists>d. rw_finish i (vd x) = Ok d) \<and> disk (kern x) (b_blockno (bufs (kern x) b)) = b_data (bufs (kern x) b)"
      using queues_okD(6) [OF q w] finish_ok [OF th q w] p by auto
  qed
  moreover have "\<forall>i \<in> set (completed (vd x)). v_status (vd x) i \<in> S" using queues_okD(5) [OF q] by blast
  moreover have "\<forall>i \<in> set (dv_taken (dvs x)). \<forall>st junk. \<exists>y t b wr j k. dev_complete i st junk x = Some y \<and>
       vreq (vpcs x t) = Some (b, wr, i, j, k) \<and> (st = 0 \<longrightarrow> kern y = virtio_disk_rw b wr (kern x)) \<and>
       completed (vd y) = completed (vd x) @ [i] \<and> v_status (vd y) i = st"
  proof (intro ballI allI)
    fix i st junk assume "i \<in> set (dv_taken (dvs x))"
    then show "\<exists>y t b wr j k. dev_complete i st junk x = Some y \<and>
       vreq (vpcs x t) = Some (b, wr, i, j, k) \<and> (st = 0 \<longrightarrow> kern y = virtio_disk_rw b wr (kern x)) \<and>
       completed (vd y) = completed (vd x) @ [i] \<and> v_status (vd y) i = st"
      using complete_ok [OF inv, of i st junk] by blast
  qed
  ultimately show ?thesis using busy_count [OF inv] by (intro conjI)
qed

text \<open>
  (C34) Waiting for descriptors is not passive: when one or two descriptors are free, a thread that fails to get three
  returns the ones it took with a \<^verbatim>\<open>wakeup\<close>, so every thread asleep for descriptors runs again although none became
  available. With two such threads each failing attempt wakes the other one, and the pair of states repeats until a request completes.
\<close>

theorem descriptor_wait_wakes:
  assumes "t \<noteq> u" "vpcs x t = VAlloc b wr" "vpcs x u = VSleepFree c wr'" "0 < length (free_list (vd x))" "length (free_list (vd x)) < 3"
    and "v_wakeups (vd x) = []"
  shows "\<exists>y z. vstep dev x y \<and> vpcs y t = VSleepFree b wr \<and> vpcs y u = VAlloc c wr' \<and>
    vstep dev y z \<and> vpcs z t = VAlloc b wr \<and> vpcs z u = VSleepFree c wr' \<and>
    v_free (vd y) = v_free (vd x) \<and> v_free (vd z) = v_free (vd x) \<and> kern z = kern x"
proof -
  have run: "rw_try b wr (d, s) = Ok (None, give_descs (free_list d) (take_descs (free_list d) d), s)"
    if "length (free_list d) < 3" for d b wr s using that by (simp add: rw_try_def alloc3_desc_eq)
  define d' where "d' d = give_descs (free_list d) (take_descs (free_list d) d)" for d
  have f: "v_free (d' d) = v_free d" "ChFree \<in> set (v_wakeups (d' d)) \<longleftrightarrow> ChFree \<in> set (v_wakeups d) \<or> 0 < length (free_list d)" for d
    using free_list_props(2) [of _ d] by (auto simp: d'_def give_descs_def take_descs_def fun_eq_iff)
  have fl: "free_list (d\<lparr>v_wakeups := ws\<rparr>) = free_list d" "free_list (d' d) = free_list d" for d ws
    using f(1) [of d] by (simp_all add: free_list_def)
  define y where "y = set_pc t (VSleepFree b wr) (vupd (d' (vd x), kern x) x)"
  have s1: "vstep dev x y" unfolding y_def d'_def using run [OF assms(5)] by (rule no_desc [OF assms(2)])
  have y: "vpcs y t = VSleepFree b wr" "vpcs y u = VAlloc c wr'" "v_free (vd y) = v_free (vd x)" "kern y = kern x"
      "free_list (vd y) = free_list (vd x)" "v_wakeups (vd y) = []"
    using assms(1,3,4) f by (simp_all add: y_def set_pc_def vupd_def fl)
  define z where "z = set_pc u (VSleepFree c wr') (vupd (d' (vd y), kern y) y)"
  have l: "length (free_list (vd y)) < 3" using assms(5) y(5) by simp
  have s2: "vstep dev y z" unfolding z_def d'_def using run [OF l] by (rule no_desc [OF y(2)])
  have "vpcs z t = VAlloc b wr" "vpcs z u = VSleepFree c wr'" "v_free (vd z) = v_free (vd x)" "kern z = kern x"
    using assms(1,4) f y by (simp_all add: z_def set_pc_def vupd_def)
  then show ?thesis using s1 s2 y by blast
qed

text \<open>A device that does everything the specification allows of well-formed requests, and the state after \<^verbatim>\<open>virtio_disk_init\<close>.\<close>

definition spec_dev :: "u8 set \<Rightarrow> vsys \<Rightarrow> vsys \<Rightarrow> bool" where
  "spec_dev S x y \<longleftrightarrow> dev_fetch x = Some y \<or> (\<exists>i \<in> set (dv_taken (dvs x)). \<exists>st \<in> S. \<exists>junk. dev_complete i st junk x = Some y)"

definition demo_vsys :: vsys where
  "demo_vsys = \<lparr>vd = zero_vdisk\<lparr>v_free := (\<lambda>i. i < NUM)\<rparr>, kern = boot_kernel\<lparr>bufs := (\<lambda>_. boot_buf)\<rparr>, dvs = \<lparr>dv_avail = 0, dv_taken = []\<rparr>, vpcs = (\<lambda>_. VIdle)\<rparr>"

text \<open>Thread 0 writes block 7 from buffer 5. The device takes the request and may carry it out or report an error.\<close>

lemma demo_request:
  "\<exists>x. (vstep (spec_dev S))\<^sup>*\<^sup>* demo_vsys x \<and> dv_taken (dvs x) = [0] \<and> completed (vd x) = [] \<and>
     (\<forall>t. vreq (vpcs x t) = (if t = 0 then Some (5, True, 0, 1, 2) else None)) \<and>
     b_blockno (bufs (kern x) 5) = 7 \<and> b_data (bufs (kern x) 5) = replicate BSIZE 3"
proof -
  define x1 where "x1 = set_pc 0 (VAlloc 5 True)
    (demo_vsys\<lparr>kern := upd_buf 5 (\<lambda>x. x\<lparr>b_blockno := 7, b_data := replicate BSIZE 3\<rparr>) (kern demo_vsys)\<rparr>)"
  have s1: "vstep (spec_dev S) demo_vsys x1" unfolding x1_def by (rule start) (simp_all add: demo_vsys_def)
  have x1: "vd x1 = zero_vdisk\<lparr>v_free := (\<lambda>i. i < NUM)\<rparr>" "vpcs x1 = (\<lambda>_. VIdle)(0 := VAlloc 5 True)" "dvs x1 = \<lparr>dv_avail = 0, dv_taken = []\<rparr>"
      "b_blockno (bufs (kern x1) 5) = 7" "b_data (bufs (kern x1) 5) = replicate BSIZE 3"
    by (simp_all add: x1_def set_pc_def demo_vsys_def)
  have "free_list (vd x1) = [0, 1, 2, 3, 4, 5, 6, 7]" by (simp add: free_list_def x1(1) NUM_def upt_rec)
  moreover obtain d s where ds: "rw_publish 5 0 (rw_format 5 True (b_blockno (bufs (kern x1) 5)) 0 1 2 (take_descs [0, 1, 2] (vd x1)), kern x1) = (d, s)"
    by fastforce
  ultimately have "rw_try 5 True (vd x1, kern x1) = Ok (Some [0, 1, 2], d, s)"
    by (simp add: rw_try_def alloc3_desc_eq numeral_2_eq_2 numeral_3_eq_3)
  then have s2: "vstep (spec_dev S) x1 (set_pc 0 (VWait 5 True 0 1 2) (vupd (d, s) x1))" (is "vstep _ _ ?x2")
    using submit [of x1 0 5 True "[0, 1, 2]"] x1(2) by (simp add: numeral_2_eq_2)
  have d: "v_avail_idx d = 1" "v_avail d = (replicate NUM 0)[0 := 0]" "completed d = []"
      "b_blockno (bufs s 5) = 7" "b_data (bufs s 5) = replicate BSIZE 3"
    using ds x1(4,5) by (auto simp: rw_publish_def rw_format_def Let_def take_descs_def x1(1) zero_vdisk_def completed_def)
  have "(replicate NUM 0)[0 := 0] ! 0 = (0 :: u16)" by (simp add: NUM_def)
  then obtain x3 where x3: "dev_fetch ?x2 = Some x3" "dv_taken (dvs x3) = [0]" "vpcs x3 = vpcs ?x2" "kern x3 = s" "completed (vd x3) = []"
    using d by (simp add: dev_fetch_def set_pc_def vupd_def x1)
  then have "vstep (spec_dev S) ?x2 x3" by (intro device) (simp add: spec_dev_def)
  then have "(vstep (spec_dev S))\<^sup>*\<^sup>* demo_vsys x3" using s1 s2 by (meson rtranclp.rtrancl_into_rtrancl rtranclp.rtrancl_refl)
  moreover have "vreq (vpcs x3 t) = (if t = 0 then Some (5, True, 0, 1, 2) else None)" for t
    by (simp add: x3(3) set_pc_def vupd_def x1)
  ultimately show ?thesis using x3 d(4,5) by (intro exI [of _ x3]) simp
qed

theorem virtio_driver_correct_witness:
  "\<exists>x y z. (vstep (spec_dev {0, 1}))\<^sup>*\<^sup>* demo_vsys x \<and> dev_complete 0 0 (\<lambda>_. 0) x = Some y \<and> disk (kern y) 7 = replicate BSIZE 3 \<and>
     (\<exists>ds. virtio_disk_intr (vd y, kern y) = Ok ds) \<and> card (busy (vd x)) = 3 * card {0 :: nat} \<and>
     dev_complete 0 1 (\<lambda>_. 0) x = Some z \<and> virtio_disk_intr (vd z, kern z) = Panic ''virtio_disk_intr status''"
proof -
  have dev: "virtio_device {0, 1} (spec_dev {0, 1})" by (auto simp: virtio_device_def spec_dev_def)
  have init: "vinit demo_vsys" by (simp add: vinit_def demo_vsys_def zero_vdisk_def boot_buf_def boot_kernel_def)
  obtain x where x: "(vstep (spec_dev {0, 1}))\<^sup>*\<^sup>* demo_vsys x" "dv_taken (dvs x) = [0]" "completed (vd x) = []"
      "\<forall>t. vreq (vpcs x t) = (if t = 0 then Some (5, True, 0, 1, 2) else None)"
      "b_blockno (bufs (kern x) 5) = 7" "b_data (bufs (kern x) 5) = replicate BSIZE 3"
    using demo_request by blast
  have c: "\<exists>y. dev_complete 0 st (\<lambda>_. 0) x = Some y \<and> (st = 0 \<longrightarrow> kern y = virtio_disk_rw 5 True (kern x)) \<and>
      completed (vd y) = [0] \<and> v_status (vd y) 0 = st" for st
  proof -
    obtain y t b wr j k where "dev_complete 0 st (\<lambda>_. 0) x = Some y" "vreq (vpcs x t) = Some (b, wr, 0, j, k)"
        "st = 0 \<longrightarrow> kern y = virtio_disk_rw b wr (kern x)" "completed (vd y) = completed (vd x) @ [0]" "v_status (vd y) 0 = st"
      using virtio_driver_correct [OF dev init x(1)] x(2) by (metis list.set_intros(1))
    then show ?thesis using x(3,4) by (auto split: if_splits)
  qed
  obtain y z where y: "dev_complete 0 0 (\<lambda>_. 0) x = Some y" "kern y = virtio_disk_rw 5 True (kern x)" "completed (vd y) = [0]" "v_status (vd y) 0 = 0"
    and z: "dev_complete 0 1 (\<lambda>_. 0) x = Some z" "completed (vd z) = [0]" "v_status (vd z) 0 = 1" using c [of 0] c [of 1] by auto
  have "vstep (spec_dev {0, 1}) x y" "vstep (spec_dev {0, 1}) x z"
    using y(1) z(1) x(2) by (auto intro!: device simp: spec_dev_def)
  then have r: "(vstep (spec_dev {0, 1}))\<^sup>*\<^sup>* demo_vsys y" "(vstep (spec_dev {0, 1}))\<^sup>*\<^sup>* demo_vsys z" using x(1) by simp_all
  have "\<exists>ds. virtio_disk_intr (vd y, kern y) = Ok ds" using virtio_driver_correct [OF dev init r(1)] y(3,4) by simp
  moreover have "virtio_disk_intr (vd z, kern z) = Panic ''virtio_disk_intr status''"
    using virtio_driver_correct [OF dev init r(2)] z(2,3) by simp
  moreover have "card (busy (vd x)) = 3 * card {0 :: nat}"
  proof -
    have "{t. vreq (vpcs x t) \<noteq> None} = {0}" using x(4) by (auto split: if_splits)
    then show ?thesis using virtio_driver_correct [OF dev init x(1)] by simp
  qed
  moreover have "disk (kern y) 7 = replicate BSIZE 3" using y(2) x(5,6) by (simp add: virtio_disk_rw_def Let_def)
  ultimately show ?thesis using x(1) y(1) z(1) by blast
qed

theorem descriptor_wait_wakes_witness:
  "\<exists>x y z. vpcs x 0 = VAlloc 5 True \<and> vpcs x 1 = VSleepFree 6 True \<and> vstep (spec_dev {0}) x y \<and> vpcs y 1 = VAlloc 6 True \<and>
     vstep (spec_dev {0}) y z \<and> vpcs z 0 = vpcs x 0 \<and> vpcs z 1 = vpcs x 1"
proof -
  define x where "x = demo_vsys\<lparr>vd := zero_vdisk\<lparr>v_free := (\<lambda>i. i = 7)\<rparr>, vpcs := (\<lambda>_. VIdle)(0 := VAlloc 5 True, 1 := VSleepFree 6 True)\<rparr>"
  have "free_list (vd x) = [7]" by (simp add: x_def free_list_def NUM_def upt_rec)
  moreover have p: "vpcs x 0 = VAlloc 5 True" "vpcs x 1 = VSleepFree 6 True" "v_wakeups (vd x) = []" by (simp_all add: x_def zero_vdisk_def)
  ultimately obtain y z where "vstep (spec_dev {0}) x y" "vpcs y 1 = VAlloc 6 True" "vstep (spec_dev {0}) y z" "vpcs z 0 = VAlloc 5 True" "vpcs z 1 = VSleepFree 6 True"
    using descriptor_wait_wakes [of 0 1 x 5 True 6 True "spec_dev {0}"] by auto
  then show ?thesis using p by metis
qed

end
