(* ===== verification/Syscall.thy ===== *)
theory Syscall
  imports Sysfile
begin

text \<open>
  The process system calls (\<^verbatim>\<open>kernel/sysproc.c\<close>), the dispatcher \<^verbatim>\<open>syscall\<close> (\<^verbatim>\<open>kernel/syscall.c\<close>), and traps and
  interrupts (\<^verbatim>\<open>kernel/trap.c\<close>) with \<^verbatim>\<open>forkret\<close> of \<^verbatim>\<open>kernel/proc.c\<close>. The control registers of the hart are the
  record \<open>csrs\<close>; what the devices have to say is the record \<open>devin\<close>.
\<close>

section \<open>Process system calls\<close>

definition SBRK_EAGER :: int where "SBRK_EAGER = 1"

definition sys_exit :: "nat \<Rightarrow> kernel \<Rightarrow> kernel res" where
  "sys_exit me s = res_bind (argint me 0 s) (\<lambda>n. kexit me n s)"

definition sys_getpid :: "nat \<Rightarrow> kernel \<Rightarrow> (u64 \<times> kernel) res" where
  "sys_getpid me s = Ok (scast (p_pid (procs s me)), s)"

definition sys_fork :: "nat \<Rightarrow> kernel \<Rightarrow> (u64 \<times> kernel) res" where
  "sys_fork me s = res_bind (kfork me s) (\<lambda>(r, s). Ok (word_of_int r, s))"

definition sys_wait :: "nat \<Rightarrow> kernel \<Rightarrow> (u64 \<times> kernel) res" where
  "sys_wait me s =
     res_bind (argaddr me 0 s) (\<lambda>p. res_bind (kwait me p s) (\<lambda>(r, s). Ok (word_of_int r, s)))"

definition sys_sbrk :: "nat \<Rightarrow> kernel \<Rightarrow> (u64 \<times> kernel) res" where
  "sys_sbrk me s =
     res_bind (argint me 0 s) (\<lambda>n.
     res_bind (argint me 1 s) (\<lambda>t.
     let addr = p_sz (procs s me) in
     if t = SBRK_EAGER \<or> n < 0
     then res_bind (growproc me n s) (\<lambda>(r, s). if r < 0 then Ok (-1, s) else Ok (addr, s))
     else if addr + word_of_int n < addr then Ok (-1, s)
     else if addr + word_of_int n > TRAPFRAME then Ok (-1, s)
     else Ok (addr, upd_proc me (\<lambda>p. p\<lparr>p_sz := p_sz p + word_of_int n\<rparr>) s)))"

text \<open>One visit of the loop of \<^verbatim>\<open>sys_pause\<close>, which started at \<open>ticks0\<close>.\<close>

definition pause_run :: "nat \<Rightarrow> u32 \<Rightarrow> u32 \<Rightarrow> kernel \<Rightarrow> outcome" where
  "pause_run me ticks0 n s =
     (if ticks s - ticks0 < n
      then (if killed me s \<noteq> 0 then Done (-1) else Blocked (a_ticks (syms s)))
      else Done 0)"

definition sys_pause :: "nat \<Rightarrow> kernel \<Rightarrow> (u64 \<times> kernel) res" where
  "sys_pause me s =
     res_bind (argint me 0 s) (\<lambda>n.
     case pause_run me (ticks s) (word_of_int (max 0 n)) s of Done r \<Rightarrow> Ok (word_of_int r, s) | Blocked c \<Rightarrow> Sleeps c)"

definition sys_kill :: "nat \<Rightarrow> kernel \<Rightarrow> (u64 \<times> kernel) res" where
  "sys_kill me s =
     res_bind (argint me 0 s) (\<lambda>pid.
     res_bind (res_of (kkill (word_of_int pid) s)) (\<lambda>(r, s). Ok (word_of_int r, s)))"

definition sys_uptime :: "nat \<Rightarrow> kernel \<Rightarrow> (u64 \<times> kernel) res" where
  "sys_uptime me s = Ok (ucast (ticks s), s)"

section \<open>Dispatch\<close>

text \<open>The table \<^verbatim>\<open>syscalls[]\<close>, without \<^verbatim>\<open>sys_exit\<close>, which does not return.\<close>

definition syscalls :: "u8 list \<Rightarrow> (int \<times> (nat \<Rightarrow> kernel \<Rightarrow> (u64 \<times> kernel) res)) list" where
  "syscalls pad =
     [(1, sys_fork), (3, sys_wait), (4, sys_pipe), (5, sys_read), (6, sys_kill), (7, sys_exec), (8, sys_fstat pad),
      (9, sys_chdir), (10, sys_dup), (11, sys_getpid), (12, sys_sbrk), (13, sys_pause), (14, sys_uptime),
      (15, sys_open), (16, sys_write), (17, sys_mknod), (18, sys_unlink), (19, sys_link), (20, sys_mkdir),
      (21, sys_close)]"

definition SYS_exit :: int where "SYS_exit = 2"

text \<open>\<^verbatim>\<open>syscall\<close>: the flag says that the process has exited.\<close>

definition syscall :: "u8 list \<Rightarrow> nat \<Rightarrow> kernel \<Rightarrow> (bool \<times> kernel) res" where
  "syscall pad me s =
     (let num = sint (ucast (tf_get me TF_a7 s) :: u32) in
      if num = SYS_exit then res_bind (sys_exit me s) (\<lambda>s. Ok (True, s))
      else (case map_of (syscalls pad) num of
        Some f \<Rightarrow> res_bind (f me s) (\<lambda>(r, s). Ok (False, tf_set me TF_a0 r s))
      | None \<Rightarrow>
          res_bind (printf ''%d %s: unknown sys call %d\<newline>''
            [VNum (ucast (p_pid (procs s me))), VStr (Some (c_string (p_name (procs s me)))), VNum (word_of_int num)] s) (\<lambda>s.
          Ok (False, tf_set me TF_a0 (-1) s))))"

section \<open>Traps\<close>

record csrs =
  sstatus :: u64
  sepc :: u64
  scause :: u64
  stval :: u64
  stvec :: u64
  satp :: u64
  tp :: u64
  stimecmp :: u64
  rtime :: u64

record devin =
  plic_irq :: u32
  uart_tx_idle :: bool
  uart_rx :: "u8 list"

definition SSTATUS_SPP :: u64 where "SSTATUS_SPP = push_bit 8 1"
definition SSTATUS_SPIE :: u64 where "SSTATUS_SPIE = push_bit 5 1"
definition SSTATUS_SIE :: u64 where "SSTATUS_SIE = push_bit 1 1"

definition intr_on :: "csrs \<Rightarrow> csrs" where "intr_on r = r\<lparr>sstatus := sstatus r OR SSTATUS_SIE\<rparr>"
definition intr_off :: "csrs \<Rightarrow> csrs" where "intr_off r = r\<lparr>sstatus := sstatus r AND NOT SSTATUS_SIE\<rparr>"
definition intr_get :: "csrs \<Rightarrow> bool" where "intr_get r \<longleftrightarrow> sstatus r AND SSTATUS_SIE \<noteq> 0"

definition MAKE_SATP :: "u64 \<Rightarrow> u64" where
  "MAKE_SATP pagetable = push_bit 60 8 OR drop_bit 12 pagetable"

text \<open>\<^verbatim>\<open>clockintr\<close> on hart \<open>c\<close>; only hart 0 counts the ticks.\<close>

definition clockintr :: "nat \<Rightarrow> csrs \<Rightarrow> kernel \<Rightarrow> (csrs \<times> kernel) res" where
  "clockintr c r s =
     res_bind (if c = 0 then do_wakeup (a_ticks (syms s)) (s\<lparr>ticks := ticks s + 1\<rparr>) else Ok s) (\<lambda>s.
     Ok (r\<lparr>stimecmp := rtime r + 1000000\<rparr>, s))"

definition UART0_IRQ :: u32 where "UART0_IRQ = 10"
definition VIRTIO0_IRQ :: u32 where "VIRTIO0_IRQ = 1"

text \<open>
  \<^verbatim>\<open>devintr\<close>. A disk request of the model is complete when \<^verbatim>\<open>virtio_disk_rw\<close> returns, its interrupt having
  been taken during the sleep there, so a later disk interrupt finds nothing to do.
\<close>

definition devintr :: "nat \<Rightarrow> devin \<Rightarrow> csrs \<Rightarrow> kernel \<Rightarrow> (int \<times> csrs \<times> kernel) res" where
  "devintr c dv r s =
     (if scause r = 0x8000000000000009
      then res_bind
        (if plic_irq dv = UART0_IRQ then uartintr (uart_tx_idle dv) (uart_rx dv) s
         else if plic_irq dv = VIRTIO0_IRQ then Ok s
         else if plic_irq dv \<noteq> 0 then printf ''unexpected interrupt irq=%d\<newline>'' [VNum (ucast (plic_irq dv))] s
         else Ok s) (\<lambda>s. Ok (1, r, s))
      else if scause r = 0x8000000000000005 then res_bind (clockintr c r s) (\<lambda>(r, s). Ok (2, r, s))
      else Ok (0, r, s))"

definition prepare_return :: "nat \<Rightarrow> csrs \<Rightarrow> kernel \<Rightarrow> csrs \<times> kernel" where
  "prepare_return me r s =
     (let r = intr_off r;
          r = r\<lparr>stvec := TRAMPOLINE + (a_uservec (syms s) - a_trampoline (syms s))\<rparr>;
          s = tf_set me TF_kernel_satp (satp r) s;
          s = tf_set me TF_kernel_sp (p_kstack (procs s me) + PGSIZE) s;
          s = tf_set me TF_kernel_trap (a_usertrap (syms s)) s;
          s = tf_set me TF_kernel_hartid (tp r) s;
          r = r\<lparr>sstatus := (sstatus r AND NOT SSTATUS_SPP) OR SSTATUS_SPIE\<rparr>;
          r = r\<lparr>sepc := tf_get me TF_epc s\<rparr> in
      (r, s))"

text \<open>How a trap from user space ends: back to user space, in \<^verbatim>\<open>kexit\<close>, or in \<^verbatim>\<open>yield\<close>.\<close>

datatype trapend = ToUser u64 | Exited | Yields

definition usertrap_return :: "nat \<Rightarrow> csrs \<Rightarrow> kernel \<Rightarrow> (trapend \<times> csrs \<times> kernel) res" where
  "usertrap_return me r s =
     (let (r, s) = prepare_return me r s in Ok (ToUser (MAKE_SATP (p_pagetable (procs s me))), r, s))"

text \<open>\<^verbatim>\<open>usertrap\<close> after the cause has been handled; \<open>which_dev\<close> is the result of \<^verbatim>\<open>devintr\<close>.\<close>

definition usertrap_end :: "nat \<Rightarrow> int \<Rightarrow> csrs \<Rightarrow> kernel \<Rightarrow> (trapend \<times> csrs \<times> kernel) res" where
  "usertrap_end me which_dev r s =
     (if killed me s \<noteq> 0 then res_bind (kexit me (-1) s) (\<lambda>s. Ok (Exited, r, s))
      else if which_dev = 2 then Ok (Yields, r, s)
      else usertrap_return me r s)"

definition usertrap ::
    "u8 list \<Rightarrow> nat \<Rightarrow> u64 \<Rightarrow> devin \<Rightarrow> nat \<Rightarrow> csrs \<Rightarrow> kernel \<Rightarrow> (trapend \<times> csrs \<times> kernel) res" where
  "usertrap pad c kernelvec dv me r s =
     (if sstatus r AND SSTATUS_SPP \<noteq> 0 then Panic ''usertrap: not from user mode''
      else (let r = r\<lparr>stvec := kernelvec\<rparr>; s = tf_set me TF_epc (sepc r) s in
        if scause r = 8
        then (if killed me s \<noteq> 0 then res_bind (kexit me (-1) s) (\<lambda>s. Ok (Exited, r, s))
          else res_bind (syscall pad me (tf_set me TF_epc (tf_get me TF_epc s + 4) s)) (\<lambda>(exited, s).
            if exited then Ok (Exited, intr_on r, s) else usertrap_end me 0 (intr_on r) s))
        else res_bind (devintr c dv r s) (\<lambda>(which_dev, r, s).
          if which_dev \<noteq> 0 then usertrap_end me which_dev r s
          else res_bind
            (if scause r = 15 \<or> scause r = 13 then vmfault me (p_pagetable (procs s me)) (stval r) s else Ok (0, s))
            (\<lambda>(pa, s).
            if pa \<noteq> 0 then usertrap_end me 0 r s
            else res_bind (printf ''usertrap(): unexpected scause 0x%lx pid=%d\<newline>''
                   [VNum (scause r), VNum (ucast (p_pid (procs s me)))] s) (\<lambda>s.
              res_bind (printf ''            sepc=0x%lx stval=0x%lx\<newline>'' [VNum (sepc r), VNum (stval r)] s) (\<lambda>s.
              usertrap_end me 0 r (setkilled me s)))))))"

text \<open>\<^verbatim>\<open>kerneltrap\<close> up to its \<^verbatim>\<open>yield\<close>, which the flag announces, and its restoring end.\<close>

definition kerneltrap :: "nat \<Rightarrow> devin \<Rightarrow> csrs \<Rightarrow> kernel \<Rightarrow> (bool \<times> csrs \<times> kernel) res" where
  "kerneltrap c dv r s =
     (if sstatus r AND SSTATUS_SPP = 0 then Panic ''kerneltrap: not from supervisor mode''
      else if intr_get r then Panic ''kerneltrap: interrupts enabled''
      else res_bind (devintr c dv r s) (\<lambda>(which_dev, r', s).
        if which_dev = 0
        then res_bind (printf ''scause=0x%lx sepc=0x%lx stval=0x%lx\<newline>'' [VNum (scause r), VNum (sepc r'), VNum (stval r')] s) (\<lambda>s.
          Panic ''kerneltrap'')
        else Ok (which_dev = 2 \<and> c_proc (cpus s c) \<noteq> None, r'\<lparr>sepc := sepc r, sstatus := sstatus r\<rparr>, s)))"

definition forkret :: "nat \<Rightarrow> csrs \<Rightarrow> kernel \<Rightarrow> (u64 \<times> csrs \<times> kernel) res" where
  "forkret me r s =
     res_bind
       (if forkret_first s
        then res_bind (fsinit me ROOTDEV s) (\<lambda>s.
          res_bind (kexec me (str ''/init'') [str ''/init''] (s\<lparr>forkret_first := False\<rparr>)) (\<lambda>(r, s).
          let s = tf_set me TF_a0 (word_of_int r) s in
          if tf_get me TF_a0 s = -1 then Panic ''exec'' else Ok s))
        else Ok s) (\<lambda>s.
     let (r, s) = prepare_return me r s in Ok (MAKE_SATP (p_pagetable (procs s me)), r, s))"

section \<open>Boot\<close>

definition UART0 :: u64 where "UART0 = 0x10000000"
definition VIRTIO0 :: u64 where "VIRTIO0 = 0x10001000"
definition PLIC :: u64 where "PLIC = 0x0c000000"

text \<open>\<^verbatim>\<open>kvmmake\<close>; \<open>etext\<close> is the linker's symbol for the end of the kernel code.\<close>

definition kvmmake :: "u64 \<Rightarrow> kernel \<Rightarrow> (u64 \<times> kernel) res" where
  "kvmmake etext s =
     (let (kpgtbl, s) = kalloc s; s = s\<lparr>mem := memset (mem s) kpgtbl 0 (unat PGSIZE)\<rparr> in
      res_bind (kvmmap kpgtbl UART0 UART0 PGSIZE (PTE_R OR PTE_W) s) (\<lambda>s.
      res_bind (kvmmap kpgtbl VIRTIO0 VIRTIO0 PGSIZE (PTE_R OR PTE_W) s) (\<lambda>s.
      res_bind (kvmmap kpgtbl PLIC PLIC 0x4000000 (PTE_R OR PTE_W) s) (\<lambda>s.
      res_bind (kvmmap kpgtbl KERNBASE KERNBASE (etext - KERNBASE) (PTE_R OR PTE_X) s) (\<lambda>s.
      res_bind (kvmmap kpgtbl etext etext (PHYSTOP - etext) (PTE_R OR PTE_W) s) (\<lambda>s.
      res_bind (kvmmap kpgtbl TRAMPOLINE (a_trampoline (syms s)) PGSIZE (PTE_R OR PTE_X) s) (\<lambda>s.
      res_bind (proc_mapstacks kpgtbl s) (\<lambda>s. Ok (kpgtbl, s)))))))))"

text \<open>The boot of CPU 0 up to \<^verbatim>\<open>scheduler\<close>: the kernel page table and the state.\<close>

definition main_boot :: "u64 \<Rightarrow> kernel \<Rightarrow> (u64 \<times> kernel) res" where
  "main_boot etext s =
     (let s = consoleinit s in
      res_bind (printf ''\<newline>'' [] s) (\<lambda>s.
      res_bind (printf ''xv6 kernel is booting\<newline>'' [] s) (\<lambda>s.
      res_bind (printf ''\<newline>'' [] s) (\<lambda>s.
      res_bind (kinit s) (\<lambda>s.
      res_bind (kvmmake etext s) (\<lambda>(kpgtbl, s).
      res_bind (userinit (iinit (binit (procinit s)))) (\<lambda>s. Ok (kpgtbl, s))))))))"

end
