(* ===== verification/Spec2Isabelle.thy ===== *)
theory Spec2Isabelle
  imports SleepWakeup Paging DirSpec LineDisc Descriptors VirtioSpec Syscall
begin

text \<open>
  Verification of an xv6-riscv kernel in which sleeping processes are kept on a hash-bucketed wait queue.

  \<^bold>\<open>The program and its parts.\<close> The kernel under \<^verbatim>\<open>src/kernel\<close> is a set of C files around a few global structures. At the
  bottom are spin locks and the wait queue; \<^verbatim>\<open>sleep\<close>, \<^verbatim>\<open>wakeup\<close> and \<^verbatim>\<open>wakeup_one\<close> are built on them, and sleep locks,
  pipes, the console and the disk driver wait with them. The page allocator feeds the page tables, which carry every copy between
  kernel and user memory. The file system is a tower: disk driver, buffer cache, log, block bitmap, inodes, file content, directories.
  Open files, processes, program loading and system calls sit on top, traps and boot around them.

  \<^bold>\<open>Theories and sources.\<close>
  \<^item> \<^verbatim>\<open>Prelude\<close>, \<^verbatim>\<open>Machine\<close>: machine words, byte memory, the result type, linked chains; \<^verbatim>\<open>types.h\<close>, \<^verbatim>\<open>param.h\<close>, \<^verbatim>\<open>memlayout.h\<close>,
    the paging macros of \<^verbatim>\<open>riscv.h\<close>, the structures of \<^verbatim>\<open>spinlock.h\<close>, \<^verbatim>\<open>proc.h\<close>, \<^verbatim>\<open>waitqueue.h\<close>.
  \<^item> \<^verbatim>\<open>WaitQueue\<close> (\<^verbatim>\<open>waitqueue.c\<close>), \<^verbatim>\<open>Sched\<close> (the sleeping half of \<^verbatim>\<open>proc.c\<close>), \<^verbatim>\<open>SleepWakeup\<close> (the same code, one lock operation
    at a time), \<^verbatim>\<open>Spinlock\<close> (\<^verbatim>\<open>spinlock.c\<close>), \<^verbatim>\<open>Sleeplock\<close> (\<^verbatim>\<open>sleeplock.c\<close>).
  \<^item> \<^verbatim>\<open>CString\<close> (\<^verbatim>\<open>string.c\<close>), \<^verbatim>\<open>Kalloc\<close> (\<^verbatim>\<open>kalloc.c\<close>), \<^verbatim>\<open>Vm\<close> (\<^verbatim>\<open>vm.c\<close>) and \<^verbatim>\<open>Paging\<close> (its correctness), \<^verbatim>\<open>KernelState\<close> (the
    remaining structures, in the record \<open>kernel\<close>), \<^verbatim>\<open>Printf\<close> (\<^verbatim>\<open>printf.c\<close>).
  \<^item> \<^verbatim>\<open>Bio\<close> (\<^verbatim>\<open>bio.c\<close>), \<^verbatim>\<open>Log\<close> (\<^verbatim>\<open>log.c\<close>), and \<^verbatim>\<open>fs.c\<close> in \<^verbatim>\<open>Balloc\<close>, \<^verbatim>\<open>Inode\<close>, \<^verbatim>\<open>Content\<close>, \<^verbatim>\<open>Dir\<close>, with the correctness of
    truncation in \<^verbatim>\<open>Trunc\<close>, of reading and writing in \<^verbatim>\<open>ReadWrite\<close>, of directories in \<^verbatim>\<open>DirSpec\<close>.
  \<^item> \<^verbatim>\<open>Virtio\<close> (\<^verbatim>\<open>virtio_disk.c\<close>, \<^verbatim>\<open>virtio.h\<close>, and the device), \<^verbatim>\<open>VirtioInv\<close> (its invariant), \<^verbatim>\<open>VirtioSpec\<close> (its properties).
  \<^item> \<^verbatim>\<open>Ring\<close> (circular buffers), \<^verbatim>\<open>Pipe\<close> (\<^verbatim>\<open>pipe.c\<close>), \<^verbatim>\<open>Console\<close> (\<^verbatim>\<open>console.c\<close>, \<^verbatim>\<open>uart.c\<close>), \<^verbatim>\<open>LineDisc\<close> (its correctness).
  \<^item> \<^verbatim>\<open>File\<close> (\<^verbatim>\<open>file.c\<close>), \<^verbatim>\<open>Proc\<close> (the rest of \<^verbatim>\<open>proc.c\<close>), \<^verbatim>\<open>Exec\<close> (\<^verbatim>\<open>exec.c\<close>), \<^verbatim>\<open>Sysfile\<close> (\<^verbatim>\<open>sysfile.c\<close> and the arguments of
    \<^verbatim>\<open>syscall.c\<close>), \<^verbatim>\<open>Descriptors\<close> (the typing of descriptors), \<^verbatim>\<open>Syscall\<close> (\<^verbatim>\<open>sysproc.c\<close>, \<^verbatim>\<open>trap.c\<close>, the boot of \<^verbatim>\<open>main.c\<close>). This
    theory holds what spans processes, files and pipes.

  \<^bold>\<open>State and operations.\<close> A C function is a HOL function of its own name from a state to \<open>Ok\<close> of its result and the new state, \<open>Panic\<close>,
  \<open>Sleeps\<close> (it waits for something only another process can do) or \<open>Loops\<close>. The state is the record \<open>kstate\<close> and its extension
  \<open>kernel\<close>; a pointer into a table is an index, a pointer to memory a 64-bit word, and memory a function from addresses to bytes. The index
  \<open>me\<close> is the process that runs. A section under a spin lock is one step of the sequential model. Where the interleaving is the point,
  a step relation takes over: \<open>lock_step\<close> for one spin lock and any number of CPUs, \<open>step\<close> for sleeping and waking, \<open>sl_step\<close> for sleep locks,
  \<open>op_step\<close> for concurrent file-system operations, \<open>vstep\<close> for threads in the disk driver, its interrupt handler and the device.

  \<^bold>\<open>What is shown.\<close>
  \<^item> Waiting: the queue operations refine sixteen lists; \<^verbatim>\<open>wakeup\<close> wakes what a scan of the process table would; no wakeup is lost when the
    condition lock is held across the change and the call, and a sleeper comes back; the lockless test \<^verbatim>\<open>wq_has_sleeper\<close> loses one when it is not. \<^verbatim>\<open>kkill\<close>, spin locks and sleep locks.
  \<^item> Memory: overlapping copies, strings, numerals; the allocator hands out each free page once; \<^verbatim>\<open>mappages\<close> maps exactly its range; what
    \<^verbatim>\<open>copyout\<close> stores \<^verbatim>\<open>copyin\<close> reads.
  \<^item> File system: the driver performs the transfer the cache assumes and panics exactly on a reported error; the cache is an array of blocks; a commit is
    atomic under a crash; the log does not overflow; allocation, inodes, file content, directories and paths do what their callers rely on.
  \<^item> Pipes, console and descriptors: pipes are bounded queues, also across the wrap-around of their counters; one reader can be left asleep beside data; the console is a
    line editor; descriptors keep their files alive and count them, up to the last close, which may free an unlinked file; \<^verbatim>\<open>write\<close> and \<^verbatim>\<open>read\<close> carry bytes from process to process.

  The interfaces are the locales \<open>wait_queue\<close>, \<open>page_allocator\<close>, \<open>block_device\<close> and \<open>bounded_queue\<close>, each interpreted on the definitions of its component.

  \<^bold>\<open>Bounds and termination.\<close> There is no fuel. A loop with a measure is a total function. A loop that follows pointers or a wrapping counter is a partial
  function whose divergence is \<open>None\<close> and becomes \<open>Loops\<close>; that it returns is part of the theorems on the wait queue, \<^verbatim>\<open>wakeup\<close>, the cache, \<^verbatim>\<open>printint\<close>, \<^verbatim>\<open>strlen\<close>
  and the directory scans. \<^verbatim>\<open>freewalk\<close>, \<^verbatim>\<open>loadseg\<close> and \<^verbatim>\<open>isdirempty\<close> are such loops without a theorem of their own. \<^verbatim>\<open>kfork\<close>, \<^verbatim>\<open>kexec\<close>,
  \<^verbatim>\<open>sys_open\<close>, the traps and the boot are modelled as a whole, with theorems on the parts named above only.

  \<^bold>\<open>Simplifications.\<close>
  \<^item> \<open>virtio_disk_rw\<close> of \<^verbatim>\<open>Bio\<close> is a successful transfer and takes the block number as it is. The driver forms the sector number in 32 bits, so blocks \<open>n\<close> and \<open>n + 2^31\<close>
    have the same sector; \<^verbatim>\<open>Virtio\<close> computes it in 32 bits, and its system takes requests for blocks below \<open>2^31\<close> only.
  \<^item> \<open>log_env\<close> admits at most \<open>NBUF - 2 = 28\<close> logged blocks, while \<^verbatim>\<open>log_write\<close> admits \<open>LOGBLOCKS = 30\<close>. With 30 blocks pinned the cache, which has 30
    buffers, has none left for the log blocks, and \<^verbatim>\<open>bread\<close> in \<^verbatim>\<open>write_log\<close> panics; the theorems on a commit do not cover 29 and 30 blocks.
  \<^item> The counters \<open>c_noff\<close>, \<open>i_ref\<close> and \<open>f_ref\<close> and the count of \<^verbatim>\<open>strlen\<close> are unbounded integers; the source has \<^verbatim>\<open>int\<close>. The block counter of \<open>balloc_loop\<close> is a natural number,
    which differs from the source's \<^verbatim>\<open>int\<close> on a disk of more than \<open>2^31\<close> blocks only.
  \<^item> \<open>devintr\<close> does nothing for \<^verbatim>\<open>VIRTIO0_IRQ\<close>: in the sequential model a request is complete when \<open>virtio_disk_rw\<close> returns. \<open>uartwrite\<close> takes the
    transmit interrupt as soon as it would wait for it.
  \<^item> Memory is sequentially consistent, so fences have no counterpart.

  \<^bold>\<open>Not modelled.\<close> The interrupt controller (\<^verbatim>\<open>plic.c\<close>, device registers only), machine-mode start and the assembly files, the \<^verbatim>\<open>satp\<close> register and the other CPUs at boot,
  the endless loop of \<^verbatim>\<open>scheduler\<close> around a dispatch, the user programs, \<^verbatim>\<open>mkfs\<close> and the test drivers. The disk is a parameter \<open>dev\<close> under the hypothesis \<open>virtio_device\<close>.
\<close>

section \<open>A pipe between two processes\<close>

text \<open>
  A process whose call has the arguments \<open>fd\<close>, \<open>va\<close> and \<open>n\<close>, with the descriptor open on an end of the pipe \<open>pi\<close>.
\<close>

definition pipe_call :: "nat \<Rightarrow> bool \<Rightarrow> u64 \<Rightarrow> u64 \<Rightarrow> nat \<Rightarrow> kernel \<Rightarrow> bool" where
  "pipe_call me wr pi va n s \<longleftrightarrow>
     (\<exists>fd f. argfd me 0 s = Ok (Some (fd, f)) \<and> f_type (ftable s f) = FD_PIPE \<and> f_pipe (ftable s f) = pi \<and>
        (if wr then f_writable (ftable s f) else f_readable (ftable s f))) \<and>
     argaddr me 1 s = Ok va \<and> argint me 2 s = Ok (int n)"

lemma pipe_call_cong:
  assumes "pipe_call me wr pi va n s" "mem s' = mem s" "ftable s' = ftable s" "\<And>i. p_trapframe (procs s' i) = p_trapframe (procs s i)"
    "\<And>i. p_ofile (procs s' i) = p_ofile (procs s i)"
  shows "pipe_call me wr pi va n s'"
proof -
  have r: "argraw me k s' = argraw me k s" for k using assms(2,4) by (simp add: argraw_def tf_get_def)
  have "argfd me 0 s' = argfd me 0 s" "argaddr me 1 s' = argaddr me 1 s" "argint me 2 s' = argint me 2 s"
    unfolding argfd_def argint_def argaddr_def r assms(5) by (rule refl)+
  then show ?thesis using assms(1) unfolding pipe_call_def assms(3) by (simp only:)
qed

text \<open>
  (C12) The system calls \<^verbatim>\<open>write\<close> and \<^verbatim>\<open>read\<close> carry data between two processes. When a process calls \<^verbatim>\<open>write\<close> on a
  descriptor of the writing end of a pipe that has room for the \<open>N\<close> bytes, and another one then \<^verbatim>\<open>read\<close> with a descriptor of the
  reading end, \<^verbatim>\<open>write\<close> returns \<open>N\<close>, and \<^verbatim>\<open>read\<close> returns the number of bytes it delivers, which are the first \<open>M\<close> of what the pipe held
  before followed by the writer's bytes, found in the reader's memory at the address it gave, while the rest stays in the pipe;
  no descriptor and no reference count changes.
\<close>

theorem write_read_through_pipe:
  assumes "sched_ok s" "pipe_call a True pi src N s" "pipe_call b False pi dst M s"
    and "pipe_ok (pipes s pi)" "pipe_queue (pipes s pi) = (q, True, w)" "killed a s = 0" "length q + N \<le> PIPESIZE" "0 < N"
    and "readable (mem s) (p_pagetable (procs s a)) src N" "writable (mem s) (p_pagetable (procs s b)) dst M" "fd_refs h s"
  shows "\<exists>s1 s2. let q' = q @ user_bytes (mem s) (p_pagetable (procs s a)) src N in
    sys_write a s = Ok (of_nat N, s1) \<and> sys_read b s1 = Ok (of_nat (min M (length q')), s2) \<and>
    user_bytes (mem s2) (p_pagetable (procs s b)) dst (min M (length q')) = take M q' \<and>
    pipe_queue (pipes s2 pi) = (drop M q', True, w) \<and> fd_refs h s2"
proof -
  let ?q = "q @ user_bytes (mem s) (p_pagetable (procs s a)) src N"
  obtain s1 where s1: "pipewrite_loop a pi src (int N) 0 s = Ok (Done (int N), int (min N (PIPESIZE - length q)), s1)"
      "woke (s\<lparr>pipes := (pipes s)(pi := pipes s1 pi)\<rparr>) s1" "pipe_ok (pipes s1 pi)" "pipe_queue (pipes s1 pi) = (?q, True, w)"
    using pipewrite_ok [OF assms(1,4,5,6,9)] assms(7) by auto
  note w1 = woke_simps [OF s1(2)]
  have pg: "p_pagetable (procs s1 j) = p_pagetable (procs s j)" for j using w1(17) [of j] by simp
  have sched: "sched_ok s1" using s1(2) by (simp add: woke_def)
  have wr: "writable (mem s1) (p_pagetable (procs s1 b)) dst M" using assms(10) w1 by simp
  have "?q \<noteq> [] \<or> \<not> w" using assms(8) by (metis append_is_Nil_conv length_user_bytes length_0_conv less_irrefl)
  from piperead_ok [OF sched s1(3,4) this wr] obtain s2 where
    s2: "piperead b pi dst (int M) s1 = Ok (int (min M (length ?q)), s2)"
      "woke (s1\<lparr>pipes := (pipes s1)(pi := pipes s2 pi), mem := mem s2\<rparr>) s2"
      "pipe_queue (pipes s2 pi) = (drop M ?q, True, w)"
      "delivered (p_pagetable (procs s1 b)) dst (take M ?q) (mem s1) (mem s2)" by blast
  note w2 = woke_simps [OF s2(2)]
  have pt: "pt_wf (mem s1) (p_pagetable (procs s1 b))" using wr by (simp add: writable_def readable_def)
  have u: "user_bytes (mem s2) (p_pagetable (procs s b)) dst (min M (length ?q)) = take M ?q"
    using delivered_user_bytes [OF s2(4) pt] by (simp only: pg length_take min.commute)
  have cw: "sys_write a s = Ok (of_nat N, s1)"
    using assms(2) s1(1) by (auto simp: pipe_call_def sys_write_def filewrite_def Let_def pipewrite_def)
  have "pipe_call b False pi dst M s1" by (rule pipe_call_cong [OF assms(3)]) (simp_all add: w1(8,10,20,21))
  then have cr: "sys_read b s1 = Ok (of_nat (min M (length ?q)), s2)"
    using s2(1) by (auto simp: pipe_call_def sys_read_def fileread_def Let_def)
  have "fd_refs h s2" by (rule fd_refs_cong [OF assms(11)]) (simp_all add: w1(8,20) w2(8,20))
  then show ?thesis using cw cr u s2(3) unfolding Let_def by blast
qed

text \<open>Two processes that share an address space and hold the two ends of an empty pipe; both pass descriptor 0, address \<open>0x1FFE\<close> and length 2.\<close>

definition call_mem :: "memory \<Rightarrow> memory" where
  "call_mem m = store64 (store64 (store64 m 0x2070 0) 0x2078 0x1FFE) 0x2080 2"

definition demo_pipe :: "memory \<Rightarrow> u64 \<Rightarrow> kernel" where
  "demo_pipe m pt = boot_kernel\<lparr>mem := call_mem m, pipes := (\<lambda>_. wrap_pipe),
     procs := (\<lambda>i. boot_proc\<lparr>p_pagetable := pt, p_trapframe := 0x2000,
       p_ofile := if i = 1 then Some 3 # replicate 15 None else if i = 2 then Some 4 # replicate 15 None else replicate 16 None\<rparr>),
     ftable := (\<lambda>_. boot_file)(3 := boot_file\<lparr>f_ref := 1, f_type := FD_PIPE, f_writable := True, f_pipe := 0x87000000\<rparr>,
       4 := boot_file\<lparr>f_ref := 1, f_type := FD_PIPE, f_readable := True, f_pipe := 0x87000000\<rparr>)\<rparr>"

lemma call_mem_page:
  assumes "page_ok e p" "p \<noteq> 0x2000" "x \<in> page p" shows "call_mem m x = m x"
proof -
  have "aligned 4096 p" using assms(1) by (simp add: page_ok_def page_aligned)
  then have "page p \<inter> page 0x2000 = {}" using assms(2) by (intro region_aligned_disjoint) (simp_all add: aligned_def)
  then have x: "x \<notin> page 0x2000" using assms(3) by blast
  have sub: "region (0x2000 + of_nat k) 8 \<subseteq> page 0x2000" if "k + 8 \<le> 4096" for k
  proof
    fix y assume "y \<in> region (0x2000 + of_nat k) 8"
    then obtain i where "i < 8" "y = 0x2000 + of_nat (k + i)" by (auto simp: region_def add.assoc)
    then show "y \<in> page 0x2000" using that unfolding region_def by (intro image_eqI [of _ _ "k + i"]) simp_all
  qed
  have "x \<notin> region 0x2070 8" "x \<notin> region 0x2078 8" "x \<notin> region 0x2080 8"
    using x sub [of 112] sub [of 120] sub [of 128] by auto
  then show ?thesis by (simp only: call_mem_def store_le_other not_False_eq_True)
qed

lemma demo_pipe_calls: "pipe_call 1 True 0x87000000 0x1FFE 2 (demo_pipe m pt)" "pipe_call 2 False 0x87000000 0x1FFE 2 (demo_pipe m pt)"
proof -
  have l: "load64 (call_mem m) 0x2070 = 0" "load64 (call_mem m) 0x2078 = 0x1FFE" "load64 (call_mem m) 0x2080 = 2"
    unfolding call_mem_def by (simp_all add: load64_store64_aligned aligned_def)
  have p: "p_trapframe (procs (demo_pipe m pt) i) = 0x2000" "mem (demo_pipe m pt) = call_mem m"
      "p_ofile (procs (demo_pipe m pt) 1) = Some 3 # replicate 15 None" "p_ofile (procs (demo_pipe m pt) 2) = Some 4 # replicate 15 None" for i
    by (simp_all add: demo_pipe_def)
  have f: "ftable (demo_pipe m pt) 3 = boot_file\<lparr>f_ref := 1, f_type := FD_PIPE, f_writable := True, f_pipe := 0x87000000\<rparr>"
      "ftable (demo_pipe m pt) 4 = boot_file\<lparr>f_ref := 1, f_type := FD_PIPE, f_readable := True, f_pipe := 0x87000000\<rparr>"
    by (simp_all add: demo_pipe_def)
  have a: "tf_get i TF_a0 (demo_pipe m pt) = 0" "tf_get i (TF_a0 + 8) (demo_pipe m pt) = 0x1FFE" "tf_get i (TF_a0 + 16) (demo_pipe m pt) = 2" for i
    using l by (simp_all only: tf_get_def p TF_a0_def) simp_all
  have "argfd 1 0 (demo_pipe m pt) = Ok (Some (0, 3))" "argfd 2 0 (demo_pipe m pt) = Ok (Some (0, 4))"
      "argaddr i 1 (demo_pipe m pt) = Ok 0x1FFE" "argint i 2 (demo_pipe m pt) = Ok 2" for i
    using p(3,4) by (simp_all add: argfd_def argint_def argaddr_def argraw_def a NOFILE_def)
  then show "pipe_call 1 True 0x87000000 0x1FFE 2 (demo_pipe m pt)" "pipe_call 2 False 0x87000000 0x1FFE 2 (demo_pipe m pt)"
    by (simp_all add: pipe_call_def f)
qed

theorem write_read_through_pipe_witness:
  "\<exists>m pt s1 s2. sys_write 1 (demo_pipe m pt) = Ok (2, s1) \<and> sys_read 2 s1 = Ok (2, s2) \<and>
     user_bytes (mem s2) pt 0x1FFE 2 = user_bytes (call_mem m) pt 0x1FFE 2"
proof -
  obtain s0 :: kstate and pt where w0: "writable (mem s0) pt 0x1FFE 2" and t: "\<forall>p\<in>tables (mem s0) pt. page_ok 0x87F00000 p"
    using boot_mapped by blast
  have "call_mem (mem s0) x = mem s0 x" if "p \<in> tables (mem s0) pt" "x \<in> page p" for p x
    using that t by (intro call_mem_page [of "0x87F00000" p]) (auto simp: page_ok_def)
  then have w: "writable (call_mem (mem s0)) pt 0x1FFE 2" by (intro writable_cong [OF w0]) blast
  define s where "s = demo_pipe (mem s0) pt"
  have p: "p_pagetable (procs s i) = pt" "mem s = call_mem (mem s0)" "pipes s x = wrap_pipe" "killed 1 s = 0" for i x
    by (simp_all add: s_def demo_pipe_def killed_def boot_proc_def)
  have "sched_inv s (\<lambda>_. [])" by (simp add: s_def sched_inv_def wq_queues_def wq_queue_def demo_pipe_def boot_kernel_def boot_proc_def)
  then have "sched_ok s" unfolding sched_ok_def by blast
  moreover have "fd_refs (\<lambda>f. f_ref (ftable s f) - int (refs (procs s) f)) s"
    by (simp add: fd_refs_def s_def demo_pipe_def NOFILE_def NFILE_def)
  moreover have "readable (mem s) (p_pagetable (procs s 1)) 0x1FFE 2" "writable (mem s) (p_pagetable (procs s 2)) 0x1FFE 2"
    using w by (simp_all add: p writable_def)
  ultimately obtain s1 s2 where "sys_write 1 s = Ok (of_nat 2, s1)" "sys_read 2 s1 = Ok (of_nat 2, s2)"
      "user_bytes (mem s2) pt 0x1FFE 2 = take 2 (user_bytes (call_mem (mem s0)) pt 0x1FFE 2)"
    using write_read_through_pipe [of s 1 "0x87000000" "0x1FFE" 2 2 "0x1FFE" 2 "[]" True "\<lambda>f. f_ref (ftable s f) - int (refs (procs s) f)"] wrap_pipe demo_pipe_calls [of "mem s0" pt, folded s_def]
    unfolding p by (auto simp: Let_def PIPESIZE_def)
  then show ?thesis unfolding s_def by auto
qed

end
